(* ===== verification/Prelude.thy ===== *)
theory Prelude
  imports Main "HOL-Library.Word"
begin

text \<open>
  Shared vocabulary of the development: the machine integer types of the C++ sources, the
  collections of simplification facts the component proofs draw on, and generic lemmas on lists
  and words.  Nothing here models code of the repository.
\<close>

unbundle bit_operations_syntax

section \<open>Machine integers\<close>

type_synonym u8 = "8 word"
type_synonym u16 = "16 word"
type_synonym u32 = "32 word"
type_synonym u64 = "64 word"
type_synonym uint160 = "160 word"
type_synonym uint256 = "256 word"
type_synonym bytes = "8 word list"

text \<open>
  \<open>word_simps\<close> collects the facts that move word operations to natural numbers;
  \<open>limb_simps\<close> collects the value equations of the limb operations.
\<close>

named_theorems word_simps
named_theorems limb_simps

lemma unat_lt2p32: "unat (x :: u32) < 2 ^ 32"
  using unsigned_less [of x] by simp

lemma unat_lt2p64: "unat (x :: u64) < 2 ^ 64"
  using unsigned_less [of x] by simp

lemma unat_ucast_up32 [word_simps]: "unat (ucast (x :: u32) :: u64) = unat x"
proof -
  have "unat x < 2 ^ 64"
    using unat_lt2p32 [of x] by simp
  then show ?thesis
    by (simp add: unsigned_ucast_eq take_bit_nat_eq_self)
qed

lemma unat_ucast_down32 [word_simps]: "unat (ucast (x :: u64) :: u32) = unat x mod 2 ^ 32"
  by (simp add: unsigned_ucast_eq take_bit_eq_mod)

lemma unat_drop_bit32 [word_simps]: "unat (drop_bit 32 (x :: u64)) = unat x div 2 ^ 32"
  unfolding unat_drop_bit_eq by (simp add: drop_bit_eq_div)

lemma unat_add_u64 [word_simps]:
  "unat (x :: u64) + unat y < 2 ^ 64 \<Longrightarrow> unat (x + y) = unat x + unat y"
  by (simp add: unat_word_ariths)

lemma unat_mult_u64 [word_simps]:
  "unat (x :: u64) * unat y < 2 ^ 64 \<Longrightarrow> unat (x * y) = unat x * unat y"
  by (simp add: unat_word_ariths)

lemma unat_not_u32: "unat (NOT (x :: u32)) = 2 ^ 32 - 1 - unat x"
proof -
  have "NOT x = - 1 - x"
    by (simp add: not_eq_complement)
  moreover have "unat (- 1 - x) = unat (- 1 :: u32) - unat x"
    by (rule unat_sub) simp
  moreover have "unat (- 1 :: u32) = 2 ^ 32 - 1"
    by (simp add: unsigned_minus_1_eq_mask mask_eq_exp_minus_1)
  ultimately show ?thesis
    by (simp only:)
qed

section \<open>Lists\<close>

lemma mod_add_mult_split:
  fixes x y m n :: nat
  assumes "0 < m"
  shows "(x mod m) + m * ((x div m + y) mod n) = (x + m * y) mod (m * n)"
proof -
  have "(x + m * y) mod (m * n) = m * ((x + m * y) div m mod n) + (x + m * y) mod m"
    by (rule mod_mult2_eq)
  also have "(x + m * y) div m = x div m + y"
    using assms by simp
  finally show ?thesis by simp
qed

end
