(* ===== verification/ArithUint.thy ===== *)
theory ArithUint
  imports Prelude
begin

text \<open>
  The template class \<open>base_uint<BITS>\<close> of \<open>src/src/arith_uint256.h\<close> and
  \<open>src/src/arith_uint256.cpp\<close>.  A value is the array \<open>pn\<close> of \<open>WIDTH = BITS / 32\<close>
  32-bit limbs, least significant first; the width is the length of the list, so every operation
  is modelled for all the instantiated widths at once.  \<open>lval\<close> reads the array as a number.
  The lemmas show that the limb loops compute addition, negation, multiplication, shifts,
  comparison, bit length and long division of the numbers modulo \<open>2 ^ BITS\<close>.
\<close>

section \<open>The limb array\<close>

type_synonym limbs = "u32 list"

primrec lval :: "limbs \<Rightarrow> nat" where
  "lval [] = 0"
| "lval (x # xs) = unat x + 2 ^ 32 * lval xs"

definition limbs_zero :: "nat \<Rightarrow> limbs" where
  "limbs_zero w = replicate w 0"

definition limbs_of_u64 :: "nat \<Rightarrow> u64 \<Rightarrow> limbs" where
  "limbs_of_u64 w b = ucast b # ucast (drop_bit 32 b) # replicate (w - 2) 0"

definition limbs_not :: "limbs \<Rightarrow> limbs" where
  "limbs_not a = map (\<lambda>x. NOT x) a"

definition limbs_xor :: "limbs \<Rightarrow> limbs \<Rightarrow> limbs" where
  "limbs_xor a b = map2 (\<lambda>x y. x XOR y) a b"

definition limbs_and :: "limbs \<Rightarrow> limbs \<Rightarrow> limbs" where
  "limbs_and a b = map2 (\<lambda>x y. x AND y) a b"

definition limbs_or :: "limbs \<Rightarrow> limbs \<Rightarrow> limbs" where
  "limbs_or a b = map2 (\<lambda>x y. x OR y) a b"

text \<open>\<open>operator+=\<close>: the carry is a 64-bit word.\<close>

fun limbs_add_loop :: "u64 \<Rightarrow> limbs \<Rightarrow> limbs \<Rightarrow> limbs" where
  "limbs_add_loop carry (x # xs) (y # ys) =
     (let n = carry + ucast x + ucast y
      in ucast (n AND 0xffffffff) # limbs_add_loop (drop_bit 32 n) xs ys)"
| "limbs_add_loop carry _ _ = []"

definition limbs_add :: "limbs \<Rightarrow> limbs \<Rightarrow> limbs" where
  "limbs_add a b = limbs_add_loop 0 a b"

text \<open>Prefix \<open>operator++\<close>: \<open>while (++pn[i] == 0 && i < WIDTH-1) i++\<close>.\<close>

fun limbs_inc :: "limbs \<Rightarrow> limbs" where
  "limbs_inc [] = []"
| "limbs_inc (x # xs) =
     (if x + 1 = 0 \<and> xs \<noteq> [] then (x + 1) # limbs_inc xs else (x + 1) # xs)"

text \<open>Prefix \<open>operator--\<close>: \<open>while (--pn[i] == (uint32_t)-1 && i < WIDTH-1) i++\<close>.\<close>

fun limbs_dec :: "limbs \<Rightarrow> limbs" where
  "limbs_dec [] = []"
| "limbs_dec (x # xs) =
     (if x - 1 = - 1 \<and> xs \<noteq> [] then (x - 1) # limbs_dec xs else (x - 1) # xs)"

definition limbs_neg :: "limbs \<Rightarrow> limbs" where
  "limbs_neg a = limbs_inc (limbs_not a)"

definition limbs_sub :: "limbs \<Rightarrow> limbs \<Rightarrow> limbs" where
  "limbs_sub a b = limbs_add a (limbs_neg b)"

text \<open>\<open>operator*=(uint32_t)\<close>.\<close>

fun limbs_mul32_loop :: "u64 \<Rightarrow> u32 \<Rightarrow> limbs \<Rightarrow> limbs" where
  "limbs_mul32_loop carry b32 [] = []"
| "limbs_mul32_loop carry b32 (x # xs) =
     (let n = carry + ucast b32 * ucast x
      in ucast (n AND 0xffffffff) # limbs_mul32_loop (drop_bit 32 n) b32 xs)"

definition limbs_mul32 :: "limbs \<Rightarrow> u32 \<Rightarrow> limbs" where
  "limbs_mul32 a b32 = limbs_mul32_loop 0 b32 a"

text \<open>
  \<open>operator*=(const base_uint&)\<close>: the inner loop runs over the limbs \<open>pn[j], pn[j+1], \<dots>\<close>
  of the accumulator, which is the suffix \<open>drop j pn\<close>; the outer loop runs over \<open>j\<close>.
\<close>

fun limbs_mul_inner :: "u32 \<Rightarrow> u64 \<Rightarrow> limbs \<Rightarrow> limbs \<Rightarrow> limbs" where
  "limbs_mul_inner aj carry (p # ps) (y # ys) =
     (let n = carry + ucast p + ucast aj * ucast y
      in ucast (n AND 0xffffffff) # limbs_mul_inner aj (drop_bit 32 n) ps ys)"
| "limbs_mul_inner aj carry ps [] = ps"
| "limbs_mul_inner aj carry [] ys = []"

definition limbs_mul_row :: "limbs \<Rightarrow> limbs \<Rightarrow> nat \<Rightarrow> limbs \<Rightarrow> limbs" where
  "limbs_mul_row a b j pn = take j pn @ limbs_mul_inner (a ! j) 0 (drop j pn) b"

definition limbs_mul :: "limbs \<Rightarrow> limbs \<Rightarrow> limbs" where
  "limbs_mul a b = fold (limbs_mul_row a b) [0..<length a] (limbs_zero (length a))"

text \<open>\<open>operator<<=\<close> and \<open>operator>>=\<close>, with \<open>k = shift / 32\<close> and \<open>s = shift % 32\<close>.\<close>

definition limbs_shl_step :: "limbs \<Rightarrow> nat \<Rightarrow> nat \<Rightarrow> nat \<Rightarrow> limbs \<Rightarrow> limbs" where
  "limbs_shl_step a k s i pn =
     (let pn1 = (if i + k + 1 < length a \<and> s \<noteq> 0
                 then pn[i + k + 1 := (pn ! (i + k + 1)) OR drop_bit (32 - s) (a ! i)] else pn)
      in if i + k < length a then pn1[i + k := (pn1 ! (i + k)) OR push_bit s (a ! i)] else pn1)"

definition limbs_shl :: "limbs \<Rightarrow> nat \<Rightarrow> limbs" where
  "limbs_shl a shift =
     fold (limbs_shl_step a (shift div 32) (shift mod 32)) [0..<length a] (limbs_zero (length a))"

definition limbs_shr_step :: "limbs \<Rightarrow> nat \<Rightarrow> nat \<Rightarrow> nat \<Rightarrow> limbs \<Rightarrow> limbs" where
  "limbs_shr_step a k s i pn =
     (let pn1 = (if k + 1 \<le> i \<and> s \<noteq> 0
                 then pn[i - k - 1 := (pn ! (i - k - 1)) OR push_bit (32 - s) (a ! i)] else pn)
      in if k \<le> i then pn1[i - k := (pn1 ! (i - k)) OR drop_bit s (a ! i)] else pn1)"

definition limbs_shr :: "limbs \<Rightarrow> nat \<Rightarrow> limbs" where
  "limbs_shr a shift =
     fold (limbs_shr_step a (shift div 32) (shift mod 32)) [0..<length a] (limbs_zero (length a))"

text \<open>\<open>CompareTo\<close> runs from the most significant limb: here over the reversed arrays.\<close>

fun limbs_cmp_loop :: "limbs \<Rightarrow> limbs \<Rightarrow> int" where
  "limbs_cmp_loop (x # xs) (y # ys) =
     (if x < y then - 1 else if y < x then 1 else limbs_cmp_loop xs ys)"
| "limbs_cmp_loop _ _ = 0"

definition limbs_compare :: "limbs \<Rightarrow> limbs \<Rightarrow> int" where
  "limbs_compare a b = limbs_cmp_loop (rev a) (rev b)"

definition limbs_equal_u64 :: "limbs \<Rightarrow> u64 \<Rightarrow> bool" where
  "limbs_equal_u64 a b \<longleftrightarrow>
     (\<forall>x \<in> set (drop 2 a). x = 0) \<and> ucast (a ! 1) = drop_bit 32 b
       \<and> ucast (a ! 0) = b AND 0xffffffff"

definition limbs_is_null :: "limbs \<Rightarrow> bool" where
  "limbs_is_null a \<longleftrightarrow> (\<forall>x \<in> set a. x = 0)"

text \<open>\<open>bits()\<close>: the outer loop looks for the highest non-zero limb, the inner for its top bit.\<close>

fun limb_top_bit :: "u32 \<Rightarrow> nat \<Rightarrow> nat" where
  "limb_top_bit x 0 = 0"
| "limb_top_bit x (Suc b) = (if bit x (Suc b) then Suc b else limb_top_bit x b)"

fun limbs_bits_loop :: "limbs \<Rightarrow> nat \<Rightarrow> nat" where
  "limbs_bits_loop a 0 = 0"
| "limbs_bits_loop a (Suc pos) =
     (if a ! pos \<noteq> 0 then 32 * pos + limb_top_bit (a ! pos) 31 + 1 else limbs_bits_loop a pos)"

definition limbs_bits :: "limbs \<Rightarrow> nat" where
  "limbs_bits a = limbs_bits_loop a (length a)"

text \<open>\<open>operator/=\<close>: shift and subtract; \<open>uint_error\<close> is the exception the class throws.\<close>

datatype uint_error = DivisionByZero | WrongSize

fun limbs_div_loop :: "nat \<Rightarrow> limbs \<Rightarrow> limbs \<Rightarrow> limbs \<Rightarrow> limbs \<times> limbs" where
  "limbs_div_loop 0 num dv q = (q, num)"
| "limbs_div_loop (Suc shift) num dv q =
     (if limbs_compare num dv \<ge> 0
      then limbs_div_loop shift (limbs_sub num dv) (limbs_shr dv 1)
             (q[shift div 32 := (q ! (shift div 32)) OR push_bit (shift mod 32) 1])
      else limbs_div_loop shift num (limbs_shr dv 1) q)"

definition limbs_div :: "limbs \<Rightarrow> limbs \<Rightarrow> uint_error + limbs" where
  "limbs_div a b =
     (let num_bits = limbs_bits a; div_bits = limbs_bits b
      in if div_bits = 0 then Inl DivisionByZero
         else if div_bits > num_bits then Inr (limbs_zero (length a))
         else let shift = num_bits - div_bits
              in Inr (fst (limbs_div_loop (Suc shift) a (limbs_shl b shift) (limbs_zero (length a)))))"

definition limbs_low64 :: "limbs \<Rightarrow> u64" where
  "limbs_low64 a = ucast (a ! 0) OR push_bit 32 (ucast (a ! 1))"

section \<open>The value of an array\<close>

lemma lval_less: "lval a < 2 ^ (32 * length a)"
proof (induction a)
  case Nil
  then show ?case by simp
next
  case (Cons x xs)
  have "unat x + 2 ^ 32 * lval xs < 2 ^ 32 * (lval xs + 1)"
    using unat_lt2p32 [of x] by simp
  also have "\<dots> \<le> 2 ^ 32 * 2 ^ (32 * length xs)"
    using Cons.IH by (intro mult_le_mono) simp_all
  finally show ?case
    by (simp add: power_add)
qed

lemma lval_append [limb_simps]: "lval (xs @ ys) = lval xs + 2 ^ (32 * length xs) * lval ys"
  by (induction xs) (simp_all add: power_add algebra_simps)

lemma lval_replicate_zero [simp]: "lval (replicate n 0) = 0"
  by (induction n) simp_all

lemma lval_zero [simp]: "lval (limbs_zero w) = 0"
  by (simp add: limbs_zero_def)

lemma length_limbs_zero [simp]: "length (limbs_zero w) = w"
  by (simp add: limbs_zero_def)

lemma lval_inject:
  "length a = length b \<Longrightarrow> lval a = lval b \<longleftrightarrow> a = b"
proof (induction a b rule: list_induct2)
  case Nil
  then show ?case by simp
next
  case (Cons x xs y ys)
  have "unat x = unat y \<and> lval xs = lval ys"
    if eq: "unat x + 2 ^ 32 * lval xs = unat y + 2 ^ 32 * lval ys"
  proof -
    have "(unat x + 2 ^ 32 * lval xs) mod 2 ^ 32 = unat x"
      and "(unat y + 2 ^ 32 * lval ys) mod 2 ^ 32 = unat y"
      using unat_lt2p32 [of x] unat_lt2p32 [of y] by simp_all
    with eq show ?thesis by simp
  qed
  with Cons.IH show ?case by (auto simp: word_unat_eq_iff)
qed

lemma lval_eq_0_iff: "lval a = 0 \<longleftrightarrow> limbs_is_null a"
  by (induction a) (auto simp: limbs_is_null_def unat_eq_0)

lemma bit_lval: "bit (lval a) n \<longleftrightarrow> n div 32 < length a \<and> bit (a ! (n div 32)) (n mod 32)"
proof (induction a arbitrary: n)
  case Nil
  then show ?case by simp
next
  case (Cons x xs)
  have split: "lval (x # xs) = push_bit 32 (lval xs) OR unat x"
  proof -
    have "push_bit 32 (lval xs) OR unat x = push_bit 32 (lval xs) + unat x"
      by (rule disjunctive_add_eq_or [symmetric])
        (auto simp: bit_eq_iff bit_push_bit_iff bit_and_iff bit_unsigned_iff dest: bit_imp_le_length)
    then show ?thesis by (simp add: push_bit_eq_mult)
  qed
  show ?case
  proof (cases "n < 32")
    case True
    then show ?thesis
      unfolding split by (auto simp: bit_simps)
  next
    case False
    then obtain m where n: "n = 32 + m"
      by (metis add_diff_inverse_nat)
    have "\<not> bit x (32 + m)"
      using bit_imp_le_length [of x "32 + m"] by auto
    then have "bit (lval (x # xs)) n \<longleftrightarrow> bit (lval xs) m"
      unfolding split n by (auto simp: bit_simps)
    also have "\<dots> \<longleftrightarrow> m div 32 < length xs \<and> bit (xs ! (m div 32)) (m mod 32)"
      by (rule Cons.IH)
    also have "n div 32 = Suc (m div 32)" and "n mod 32 = m mod 32"
      by (simp_all add: n)
    ultimately show ?thesis by simp
  qed
qed

lemma bit_lval_limb: "p < 32 \<Longrightarrow> bit (lval a) (p + 32 * q) \<longleftrightarrow> q < length a \<and> bit (a ! q) p"
  by (simp add: bit_lval)

section \<open>Addition, negation, subtraction\<close>

lemma u64_low_limb: "unat (ucast (n AND 0xffffffff :: u64) :: u32) = unat n mod 2 ^ 32"
proof -
  have "n AND 0xffffffff = take_bit 32 n"
    by (simp add: take_bit_eq_mask mask_eq_exp_minus_1)
  then have "ucast (n AND 0xffffffff) = (ucast n :: u32)"
    by (simp add: bit_eq_iff bit_simps)
  then show ?thesis
    by (simp add: word_simps)
qed

lemma length_limbs_add_loop [simp]:
  "length (limbs_add_loop c a b) = min (length a) (length b)"
  by (induction c a b rule: limbs_add_loop.induct) (simp_all add: Let_def)

lemma lval_add_loop:
  assumes "length a = length b" and "unat c \<le> 1"
  shows "lval (limbs_add_loop c a b) = (unat c + lval a + lval b) mod 2 ^ (32 * length a)"
  using assms
proof (induction a b arbitrary: c rule: list_induct2)
  case Nil
  then show ?case by simp
next
  case (Cons x xs y ys)
  let ?n = "c + ucast x + ucast y :: u64"
  have n: "unat ?n = unat c + unat x + unat y"
    using Cons.prems unat_lt2p32 [of x] unat_lt2p32 [of y]
    by (simp add: word_simps)
  have carry: "unat (drop_bit 32 ?n) = unat ?n div 2 ^ 32"
    by (simp add: word_simps)
  have "unat (drop_bit 32 ?n) \<le> 1"
    using Cons.prems unat_lt2p32 [of x] unat_lt2p32 [of y] unfolding carry n by simp
  then have IH: "lval (limbs_add_loop (drop_bit 32 ?n) xs ys) =
      (unat ?n div 2 ^ 32 + (lval xs + lval ys)) mod 2 ^ (32 * length xs)"
    using Cons.IH [of "drop_bit 32 ?n"] carry by (simp add: add.assoc)
  have "lval (limbs_add_loop c (x # xs) (y # ys)) =
      unat ?n mod 2 ^ 32 + 2 ^ 32 * ((unat ?n div 2 ^ 32 + (lval xs + lval ys)) mod 2 ^ (32 * length xs))"
    by (simp only: limbs_add_loop.simps Let_def lval.simps u64_low_limb IH)
  also have "\<dots> = (unat ?n + 2 ^ 32 * (lval xs + lval ys)) mod (2 ^ 32 * 2 ^ (32 * length xs))"
    by (rule mod_add_mult_split) simp
  finally have "lval (limbs_add_loop c (x # xs) (y # ys)) =
      (unat c + unat x + unat y + 2 ^ 32 * (lval xs + lval ys)) mod (2 ^ 32 * 2 ^ (32 * length xs))"
    by (simp only: n)
  then show ?case
    by (simp add: power_add algebra_simps del: limbs_add_loop.simps)
qed

lemma length_limbs_add [simp]: "length (limbs_add a b) = min (length a) (length b)"
  by (simp add: limbs_add_def)

lemma lval_add [limb_simps]:
  "length a = length b \<Longrightarrow> lval (limbs_add a b) = (lval a + lval b) mod 2 ^ (32 * length a)"
  by (simp add: limbs_add_def lval_add_loop)

lemma length_limbs_not [simp]: "length (limbs_not a) = length a"
  by (simp add: limbs_not_def)

lemma lval_not [limb_simps]: "lval (limbs_not a) = 2 ^ (32 * length a) - 1 - lval a"
proof (induction a)
  case Nil
  then show ?case by (simp add: limbs_not_def)
next
  case (Cons x xs)
  have "lval (limbs_not (x # xs)) = (2 ^ 32 - 1 - unat x) + 2 ^ 32 * (2 ^ (32 * length xs) - 1 - lval xs)"
    using Cons.IH by (simp add: limbs_not_def unat_not_u32)
  also have "\<dots> = 2 ^ 32 * 2 ^ (32 * length xs) - 1 - (unat x + 2 ^ 32 * lval xs)"
    using unat_lt2p32 [of x] lval_less [of xs] by (simp add: algebra_simps)
  finally show ?case
    by (simp add: power_add)
qed

lemma length_limbs_inc [simp]: "length (limbs_inc a) = length a"
  by (induction a rule: limbs_inc.induct) simp_all

lemma lval_inc [limb_simps]: "lval (limbs_inc a) = (lval a + 1) mod 2 ^ (32 * length a)"
proof (induction a)
  case Nil
  then show ?case by simp
next
  case (Cons x xs)
  show ?case
  proof (cases "x + 1 = 0")
    case True
    then have x: "unat x = 2 ^ 32 - 1"
      by (metis add_diff_cancel_right' diff_0 unsigned_minus_1_eq_mask mask_eq_exp_minus_1
          word_size_gt_0 len_num1 unat_not_u32 bit.compl_zero unsigned_0 diff_zero)
    have "lval (limbs_inc (x # xs)) = 2 ^ 32 * ((lval xs + 1) mod 2 ^ (32 * length xs))"
      using True Cons.IH by simp
    also have "\<dots> = (2 ^ 32 * (lval xs + 1)) mod (2 ^ 32 * 2 ^ (32 * length xs))"
      by (simp add: mult_mod_right)
    finally show ?thesis
      by (simp add: x power_add algebra_simps)
  next
    case False
    then have "unat (x + 1) = unat x + 1"
      by (simp add: unatSuc add.commute)
    moreover have "unat x + 1 + 2 ^ 32 * lval xs < 2 ^ (32 * length (x # xs))"
      using lval_less [of "(x + 1) # xs"] calculation by simp
    ultimately show ?thesis
      using False by simp
  qed
qed

lemma length_limbs_neg [simp]: "length (limbs_neg a) = length a"
  by (simp add: limbs_neg_def)

lemma lval_neg [limb_simps]: "lval (limbs_neg a) = (2 ^ (32 * length a) - lval a) mod 2 ^ (32 * length a)"
  using lval_less [of a] by (simp add: limbs_neg_def limb_simps Suc_diff_Suc)

lemma length_limbs_sub [simp]: "length (limbs_sub a b) = min (length a) (length b)"
  by (simp add: limbs_sub_def)

lemma lval_sub [limb_simps]:
  assumes "length a = length b"
  shows "lval (limbs_sub a b) = (lval a + (2 ^ (32 * length a) - lval b)) mod 2 ^ (32 * length a)"
  using assms by (simp add: limbs_sub_def limb_simps mod_add_right_eq)

lemma lval_sub_le:
  assumes "length a = length b" and "lval b \<le> lval a"
  shows "lval (limbs_sub a b) = lval a - lval b"
proof -
  have "lval a + (2 ^ (32 * length a) - lval b) = (lval a - lval b) + 2 ^ (32 * length a)"
    using assms lval_less [of b] by simp
  then have "lval (limbs_sub a b) = ((lval a - lval b) + 2 ^ (32 * length a)) mod 2 ^ (32 * length a)"
    using assms(1) by (simp only: lval_sub)
  then show ?thesis
    using lval_less [of a] by simp
qed

lemma length_limbs_dec [simp]: "length (limbs_dec a) = length a"
  by (induction a rule: limbs_dec.induct) simp_all

lemma limbs_inc_dec: "limbs_inc (limbs_dec a) = a"
proof (induction a)
  case Nil
  then show ?case by simp
next
  case (Cons x xs)
  show ?case
  proof (cases "x = 0 \<and> xs \<noteq> []")
    case True
    then have "limbs_dec xs \<noteq> []"
      by (metis length_0_conv length_limbs_dec)
    with True Cons.IH show ?thesis by simp
  next
    case False
    then show ?thesis by (cases xs) auto
  qed
qed

section \<open>Multiplication\<close>

lemma u32_mult_bound: "unat (x :: u32) * unat (y :: u32) \<le> (2 ^ 32 - 1) * (2 ^ 32 - 1)"
  using unat_lt2p32 [of x] unat_lt2p32 [of y] by (intro mult_le_mono) simp_all

lemma length_limbs_mul32_loop [simp]: "length (limbs_mul32_loop c m a) = length a"
  by (induction c m a rule: limbs_mul32_loop.induct) (simp_all add: Let_def)

lemma lval_mul32_loop:
  "unat c < 2 ^ 32 \<Longrightarrow>
   lval (limbs_mul32_loop c m a) = (unat c + unat m * lval a) mod 2 ^ (32 * length a)"
proof (induction a arbitrary: c)
  case Nil
  then show ?case by simp
next
  case (Cons x xs)
  let ?n = "c + ucast m * ucast x :: u64"
  have bound: "unat c + unat m * unat x \<le> (2 ^ 32 - 1) + (2 ^ 32 - 1) * (2 ^ 32 - 1)"
    using Cons.prems u32_mult_bound [of m x] by simp
  have mx: "unat (ucast m * ucast x :: u64) = unat m * unat x"
    using u32_mult_bound [of m x] by (subst unat_mult_u64) (simp_all add: word_simps)
  have n: "unat ?n = unat c + unat m * unat x"
    using bound by (subst unat_add_u64) (simp_all add: mx)
  have carry: "unat (drop_bit 32 ?n) = unat ?n div 2 ^ 32"
    by (simp add: word_simps)
  have "unat (drop_bit 32 ?n) < 2 ^ 32"
    using bound unfolding carry n by simp
  then have IH: "lval (limbs_mul32_loop (drop_bit 32 ?n) m xs) =
      (unat ?n div 2 ^ 32 + unat m * lval xs) mod 2 ^ (32 * length xs)"
    using Cons.IH [of "drop_bit 32 ?n"] carry by simp
  have "lval (limbs_mul32_loop c m (x # xs)) =
      unat ?n mod 2 ^ 32 + 2 ^ 32 * ((unat ?n div 2 ^ 32 + unat m * lval xs) mod 2 ^ (32 * length xs))"
    by (simp only: limbs_mul32_loop.simps Let_def lval.simps u64_low_limb IH)
  also have "\<dots> = (unat ?n + 2 ^ 32 * (unat m * lval xs)) mod (2 ^ 32 * 2 ^ (32 * length xs))"
    by (rule mod_add_mult_split) simp
  finally have "lval (limbs_mul32_loop c m (x # xs)) =
      (unat c + unat m * unat x + 2 ^ 32 * (unat m * lval xs)) mod (2 ^ 32 * 2 ^ (32 * length xs))"
    by (simp only: n)
  then show ?case
    by (simp add: power_add algebra_simps del: limbs_mul32_loop.simps)
qed

lemma length_limbs_mul32 [simp]: "length (limbs_mul32 a m) = length a"
  by (simp add: limbs_mul32_def)

lemma lval_mul32 [limb_simps]:
  "lval (limbs_mul32 a m) = (lval a * unat m) mod 2 ^ (32 * length a)"
  by (simp add: limbs_mul32_def lval_mul32_loop mult.commute)

lemma length_limbs_mul_inner [simp]: "length (limbs_mul_inner aj c ps ys) = length ps"
  by (induction aj c ps ys rule: limbs_mul_inner.induct) (simp_all add: Let_def)

lemma lval_mul_inner:
  assumes "unat c < 2 ^ 32" and "length ps \<le> length ys"
  shows "lval (limbs_mul_inner aj c ps ys) =
    (unat c + lval ps + unat aj * lval ys) mod 2 ^ (32 * length ps)"
  using assms
proof (induction ps arbitrary: c ys)
  case Nil
  then show ?case by (cases ys) simp_all
next
  case (Cons p ps)
  then obtain y ys' where ys: "ys = y # ys'" and le: "length ps \<le> length ys'"
    by (cases ys) auto
  let ?n = "c + ucast p + ucast aj * ucast y :: u64"
  have bound: "unat c + unat p + unat aj * unat y \<le> 2 * (2 ^ 32 - 1) + (2 ^ 32 - 1) * (2 ^ 32 - 1)"
    using Cons.prems(1) unat_lt2p32 [of p] u32_mult_bound [of aj y] by simp
  have cp: "unat (c + ucast p) = unat c + unat p"
    using Cons.prems(1) unat_lt2p32 [of p] by (simp add: word_simps)
  have ay: "unat (ucast aj * ucast y :: u64) = unat aj * unat y"
    using u32_mult_bound [of aj y] by (subst unat_mult_u64) (simp_all add: word_simps)
  have n: "unat ?n = unat c + unat p + unat aj * unat y"
    using bound by (subst unat_add_u64) (simp_all add: cp ay)
  have carry: "unat (drop_bit 32 ?n) = unat ?n div 2 ^ 32"
    by (simp add: word_simps)
  have "unat (drop_bit 32 ?n) < 2 ^ 32"
    using bound unfolding carry n by simp
  then have IH: "lval (limbs_mul_inner aj (drop_bit 32 ?n) ps ys') =
      (unat ?n div 2 ^ 32 + (lval ps + unat aj * lval ys')) mod 2 ^ (32 * length ps)"
    using Cons.IH [OF _ le, of "drop_bit 32 ?n"] carry by (simp add: add.assoc)
  have "lval (limbs_mul_inner aj c (p # ps) ys) =
      unat ?n mod 2 ^ 32 +
      2 ^ 32 * ((unat ?n div 2 ^ 32 + (lval ps + unat aj * lval ys')) mod 2 ^ (32 * length ps))"
    by (simp only: ys limbs_mul_inner.simps Let_def lval.simps u64_low_limb IH)
  also have "\<dots> = (unat ?n + 2 ^ 32 * (lval ps + unat aj * lval ys')) mod (2 ^ 32 * 2 ^ (32 * length ps))"
    by (rule mod_add_mult_split) simp
  finally have "lval (limbs_mul_inner aj c (p # ps) ys) =
      (unat c + unat p + unat aj * unat y + 2 ^ 32 * (lval ps + unat aj * lval ys'))
        mod (2 ^ 32 * 2 ^ (32 * length ps))"
    by (simp only: n)
  then show ?case
    by (simp add: ys power_add algebra_simps del: limbs_mul_inner.simps)
qed

lemma length_limbs_mul_row [simp]: "j \<le> length pn \<Longrightarrow> length (limbs_mul_row a b j pn) = length pn"
  by (simp add: limbs_mul_row_def)

lemma mod_mult_part:
  fixes x y m n :: nat
  assumes "x < m"
  shows "x + m * (y mod n) = (x + m * y) mod (m * n)"
proof -
  have "x mod m + m * ((x div m + y) mod n) = (x + m * y) mod (m * n)"
    using assms by (intro mod_add_mult_split) simp
  with assms show ?thesis by simp
qed

lemma lval_mul_row:
  assumes "j \<le> length pn" and "length pn = length b"
  shows "lval (limbs_mul_row a b j pn) =
    (lval pn + 2 ^ (32 * j) * (unat (a ! j) * lval b)) mod 2 ^ (32 * length pn)"
proof -
  have pn: "lval pn = lval (take j pn) + 2 ^ (32 * j) * lval (drop j pn)"
    using lval_append [of "take j pn" "drop j pn"] assms(1) by simp
  have "lval (limbs_mul_row a b j pn) = lval (take j pn) + 2 ^ (32 * j) *
      ((lval (drop j pn) + unat (a ! j) * lval b) mod 2 ^ (32 * (length pn - j)))"
    using assms by (simp add: limbs_mul_row_def limb_simps lval_mul_inner)
  also have "\<dots> = (lval (take j pn) + 2 ^ (32 * j) * (lval (drop j pn) + unat (a ! j) * lval b))
      mod (2 ^ (32 * j) * 2 ^ (32 * (length pn - j)))"
    using lval_less [of "take j pn"] assms(1) by (intro mod_mult_part) simp
  also have "2 ^ (32 * j) * 2 ^ (32 * (length pn - j)) = (2 ^ (32 * length pn) :: nat)"
    using assms(1) by (simp flip: power_add distrib_left)
  finally show ?thesis
    by (simp add: pn algebra_simps)
qed

lemma lval_mul_rows:
  assumes "length a = length b" and "k \<le> length a"
  shows "length (fold (limbs_mul_row a b) [0..<k] (limbs_zero (length a))) = length a \<and>
    lval (fold (limbs_mul_row a b) [0..<k] (limbs_zero (length a))) =
      (lval (take k a) * lval b) mod 2 ^ (32 * length a)"
  using assms(2)
proof (induction k)
  case 0
  then show ?case by simp
next
  case (Suc k)
  let ?p = "fold (limbs_mul_row a b) [0..<k] (limbs_zero (length a))"
  have len: "length ?p = length a" and val: "lval ?p = (lval (take k a) * lval b) mod 2 ^ (32 * length a)"
    using Suc by simp_all
  have "lval (take (Suc k) a) = lval (take k a) + 2 ^ (32 * k) * unat (a ! k)"
    using Suc.prems by (simp add: take_Suc_conv_app_nth limb_simps)
  moreover have "lval (limbs_mul_row a b k ?p) =
      (lval (take k a) * lval b + 2 ^ (32 * k) * (unat (a ! k) * lval b)) mod 2 ^ (32 * length a)"
    using Suc.prems len val assms(1) by (simp add: lval_mul_row mod_add_left_eq)
  ultimately show ?case
    using Suc.prems len by (simp add: algebra_simps)
qed

lemma length_limbs_mul [simp]: "length a = length b \<Longrightarrow> length (limbs_mul a b) = length a"
  using lval_mul_rows [of a b "length a"] by (simp add: limbs_mul_def)

lemma lval_mul [limb_simps]:
  "length a = length b \<Longrightarrow> lval (limbs_mul a b) = (lval a * lval b) mod 2 ^ (32 * length a)"
  using lval_mul_rows [of a b "length a"] by (simp add: limbs_mul_def)

section \<open>Comparison\<close>

lemma limbs_cmp_loop_append:
  assumes "length xs = length ys"
  shows "limbs_cmp_loop (xs @ us) (ys @ vs) =
    (if limbs_cmp_loop xs ys = 0 then limbs_cmp_loop us vs else limbs_cmp_loop xs ys)"
  using assms by (induction xs ys rule: list_induct2) auto

lemma limbs_compare_Cons:
  assumes "length xs = length ys"
  shows "limbs_compare (x # xs) (y # ys) =
    (if limbs_compare xs ys = 0 then (if x < y then - 1 else if y < x then 1 else 0)
     else limbs_compare xs ys)"
  using assms by (simp add: limbs_compare_def limbs_cmp_loop_append)

lemma limbs_compare_correct:
  "length a = length b \<Longrightarrow>
   limbs_compare a b = (if lval a < lval b then - 1 else if lval b < lval a then 1 else 0)"
proof (induction a b rule: list_induct2)
  case Nil
  then show ?case by (simp add: limbs_compare_def)
next
  case (Cons x xs y ys)
  have x: "unat x < 2 ^ 32" and y: "unat y < 2 ^ 32"
    by (rule unat_lt2p32)+
  show ?case
  proof (cases "lval xs" "lval ys" rule: linorder_cases)
    case less
    then have "lval (x # xs) < lval (y # ys)" using x by simp
    with less show ?thesis using Cons by (simp add: limbs_compare_Cons)
  next
    case equal
    then show ?thesis using Cons by (simp add: limbs_compare_Cons word_less_nat_alt)
  next
    case greater
    then have "lval (y # ys) < lval (x # xs)" using y by simp
    with greater show ?thesis using Cons by (simp add: limbs_compare_Cons)
  qed
qed

section \<open>Shifts\<close>

text \<open>
  After the first \<open>m\<close> iterations limb \<open>j\<close> of the result holds the contributions of the source
  limbs below \<open>m\<close>.
\<close>

definition shl_limb :: "limbs \<Rightarrow> nat \<Rightarrow> nat \<Rightarrow> nat \<Rightarrow> nat \<Rightarrow> u32" where
  "shl_limb a k s m j =
     (if k \<le> j \<and> j - k < m then push_bit s (a ! (j - k)) else 0) OR
     (if s \<noteq> 0 \<and> k + 1 \<le> j \<and> j - k - 1 < m then drop_bit (32 - s) (a ! (j - k - 1)) else 0)"

lemma length_limbs_shl_step [simp]: "length (limbs_shl_step a k s i pn) = length pn"
  by (simp add: limbs_shl_step_def Let_def)

lemma limbs_shl_step_map:
  "limbs_shl_step a k s m (map (shl_limb a k s m) [0..<length a]) =
     map (shl_limb a k s (Suc m)) [0..<length a]"
proof (rule nth_equalityI)
  fix j
  assume "j < length (limbs_shl_step a k s m (map (shl_limb a k s m) [0..<length a]))"
  then have "j < length a" by simp
  then show "limbs_shl_step a k s m (map (shl_limb a k s m) [0..<length a]) ! j =
      map (shl_limb a k s (Suc m)) [0..<length a] ! j"
    by (auto simp: limbs_shl_step_def shl_limb_def Let_def nth_list_update less_Suc_eq or.commute)
qed simp

lemma limbs_shl_fold:
  "m \<le> length a \<Longrightarrow>
   fold (limbs_shl_step a k s) [0..<m] (limbs_zero (length a)) = map (shl_limb a k s m) [0..<length a]"
proof (induction m)
  case 0
  show ?case
    by (rule nth_equalityI) (simp_all add: limbs_zero_def shl_limb_def)
next
  case (Suc m)
  then show ?case by (simp add: limbs_shl_step_map)
qed

lemma limbs_shl_eq: "limbs_shl a n = map (shl_limb a (n div 32) (n mod 32) (length a)) [0..<length a]"
  by (simp add: limbs_shl_def limbs_shl_fold)

lemma length_limbs_shl [simp]: "length (limbs_shl a n) = length a"
  by (simp add: limbs_shl_eq)

lemma nth_limbs_shl:
  "j < length a \<Longrightarrow> limbs_shl a n ! j = shl_limb a (n div 32) (n mod 32) (length a) j"
  by (simp add: limbs_shl_eq)

lemma bit_u32_ge: "32 \<le> n \<Longrightarrow> \<not> bit (x :: u32) n"
  using bit_imp_le_length [of x n] by auto

lemma bit_shl_limb:
  assumes "s < 32" and "j < length a" and "p < 32"
  shows "bit (shl_limb a k s (length a) j) p \<longleftrightarrow>
    32 * k + s \<le> 32 * j + p \<and> bit (lval a) (32 * j + p - (32 * k + s))"
proof (cases "k \<le> j")
  case False
  then have "32 * j + p < 32 * k + s" using assms by simp
  with False show ?thesis by (simp add: shl_limb_def bit_simps)
next
  case True
  show ?thesis
  proof (cases "s \<le> p")
    case le: True
    have eq: "32 * j + p - (32 * k + s) = (p - s) + 32 * (j - k)"
      using True le by simp
    have "bit (lval a) (32 * j + p - (32 * k + s)) \<longleftrightarrow> bit (a ! (j - k)) (p - s)"
      using assms True bit_lval_limb [of "p - s" a "j - k"] unfolding eq
      by (simp add: less_imp_diff_less)
    moreover have "\<not> bit (a ! (j - k - 1)) (32 - s + p)"
      using le assms by (intro bit_u32_ge) simp
    ultimately show ?thesis
      using True le assms by (auto simp: shl_limb_def bit_simps add.commute)
  next
    case gt: False
    show ?thesis
    proof (cases "k = j")
      case True
      with gt assms show ?thesis by (simp add: shl_limb_def bit_simps)
    next
      case False
      with True have kj: "k + 1 \<le> j" by simp
      then obtain d where d: "j = k + 1 + d" by (metis le_add_diff_inverse)
      have eq: "32 * j + p - (32 * k + s) = (32 - s + p) + 32 * d"
        using gt assms d by simp
      have "bit (lval a) (32 * j + p - (32 * k + s)) \<longleftrightarrow> bit (a ! d) (32 - s + p)"
        using assms d gt bit_lval_limb [of "32 - s + p" a d] unfolding eq by simp
      then show ?thesis
        using True gt assms d by (auto simp: shl_limb_def bit_simps add.commute)
    qed
  qed
qed

lemma lval_shl [limb_simps]: "lval (limbs_shl a n) = (lval a * 2 ^ n) mod 2 ^ (32 * length a)"
proof -
  have "lval (limbs_shl a n) = take_bit (32 * length a) (push_bit n (lval a))"
  proof (rule bit_eqI)
    fix b :: nat
    have nd: "32 * (n div 32) + n mod 32 = n" and bd: "32 * (b div 32) + b mod 32 = b"
      by simp_all
    have "b div 32 < length a \<longleftrightarrow> b < 32 * length a"
      by (simp add: div_less_iff_less_mult mult.commute)
    then show "bit (lval (limbs_shl a n)) b \<longleftrightarrow> bit (take_bit (32 * length a) (push_bit n (lval a))) b"
      using bit_shl_limb [of "n mod 32" "b div 32" a "b mod 32" "n div 32"]
      unfolding nd bd
      by (auto simp: bit_lval [of "limbs_shl a n"] nth_limbs_shl bit_simps)
  qed
  then show ?thesis
    by (simp add: take_bit_eq_mod push_bit_eq_mult)
qed

definition shr_limb :: "limbs \<Rightarrow> nat \<Rightarrow> nat \<Rightarrow> nat \<Rightarrow> nat \<Rightarrow> u32" where
  "shr_limb a k s m j =
     (if j + k < m then drop_bit s (a ! (j + k)) else 0) OR
     (if s \<noteq> 0 \<and> j + k + 1 < m then push_bit (32 - s) (a ! (j + k + 1)) else 0)"

lemma length_limbs_shr_step [simp]: "length (limbs_shr_step a k s i pn) = length pn"
  by (simp add: limbs_shr_step_def Let_def)

lemma limbs_shr_step_map:
  "limbs_shr_step a k s m (map (shr_limb a k s m) [0..<length a]) =
     map (shr_limb a k s (Suc m)) [0..<length a]"
proof (rule nth_equalityI)
  fix j
  assume "j < length (limbs_shr_step a k s m (map (shr_limb a k s m) [0..<length a]))"
  then have "j < length a" by simp
  then show "limbs_shr_step a k s m (map (shr_limb a k s m) [0..<length a]) ! j =
      map (shr_limb a k s (Suc m)) [0..<length a] ! j"
  proof (cases "k \<le> m")
    case True
    then obtain d where "m = k + d" by (metis le_add_diff_inverse)
    then show ?thesis
      using \<open>j < length a\<close>
      by (cases d) (auto simp: limbs_shr_step_def shr_limb_def Let_def nth_list_update less_Suc_eq
          or.commute add.commute)
  next
    case False
    then show ?thesis
      using \<open>j < length a\<close> by (auto simp: limbs_shr_step_def shr_limb_def Let_def)
  qed
qed simp

lemma limbs_shr_fold:
  "m \<le> length a \<Longrightarrow>
   fold (limbs_shr_step a k s) [0..<m] (limbs_zero (length a)) = map (shr_limb a k s m) [0..<length a]"
proof (induction m)
  case 0
  show ?case
    by (rule nth_equalityI) (simp_all add: limbs_zero_def shr_limb_def)
next
  case (Suc m)
  then show ?case by (simp add: limbs_shr_step_map)
qed

lemma limbs_shr_eq: "limbs_shr a n = map (shr_limb a (n div 32) (n mod 32) (length a)) [0..<length a]"
  by (simp add: limbs_shr_def limbs_shr_fold)

lemma length_limbs_shr [simp]: "length (limbs_shr a n) = length a"
  by (simp add: limbs_shr_eq)

lemma nth_limbs_shr:
  "j < length a \<Longrightarrow> limbs_shr a n ! j = shr_limb a (n div 32) (n mod 32) (length a) j"
  by (simp add: limbs_shr_eq)

lemma bit_shr_limb:
  assumes "s < 32" and "p < 32"
  shows "bit (shr_limb a k s (length a) j) p \<longleftrightarrow> bit (lval a) (32 * j + p + (32 * k + s))"
proof (cases "p + s < 32")
  case True
  have eq: "32 * j + p + (32 * k + s) = (p + s) + 32 * (j + k)" by simp
  have "bit (lval a) (32 * j + p + (32 * k + s)) \<longleftrightarrow>
      j + k < length a \<and> bit (a ! (j + k)) (p + s)"
    using True unfolding eq by (rule bit_lval_limb)
  then show ?thesis
    using True assms by (auto simp: shr_limb_def bit_simps add.commute)
next
  case False
  have eq: "32 * j + p + (32 * k + s) = (p + s - 32) + 32 * (j + k + 1)" using False by simp
  have "bit (lval a) (32 * j + p + (32 * k + s)) \<longleftrightarrow>
      j + k + 1 < length a \<and> bit (a ! (j + k + 1)) (p + s - 32)"
    using assms unfolding eq by (intro bit_lval_limb) simp
  moreover have "\<not> bit (a ! (j + k)) (s + p)"
    using False by (intro bit_u32_ge) simp
  ultimately show ?thesis
    using False assms by (auto simp: shr_limb_def bit_simps add.commute)
qed

lemma lval_shr [limb_simps]: "lval (limbs_shr a n) = lval a div 2 ^ n"
proof -
  have "lval (limbs_shr a n) = drop_bit n (lval a)"
  proof (rule bit_eqI)
    fix b :: nat
    have nd: "32 * (n div 32) + n mod 32 = n" and bd: "32 * (b div 32) + b mod 32 = b"
      by simp_all
    have "b div 32 < length a" if "bit (lval a) (b + n)"
    proof -
      have "(b + n) div 32 < length a" using that by (simp add: bit_lval)
      moreover have "b div 32 \<le> (b + n) div 32" by (rule div_le_mono) simp
      ultimately show ?thesis by simp
    qed
    then show "bit (lval (limbs_shr a n)) b \<longleftrightarrow> bit (drop_bit n (lval a)) b"
      using bit_shr_limb [of "n mod 32" "b mod 32" a "n div 32" "b div 32"]
      unfolding nd bd
      by (auto simp: bit_lval [of "limbs_shr a n"] nth_limbs_shr bit_simps add.commute)
  qed
  then show ?thesis
    by (simp add: drop_bit_eq_div)
qed

section \<open>Bit length\<close>

lemma limb_top_bit_bound: "limb_top_bit x b \<le> b"
  by (induction b) auto

lemma limb_top_bit_above: "limb_top_bit x b < i \<Longrightarrow> i \<le> b \<Longrightarrow> \<not> bit x i"
  by (induction b) (auto split: if_splits simp: le_Suc_eq)

lemma limb_top_bit_set: "0 < limb_top_bit x b \<Longrightarrow> bit x (limb_top_bit x b)"
  by (induction b) (auto split: if_splits)

lemma limb_top_bit_nonzero: "x \<noteq> 0 \<Longrightarrow> bit x (limb_top_bit x 31)"
proof (rule ccontr)
  assume "x \<noteq> 0" and no: "\<not> bit x (limb_top_bit x 31)"
  then have zero: "limb_top_bit x 31 = 0"
    using limb_top_bit_set by auto
  have "\<not> bit x i" for i
  proof (cases "i = 0 \<or> 31 < i")
    case True
    with no zero show ?thesis
      using bit_u32_ge [of i x] by auto
  next
    case False
    then show ?thesis
      using limb_top_bit_above [of x 31 i] zero by simp
  qed
  then have "x = 0" by (auto intro: bit_eqI)
  with \<open>x \<noteq> 0\<close> show False ..
qed

lemma limbs_bits_loop_cases:
  obtains (zero) "\<And>i. i < n \<Longrightarrow> a ! i = 0" "limbs_bits_loop a n = 0"
  | (pos) q where "q < n" "a ! q \<noteq> 0" "\<And>i. q < i \<Longrightarrow> i < n \<Longrightarrow> a ! i = 0"
      "limbs_bits_loop a n = 32 * q + limb_top_bit (a ! q) 31 + 1"
proof (induction n arbitrary: thesis)
  case 0
  then show ?case by simp
next
  case (Suc n)
  show ?case
  proof (cases "a ! n = 0")
    case False
    then show ?thesis by (intro Suc.prems(2) [of n]) simp_all
  next
    case True
    show ?thesis
    proof (rule Suc.IH)
      assume "\<And>i. i < n \<Longrightarrow> a ! i = 0" "limbs_bits_loop a n = 0"
      with True show ?thesis by (intro Suc.prems(1)) (auto simp: less_Suc_eq)
    next
      fix q
      assume "q < n" "a ! q \<noteq> 0" "\<And>i. q < i \<Longrightarrow> i < n \<Longrightarrow> a ! i = 0"
        "limbs_bits_loop a n = 32 * q + limb_top_bit (a ! q) 31 + 1"
      with True show ?thesis by (intro Suc.prems(2) [of q]) (auto simp: less_Suc_eq)
    qed
  qed
qed

lemma limbs_bits_zero: "limbs_bits a = 0 \<longleftrightarrow> lval a = 0"
  unfolding limbs_bits_def
  by (rule limbs_bits_loop_cases [of "length a" a])
    (auto simp: lval_eq_0_iff limbs_is_null_def set_conv_nth)

lemma bit_lval_top:
  assumes "lval a \<noteq> 0"
  shows "bit (lval a) (limbs_bits a - 1)"
  unfolding limbs_bits_def
proof (rule limbs_bits_loop_cases [of "length a" a])
  assume "\<And>i. i < length a \<Longrightarrow> a ! i = 0"
  with assms show "bit (lval a) (limbs_bits_loop a (length a) - 1)"
    by (auto simp: lval_eq_0_iff limbs_is_null_def set_conv_nth)
next
  fix q
  assume q: "q < length a" "a ! q \<noteq> 0"
    "limbs_bits_loop a (length a) = 32 * q + limb_top_bit (a ! q) 31 + 1"
  have "limb_top_bit (a ! q) 31 < 32"
    using limb_top_bit_bound [of "a ! q" 31] by simp
  then have "bit (lval a) (limb_top_bit (a ! q) 31 + 32 * q)"
    using q limb_top_bit_nonzero [of "a ! q"] by (simp add: bit_lval_limb)
  then show "bit (lval a) (limbs_bits_loop a (length a) - 1)"
    by (simp add: q add.commute)
qed

lemma lval_less_bits: "lval a < 2 ^ limbs_bits a"
proof (cases "lval a = 0")
  case True
  then show ?thesis by simp
next
  case False
  have "\<not> bit (lval a) i" if i: "limbs_bits a \<le> i" for i
    using False i unfolding limbs_bits_def
  proof (rule_tac limbs_bits_loop_cases [of "length a" a])
    assume "\<And>i. i < length a \<Longrightarrow> a ! i = 0"
    then show ?thesis by (simp add: bit_lval)
  next
    fix q
    assume q: "\<And>i. q < i \<Longrightarrow> i < length a \<Longrightarrow> a ! i = 0"
      and le: "limbs_bits_loop a (length a) \<le> i"
      and eq: "limbs_bits_loop a (length a) = 32 * q + limb_top_bit (a ! q) 31 + 1"
    have "q \<le> i div 32"
      using le eq by simp
    moreover have "limb_top_bit (a ! q) 31 < i mod 32" if "q = i div 32"
      using le eq mod_mult_div_eq [of i 32] that by linarith
    moreover have "i mod 32 \<le> 31"
      using mod_less_divisor [of 32 i] by linarith
    ultimately show ?thesis
      using q [of "i div 32"] limb_top_bit_above [of "a ! q" 31 "i mod 32"]
      by (cases "q = i div 32") (auto simp: bit_lval)
  qed
  then have "take_bit (limbs_bits a) (lval a) = lval a"
    by (intro bit_eqI) (metis bit_take_bit_iff leI)
  then show ?thesis
    by (metis take_bit_nat_less_exp)
qed

lemma limbs_bits_le: "lval a \<noteq> 0 \<Longrightarrow> 2 ^ (limbs_bits a - 1) \<le> lval a"
  using bit_lval_top [of a] by (metis bit_iff_odd div_less even_zero not_le)

lemma limbs_bits_bound: "limbs_bits a \<le> 32 * length a"
proof (cases "lval a = 0")
  case True
  then show ?thesis using limbs_bits_zero [of a] by simp
next
  case False
  then have "(2::nat) ^ (limbs_bits a - 1) < 2 ^ (32 * length a)"
    using limbs_bits_le [of a] lval_less [of a] by linarith
  then show ?thesis by simp
qed

section \<open>Division\<close>

text \<open>
  The loop keeps \<open>num + q * b\<close> equal to the dividend, where the shifted divisor is
  \<open>b * 2 ^ shift\<close>; on exit the remainder is below \<open>b\<close>.
\<close>

lemma lval_set_bit:
  assumes "i < 32 * length q" and "\<not> bit (lval q) i"
  shows "lval (q[i div 32 := (q ! (i div 32)) OR push_bit (i mod 32) 1]) = lval q + 2 ^ i"
proof -
  have lt: "i div 32 < length q"
    using assms(1) by (simp add: div_less_iff_less_mult mult.commute)
  have "lval (q[i div 32 := (q ! (i div 32)) OR push_bit (i mod 32) 1]) = lval q OR 2 ^ i"
  proof (rule bit_eqI)
    fix n
    have "n = i \<longleftrightarrow> n div 32 = i div 32 \<and> n mod 32 = i mod 32"
      by (metis div_mult_mod_eq)
    then show "bit (lval (q[i div 32 := (q ! (i div 32)) OR push_bit (i mod 32) 1])) n \<longleftrightarrow>
        bit (lval q OR 2 ^ i) n"
      using lt by (auto simp: bit_lval nth_list_update bit_simps)
  qed
  also have "\<dots> = lval q + 2 ^ i"
    using assms(2) by (intro disjunctive_add_eq_or [symmetric] bit_eqI) (auto simp: bit_simps)
  finally show ?thesis .
qed

lemma not_bit_multiple: "2 ^ Suc i dvd (n :: nat) \<Longrightarrow> \<not> bit n i"
  by (auto simp: bit_iff_odd elim!: dvdE)

lemma limbs_div_loop_correct:
  assumes "length num = w" "length dv = w" "length q = w" "length b = w"
    and "lval dv = lval b * 2 ^ shift div 2" "lval num < lval b * 2 ^ shift"
    and "2 ^ shift dvd lval q" "shift \<le> 32 * w" "0 < lval b"
    and "limbs_div_loop shift num dv q = (q', r)"
  shows "length q' = w \<and> lval q' * lval b + lval r = lval q * lval b + lval num \<and> lval r < lval b"
  using assms
proof (induction shift arbitrary: num dv q)
  case 0
  then show ?case by simp
next
  case (Suc shift)
  note prems = Suc.prems
  have dv: "lval dv = lval b * 2 ^ shift"
    using prems(5) by simp
  have shr: "lval (limbs_shr dv 1) = lval b * 2 ^ shift div 2"
    by (simp add: limb_simps dv)
  show ?case
  proof (cases "lval dv \<le> lval num")
    case True
    let ?q = "q[shift div 32 := (q ! (shift div 32)) OR push_bit (shift mod 32) 1]"
    have nb: "\<not> bit (lval q) shift"
      using prems(7) by (rule not_bit_multiple)
    have q: "lval ?q = lval q + 2 ^ shift"
      using prems(3,8) nb by (intro lval_set_bit) simp_all
    have num: "lval (limbs_sub num dv) = lval num - lval dv"
      using True prems(1,2) by (intro lval_sub_le) simp_all
    have "limbs_div_loop shift (limbs_sub num dv) (limbs_shr dv 1) ?q = (q', r)"
      using prems(10) True prems(1,2) by (simp add: limbs_compare_correct split: if_splits)
    moreover have "lval (limbs_sub num dv) < lval b * 2 ^ shift"
      using prems(6) dv num by simp
    moreover have "2 ^ shift dvd lval ?q"
      using prems(7) unfolding q by (metis dvd_add dvd_refl dvd_trans le_imp_power_dvd lessI less_imp_le)
    ultimately have "length q' = w \<and>
        lval q' * lval b + lval r = lval ?q * lval b + lval (limbs_sub num dv) \<and> lval r < lval b"
      using Suc.IH [of "limbs_sub num dv" "limbs_shr dv 1" ?q] prems shr by simp
    then show ?thesis
      using True dv unfolding q num by (simp add: algebra_simps)
  next
    case False
    have "limbs_div_loop shift num (limbs_shr dv 1) q = (q', r)"
      using prems(10) False prems(1,2) by (simp add: limbs_compare_correct split: if_splits)
    moreover have "2 ^ shift dvd lval q"
      using prems(7) by (metis dvd_trans le_imp_power_dvd lessI less_imp_le)
    ultimately show ?thesis
      using Suc.IH [of num "limbs_shr dv 1" q] prems shr False dv by simp
  qed
qed

lemma limbs_div_zero: "lval b = 0 \<Longrightarrow> limbs_div a b = Inl DivisionByZero"
  using limbs_bits_zero [of b] by (simp add: limbs_div_def)

lemma limbs_div_correct:
  assumes len: "length a = length b" and pos: "lval b \<noteq> 0"
  shows "\<exists>q. limbs_div a b = Inr q \<and> length q = length a \<and> lval q = lval a div lval b"
proof (cases "limbs_bits b > limbs_bits a")
  case True
  have "lval a < 2 ^ limbs_bits a" by (rule lval_less_bits)
  also have "\<dots> \<le> 2 ^ (limbs_bits b - 1)"
    using True by (intro power_increasing) simp_all
  also have "\<dots> \<le> lval b"
    using pos by (rule limbs_bits_le)
  finally have "lval a div lval b = 0" by simp
  moreover have "limbs_bits b \<noteq> 0" using True by simp
  ultimately show ?thesis
    using True by (simp add: limbs_div_def)
next
  case False
  define shift where "shift = limbs_bits a - limbs_bits b"
  have bits: "limbs_bits b + shift = limbs_bits a" and nz: "limbs_bits b \<noteq> 0"
    using False pos limbs_bits_zero [of b] by (simp_all add: shift_def)
  have "lval b * 2 ^ shift < 2 ^ limbs_bits b * 2 ^ shift"
    using lval_less_bits [of b] by simp
  also have "\<dots> = 2 ^ limbs_bits a"
    by (simp add: power_add flip: bits)
  also have "\<dots> \<le> 2 ^ (32 * length a)"
    using limbs_bits_bound [of a] by (intro power_increasing) simp_all
  finally have shl: "lval (limbs_shl b shift) = lval b * 2 ^ shift"
    using len by (simp add: limb_simps)
  have "lval a < 2 ^ limbs_bits a" by (rule lval_less_bits)
  also have "limbs_bits a = (limbs_bits b - 1) + Suc shift"
    using nz bits by simp
  also have "(2::nat) ^ \<dots> = 2 ^ (limbs_bits b - 1) * 2 ^ Suc shift"
    by (rule power_add)
  also have "\<dots> \<le> lval b * 2 ^ Suc shift"
    using limbs_bits_le [OF pos] by (rule mult_le_mono1)
  finally have lt: "lval a < lval b * 2 ^ Suc shift" .
  obtain q r where qr: "limbs_div_loop (Suc shift) a (limbs_shl b shift) (limbs_zero (length a)) = (q, r)"
    by (cases "limbs_div_loop (Suc shift) a (limbs_shl b shift) (limbs_zero (length a))")
  have sh: "Suc shift \<le> 32 * length a"
    using bits nz limbs_bits_bound [of a] by simp
  have "length q = length a \<and>
      lval q * lval b + lval r = lval (limbs_zero (length a)) * lval b + lval a \<and> lval r < lval b"
    using qr lt sh len pos shl
    by (intro limbs_div_loop_correct [of a "length a" "limbs_shl b shift" "limbs_zero (length a)" b "Suc shift"])
      simp_all
  then have "length q = length a" and "lval a = lval q * lval b + lval r" and "lval r < lval b"
    by simp_all
  then have "length q = length a \<and> lval q = lval a div lval b"
    by simp
  with qr False nz show ?thesis
    by (simp add: limbs_div_def Let_def shift_def del: limbs_div_loop.simps)
qed

section \<open>Properties\<close>

text \<open>
  Long division of two values of the same width, whatever the width: it throws exactly when
  the divisor is zero, and otherwise the shift-and-subtract loop returns the exact quotient of
  the two numbers in an array of the same width.
\<close>

lemma base_uint_division:
  assumes "length a = length b"
  shows "(case limbs_div a b of
      Inl e \<Rightarrow> e = DivisionByZero \<and> lval b = 0
    | Inr q \<Rightarrow> lval b \<noteq> 0 \<and> length q = length a \<and> lval q = lval a div lval b)"
  using limbs_div_zero [of b a] limbs_div_correct [OF assms] by (cases "lval b = 0") auto

text \<open>
  The carry loops of \<open>+=\<close>, \<open>-=\<close>, \<open>*=\<close> and the limb shifts of \<open><<=\<close>, \<open>>>=\<close> compute, on
  operands of one width, the sum, difference, product and shifts of the numbers modulo
  \<open>2 ^ BITS\<close>; no carry is lost between limbs.
\<close>

lemma base_uint_arithmetic:
  assumes "length a = length b"
  shows "lval (limbs_add a b) = (lval a + lval b) mod 2 ^ (32 * length a)
    \<and> int (lval (limbs_sub a b)) = (int (lval a) - int (lval b)) mod 2 ^ (32 * length a)
    \<and> lval (limbs_mul a b) = lval a * lval b mod 2 ^ (32 * length a)
    \<and> lval (limbs_shl a n) = lval a * 2 ^ n mod 2 ^ (32 * length a)
    \<and> lval (limbs_shr a n) = lval a div 2 ^ n"
proof -
  have "int (lval (limbs_sub a b)) = (int (lval a) + (2 ^ (32 * length a) - int (lval b))) mod 2 ^ (32 * length a)"
    using assms lval_less [of b] by (simp add: lval_sub zmod_int of_nat_diff add_diff_eq)
  also have "\<dots> = ((int (lval a) - int (lval b)) + 2 ^ (32 * length a)) mod 2 ^ (32 * length a)"
    by (simp add: algebra_simps)
  finally have "int (lval (limbs_sub a b)) = (int (lval a) - int (lval b)) mod 2 ^ (32 * length a)"
    by simp
  with assms show ?thesis by (simp add: lval_add lval_mul lval_shl lval_shr)
qed

end
