(* ===== verification/Uint256.thy ===== *)
theory Uint256
  imports ArithUint
begin

text \<open>
  The class \<open>uint256\<close> of \<open>src/src/uint256.h\<close> and \<open>src/src/uint256.cpp\<close>: the compact
  ("nBits") encoding of targets over the eight-limb arrays of \<open>ArithUint\<close>, and the bridge between
  limb arrays and the 256-bit words by which the other components represent hashes.  The locale
  \<open>uint_arith\<close> is the contract the difficulty code relies on; it is interpreted on the limb loops
  and on 256-bit words.
\<close>

section \<open>Compact encoding\<close>

text \<open>
  \<open>SetCompact\<close> returns the new value together with \<open>*pfNegative\<close> and \<open>*pfOverflow\<close>.  In the
  small case the source shifts \<open>nWord\<close> itself, so both flags read the shifted word.
\<close>

definition SetCompact :: "u32 \<Rightarrow> limbs \<times> bool \<times> bool" where
  "SetCompact nCompact =
     (let nSize = unat (drop_bit 24 nCompact);
          nWord0 = nCompact AND 0x007fffff;
          nWord = (if nSize \<le> 3 then drop_bit (8 * (3 - nSize)) nWord0 else nWord0);
          v = (if nSize \<le> 3 then limbs_of_u64 8 (ucast nWord)
               else limbs_shl (limbs_of_u64 8 (ucast nWord)) (8 * (nSize - 3)));
          fNegative = (nWord \<noteq> 0 \<and> (nCompact AND 0x00800000) \<noteq> 0);
          fOverflow = (nWord \<noteq> 0 \<and>
            (nSize > 34 \<or> (nWord > 0xff \<and> nSize > 33) \<or> (nWord > 0xffff \<and> nSize > 32)))
      in (v, fNegative, fOverflow))"

text \<open>\<open>GetCompact\<close>: \<open>None\<close> stands for one of its two assertions failing.\<close>

definition GetCompact :: "limbs \<Rightarrow> bool \<Rightarrow> u32 option" where
  "GetCompact a fNegative =
     (let nSize0 = (limbs_bits a + 7) div 8;
          nCompact0 = (if nSize0 \<le> 3 then ucast (push_bit (8 * (3 - nSize0)) (limbs_low64 a))
                       else ucast (limbs_low64 (limbs_shr a (8 * (nSize0 - 3))))) :: u32;
          sgn = (nCompact0 AND 0x00800000 \<noteq> 0);
          nCompact1 = (if sgn then drop_bit 8 nCompact0 else nCompact0);
          nSize = (if sgn then nSize0 + 1 else nSize0)
      in if nCompact1 AND NOT 0x007fffff \<noteq> 0 \<or> \<not> nSize < 256 then None
         else let nCompact2 = nCompact1 OR push_bit 24 (of_nat nSize)
              in Some (nCompact2 OR
                   (if fNegative \<and> nCompact2 AND 0x007fffff \<noteq> 0 then 0x00800000 else 0)))"

section \<open>Limb arrays and 256-bit words\<close>

definition u256_of_limbs :: "limbs \<Rightarrow> uint256" where
  "u256_of_limbs a = of_nat (lval a)"

definition limbs_of_u256 :: "uint256 \<Rightarrow> limbs" where
  "limbs_of_u256 x = map (\<lambda>i. ucast (drop_bit (32 * i) x)) [0..<8]"

lemma length_limbs_of_u256 [simp]: "length (limbs_of_u256 x) = 8"
  by (simp add: limbs_of_u256_def)

lemma lval_limbs_of_u256 [limb_simps]: "lval (limbs_of_u256 x) = unat x"
proof (rule bit_eqI)
  fix n :: nat
  have "n div 32 < 8 \<longleftrightarrow> n < 256" by linarith
  moreover have "\<not> bit x n" if "\<not> n < 256"
    using that bit_imp_le_length [of x n] by auto
  moreover have "32 * (n div 32) + n mod 32 = n" by simp
  ultimately show "bit (lval (limbs_of_u256 x)) n \<longleftrightarrow> bit (unat x) n"
    by (auto simp: bit_lval limbs_of_u256_def bit_simps)
qed

lemma unat_u256_of_limbs: "length a = 8 \<Longrightarrow> unat (u256_of_limbs a) = lval a"
  using lval_less [of a] by (simp add: u256_of_limbs_def unat_of_nat)

lemma u256_of_limbs_of_u256 [simp]: "u256_of_limbs (limbs_of_u256 x) = x"
  by (simp add: u256_of_limbs_def limb_simps)

lemma limbs_of_u256_of_limbs: "length a = 8 \<Longrightarrow> limbs_of_u256 (u256_of_limbs a) = a"
  by (simp add: lval_inject [symmetric] limb_simps unat_u256_of_limbs)

section \<open>SetCompact\<close>

lemma lval_of_u64 [limb_simps]: "lval (limbs_of_u64 w b) = unat b"
proof -
  have "unat b div 2 ^ 32 < 2 ^ 32"
    using unat_lt2p64 [of b] by (simp add: div_less_iff_less_mult)
  then have "unat (ucast (drop_bit 32 b) :: u32) = unat b div 2 ^ 32"
    by (simp add: word_simps)
  then show ?thesis
    by (simp add: limbs_of_u64_def word_simps)
qed

lemma length_limbs_of_u64: "2 \<le> w \<Longrightarrow> length (limbs_of_u64 w b) = w"
  by (simp add: limbs_of_u64_def)

lemma unat_and_mantissa: "unat (c AND 0x007fffff :: u32) = unat c mod 2 ^ 23"
proof -
  have "c AND 0x007fffff = take_bit 23 c"
    by (simp add: take_bit_eq_mask mask_eq_exp_minus_1)
  then show ?thesis
    by (simp only: unsigned_take_bit_eq) (simp add: take_bit_eq_mod)
qed

lemma and_sign_bit: "(c AND 0x00800000 :: u32) \<noteq> 0 \<longleftrightarrow> bit c 23"
  using and_exp_eq_0_iff_not_bit [of c 23] by simp

definition compact_size :: "u32 \<Rightarrow> nat" where
  "compact_size c = unat c div 2 ^ 24"

definition compact_word :: "u32 \<Rightarrow> nat" where
  "compact_word c = (unat c mod 2 ^ 23) div 256 ^ (3 - compact_size c)"

lemma unat_drop_bit_u32: "unat (drop_bit n (x :: u32)) = unat x div 2 ^ n"
  unfolding unat_drop_bit_eq by (simp add: drop_bit_eq_div)

lemma pow_256: "(256 :: nat) ^ n = 2 ^ (8 * n)"
  by (simp add: power_mult)

lemma SetCompact_eq:
  obtains w where "unat w = compact_word c"
    "SetCompact c =
       (if compact_size c \<le> 3 then limbs_of_u64 8 (ucast (w :: u32))
        else limbs_shl (limbs_of_u64 8 (ucast w)) (8 * (compact_size c - 3)),
        w \<noteq> 0 \<and> bit c 23,
        w \<noteq> 0 \<and> (compact_size c > 34 \<or> (w > 0xff \<and> compact_size c > 33) \<or>
          (w > 0xffff \<and> compact_size c > 32)))"
proof -
  have s: "unat (drop_bit 24 c) = compact_size c"
    by (simp add: compact_size_def unat_drop_bit_u32)
  define w where "w = (if compact_size c \<le> 3
    then drop_bit (8 * (3 - compact_size c)) (c AND 0x007fffff) else c AND 0x007fffff)"
  have "unat w = compact_word c"
    unfolding w_def compact_word_def pow_256
    by (simp only: unat_drop_bit_u32 unat_and_mantissa split: if_splits) simp
  moreover have "SetCompact c =
       (if compact_size c \<le> 3 then limbs_of_u64 8 (ucast w)
        else limbs_shl (limbs_of_u64 8 (ucast w)) (8 * (compact_size c - 3)),
        w \<noteq> 0 \<and> bit c 23,
        w \<noteq> 0 \<and> (compact_size c > 34 \<or> (w > 0xff \<and> compact_size c > 33) \<or>
          (w > 0xffff \<and> compact_size c > 32)))"
    unfolding SetCompact_def Let_def s and_sign_bit w_def by simp
  ultimately show thesis by (rule that)
qed

lemma length_SetCompact [simp]: "length (fst (SetCompact c)) = 8"
  by (rule SetCompact_eq [of c]) (simp add: length_limbs_of_u64)

lemma lval_SetCompact:
  "lval (fst (SetCompact c)) = (compact_word c * 256 ^ (compact_size c - 3)) mod 2 ^ 256"
proof (rule SetCompact_eq [of c])
  fix w :: u32
  assume w: "unat w = compact_word c"
    and eq: "SetCompact c =
       (if compact_size c \<le> 3 then limbs_of_u64 8 (ucast (w :: u32))
        else limbs_shl (limbs_of_u64 8 (ucast w)) (8 * (compact_size c - 3)),
        w \<noteq> 0 \<and> bit c 23,
        w \<noteq> 0 \<and> (compact_size c > 34 \<or> (w > 0xff \<and> compact_size c > 33) \<or>
          (w > 0xffff \<and> compact_size c > 32)))"
  have "compact_word c < 2 ^ 256"
    unfolding w [symmetric] using unat_lt2p32 [of w] by simp
  then show ?thesis
    by (simp add: eq limb_simps word_simps length_limbs_of_u64 w pow_256)
qed

lemma compact_word_bound: "compact_word c < 2 ^ 23"
proof -
  have "compact_word c \<le> unat c mod 2 ^ 23"
    by (simp add: compact_word_def)
  also have "\<dots> < 2 ^ 23" by simp
  finally show ?thesis .
qed

text \<open>The overflow flag is exact: it is set if and only if the encoded number has no 256-bit value.\<close>

lemma SetCompact_overflow_iff:
  "snd (snd (SetCompact c)) \<longleftrightarrow> 2 ^ 256 \<le> compact_word c * 256 ^ (compact_size c - 3)"
proof (rule SetCompact_eq [of c])
  fix w :: u32
  assume w: "unat w = compact_word c"
    and eq: "SetCompact c =
       (if compact_size c \<le> 3 then limbs_of_u64 8 (ucast (w :: u32))
        else limbs_shl (limbs_of_u64 8 (ucast w)) (8 * (compact_size c - 3)),
        w \<noteq> 0 \<and> bit c 23,
        w \<noteq> 0 \<and> (compact_size c > 34 \<or> (w > 0xff \<and> compact_size c > 33) \<or>
          (w > 0xffff \<and> compact_size c > 32)))"
  let ?m = "compact_word c" and ?s = "compact_size c"
  have ov: "snd (snd (SetCompact c)) \<longleftrightarrow>
      ?m \<noteq> 0 \<and> (?s > 34 \<or> (?m > 0xff \<and> ?s > 33) \<or> (?m > 0xffff \<and> ?s > 32))"
    by (simp add: eq word_less_nat_alt w flip: w unat_eq_0)
  consider "?s \<le> 32" | "?s = 33" | "?s = 34" | "?s > 34" by linarith
  then show ?thesis
  proof cases
    case 1
    have "?m * 256 ^ (?s - 3) < 2 ^ 23 * 256 ^ (?s - 3)"
      using compact_word_bound [of c] by simp
    also have "\<dots> \<le> 2 ^ 23 * 256 ^ 29"
      using 1 by (intro mult_le_mono power_increasing) simp_all
    also have "\<dots> < (2 :: nat) ^ 256" by simp
    finally show ?thesis using 1 unfolding ov by simp
  next
    case 2
    have "(2 :: nat) ^ 256 = 65536 * 256 ^ 30" by simp
    then have "2 ^ 256 \<le> ?m * 256 ^ (?s - 3) \<longleftrightarrow> 65536 \<le> ?m"
      unfolding 2 by (simp only: mult_le_cancel2) simp
    then show ?thesis using 2 unfolding ov by auto
  next
    case 3
    have "(2 :: nat) ^ 256 = 256 * 256 ^ 31" by simp
    then have "2 ^ 256 \<le> ?m * 256 ^ (?s - 3) \<longleftrightarrow> 256 \<le> ?m"
      unfolding 3 by (simp only: mult_le_cancel2) simp
    then show ?thesis using 3 unfolding ov by auto
  next
    case 4
    have "(2 :: nat) ^ 256 = 1 * 256 ^ 32" by simp
    also have "\<dots> \<le> ?m * 256 ^ (?s - 3)" if "?m \<noteq> 0"
      using that 4 by (intro mult_le_mono power_increasing) simp_all
    finally show ?thesis using 4 unfolding ov by (cases "?m = 0") auto
  qed
qed

lemma SetCompact_negative_iff: "fst (snd (SetCompact c)) \<longleftrightarrow> compact_word c \<noteq> 0 \<and> bit c 23"
  by (rule SetCompact_eq [of c]) (auto simp flip: unat_eq_0)

section \<open>GetCompact\<close>

text \<open>Number of bytes of a value and its top three bytes, as \<open>GetCompact\<close> computes them.\<close>

definition byte_size :: "limbs \<Rightarrow> nat" where
  "byte_size a = (limbs_bits a + 7) div 8"

definition top3 :: "limbs \<Rightarrow> nat" where
  "top3 a = (if byte_size a \<le> 3 then lval a * 256 ^ (3 - byte_size a)
             else lval a div 256 ^ (byte_size a - 3))"

lemma byte_size_bound: "length a = 8 \<Longrightarrow> byte_size a \<le> 32"
  using limbs_bits_bound [of a] by (simp add: byte_size_def)

lemma lval_less_byte_size: "lval a < 256 ^ byte_size a"
proof -
  have "lval a < 2 ^ limbs_bits a" by (rule lval_less_bits)
  also have "\<dots> \<le> 2 ^ (8 * byte_size a)"
    by (rule power_increasing) (simp_all add: byte_size_def)
  finally show ?thesis by (simp add: pow_256)
qed

lemma byte_size_le_lval: "lval a \<noteq> 0 \<Longrightarrow> 256 ^ (byte_size a - 1) \<le> lval a"
proof -
  assume nz: "lval a \<noteq> 0"
  have "8 * (byte_size a - 1) \<le> limbs_bits a - 1"
    by (simp add: byte_size_def)
  then have "(256 :: nat) ^ (byte_size a - 1) \<le> 2 ^ (limbs_bits a - 1)"
    unfolding pow_256 by (rule power_increasing) simp
  also have "\<dots> \<le> lval a" using nz by (rule limbs_bits_le)
  finally show ?thesis .
qed

lemma top3_less: "top3 a < 2 ^ 24"
proof (cases "byte_size a \<le> 3")
  case True
  have "lval a * 256 ^ (3 - byte_size a) < 256 ^ byte_size a * 256 ^ (3 - byte_size a)"
    using lval_less_byte_size [of a] by simp
  also have "\<dots> = 256 ^ (byte_size a + (3 - byte_size a))"
    by (rule power_add [symmetric])
  finally show ?thesis using True by (simp add: top3_def)
next
  case False
  have "lval a < 256 ^ (3 + (byte_size a - 3))"
    using lval_less_byte_size [of a] False by simp
  then have "lval a < 256 ^ 3 * 256 ^ (byte_size a - 3)"
    by (simp only: power_add)
  then show ?thesis using False by (simp add: top3_def less_mult_imp_div_less)
qed

lemma top3_ge: "3 < byte_size a \<Longrightarrow> 2 ^ 16 \<le> top3 a"
proof -
  assume big: "3 < byte_size a"
  then have "lval a \<noteq> 0"
    using limbs_bits_zero [of a] by (auto simp: byte_size_def)
  then have "256 ^ (byte_size a - 1) \<le> lval a" by (rule byte_size_le_lval)
  moreover have "byte_size a - 1 = 2 + (byte_size a - 3)" using big by simp
  ultimately have "256 ^ 2 * 256 ^ (byte_size a - 3) \<le> lval a"
    by (simp only: power_add)
  then have "256 ^ 2 \<le> lval a div 256 ^ (byte_size a - 3)"
    by (simp add: less_eq_div_iff_mult_less_eq)
  then show ?thesis using big by (simp add: top3_def)
qed

lemma unat_low64: "2 \<le> length a \<Longrightarrow> unat (limbs_low64 a) = lval a mod 2 ^ 64"
proof -
  assume len: "2 \<le> length a"
  then obtain x y r where a: "a = x # y # r"
    by (metis One_nat_def Suc_1 Suc_le_length_iff)
  have lt: "unat x + 2 ^ 32 * unat y < 2 ^ 64"
    using unat_lt2p32 [of x] unat_lt2p32 [of y] by simp
  have "limbs_low64 a = (ucast x :: u64) + push_bit 32 (ucast y)"
    unfolding limbs_low64_def a
    by (simp, rule disjunctive_add_eq_or [symmetric])
      (auto simp: bit_eq_iff bit_simps dest: bit_imp_le_length)
  also have "unat \<dots> = unat x + 2 ^ 32 * unat y"
    using lt by (simp add: push_bit_eq_mult unat_word_ariths word_simps mult.commute)
  finally have "unat (limbs_low64 a) = unat x + 2 ^ 32 * unat y" .
  moreover have "lval a = (unat x + 2 ^ 32 * unat y) + 2 ^ 64 * lval r"
    by (simp add: a)
  ultimately show ?thesis using lt by simp
qed

lemma unat_ucast_u64_u32: "unat (x :: u64) < 2 ^ 32 \<Longrightarrow> unat (ucast x :: u32) = unat x"
  by (simp add: word_simps)

lemma unat_top3_word:
  assumes "length a = 8"
  shows "unat (if byte_size a \<le> 3 then ucast (push_bit (8 * (3 - byte_size a)) (limbs_low64 a))
          else ucast (limbs_low64 (limbs_shr a (8 * (byte_size a - 3)))) :: u32) = top3 a"
proof (cases "byte_size a \<le> 3")
  case True
  have "lval a < 256 ^ 3"
  proof -
    have "lval a < 256 ^ byte_size a" by (rule lval_less_byte_size)
    also have "\<dots> \<le> 256 ^ 3" using True by (intro power_increasing) simp_all
    finally show ?thesis .
  qed
  then have low: "unat (limbs_low64 a) = lval a"
    using assms by (simp add: unat_low64)
  have top: "lval a * 2 ^ (8 * (3 - byte_size a)) = top3 a"
    using True by (simp add: top3_def pow_256)
  have "unat (push_bit (8 * (3 - byte_size a)) (limbs_low64 a)) = top3 a mod 2 ^ 64"
    by (simp only: unsigned_push_bit_eq low) (simp add: take_bit_eq_mod push_bit_eq_mult top)
  then have "unat (push_bit (8 * (3 - byte_size a)) (limbs_low64 a)) = top3 a"
    using top3_less [of a] by simp
  then show ?thesis
    using True top3_less [of a] by (simp add: unat_ucast_u64_u32)
next
  case False
  have "lval (limbs_shr a (8 * (byte_size a - 3))) = top3 a"
    using False by (simp add: limb_simps top3_def pow_256)
  then have "unat (limbs_low64 (limbs_shr a (8 * (byte_size a - 3)))) = top3 a"
    using assms top3_less [of a] by (simp add: unat_low64)
  then show ?thesis
    using False top3_less [of a] by (simp add: unat_ucast_u64_u32)
qed

definition compact_norm :: "limbs \<Rightarrow> bool" where
  "compact_norm a \<longleftrightarrow> 2 ^ 23 \<le> top3 a"

lemma bit_23_iff: "n < 2 ^ 24 \<Longrightarrow> bit (n :: nat) 23 \<longleftrightarrow> 2 ^ 23 \<le> n"
proof -
  assume "n < 2 ^ 24"
  then have "n div 2 ^ 23 < 2" by (simp add: less_mult_imp_div_less)
  then have "odd (n div 2 ^ 23) \<longleftrightarrow> n div 2 ^ 23 = 1" by (auto simp: less_2_cases_iff)
  also have "\<dots> \<longleftrightarrow> 2 ^ 23 \<le> n"
    using \<open>n div 2 ^ 23 < 2\<close> by (auto simp: less_2_cases_iff div_eq_0_iff not_le)
  finally show ?thesis by (simp only: bit_iff_odd)
qed

lemma not_bit_above_mantissa: "unat (m :: u32) < 2 ^ 23 \<Longrightarrow> 23 \<le> i \<Longrightarrow> \<not> bit m i"
proof -
  assume "unat m < 2 ^ 23" and "23 \<le> i"
  then have "take_bit 23 (unat m) = unat m" by (simp add: take_bit_nat_eq_self)
  then have "\<not> bit (unat m) i" using \<open>23 \<le> i\<close> by (metis bit_take_bit_iff not_le)
  then show ?thesis by (simp add: bit_unsigned_iff)
qed

lemma unat_or_size:
  assumes "unat (m :: u32) < 2 ^ 23" and "s < 256"
  shows "unat (m OR push_bit 24 (of_nat s)) = unat m + 2 ^ 24 * s"
proof -
  have "m OR push_bit 24 (of_nat s) = m + push_bit 24 (of_nat s)"
    by (rule disjunctive_add_eq_or [symmetric]) (auto simp: bit_eq_iff bit_simps not_bit_above_mantissa [OF assms(1)])
  moreover have "unat (push_bit 24 (of_nat s) :: u32) = 2 ^ 24 * s"
    using assms(2) by (simp add: push_bit_eq_mult unat_word_ariths unat_of_nat)
  moreover have "unat m + 2 ^ 24 * s < 2 ^ 32" using assms by simp
  ultimately show ?thesis by (simp add: unat_word_ariths)
qed

text \<open>\<open>GetCompact\<close> never fails an assertion, and its result is the normalised mantissa and size.\<close>

lemma GetCompact_value:
  assumes "length a = 8"
  obtains c where "GetCompact a False = Some c"
    "unat c = top3 a div (if compact_norm a then 256 else 1)
       + 2 ^ 24 * (byte_size a + (if compact_norm a then 1 else 0))"
proof -
  define n0 where "n0 = (if byte_size a \<le> 3
      then ucast (push_bit (8 * (3 - byte_size a)) (limbs_low64 a))
      else ucast (limbs_low64 (limbs_shr a (8 * (byte_size a - 3)))) :: u32)"
  have n0: "unat n0 = top3 a"
    unfolding n0_def using assms by (rule unat_top3_word)
  have "bit n0 23 \<longleftrightarrow> bit (unat n0) 23" by (simp add: bit_unsigned_iff)
  then have sgn: "n0 AND 0x00800000 \<noteq> 0 \<longleftrightarrow> compact_norm a"
    using top3_less [of a] by (simp add: and_sign_bit bit_23_iff n0 compact_norm_def)
  define n1 where "n1 = (if compact_norm a then drop_bit 8 n0 else n0)"
  have n1: "unat n1 = top3 a div (if compact_norm a then 256 else 1)"
    by (simp add: n1_def unat_drop_bit_u32 n0)
  have n1_less: "unat n1 < 2 ^ 23"
    using top3_less [of a] by (auto simp: n1 compact_norm_def less_mult_imp_div_less)
  have "0x007fffff = (mask 23 :: u32)"
    by (simp add: mask_eq_exp_minus_1)
  then have as1: "n1 AND NOT 0x007fffff = 0"
    using not_bit_above_mantissa [OF n1_less] by (auto simp: bit_eq_iff bit_simps not_less)
  let ?s = "byte_size a + (if compact_norm a then 1 else 0)"
  have s: "?s < 256" using byte_size_bound [OF assms] by simp
  have "GetCompact a False = Some (n1 OR push_bit 24 (of_nat ?s))"
    unfolding GetCompact_def Let_def byte_size_def [symmetric] n0_def [symmetric] sgn
    using as1 s by (cases "compact_norm a") (simp_all add: n1_def add.commute)
  moreover have "unat (n1 OR push_bit 24 (of_nat ?s)) =
      top3 a div (if compact_norm a then 256 else 1) + 2 ^ 24 * ?s"
    using n1_less s by (simp only: unat_or_size n1)
  ultimately show thesis by (rule that)
qed

section \<open>Round trip\<close>

text \<open>The bytes \<open>GetCompact\<close> drops: everything below the three byte mantissa.\<close>

definition dropped_bytes :: "limbs \<Rightarrow> nat" where
  "dropped_bytes a = byte_size a + (if compact_norm a then 1 else 0) - 3"

lemma compact_fields:
  assumes "unat c = m + 2 ^ 24 * s" and "m < 2 ^ 23"
  shows "compact_size c = s" and "compact_word c = m div 256 ^ (3 - s)" and "\<not> bit c 23"
proof -
  show s: "compact_size c = s"
    using assms by (simp add: compact_size_def)
  have "unat c mod 2 ^ 23 = m"
  proof -
    have "unat c = m + 2 ^ 23 * (2 * s)" using assms(1) by simp
    then have "unat c mod 2 ^ 23 = m mod 2 ^ 23" by (simp only: mod_mult_self2)
    then show ?thesis using assms(2) by simp
  qed
  then show "compact_word c = m div 256 ^ (3 - s)"
    by (simp add: compact_word_def s)
  have "unat c div 2 ^ 23 = 2 * s"
  proof -
    have "unat c = m + 2 ^ 23 * (2 * s)" using assms(1) by simp
    then show ?thesis using assms(2) by simp
  qed
  then have "\<not> bit (unat c) 23" by (simp add: bit_iff_odd)
  then show "\<not> bit c 23" by (simp add: bit_unsigned_iff)
qed

lemma top3_div_pow:
  assumes "compact_norm a"
  shows "top3 a div 256 div 256 ^ (3 - (byte_size a + 1)) * 256 ^ (byte_size a + 1 - 3) =
    lval a div 256 ^ (byte_size a + 1 - 3) * 256 ^ (byte_size a + 1 - 3)"
proof (cases "byte_size a \<le> 2")
  case True
  then have eq: "(256 :: nat) ^ (3 - byte_size a) = 256 * 256 ^ (2 - byte_size a)"
    by (simp flip: power_Suc add: Suc_diff_le)
  have "lval a * 256 ^ (3 - byte_size a) div 256 div 256 ^ (2 - byte_size a) = lval a"
    unfolding eq by simp
  with True show ?thesis by (simp add: top3_def)
next
  case False
  then have "256 ^ (byte_size a - 2) = (256 :: nat) ^ (byte_size a - 3) * 256"
    by (metis Suc_diff_Suc diff_Suc_eq_diff_pred not_le numeral_2_eq_2 numeral_3_eq_3
        power_Suc2 diff_Suc_Suc eval_nat_numeral(3) less_Suc_eq_le)
  with False show ?thesis
    by (cases "byte_size a = 3") (simp_all add: top3_def div_mult2_eq)
qed

lemma SetCompact_GetCompact:
  assumes "length a = 8"
  obtains c t where "GetCompact a False = Some c" "SetCompact c = (t, False, False)" "length t = 8"
    "lval t = lval a div 256 ^ dropped_bytes a * 256 ^ dropped_bytes a"
proof -
  obtain c where c: "GetCompact a False = Some c"
    and u: "unat c = top3 a div (if compact_norm a then 256 else 1)
       + 2 ^ 24 * (byte_size a + (if compact_norm a then 1 else 0))"
    using assms by (rule GetCompact_value)
  let ?m = "top3 a div (if compact_norm a then 256 else 1)"
    and ?s = "byte_size a + (if compact_norm a then 1 else 0)"
  have m: "?m < 2 ^ 23"
    using top3_less [of a] by (auto simp: compact_norm_def less_mult_imp_div_less)
  note f = compact_fields [OF u m]
  have val: "compact_word c * 256 ^ (compact_size c - 3) =
      lval a div 256 ^ dropped_bytes a * 256 ^ dropped_bytes a"
  proof (cases "compact_norm a")
    case True
    then show ?thesis
      using top3_div_pow [OF True] by (simp add: f dropped_bytes_def)
  next
    case False
    then show ?thesis
      by (simp add: f dropped_bytes_def top3_def)
  qed
  have lt: "lval a div 256 ^ dropped_bytes a * 256 ^ dropped_bytes a < 2 ^ 256"
    using lval_less [of a] assms by (simp add: le_less_trans [OF div_times_less_eq_dividend])
  obtain t ng ov where t: "SetCompact c = (t, ng, ov)" by (cases "SetCompact c")
  have "\<not> ng" using SetCompact_negative_iff [of c] f(3) by (simp add: t)
  moreover have "\<not> ov" using SetCompact_overflow_iff [of c] lt by (simp add: t val)
  moreover have "lval t = lval a div 256 ^ dropped_bytes a * 256 ^ dropped_bytes a"
    using lval_SetCompact [of c] lt by (simp add: t val)
  moreover have "length t = 8" using length_SetCompact [of c] by (simp add: t)
  ultimately show thesis using that c t by simp
qed

lemma dropped_bytes_small:
  "2 ^ 15 * (lval a mod 256 ^ dropped_bytes a) \<le> lval a"
proof (cases "dropped_bytes a = 0")
  case True
  then show ?thesis by simp
next
  case False
  have "2 ^ 15 * 256 ^ dropped_bytes a \<le> lval a"
  proof (cases "compact_norm a")
    case True
    then have "2 ^ 23 \<le> top3 a" by (simp add: compact_norm_def)
    moreover have sz: "3 \<le> byte_size a" using False True by (simp add: dropped_bytes_def)
    ultimately have "2 ^ 23 * 256 ^ (byte_size a - 3) \<le> lval a"
      by (cases "byte_size a = 3") (simp_all add: top3_def less_eq_div_iff_mult_less_eq)
    moreover have "dropped_bytes a = Suc (byte_size a - 3)"
      using True sz by (simp add: dropped_bytes_def)
    ultimately show ?thesis by simp
  next
    case nn: False
    then have sz: "3 < byte_size a" using False by (simp add: dropped_bytes_def)
    then have "2 ^ 16 * 256 ^ (byte_size a - 3) \<le> lval a"
      using top3_ge [OF sz] by (simp add: top3_def less_eq_div_iff_mult_less_eq)
    then show ?thesis using nn by (simp add: dropped_bytes_def)
  qed
  moreover have "lval a mod 256 ^ dropped_bytes a \<le> 256 ^ dropped_bytes a" by simp
  ultimately show ?thesis
    by (meson le_trans mult_le_mono2)
qed

text \<open>Re-encoding the decoded target gives the same bits: the encoding is canonical.\<close>

lemma limbs_bits_unique:
  assumes "2 ^ n \<le> lval a" and "lval a < 2 ^ Suc n"
  shows "limbs_bits a = Suc n"
proof -
  have nz: "lval a \<noteq> 0" using assms(1) by (metis not_le zero_less_numeral zero_less_power)
  have "(2 :: nat) ^ n < 2 ^ limbs_bits a"
    using assms(1) lval_less_bits [of a] by linarith
  moreover have "(2 :: nat) ^ (limbs_bits a - 1) < 2 ^ Suc n"
    using assms(2) limbs_bits_le [OF nz] by linarith
  ultimately show ?thesis
    by (simp only: power_strict_increasing_iff)
qed

lemma dropped_bytes_bits: "lval a \<noteq> 0 \<Longrightarrow> 8 * dropped_bytes a \<le> limbs_bits a - 1"
  by (auto simp: dropped_bytes_def byte_size_def)

lemma trunc_top_bit:
  fixes v :: nat
  assumes "2 ^ n \<le> v" and "k \<le> n"
  shows "2 ^ n \<le> v div 2 ^ k * 2 ^ k"
proof -
  obtain d where n: "n = d + k" using assms(2) by (metis le_add_diff_inverse2)
  have "2 ^ d \<le> v div 2 ^ k"
    using assms(1) unfolding n by (simp add: power_add less_eq_div_iff_mult_less_eq)
  then show ?thesis unfolding n power_add by (rule mult_le_mono1)
qed

lemma compact_trunc_same:
  assumes t: "lval t = lval a div 256 ^ dropped_bytes a * 256 ^ dropped_bytes a"
  shows "limbs_bits t = limbs_bits a" and "byte_size t = byte_size a"
    and "compact_norm t = compact_norm a"
    and "top3 t div (if compact_norm t then 256 else 1) = top3 a div (if compact_norm a then 256 else 1)"
proof -
  show bits: "limbs_bits t = limbs_bits a"
  proof (cases "lval a = 0")
    case True
    then show ?thesis using t limbs_bits_zero [of t] limbs_bits_zero [of a] by simp
  next
    case False
    then have pos: "limbs_bits a = Suc (limbs_bits a - 1)"
      using limbs_bits_zero [of a] by simp
    have "2 ^ (limbs_bits a - 1) \<le> lval t"
      unfolding t pow_256 using False
      by (intro trunc_top_bit limbs_bits_le dropped_bytes_bits)
    moreover have "lval t < 2 ^ Suc (limbs_bits a - 1)"
      using lval_less_bits [of a] pos unfolding t
      by (metis div_times_less_eq_dividend le_less_trans)
    ultimately show ?thesis
      using limbs_bits_unique [of "limbs_bits a - 1" t] pos by simp
  qed
  show sz: "byte_size t = byte_size a" by (simp add: byte_size_def bits)
  have top: "top3 t = (if compact_norm a \<and> 3 \<le> byte_size a then top3 a div 256 * 256 else top3 a)"
  proof (cases "compact_norm a \<and> 3 \<le> byte_size a")
    case True
    define e where "e = (256 :: nat) ^ (byte_size a - 3)"
    have "dropped_bytes a = Suc (byte_size a - 3)"
      using True by (simp add: dropped_bytes_def) arith
    then have e: "(256 :: nat) ^ dropped_bytes a = e * 256"
      by (simp add: e_def)
    have "lval t div e = lval a div e div 256 * 256"
      unfolding t e by (simp add: div_mult2_eq e_def flip: mult.assoc)
    with True show ?thesis by (auto simp: top3_def sz e_def)
  next
    case False
    show ?thesis
    proof (cases "byte_size a \<le> 3")
      case True
      with False have "dropped_bytes a = 0" by (auto simp: dropped_bytes_def)
      with True False show ?thesis by (auto simp: top3_def sz t)
    next
      case big: False
      with False have "dropped_bytes a = byte_size a - 3" by (auto simp: dropped_bytes_def)
      with big False show ?thesis by (auto simp: top3_def sz t)
    qed
  qed
  have keep: "2 ^ 23 \<le> n div 256 * 256 \<longleftrightarrow> 2 ^ 23 \<le> n" for n :: nat
    by simp linarith
  show norm: "compact_norm t = compact_norm a"
    using keep by (auto simp: compact_norm_def top)
  show "top3 t div (if compact_norm t then 256 else 1) = top3 a div (if compact_norm a then 256 else 1)"
    by (simp add: norm top)
qed

lemma GetCompact_canonical:
  assumes "length a = 8" "GetCompact a False = Some c" "SetCompact c = (t, ng, ov)"
  shows "GetCompact t False = Some c"
proof -
  obtain c' t' where r: "GetCompact a False = Some c'" "SetCompact c' = (t', False, False)" "length t' = 8"
    "lval t' = lval a div 256 ^ dropped_bytes a * 256 ^ dropped_bytes a"
    using assms(1) by (rule SetCompact_GetCompact)
  with assms have eq: "c' = c" "t' = t" by simp_all
  note same = compact_trunc_same [OF r(4)]
  obtain ca where ca: "GetCompact a False = Some ca"
    "unat ca = top3 a div (if compact_norm a then 256 else 1)
       + 2 ^ 24 * (byte_size a + (if compact_norm a then 1 else 0))"
    using assms(1) by (rule GetCompact_value)
  obtain ct where ct: "GetCompact t' False = Some ct"
    "unat ct = top3 t' div (if compact_norm t' then 256 else 1)
       + 2 ^ 24 * (byte_size t' + (if compact_norm t' then 1 else 0))"
    using r(3) by (rule GetCompact_value)
  have "unat ct = unat ca"
    unfolding ct(2) ca(2) same(4) by (simp only: same(2,3))
  then have "ct = ca" by (simp add: word_unat_eq_iff)
  with ca ct assms(2) eq show ?thesis by simp
qed

section \<open>The contract of the big integers\<close>

text \<open>
  What the difficulty and chain-work code relies on: every operation is the operation of the
  numbers modulo \<open>M\<close>, and division fails on zero only.
\<close>

locale uint_arith =
  fixes wf :: "'a \<Rightarrow> bool" and val :: "'a \<Rightarrow> nat" and M :: nat
    and add :: "'a \<Rightarrow> 'a \<Rightarrow> 'a" and mul32 :: "'a \<Rightarrow> u32 \<Rightarrow> 'a"
    and compl :: "'a \<Rightarrow> 'a" and quot :: "'a \<Rightarrow> 'a \<Rightarrow> uint_error + 'a"
  assumes val_less: "wf a \<Longrightarrow> val a < M"
    and wf_add: "wf a \<Longrightarrow> wf b \<Longrightarrow> wf (add a b)"
    and val_add: "wf a \<Longrightarrow> wf b \<Longrightarrow> val (add a b) = (val a + val b) mod M"
    and wf_mul32: "wf a \<Longrightarrow> wf (mul32 a m)"
    and val_mul32: "wf a \<Longrightarrow> val (mul32 a m) = (val a * unat m) mod M"
    and wf_compl: "wf a \<Longrightarrow> wf (compl a)"
    and val_compl: "wf a \<Longrightarrow> val (compl a) = M - 1 - val a"
    and quot_zero: "wf a \<Longrightarrow> wf b \<Longrightarrow> val b = 0 \<Longrightarrow> quot a b = Inl DivisionByZero"
    and quot_val: "wf a \<Longrightarrow> wf b \<Longrightarrow> val b \<noteq> 0 \<Longrightarrow>
      \<exists>q. quot a b = Inr q \<and> wf q \<and> val q = val a div val b"
begin

lemma scale_val:
  assumes "wf a" "wf d" "val d \<noteq> 0" "val a * unat m < M"
  obtains q where "quot (mul32 a m) d = Inr q" "wf q" "val q = val a * unat m div val d"
  using quot_val [OF wf_mul32 [OF assms(1), of m] assms(2,3)] assms(1,4)
  by (auto simp: val_mul32)

lemma proof_val:
  assumes t: "wf t" "val t \<noteq> 0" "val t + 1 < M" and one: "wf e" "val e = 1"
  obtains q where "quot (compl t) (add t e) = Inr q" "wf (add q e)" "val (add q e) = M div (val t + 1)"
proof -
  have sum: "val (add t e) = val t + 1"
    using t one by (simp add: val_add)
  obtain q where q: "quot (compl t) (add t e) = Inr q" "wf q"
    "val q = (M - 1 - val t) div (val t + 1)"
    using quot_val [OF wf_compl [OF t(1)] wf_add [OF t(1) one(1)]] t sum
    by (auto simp: val_compl)
  have M: "M = (M - 1 - val t) + (val t + 1)" using t by simp
  have eq: "val q + 1 = M div (val t + 1)"
    by (subst M, subst div_add_self2) (simp_all add: q)
  have "M div (val t + 1) \<le> M div 2"
    using t(2) by (intro div_le_mono2) simp_all
  also have "\<dots> < M" using t by simp
  finally have "val (add q e) = M div (val t + 1)"
    using q(2) one eq by (simp add: val_add)
  with q one show thesis by (intro that) (simp_all add: wf_add)
qed

end

interpretation limbs8: uint_arith "\<lambda>a. length a = 8" lval "2 ^ 256" limbs_add limbs_mul32 limbs_not limbs_div
proof (unfold_locales, goal_cases)
  case (1 a)
  then show ?case using lval_less [of a] by simp
next
  case (9 a b)
  then show ?case using limbs_div_correct [of a b] by auto
qed (simp_all add: limb_simps limbs_div_zero)

section \<open>Properties\<close>

text \<open>
  Decoding a compact target: the value is the mantissa shifted by the exponent modulo
  \<open>2 ^ 256\<close>, the overflow flag is set exactly when that number does not fit into 256 bits, and
  the sign flag exactly when the sign bit is set on a mantissa that is not zero.
\<close>

lemma SetCompact_exact:
  "length (fst (SetCompact c)) = 8
    \<and> lval (fst (SetCompact c)) = compact_word c * 256 ^ (compact_size c - 3) mod 2 ^ 256
    \<and> (snd (snd (SetCompact c)) \<longleftrightarrow> 2 ^ 256 \<le> compact_word c * 256 ^ (compact_size c - 3))
    \<and> (fst (snd (SetCompact c)) \<longleftrightarrow> compact_word c \<noteq> 0 \<and> bit c 23)"
  by (simp only: length_SetCompact lval_SetCompact SetCompact_overflow_iff SetCompact_negative_iff simp_thms)

text \<open>
  Encoding never fails an assertion on a 256-bit value; decoding the encoding raises neither
  flag and gives a target that is not above the original and below it by at most one part in
  \<open>2 ^ 15\<close>; and the encoding is canonical: encoding the decoded target gives the same word.
\<close>

lemma GetCompact_roundtrip:
  assumes "length a = 8"
  shows "\<exists>c t. GetCompact a False = Some c \<and> SetCompact c = (t, False, False)
    \<and> lval t \<le> lval a \<and> 2 ^ 15 * (lval a - lval t) \<le> lval a \<and> GetCompact t False = Some c"
proof -
  obtain c t where r: "GetCompact a False = Some c" "SetCompact c = (t, False, False)" "length t = 8"
    "lval t = lval a div 256 ^ dropped_bytes a * 256 ^ dropped_bytes a"
    using assms by (rule SetCompact_GetCompact)
  have "lval a - lval t = lval a mod 256 ^ dropped_bytes a"
    unfolding r(4) by (rule minus_div_mult_eq_mod)
  with dropped_bytes_small [of a] have "2 ^ 15 * (lval a - lval t) \<le> lval a" by simp
  moreover have "lval t \<le> lval a" unfolding r(4) by (rule div_times_less_eq_dividend)
  ultimately show ?thesis using r GetCompact_canonical [OF assms r(1,2)] by blast
qed

end
