(* ===== verification/ConsensusParams.thy ===== *)
theory ConsensusParams
  imports Uint256
begin

text \<open>
  The consensus parameters (\<open>src/src/consensus/params.h\<close>, \<open>params.cpp\<close>), the network upgrade
  mechanism (\<open>src/src/consensus/upgrades.cpp\<close>) and the three parameter sets of
  \<open>src/src/chainparams.cpp\<close>.  Heights, times and amounts are the C++ signed integers read as
  \<open>int\<close>; targets are eight-limb arrays.  The lemmas characterise the upgrade functions by the
  activation heights alone; the last section states what \<open>NextActivationHeight\<close> and
  \<open>CurrentEpoch\<close> promise when the upgrades are listed in activation order.
\<close>

section \<open>Upgrade indices\<close>

datatype UpgradeIndex =
    BASE_NETWORK
  | UPGRADE_POS
  | UPGRADE_BIP65
  | UPGRADE_TIME_PROTOCOL_V2
  | UPGRADE_P2PKH_BLOCK_SIGNATURES
  | UPGRADE_STAKE_MIN_DEPTH_V2
  | UPGRADE_MASTERNODE_RANK_V2
  | UPGRADE_ADAM
  | UPGRADE_ADAM_V2
  | UPGRADE_POMBL
  | UPGRADE_MODELD
  | UPGRADE_TESTDUMMY
  | MAX_NETWORK_UPGRADES

primrec upgrade_number :: "UpgradeIndex \<Rightarrow> nat" where
  "upgrade_number BASE_NETWORK = 0"
| "upgrade_number UPGRADE_POS = 1"
| "upgrade_number UPGRADE_BIP65 = 2"
| "upgrade_number UPGRADE_TIME_PROTOCOL_V2 = 3"
| "upgrade_number UPGRADE_P2PKH_BLOCK_SIGNATURES = 4"
| "upgrade_number UPGRADE_STAKE_MIN_DEPTH_V2 = 5"
| "upgrade_number UPGRADE_MASTERNODE_RANK_V2 = 6"
| "upgrade_number UPGRADE_ADAM = 7"
| "upgrade_number UPGRADE_ADAM_V2 = 8"
| "upgrade_number UPGRADE_POMBL = 9"
| "upgrade_number UPGRADE_MODELD = 10"
| "upgrade_number UPGRADE_TESTDUMMY = 11"
| "upgrade_number MAX_NETWORK_UPGRADES = 12"

text \<open>The loops of \<open>upgrades.cpp\<close> run over \<open>BASE_NETWORK + 1 \<le> idx < MAX_NETWORK_UPGRADES\<close>.\<close>

definition upgrade_indices :: "UpgradeIndex list" where
  "upgrade_indices =
     [UPGRADE_POS, UPGRADE_BIP65, UPGRADE_TIME_PROTOCOL_V2, UPGRADE_P2PKH_BLOCK_SIGNATURES,
      UPGRADE_STAKE_MIN_DEPTH_V2, UPGRADE_MASTERNODE_RANK_V2, UPGRADE_ADAM, UPGRADE_ADAM_V2,
      UPGRADE_POMBL, UPGRADE_MODELD, UPGRADE_TESTDUMMY]"

lemma upgrade_number_inject: "upgrade_number i = upgrade_number j \<longleftrightarrow> i = j"
  by (cases i; cases j) simp_all

instantiation UpgradeIndex :: linorder
begin

definition less_eq_UpgradeIndex :: "UpgradeIndex \<Rightarrow> UpgradeIndex \<Rightarrow> bool" where
  "i \<le> j \<longleftrightarrow> upgrade_number i \<le> upgrade_number j"

definition less_UpgradeIndex :: "UpgradeIndex \<Rightarrow> UpgradeIndex \<Rightarrow> bool" where
  "i < j \<longleftrightarrow> upgrade_number i < upgrade_number j"

instance
  by standard (auto simp: less_eq_UpgradeIndex_def less_UpgradeIndex_def upgrade_number_inject
      simp flip: upgrade_number_inject)

end

lemma set_upgrade_indices:
  "set upgrade_indices = {i. i \<noteq> BASE_NETWORK \<and> i \<noteq> MAX_NETWORK_UPGRADES}"
proof -
  have "i \<in> set upgrade_indices \<longleftrightarrow> i \<noteq> BASE_NETWORK \<and> i \<noteq> MAX_NETWORK_UPGRADES" for i
    by (cases i) (simp_all add: upgrade_indices_def)
  then show ?thesis by blast
qed

lemma sorted_upgrade_indices: "sorted_wrt (<) upgrade_indices"
  by (simp add: upgrade_indices_def less_UpgradeIndex_def)

section \<open>Parameters\<close>

record NetworkUpgrade =
  nProtocolVersion :: int
  nActivationHeight :: int
  hashActivationBlock :: "uint256 option"

definition ALWAYS_ACTIVE :: int where
  "ALWAYS_ACTIVE = 0"

definition NO_ACTIVATION_HEIGHT :: int where
  "NO_ACTIVATION_HEIGHT = - 1"

record ConsensusParams =
  hashGenesisBlock :: uint256
  powLimit :: limbs
  posLimitV1 :: limbs
  posLimitV2 :: limbs
  nCoinbaseMaturity :: int
  nFutureTimeDriftPoW :: int
  nFutureTimeDriftPoS :: int
  nMaxMoneyOut :: int
  nPoolMaxTransactions :: int
  nStakeMinAge :: int
  nStakeMinDepth :: int
  nStakeMinDepthV2 :: int
  nTargetTimespan :: int
  nTargetTimespanV2 :: int
  nTargetSpacing :: int
  nTimeSlotLength :: int
  nAdamMinersCount :: int
  nAdamThreshold :: int
  nAdamDifficultyShiftV1 :: int
  nAdamDifficultyShiftV2 :: int
  nAdamBootstrapLimit :: int
  nAdamThresholdBootstrapLimit :: int
  nAdamStrictHeight :: int
  nAdamQuorumEnforcementHeight :: int
  nBurnDecayBlocks :: int
  nMasternodeUptimeLimit :: int
  nTreasuryGovernanceStartHeight :: int
  mBurnAddresses :: "(string \<times> int) list"
  strSporkPubKey :: string
  strSporkPubKeyOld :: string
  nTime_EnforceNewSporkKey :: int
  nTime_RejectOldSporkKey :: int
  vUpgrades :: "UpgradeIndex \<Rightarrow> NetworkUpgrade"

definition GetAdamThreshold :: "ConsensusParams \<Rightarrow> int \<Rightarrow> int" where
  "GetAdamThreshold p nHeight =
     (if nHeight < nAdamThresholdBootstrapLimit p \<and> nHeight \<ge> 0 then 5 else nAdamThreshold p)"

definition TargetTimespan :: "ConsensusParams \<Rightarrow> bool \<Rightarrow> int" where
  "TargetTimespan p fV2 = (if fV2 then nTargetTimespanV2 p else nTargetTimespan p)"

definition ProofOfStakeLimit :: "ConsensusParams \<Rightarrow> bool \<Rightarrow> limbs" where
  "ProofOfStakeLimit p fV2 = (if fV2 then posLimitV2 p else posLimitV1 p)"

definition MoneyRange :: "ConsensusParams \<Rightarrow> int \<Rightarrow> bool" where
  "MoneyRange p nValue \<longleftrightarrow> nValue \<ge> 0 \<and> nValue \<le> nMaxMoneyOut p"

text \<open>\<open>std::map::find\<close> on the burn table, then the activation height of the entry.\<close>

definition IsBurnAddress :: "ConsensusParams \<Rightarrow> string \<Rightarrow> int \<Rightarrow> bool" where
  "IsBurnAddress p strAddress nHeight =
     (case map_of (mBurnAddresses p) strAddress of
        None \<Rightarrow> False
      | Some h \<Rightarrow> h < nHeight)"

text \<open>The sum of a \<open>uint32_t\<close> and an \<open>int\<close> is computed modulo \<open>2 ^ 32\<close>.\<close>

definition HasStakeMinAgeOrDepth :: "ConsensusParams \<Rightarrow> int \<Rightarrow> u32 \<Rightarrow> int \<Rightarrow> u32 \<Rightarrow> bool" where
  "HasStakeMinAgeOrDepth p contextHeight contextTime utxoFromBlockHeight utxoFromBlockTime \<longleftrightarrow>
     utxoFromBlockTime + word_of_int (nStakeMinAge p) \<le> contextTime"

section \<open>Network upgrades\<close>

datatype UpgradeState = UPGRADE_DISABLED | UPGRADE_PENDING | UPGRADE_ACTIVE

text \<open>\<open>None\<close> is a failed assertion on the height or on the index.\<close>

definition NetworkUpgradeState :: "int \<Rightarrow> ConsensusParams \<Rightarrow> UpgradeIndex \<Rightarrow> UpgradeState option" where
  "NetworkUpgradeState nHeight p idx =
     (if \<not> nHeight \<ge> 0 then None
      else if \<not> (idx \<ge> BASE_NETWORK \<and> idx < MAX_NETWORK_UPGRADES) then None
      else let h = nActivationHeight (vUpgrades p idx)
           in if h = NO_ACTIVATION_HEIGHT then Some UPGRADE_DISABLED
              else if nHeight \<ge> h then Some UPGRADE_ACTIVE
              else Some UPGRADE_PENDING)"

definition NetworkUpgradeActive :: "int \<Rightarrow> ConsensusParams \<Rightarrow> UpgradeIndex \<Rightarrow> bool option" where
  "NetworkUpgradeActive nHeight p idx =
     map_option (\<lambda>s. s = UPGRADE_ACTIVE) (NetworkUpgradeState nHeight p idx)"

text \<open>The member function of \<open>Consensus::Params\<close> turns both assertions into the answer "no".\<close>

definition Params_NetworkUpgradeActive :: "ConsensusParams \<Rightarrow> int \<Rightarrow> UpgradeIndex \<Rightarrow> bool" where
  "Params_NetworkUpgradeActive p nHeight idx =
     (if idx \<ge> MAX_NETWORK_UPGRADES then False
      else if nHeight < 0 then False
      else NetworkUpgradeState nHeight p idx = Some UPGRADE_ACTIVE)"

fun CurrentEpoch_loop :: "int \<Rightarrow> ConsensusParams \<Rightarrow> UpgradeIndex list \<Rightarrow> UpgradeIndex option" where
  "CurrentEpoch_loop nHeight p [] = Some BASE_NETWORK"
| "CurrentEpoch_loop nHeight p (idx # is) =
     (case NetworkUpgradeActive nHeight p idx of
        None \<Rightarrow> None
      | Some active \<Rightarrow> if active then Some idx else CurrentEpoch_loop nHeight p is)"

definition CurrentEpoch :: "int \<Rightarrow> ConsensusParams \<Rightarrow> UpgradeIndex option" where
  "CurrentEpoch nHeight p = CurrentEpoch_loop nHeight p (rev upgrade_indices)"

definition IsActivationHeight :: "int \<Rightarrow> ConsensusParams \<Rightarrow> UpgradeIndex \<Rightarrow> bool option" where
  "IsActivationHeight nHeight p idx =
     (if \<not> (idx \<ge> BASE_NETWORK \<and> idx < MAX_NETWORK_UPGRADES) then None
      else if idx = BASE_NETWORK then Some False
      else Some (nHeight \<ge> 0 \<and> nHeight = nActivationHeight (vUpgrades p idx)))"

definition IsActivationHeightForAnyUpgrade :: "int \<Rightarrow> ConsensusParams \<Rightarrow> bool" where
  "IsActivationHeightForAnyUpgrade nHeight p =
     (if nHeight < 0 then False
      else list_ex (\<lambda>idx. nHeight = nActivationHeight (vUpgrades p idx)) upgrade_indices)"

definition NextEpoch :: "int \<Rightarrow> ConsensusParams \<Rightarrow> UpgradeIndex option" where
  "NextEpoch nHeight p =
     (if nHeight < 0 then None
      else find (\<lambda>idx. NetworkUpgradeState nHeight p idx = Some UPGRADE_PENDING) upgrade_indices)"

definition NextActivationHeight :: "int \<Rightarrow> ConsensusParams \<Rightarrow> int option" where
  "NextActivationHeight nHeight p =
     map_option (\<lambda>idx. nActivationHeight (vUpgrades p idx)) (NextEpoch nHeight p)"

definition IsTimeProtocolV2 :: "ConsensusParams \<Rightarrow> int \<Rightarrow> bool" where
  "IsTimeProtocolV2 p nHeight = Params_NetworkUpgradeActive p nHeight UPGRADE_TIME_PROTOCOL_V2"

definition FutureBlockTimeDrift :: "ConsensusParams \<Rightarrow> int \<Rightarrow> int" where
  "FutureBlockTimeDrift p nHeight =
     (if IsTimeProtocolV2 p nHeight then nTimeSlotLength p - 1
      else if Params_NetworkUpgradeActive p nHeight UPGRADE_POS then nFutureTimeDriftPoS p
      else nFutureTimeDriftPoW p)"

text \<open>The remainder is compared with zero only, so truncated and floored division agree.\<close>

definition IsValidBlockTimeStamp :: "ConsensusParams \<Rightarrow> int \<Rightarrow> int \<Rightarrow> bool" where
  "IsValidBlockTimeStamp p nTime nHeight =
     (if \<not> IsTimeProtocolV2 p nHeight then True else nTime mod nTimeSlotLength p = 0)"

section \<open>The networks\<close>

text \<open>
  The constructors \<open>CMainParams\<close>, \<open>CTestNetParams\<close> and \<open>CRegTestParams\<close>.  Each derived class
  runs the constructor of its base first, so a field it does not assign keeps the value of the
  base.  Protocol versions are never assigned (static storage, zero).
\<close>

definition COIN :: int where
  "COIN = 100000000"

definition upgrade_at :: "int \<Rightarrow> NetworkUpgrade" where
  "upgrade_at h = \<lparr>nProtocolVersion = 0, nActivationHeight = h, hashActivationBlock = None\<rparr>"

definition upgrade_at0 :: "int \<Rightarrow> NetworkUpgrade" where
  "upgrade_at0 h = \<lparr>nProtocolVersion = 0, nActivationHeight = h, hashActivationBlock = Some 0\<rparr>"

primrec mainUpgrades :: "UpgradeIndex \<Rightarrow> NetworkUpgrade" where
  "mainUpgrades BASE_NETWORK = upgrade_at ALWAYS_ACTIVE"
| "mainUpgrades UPGRADE_TESTDUMMY = upgrade_at NO_ACTIVATION_HEIGHT"
| "mainUpgrades UPGRADE_POS = upgrade_at0 200"
| "mainUpgrades UPGRADE_BIP65 = upgrade_at0 200"
| "mainUpgrades UPGRADE_TIME_PROTOCOL_V2 = upgrade_at0 200"
| "mainUpgrades UPGRADE_P2PKH_BLOCK_SIGNATURES = upgrade_at0 200"
| "mainUpgrades UPGRADE_STAKE_MIN_DEPTH_V2 = upgrade_at0 5001"
| "mainUpgrades UPGRADE_MASTERNODE_RANK_V2 = upgrade_at0 200"
| "mainUpgrades UPGRADE_ADAM = upgrade_at0 200"
| "mainUpgrades UPGRADE_ADAM_V2 = upgrade_at0 705"
| "mainUpgrades UPGRADE_POMBL = upgrade_at0 2000"
| "mainUpgrades UPGRADE_MODELD = upgrade_at0 2200"
| "mainUpgrades MAX_NETWORK_UPGRADES = upgrade_at 0"

definition mainConsensus :: ConsensusParams where
  "mainConsensus = \<lparr>
     hashGenesisBlock = 0x0000050d4a94e97a9491c2ddde1251ff040772fee943e653fe583d5737e4d5e3,
     powLimit = limbs_shr (limbs_not (limbs_zero 8)) 20,
     posLimitV1 = limbs_shr (limbs_not (limbs_zero 8)) 24,
     posLimitV2 = limbs_shr (limbs_not (limbs_zero 8)) 20,
     nCoinbaseMaturity = 100,
     nFutureTimeDriftPoW = 7200,
     nFutureTimeDriftPoS = 180,
     nMaxMoneyOut = 210000000 * COIN,
     nPoolMaxTransactions = 3,
     nStakeMinAge = 60 * 60,
     nStakeMinDepth = 100,
     nStakeMinDepthV2 = 600,
     nTargetTimespan = 40 * 60,
     nTargetTimespanV2 = 30 * 60,
     nTargetSpacing = 30,
     nTimeSlotLength = 15,
     nAdamMinersCount = 11,
     nAdamThreshold = 7,
     nAdamDifficultyShiftV1 = 10,
     nAdamDifficultyShiftV2 = 6,
     nAdamBootstrapLimit = 44850,
     nAdamThresholdBootstrapLimit = 50000,
     nAdamStrictHeight = 2500,
     nAdamQuorumEnforcementHeight = 200,
     nBurnDecayBlocks = 500000,
     nMasternodeUptimeLimit = 100000,
     nTreasuryGovernanceStartHeight = 2880,
     mBurnAddresses = [(''KTburnCYcDjF1GsXa5k3tc3eZrVVbqefyWr'', 0), (''KTburnUHdmKMVx4z8BcnZYZCWYKxRgfZp95'', 0)],
     strSporkPubKey = ''024897ee03b6f8133aa5fc926c8f9fd83b1454a817fda9fc907de18866eba0030a'',
     strSporkPubKeyOld = [],
     nTime_EnforceNewSporkKey = 0,
     nTime_RejectOldSporkKey = 0,
     vUpgrades = mainUpgrades\<rparr>"

definition testUpgrades :: "UpgradeIndex \<Rightarrow> NetworkUpgrade" where
  "testUpgrades = mainUpgrades(
     UPGRADE_ADAM_V2 := upgrade_at0 300,
     UPGRADE_POMBL := upgrade_at0 400,
     UPGRADE_MODELD := upgrade_at0 500)"

definition testConsensus :: ConsensusParams where
  "testConsensus = mainConsensus\<lparr>
     hashGenesisBlock := 0x00000e861e53873b7022fd0b9acabb804bd9eb14b8efe9ab20fe94ff3d24ca90,
     powLimit := limbs_shr (limbs_not (limbs_zero 8)) 20,
     posLimitV1 := limbs_shr (limbs_not (limbs_zero 8)) 24,
     posLimitV2 := limbs_shr (limbs_not (limbs_zero 8)) 20,
     nCoinbaseMaturity := 15,
     nFutureTimeDriftPoW := 7200,
     nFutureTimeDriftPoS := 180,
     nMaxMoneyOut := 43199500 * COIN,
     nPoolMaxTransactions := 2,
     nStakeMinAge := 0,
     nStakeMinDepth := 30,
     nStakeMinDepthV2 := 30,
     nTargetTimespan := 40 * 60,
     nTargetTimespanV2 := 30 * 60,
     nTargetSpacing := 30,
     nTimeSlotLength := 15,
     nAdamMinersCount := 11,
     nAdamThreshold := 3,
     nAdamDifficultyShiftV1 := 10,
     nAdamDifficultyShiftV2 := 6,
     nAdamBootstrapLimit := 100000,
     nAdamThresholdBootstrapLimit := 100000,
     nAdamStrictHeight := 500,
     nAdamQuorumEnforcementHeight := 0,
     nBurnDecayBlocks := 10000,
     nMasternodeUptimeLimit := 10000,
     mBurnAddresses := [(''ktBurn42LtQP2pJ2fS5X2kpRx4Sd86kNgx4'', 0), (''ktBurnKmNRzVXVVVDXxFhhKytkH5x2yqsCG'', 0)],
     strSporkPubKey := ''03b4394f924c8bdbea7379fbcde9bf1b5a32d0f04631312b18c4ba3889a89b6a0d'',
     strSporkPubKeyOld := [],
     nTime_EnforceNewSporkKey := 0,
     nTime_RejectOldSporkKey := 0,
     nTreasuryGovernanceStartHeight := 200,
     vUpgrades := testUpgrades\<rparr>"

text \<open>Assigning a height keeps the activation block the base class has set.\<close>

definition set_activation :: "UpgradeIndex \<Rightarrow> int \<Rightarrow> (UpgradeIndex \<Rightarrow> NetworkUpgrade) \<Rightarrow> UpgradeIndex \<Rightarrow> NetworkUpgrade" where
  "set_activation idx h v = v(idx := (v idx)\<lparr>nActivationHeight := h\<rparr>)"

definition regUpgrades :: "UpgradeIndex \<Rightarrow> NetworkUpgrade" where
  "regUpgrades =
     fold (\<lambda>(i, h). set_activation i h)
       [(BASE_NETWORK, ALWAYS_ACTIVE), (UPGRADE_TESTDUMMY, NO_ACTIVATION_HEIGHT), (UPGRADE_POS, 251),
        (UPGRADE_BIP65, ALWAYS_ACTIVE), (UPGRADE_TIME_PROTOCOL_V2, ALWAYS_ACTIVE),
        (UPGRADE_P2PKH_BLOCK_SIGNATURES, 300), (UPGRADE_ADAM, 200), (UPGRADE_ADAM_V2, 705),
        (UPGRADE_POMBL, 300), (UPGRADE_MODELD, 200)] testUpgrades"

definition regConsensus :: ConsensusParams where
  "regConsensus = testConsensus\<lparr>
     hashGenesisBlock := 0x00000e861e53873b7022fd0b9acabb804bd9eb14b8efe9ab20fe94ff3d24ca90,
     powLimit := limbs_shr (limbs_not (limbs_zero 8)) 20,
     posLimitV1 := limbs_shr (limbs_not (limbs_zero 8)) 24,
     posLimitV2 := limbs_shr (limbs_not (limbs_zero 8)) 20,
     nCoinbaseMaturity := 10,
     nFutureTimeDriftPoW := 7200,
     nFutureTimeDriftPoS := 180,
     nMaxMoneyOut := 43199500 * COIN,
     nPoolMaxTransactions := 2,
     nStakeMinAge := 0,
     nStakeMinDepth := 2,
     nTargetTimespan := 40 * 60,
     nTargetTimespanV2 := 30 * 60,
     nTargetSpacing := 10,
     nTimeSlotLength := 15,
     nAdamMinersCount := 11,
     nAdamThreshold := 7,
     nAdamDifficultyShiftV1 := 10,
     nAdamDifficultyShiftV2 := 6,
     nAdamBootstrapLimit := 1000,
     nAdamThresholdBootstrapLimit := 1000,
     nAdamStrictHeight := 1100,
     nAdamQuorumEnforcementHeight := 0,
     nBurnDecayBlocks := 10000,
     nMasternodeUptimeLimit := 10000,
     strSporkPubKey := ''043969b1b0e6f327de37f297a015d37e2235eaaeeb3933deecd8162c075cee0207b13537618bde640879606001a8136091c62ec272dd0133424a178704e6e75bb7'',
     strSporkPubKeyOld := [],
     nTime_EnforceNewSporkKey := 0,
     nTime_RejectOldSporkKey := 0,
     nTreasuryGovernanceStartHeight := 100,
     vUpgrades := regUpgrades\<rparr>"

text \<open>\<open>UpdateNetworkUpgradeParameters\<close> of the regression test network; \<open>None\<close> is its assertion.\<close>

definition UpdateNetworkUpgradeParameters :: "UpgradeIndex \<Rightarrow> int \<Rightarrow> ConsensusParams \<Rightarrow> ConsensusParams option" where
  "UpdateNetworkUpgradeParameters idx h p =
     (if idx > BASE_NETWORK \<and> idx < MAX_NETWORK_UPGRADES
      then Some (p\<lparr>vUpgrades := set_activation idx h (vUpgrades p)\<rparr>) else None)"

section \<open>Upgrade states by activation height\<close>

lemma upgrade_in_range [simp]:
  "BASE_NETWORK \<le> i"
  "i < MAX_NETWORK_UPGRADES \<longleftrightarrow> i \<noteq> MAX_NETWORK_UPGRADES"
  "MAX_NETWORK_UPGRADES \<le> i \<longleftrightarrow> i = MAX_NETWORK_UPGRADES"
  by (cases i; simp add: less_eq_UpgradeIndex_def less_UpgradeIndex_def)+

abbreviation activation :: "ConsensusParams \<Rightarrow> UpgradeIndex \<Rightarrow> int" where
  "activation p i \<equiv> nActivationHeight (vUpgrades p i)"

lemma NetworkUpgradeState_simps:
  assumes "0 \<le> h" and "i \<noteq> MAX_NETWORK_UPGRADES"
  shows "NetworkUpgradeState h p i = Some UPGRADE_ACTIVE \<longleftrightarrow> activation p i \<noteq> - 1 \<and> activation p i \<le> h"
    and "NetworkUpgradeState h p i = Some UPGRADE_PENDING \<longleftrightarrow> h < activation p i"
    and "NetworkUpgradeState h p i \<noteq> None"
  using assms by (auto simp: NetworkUpgradeState_def NO_ACTIVATION_HEIGHT_def Let_def)

lemma upgrade_active_iff:
  "Params_NetworkUpgradeActive p h i \<longleftrightarrow>
     i \<noteq> MAX_NETWORK_UPGRADES \<and> 0 \<le> h \<and> activation p i \<noteq> - 1 \<and> activation p i \<le> h"
  by (auto simp: Params_NetworkUpgradeActive_def NetworkUpgradeState_simps)

lemma NetworkUpgradeActive_member:
  "0 \<le> h \<Longrightarrow> i \<noteq> MAX_NETWORK_UPGRADES \<Longrightarrow>
     NetworkUpgradeActive h p i = Some (Params_NetworkUpgradeActive p h i)"
  using NetworkUpgradeState_simps(3) [of h i p]
  by (auto simp: NetworkUpgradeActive_def Params_NetworkUpgradeActive_def)

lemma upgrade_active_mono:
  "Params_NetworkUpgradeActive p h i \<Longrightarrow> h \<le> h' \<Longrightarrow> Params_NetworkUpgradeActive p h' i"
  by (auto simp: upgrade_active_iff)

lemma CurrentEpoch_loop_eq:
  assumes "0 \<le> h" and "MAX_NETWORK_UPGRADES \<notin> set is"
  shows "CurrentEpoch_loop h p is =
    Some (case find (Params_NetworkUpgradeActive p h) is of None \<Rightarrow> BASE_NETWORK | Some i \<Rightarrow> i)"
  using assms(2) by (induction "is") (use assms(1) in \<open>auto simp: NetworkUpgradeActive_member\<close>)

section \<open>Epochs and activation heights\<close>

lemma find_sorted_least:
  "sorted_wrt (<) (xs :: 'a :: linorder list) \<Longrightarrow> find P xs = Some x \<Longrightarrow> y \<in> set xs \<Longrightarrow> P y \<Longrightarrow> x \<le> y"
  by (induction xs) (auto split: if_splits)

lemma find_sorted_greatest:
  "sorted_wrt (\<lambda>x y. y < x) (xs :: 'a :: linorder list) \<Longrightarrow> find P xs = Some x \<Longrightarrow> y \<in> set xs \<Longrightarrow> P y \<Longrightarrow> y \<le> x"
  by (induction xs) (auto split: if_splits)

lemma find_rev_greatest:
  "sorted_wrt (<) (xs :: 'a :: linorder list) \<Longrightarrow> find P (rev xs) = Some x \<Longrightarrow> y \<in> set xs \<Longrightarrow> P y \<Longrightarrow> y \<le> x"
  using find_sorted_greatest [of "rev xs" P x y] by (simp add: sorted_wrt_rev)

lemma find_SomeD: "find P xs = Some x \<Longrightarrow> x \<in> set xs \<and> P x"
  by (auto simp: find_Some_iff)

lemma CurrentEpoch_eq:
  "0 \<le> h \<Longrightarrow> CurrentEpoch h p =
    Some (case find (Params_NetworkUpgradeActive p h) (rev upgrade_indices) of None \<Rightarrow> BASE_NETWORK | Some i \<Rightarrow> i)"
  unfolding CurrentEpoch_def by (rule CurrentEpoch_loop_eq) (simp_all add: set_upgrade_indices)

lemma NextEpoch_SomeD:
  "NextEpoch h p = Some i \<Longrightarrow> 0 \<le> h \<and> i \<in> set upgrade_indices \<and> h < activation p i"
  by (auto simp: NextEpoch_def NetworkUpgradeState_simps set_upgrade_indices dest!: find_SomeD split: if_splits)

lemma NextEpoch_least:
  assumes "NextEpoch h p = Some i" and "j \<in> set upgrade_indices" and "h < activation p j"
  shows "i \<le> j"
proof (rule find_sorted_least [OF sorted_upgrade_indices])
  show "find (\<lambda>idx. NetworkUpgradeState h p idx = Some UPGRADE_PENDING) upgrade_indices = Some i"
    using assms(1) by (simp add: NextEpoch_def split: if_splits)
  show "NetworkUpgradeState h p j = Some UPGRADE_PENDING"
    using NextEpoch_SomeD [OF assms(1)] assms by (simp add: NetworkUpgradeState_simps set_upgrade_indices)
qed (rule assms(2))

lemma NextEpoch_None:
  "0 \<le> h \<Longrightarrow> NextEpoch h p = None \<longleftrightarrow> (\<forall>j \<in> set upgrade_indices. \<not> h < activation p j)"
  by (auto simp: NextEpoch_def find_None_iff NetworkUpgradeState_simps set_upgrade_indices)

text \<open>The enumeration order is the activation order, on the upgrades that are scheduled at all.\<close>

definition upgrades_in_order :: "ConsensusParams \<Rightarrow> bool" where
  "upgrades_in_order p \<longleftrightarrow>
     (\<forall>i \<in> set upgrade_indices. \<forall>j \<in> set upgrade_indices.
        i < j \<longrightarrow> activation p i \<noteq> - 1 \<longrightarrow> activation p j \<noteq> - 1 \<longrightarrow> activation p i \<le> activation p j)"

lemma NextActivationHeight_minimal:
  assumes "upgrades_in_order p" and "NextActivationHeight h p = Some a"
    and "j \<in> set upgrade_indices" and "h < activation p j"
  shows "a \<le> activation p j"
proof -
  obtain i where i: "NextEpoch h p = Some i" "a = activation p i"
    using assms(2) by (auto simp: NextActivationHeight_def)
  then have "0 \<le> h" "i \<in> set upgrade_indices" "h < activation p i"
    using NextEpoch_SomeD by auto
  moreover have "i \<le> j" using NextEpoch_least [OF i(1) assms(3,4)] .
  ultimately show ?thesis
    using assms(1,3,4) i(2) unfolding upgrades_in_order_def by (cases "i = j") auto
qed

text \<open>
  For every parameter set and every height that is not negative, \<open>CurrentEpoch\<close> returns
  normally, and its answer is the upgrade with the greatest index among those active at that
  height; it is \<open>BASE_NETWORK\<close> exactly when no other upgrade is active.
\<close>

lemma CurrentEpoch_greatest_active:
  assumes "0 \<le> nHeight"
  shows "\<exists>i. CurrentEpoch nHeight p = Some i
    \<and> (i \<noteq> BASE_NETWORK \<longrightarrow> Params_NetworkUpgradeActive p nHeight i)
    \<and> (\<forall>j. Params_NetworkUpgradeActive p nHeight j \<longrightarrow> j \<le> i)"
proof (cases "find (Params_NetworkUpgradeActive p nHeight) (rev upgrade_indices)")
  case None
  then have "Params_NetworkUpgradeActive p nHeight j \<Longrightarrow> j = BASE_NETWORK" for j
    by (auto simp: find_None_iff set_upgrade_indices upgrade_active_iff)
  with None assms show ?thesis by (auto simp: CurrentEpoch_eq)
next
  case (Some i)
  have "j \<le> i" if "Params_NetworkUpgradeActive p nHeight j" for j
  proof (cases "j = BASE_NETWORK")
    case False
    with that have "j \<in> set upgrade_indices" by (simp add: set_upgrade_indices upgrade_active_iff)
    with sorted_upgrade_indices Some show ?thesis using that by (rule find_rev_greatest)
  qed simp
  with Some assms find_SomeD [OF Some] show ?thesis by (auto simp: CurrentEpoch_eq)
qed

text \<open>
  When the scheduled upgrades are enumerated in the order in which they activate,
  \<open>NextActivationHeight\<close> is the least activation height above the given height, and it is
  \<open>nullopt\<close> exactly when no upgrade is pending.
\<close>

lemma NextActivationHeight_least:
  assumes "upgrades_in_order p" and "0 \<le> nHeight"
  shows "(case NextActivationHeight nHeight p of
       None \<Rightarrow> (\<forall>j \<in> set upgrade_indices. activation p j \<le> nHeight)
     | Some a \<Rightarrow> nHeight < a \<and> (\<exists>i \<in> set upgrade_indices. activation p i = a)
         \<and> (\<forall>j \<in> set upgrade_indices. nHeight < activation p j \<longrightarrow> a \<le> activation p j))"
proof (cases "NextActivationHeight nHeight p")
  case None
  then have "NextEpoch nHeight p = None" by (simp add: NextActivationHeight_def)
  then show ?thesis
    using assms(2) None NextEpoch_None [of nHeight p] by (auto simp: not_less)
next
  case (Some a)
  then have "nHeight < a \<and> (\<exists>i \<in> set upgrade_indices. activation p i = a)"
    by (auto simp: NextActivationHeight_def dest!: NextEpoch_SomeD)
  with Some show ?thesis
    using NextActivationHeight_minimal [OF assms(1) Some] by auto
qed

text \<open>
  The main network does not list its upgrades in activation order: from height 300 the next
  epoch reported is \<open>UPGRADE_STAKE_MIN_DEPTH_V2\<close> at 5001, although \<open>UPGRADE_ADAM_V2\<close> activates
  at 705, and at 5001 the epoch reported is still \<open>UPGRADE_MODELD\<close>.
\<close>

lemma mainConsensus_not_in_order:
  "\<not> upgrades_in_order mainConsensus
    \<and> NextActivationHeight 300 mainConsensus = Some 5001
    \<and> activation mainConsensus UPGRADE_ADAM_V2 = 705
    \<and> CurrentEpoch 5001 mainConsensus = Some UPGRADE_MODELD
    \<and> IsActivationHeight 5001 mainConsensus UPGRADE_STAKE_MIN_DEPTH_V2 = Some True"
  by code_simp

end
