(* ===== verification/Pow.thy ===== *)
theory Pow
  imports ConsensusParams "HOL-Library.Signed_Division"
begin

text \<open>
  Proof of work and difficulty adjustment (\<open>src/src/pow.cpp\<close>), over the limb arrays of
  \<open>Uint256\<close>.  The ancestry of a block index (the \<open>pprev\<close> chain) is a list, most recent block
  first, and the null pointer is the empty list.  Signed 64-bit intermediate values are \<open>int\<close>;
  where such a value reaches a big integer the conversion of the selected overload is written out:
  \<open>uint256 * int64_t\<close> selects \<open>operator*(uint32_t)\<close> and keeps the low 32 bits, while
  \<open>uint256 / int64_t\<close> converts through \<open>base_uint(uint64_t)\<close>.
\<close>

section \<open>Definitions\<close>

record PowIndex =
  bi_nHeight :: int
  bi_nTime :: u32
  bi_nBits :: u32

definition bi_GetBlockTime :: "PowIndex \<Rightarrow> int" where
  "bi_GetBlockTime b = uint (bi_nTime b)"

text \<open>Ways in which the routine does not return: an exception, an assertion, or undefined behaviour.\<close>

datatype pow_error = PowUint uint_error | PowAssert | PowNullPointer | PowIntDivZero

definition compact_result :: "limbs \<Rightarrow> pow_error + u32" where
  "compact_result a = (case GetCompact a False of None \<Rightarrow> Inl PowAssert | Some c \<Rightarrow> Inr c)"

definition limbs_of_int :: "int \<Rightarrow> limbs" where
  "limbs_of_int x = limbs_of_u64 8 (word_of_int x)"

subsection \<open>Proof-of-stake retarget\<close>

definition pos_spacing :: "ConsensusParams \<Rightarrow> bool \<Rightarrow> int \<Rightarrow> int" where
  "pos_spacing p fTimeV2 dt =
     (let s1 = (if dt < 0 then 1 else dt)
      in if fTimeV2 \<and> s1 > nTargetSpacing p * 10 then nTargetSpacing p * 10 else s1)"

definition pos_retarget :: "ConsensusParams \<Rightarrow> bool \<Rightarrow> int \<Rightarrow> limbs \<Rightarrow> pow_error + limbs" where
  "pos_retarget p fTimeV2 nActualSpacing bn =
     (if nTargetSpacing p = 0 then Inl PowIntDivZero
      else let nInterval = TargetTimespan p fTimeV2 sdiv nTargetSpacing p;
               bn1 = limbs_mul32 bn (word_of_int ((nInterval - 1) * nTargetSpacing p + nActualSpacing + nActualSpacing));
               bnTargetLimit = ProofOfStakeLimit p fTimeV2
           in case limbs_div bn1 (limbs_of_int ((nInterval + 1) * nTargetSpacing p)) of
                Inl e \<Rightarrow> Inl (PowUint e)
              | Inr bnNew \<Rightarrow>
                  if limbs_compare bnNew (limbs_of_u64 8 0) \<le> 0 \<or> limbs_compare bnNew bnTargetLimit > 0
                  then Inr bnTargetLimit else Inr bnNew)"

subsection \<open>Dark Gravity Wave\<close>

record DgwState =
  dgw_nActualTimespan :: int
  dgw_LastBlockTime :: int
  dgw_CountBlocks :: int
  dgw_Average :: limbs
  dgw_AveragePrev :: limbs

definition dgw_init :: DgwState where
  "dgw_init = \<lparr>dgw_nActualTimespan = 0, dgw_LastBlockTime = 0, dgw_CountBlocks = 0,
     dgw_Average = limbs_zero 8, dgw_AveragePrev = limbs_zero 8\<rparr>"

definition dgw_step :: "PowIndex \<Rightarrow> DgwState \<Rightarrow> uint_error + DgwState" where
  "dgw_step b s =
     (let c = dgw_CountBlocks s + 1;
          target = fst (SetCompact (bi_nBits b));
          avg = (if c \<le> 24
                 then if c = 1 then Inr target
                      else limbs_div (limbs_add (limbs_mul32 (dgw_AveragePrev s) (word_of_int c)) target)
                             (limbs_of_int (c + 1))
                 else Inr (dgw_Average s))
      in case avg of
           Inl e \<Rightarrow> Inl e
         | Inr a \<Rightarrow> Inr \<lparr>
             dgw_nActualTimespan = (if dgw_LastBlockTime s > 0
               then dgw_nActualTimespan s + (dgw_LastBlockTime s - bi_GetBlockTime b)
               else dgw_nActualTimespan s),
             dgw_LastBlockTime = bi_GetBlockTime b,
             dgw_CountBlocks = c,
             dgw_Average = a,
             dgw_AveragePrev = (if c \<le> 24 then a else dgw_AveragePrev s)\<rparr>)"

fun dgw_loop :: "int \<Rightarrow> PowIndex list \<Rightarrow> DgwState \<Rightarrow> uint_error + DgwState" where
  "dgw_loop i [] s = Inr s"
| "dgw_loop i (b # bs) s =
     (if \<not> bi_nHeight b > 0 then Inr s
      else if i > 24 then Inr s
      else case dgw_step b s of
             Inl e \<Rightarrow> Inl e
           | Inr s' \<Rightarrow> if bs = [] then Inr s' else dgw_loop (i + 1) bs s')"

definition dgw_clamp :: "int \<Rightarrow> int \<Rightarrow> int" where
  "dgw_clamp nTargetTimespan' ts =
     (let ts1 = (if ts < nTargetTimespan' sdiv 3 then nTargetTimespan' sdiv 3 else ts)
      in if ts1 > nTargetTimespan' * 3 then nTargetTimespan' * 3 else ts1)"

definition dgw_retarget :: "ConsensusParams \<Rightarrow> DgwState \<Rightarrow> uint_error + limbs" where
  "dgw_retarget p s =
     (let tts = dgw_CountBlocks s * nTargetSpacing p;
          ts = dgw_clamp tts (dgw_nActualTimespan s)
      in case limbs_div (limbs_mul32 (dgw_Average s) (word_of_int ts)) (limbs_of_int tts) of
           Inl e \<Rightarrow> Inl e
         | Inr bnNew \<Rightarrow> if limbs_compare bnNew (powLimit p) > 0 then Inr (powLimit p) else Inr bnNew)"

subsection \<open>The routine\<close>

definition GetNextWorkRequired ::
  "bool \<Rightarrow> bool \<Rightarrow> ConsensusParams \<Rightarrow> PowIndex list \<Rightarrow> int option \<Rightarrow> pow_error + u32" where
  "GetNextWorkRequired minpowdifficulty fRegTest p pindexLast nVersion =
     (if minpowdifficulty then compact_result (powLimit p)
      else if fRegTest then (case pindexLast of [] \<Rightarrow> Inl PowNullPointer | b # _ \<Rightarrow> Inr (bi_nBits b))
      else case pindexLast of
        [] \<Rightarrow> compact_result (powLimit p)
      | b # bs \<Rightarrow>
          if bi_nHeight b = 0 \<or> bi_nHeight b < 24 then compact_result (powLimit p)
          else let fIsAdam = (case nVersion of None \<Rightarrow> False | Some v \<Rightarrow> v \<ge> 11)
               in if Params_NetworkUpgradeActive p (bi_nHeight b + 1) UPGRADE_POS \<and> \<not> fIsAdam
                  then (case bs of
                      [] \<Rightarrow> Inl PowNullPointer
                    | b' # _ \<Rightarrow>
                        let fTimeV2 = (\<not> fRegTest \<and> IsTimeProtocolV2 p (bi_nHeight b + 1));
                            spacing = pos_spacing p fTimeV2 (bi_GetBlockTime b - bi_GetBlockTime b');
                            bn0 = fst (SetCompact (bi_nBits b));
                            bn = (if fTimeV2 \<and> \<not> IsTimeProtocolV2 p (bi_nHeight b) then limbs_shl bn0 4 else bn0)
                        in case pos_retarget p fTimeV2 spacing bn of
                             Inl e \<Rightarrow> Inl e
                           | Inr bnNew \<Rightarrow> compact_result bnNew)
                  else (case dgw_loop 1 pindexLast dgw_init of
                      Inl e \<Rightarrow> Inl (PowUint e)
                    | Inr s \<Rightarrow>
                        (case dgw_retarget p s of
                           Inl e \<Rightarrow> Inl (PowUint e)
                         | Inr bnNew \<Rightarrow> compact_result bnNew)))"

definition CheckProofOfWork :: "bool \<Rightarrow> ConsensusParams \<Rightarrow> uint256 \<Rightarrow> u32 \<Rightarrow> bool" where
  "CheckProofOfWork fRegTest p hash nBits =
     (if fRegTest then True
      else case SetCompact nBits of
        (bnTarget, fNegative, fOverflow) \<Rightarrow>
          if fNegative \<or> limbs_is_null bnTarget \<or> fOverflow \<or> limbs_compare bnTarget (powLimit p) > 0 then False
          else if limbs_compare (limbs_of_u256 hash) bnTarget > 0 then False
          else True)"

text \<open>The quotient cannot throw, which the result type records as a proof obligation.\<close>

definition GetBlockProof :: "u32 \<Rightarrow> uint_error + limbs" where
  "GetBlockProof nBits =
     (case SetCompact nBits of
        (bnTarget, fNegative, fOverflow) \<Rightarrow>
          if fNegative \<or> fOverflow \<or> limbs_is_null bnTarget then Inr (limbs_zero 8)
          else case limbs_div (limbs_not bnTarget) (limbs_add bnTarget (limbs_of_u64 8 1)) of
                 Inl e \<Rightarrow> Inl e
               | Inr q \<Rightarrow> Inr (limbs_add q (limbs_of_u64 8 1)))"

section \<open>Work and targets\<close>

text \<open>The value of a compact word read as a number, unbounded.\<close>

definition compact_target :: "u32 \<Rightarrow> nat" where
  "compact_target c = compact_word c * 256 ^ (compact_size c - 3)"

text \<open>A target the validation code accepts: positive, not zero and below \<open>2 ^ 256\<close>.\<close>

definition valid_target :: "u32 \<Rightarrow> bool" where
  "valid_target c \<longleftrightarrow> \<not> bit c 23 \<and> compact_word c \<noteq> 0 \<and> compact_target c < 2 ^ 256"

lemma compact_target_pos: "0 < compact_target c \<longleftrightarrow> compact_word c \<noteq> 0"
  by (simp add: compact_target_def)

lemma SetCompact_cases:
  obtains t n v where "SetCompact c = (t, n, v)" "length t = 8" "lval t = compact_target c mod 2 ^ 256"
    "n \<longleftrightarrow> compact_word c \<noteq> 0 \<and> bit c 23" "v \<longleftrightarrow> 2 ^ 256 \<le> compact_target c"
proof -
  obtain t n v where "SetCompact c = (t, n, v)" by (cases "SetCompact c")
  with length_SetCompact [of c] lval_SetCompact [of c] SetCompact_negative_iff [of c] SetCompact_overflow_iff [of c]
  show thesis by (intro that) (simp_all add: compact_target_def)
qed

lemma target_rejected_iff:
  assumes "SetCompact c = (t, n, v)"
  shows "n \<or> v \<or> limbs_is_null t \<longleftrightarrow> \<not> valid_target c"
proof (rule SetCompact_cases [of c])
  fix t' n' v'
  assume s: "SetCompact c = (t', n', v')" "length t' = 8" "lval t' = compact_target c mod 2 ^ 256"
    "n' \<longleftrightarrow> compact_word c \<noteq> 0 \<and> bit c 23" "v' \<longleftrightarrow> 2 ^ 256 \<le> compact_target c"
  with assms have "t' = t" "n' = n" "v' = v" by simp_all
  with s show ?thesis
    using compact_target_pos [of c]
    by (cases "compact_target c < 2 ^ 256") (auto simp: valid_target_def lval_eq_0_iff [symmetric])
qed

lemma valid_target_less: "valid_target c \<Longrightarrow> 0 < compact_target c \<and> compact_target c + 1 < 2 ^ 256"
proof -
  assume v: "valid_target c"
  have "compact_target c + 1 \<noteq> 2 ^ 256"
  proof
    assume eq: "compact_target c + 1 = 2 ^ 256"
    show False
    proof (cases "compact_size c \<le> 3")
      case True
      then show False using eq compact_word_bound [of c] by (simp add: compact_target_def)
    next
      case False
      then have "even (compact_target c)" by (simp add: compact_target_def)
      then have "odd (compact_target c + 1)" by simp
      then show False unfolding eq by simp
    qed
  qed
  with v show ?thesis using compact_target_pos [of c] by (auto simp: valid_target_def)
qed

lemma lval_one: "length (limbs_of_u64 8 1) = 8" "lval (limbs_of_u64 8 1) = 1"
  by (simp_all add: length_limbs_of_u64 lval_of_u64)

lemma GetBlockProof_invalid: "\<not> valid_target c \<Longrightarrow> GetBlockProof c = Inr (limbs_zero 8)"
  by (cases "SetCompact c") (auto simp: GetBlockProof_def target_rejected_iff [symmetric])

lemma GetBlockProof_valid:
  assumes "valid_target c"
  obtains w where "GetBlockProof c = Inr w" "length w = 8" "lval w = 2 ^ 256 div (compact_target c + 1)"
proof (rule SetCompact_cases [of c])
  fix t n v
  assume s: "SetCompact c = (t, n, v)" "length t = 8" "lval t = compact_target c mod 2 ^ 256"
    "n \<longleftrightarrow> compact_word c \<noteq> 0 \<and> bit c 23" "v \<longleftrightarrow> 2 ^ 256 \<le> compact_target c"
  have val: "lval t = compact_target c"
    using s(3) assms by (simp add: valid_target_def)
  note b = valid_target_less [OF assms]
  obtain q where q: "limbs_div (limbs_not t) (limbs_add t (limbs_of_u64 8 1)) = Inr q"
    "length (limbs_add q (limbs_of_u64 8 1)) = 8"
    "lval (limbs_add q (limbs_of_u64 8 1)) = 2 ^ 256 div (lval t + 1)"
    using b s(2) lval_one by (rule_tac limbs8.proof_val [of t "limbs_of_u64 8 1"]) (auto simp: val)
  have "\<not> (n \<or> v \<or> limbs_is_null t)"
    using target_rejected_iff [OF s(1)] assms by simp
  then have "GetBlockProof c = Inr (limbs_add q (limbs_of_u64 8 1))"
    by (simp add: GetBlockProof_def s(1) q(1))
  with q that show thesis by (simp add: val)
qed

section \<open>Retargeting\<close>

lemma sdiv_nonneg: "0 \<le> a \<Longrightarrow> 0 < b \<Longrightarrow> (a :: int) sdiv b = a div b"
  by (cases "a = 0") (simp_all add: signed_divide_int_def)

lemma unat_word_of_int32: "0 \<le> k \<Longrightarrow> k < 2 ^ 32 \<Longrightarrow> unat (word_of_int k :: u32) = nat k"
  by (simp add: unsigned_of_int take_bit_int_eq_self)

lemma unat_word_of_int64: "0 \<le> k \<Longrightarrow> k < 2 ^ 64 \<Longrightarrow> unat (word_of_int k :: u64) = nat k"
  by (simp add: unsigned_of_int take_bit_int_eq_self)

lemma limbs_of_int_val:
  "length (limbs_of_int k) = 8"
  "0 \<le> k \<Longrightarrow> k < 2 ^ 64 \<Longrightarrow> lval (limbs_of_int k) = nat k"
  by (simp_all add: limbs_of_int_def length_limbs_of_u64 lval_of_u64 unat_word_of_int64)

lemma limbs_compare_nat:
  assumes "length a = 8" "length b = 8"
  shows "limbs_compare a b > 0 \<longleftrightarrow> lval b < lval a" and "limbs_compare a b \<le> 0 \<longleftrightarrow> lval a \<le> lval b"
  using limbs_compare_correct [of a b] assms by (auto split: if_splits)

lemma scaled_quotient:
  assumes "length a = 8" "0 \<le> k" "k < 2 ^ 32" "0 < d" "d < 2 ^ 64" "lval a * nat k < 2 ^ 256"
  obtains q where "limbs_div (limbs_mul32 a (word_of_int k)) (limbs_of_int d) = Inr q" "length q = 8"
    "lval q = lval a * nat k div nat d"
  using assms limbs8.scale_val [of a "limbs_of_int d" "word_of_int k"]
  by (auto simp: limbs_of_int_val unat_word_of_int32)

lemma compact_result_ok:
  assumes "length a = 8"
  obtains c where "compact_result a = Inr c" "compact_target c \<le> lval a"
    "2 ^ 15 * (lval a - compact_target c) \<le> lval a" "lval a \<noteq> 0 \<Longrightarrow> valid_target c"
proof -
  obtain c t where r: "GetCompact a False = Some c" "SetCompact c = (t, False, False)" "length t = 8"
    "lval t = lval a div 256 ^ dropped_bytes a * 256 ^ dropped_bytes a"
    using assms by (rule SetCompact_GetCompact)
  obtain t' n v where s: "SetCompact c = (t', n, v)" "lval t' = compact_target c mod 2 ^ 256"
    "n \<longleftrightarrow> compact_word c \<noteq> 0 \<and> bit c 23" "v \<longleftrightarrow> 2 ^ 256 \<le> compact_target c"
    by (rule SetCompact_cases [of c])
  from s(4) r(2) s(1) have "compact_target c < 2 ^ 256" by simp
  with s(2) r(2) s(1) have val: "lval t = compact_target c" by simp
  have le: "compact_target c \<le> lval a" unfolding val [symmetric] r(4) by (rule div_times_less_eq_dividend)
  have "lval a - compact_target c = lval a mod 256 ^ dropped_bytes a"
    unfolding val [symmetric] r(4) by (rule minus_div_mult_eq_mod)
  with dropped_bytes_small [of a] have close: "2 ^ 15 * (lval a - compact_target c) \<le> lval a" by simp
  have "valid_target c" if "lval a \<noteq> 0"
  proof -
    have "compact_target c \<noteq> 0" using close that by auto
    then have "compact_word c \<noteq> 0" using compact_target_pos [of c] by auto
    with s(1,3) r(2) \<open>compact_target c < 2 ^ 256\<close> show ?thesis by (simp add: valid_target_def)
  qed
  with r(1) le close show thesis by (intro that) (simp_all add: compact_result_def)
qed

lemma compact_result_iff:
  assumes "length a = 8" "compact_result a = Inr c"
  shows "compact_target c \<le> lval a" "2 ^ 15 * (lval a - compact_target c) \<le> lval a"
    "lval a \<noteq> 0 \<Longrightarrow> valid_target c"
  by (rule compact_result_ok [OF assms(1)]; use assms(2) in simp)+

lemma compact_result_le:
  "length a = 8 \<Longrightarrow> compact_result a = Inr c \<Longrightarrow> lval a \<le> n \<Longrightarrow> compact_target c \<le> n"
  using compact_result_iff(1) [of a c] by simp

lemma limbs_div_InrD:
  assumes "limbs_div a b = Inr q" "length a = length b"
  shows "length q = length a \<and> lval b \<noteq> 0 \<and> lval q = lval a div lval b"
proof -
  have nz: "lval b \<noteq> 0" using assms(1) limbs_div_zero [of b a] by auto
  with limbs_div_correct [OF assms(2) nz] assms(1) show ?thesis by auto
qed

text \<open>What the difficulty code assumes of a parameter set.\<close>

definition pow_params_ok :: "ConsensusParams \<Rightarrow> bool" where
  "pow_params_ok p \<longleftrightarrow>
     length (powLimit p) = 8 \<and> length (posLimitV1 p) = 8 \<and> length (posLimitV2 p) = 8
     \<and> 0 < lval (powLimit p) \<and> 0 < lval (posLimitV1 p) \<and> 0 < lval (posLimitV2 p)
     \<and> 0 < nTargetSpacing p \<and> nTargetSpacing p < 2 ^ 58
     \<and> 0 \<le> nTargetTimespan p \<and> nTargetTimespan p < 2 ^ 62
     \<and> 0 \<le> nTargetTimespanV2 p \<and> nTargetTimespanV2 p < 2 ^ 62"

lemma pow_params_limits:
  assumes "pow_params_ok p"
  shows "length (powLimit p) = 8" "0 < lval (powLimit p)" "0 < nTargetSpacing p" "nTargetSpacing p < 2 ^ 58"
  using assms by (auto simp: pow_params_ok_def)

lemma pow_params_pos:
  assumes "pow_params_ok p"
  shows "length (ProofOfStakeLimit p v2) = 8" "0 < lval (ProofOfStakeLimit p v2)"
    "0 \<le> TargetTimespan p v2" "TargetTimespan p v2 < 2 ^ 62"
  using assms by (auto simp: pow_params_ok_def ProofOfStakeLimit_def TargetTimespan_def)

lemma pos_divisor:
  fixes p :: ConsensusParams and v2 :: bool
  assumes "pow_params_ok p"
  defines "I \<equiv> TargetTimespan p v2 sdiv nTargetSpacing p"
  shows "0 < (I + 1) * nTargetSpacing p" "(I + 1) * nTargetSpacing p < 2 ^ 64" "0 \<le> I"
proof -
  note l = pow_params_limits [OF assms(1)] pow_params_pos [OF assms(1), of v2]
  have I: "I = TargetTimespan p v2 div nTargetSpacing p"
    using l by (simp add: I_def sdiv_nonneg)
  with l show "0 \<le> I" by (simp add: pos_imp_zdiv_nonneg_iff)
  have "I * nTargetSpacing p \<le> TargetTimespan p v2"
    unfolding I using pos_mod_sign [OF l(3), of "TargetTimespan p v2"]
    by (simp add: minus_mod_eq_div_mult [symmetric])
  with l show "(I + 1) * nTargetSpacing p < 2 ^ 64" by (simp add: algebra_simps)
  from l \<open>0 \<le> I\<close> show "0 < (I + 1) * nTargetSpacing p" by simp
qed

text \<open>The clamping at the end of the proof-of-stake branch.\<close>

definition pos_bounded :: "nat \<Rightarrow> nat \<Rightarrow> nat" where
  "pos_bounded limit v = (if v = 0 \<or> limit < v then limit else v)"

lemma pos_retarget_quot:
  fixes p :: ConsensusParams and v2 :: bool and bn :: limbs and sp :: int
  assumes ok: "pow_params_ok p" and bn: "length bn = 8"
  defines "I \<equiv> TargetTimespan p v2 sdiv nTargetSpacing p"
  obtains q r where
    "limbs_div (limbs_mul32 bn (word_of_int ((I - 1) * nTargetSpacing p + sp + sp))) (limbs_of_int ((I + 1) * nTargetSpacing p)) = Inr q"
    "pos_retarget p v2 sp bn = Inr r" "length r = 8"
    "lval r = pos_bounded (lval (ProofOfStakeLimit p v2)) (lval q)"
proof -
  note l = pow_params_limits [OF ok] pow_params_pos [OF ok, of v2] and d = pos_divisor [OF ok, of v2, folded I_def]
  let ?n = "limbs_mul32 bn (word_of_int ((I - 1) * nTargetSpacing p + sp + sp))"
    and ?d = "limbs_of_int ((I + 1) * nTargetSpacing p)"
  have "lval ?d = nat ((I + 1) * nTargetSpacing p)"
    using d by (intro limbs_of_int_val) simp_all
  with d(1) have "lval ?d \<noteq> 0" by simp
  then obtain q where q: "limbs_div ?n ?d = Inr q" "length q = 8"
    using limbs_div_correct [of ?n ?d] bn by (auto simp: limbs_of_int_val)
  let ?r = "if limbs_compare q (limbs_of_u64 8 0) \<le> 0 \<or> limbs_compare q (ProofOfStakeLimit p v2) > 0
      then ProofOfStakeLimit p v2 else q"
  have "pos_retarget p v2 sp bn = Inr ?r"
    using q(1) l(3) by (simp add: pos_retarget_def Let_def I_def)
  moreover have "lval ?r = pos_bounded (lval (ProofOfStakeLimit p v2)) (lval q)"
    using limbs_compare_nat [OF q(2), of "limbs_of_u64 8 0"] limbs_compare_nat [OF q(2) l(5)]
    by (simp add: pos_bounded_def length_limbs_of_u64 lval_of_u64)
  ultimately show thesis using q l by (intro that) auto
qed

section \<open>Dark Gravity Wave\<close>

text \<open>
  The invariant of the averaging loop after \<open>k\<close> blocks, when all targets lie between \<open>lo\<close> and
  \<open>hi\<close> and the first block read has time \<open>t0\<close>.
\<close>

definition dgw_inv :: "nat \<Rightarrow> nat \<Rightarrow> int \<Rightarrow> nat \<Rightarrow> DgwState \<Rightarrow> bool" where
  "dgw_inv lo hi t0 k s \<longleftrightarrow> dgw_CountBlocks s = int k \<and>
     (if k = 0 then dgw_LastBlockTime s = 0 \<and> dgw_nActualTimespan s = 0
      else length (dgw_Average s) = 8 \<and> dgw_AveragePrev s = dgw_Average s
        \<and> lo \<le> lval (dgw_Average s) \<and> lval (dgw_Average s) \<le> hi
        \<and> 0 < dgw_LastBlockTime s \<and> dgw_nActualTimespan s = t0 - dgw_LastBlockTime s)"

lemma average_between:
  fixes a t lo hi c :: nat
  assumes "lo \<le> a" "a \<le> hi" "lo \<le> t" "t \<le> hi"
  shows "lo \<le> (a * c + t) div (c + 1)" "(a * c + t) div (c + 1) \<le> hi"
proof -
  have "lo * c + lo \<le> a * c + t" using assms by (intro add_mono mult_le_mono1)
  then have "lo * (c + 1) \<le> a * c + t" by simp
  then show "lo \<le> (a * c + t) div (c + 1)" by (simp add: less_eq_div_iff_mult_less_eq)
  have "a * c + t \<le> hi * c + hi" using assms by (intro add_mono mult_le_mono1)
  then have "a * c + t \<le> hi * (c + 1)" by simp
  then have "a * c + t < (hi + 1) * (c + 1)" by simp
  then have "(a * c + t) div (c + 1) < hi + 1" by (rule less_mult_imp_div_less)
  then show "(a * c + t) div (c + 1) \<le> hi" by simp
qed

lemma dgw_average:
  assumes a: "length a = 8" "lo \<le> lval a" "lval a \<le> hi" and t: "length t = 8" "lo \<le> lval t" "lval t \<le> hi"
    and c: "1 < c" "c \<le> 24" and hi: "hi < 2 ^ 250"
  obtains q where "limbs_div (limbs_add (limbs_mul32 a (word_of_int c)) t) (limbs_of_int (c + 1)) = Inr q"
    "length q = 8" "lo \<le> lval q" "lval q \<le> hi"
proof -
  let ?n = "limbs_add (limbs_mul32 a (word_of_int c)) t"
  have small: "lval a * nat c \<le> 2 ^ 250 * 24"
    using a hi c by (intro mult_le_mono) auto
  have "lval (limbs_mul32 a (word_of_int c)) = lval a * nat c"
    using small a c by (simp add: lval_mul32 unat_word_of_int32)
  moreover have "lval a * nat c + lval t < 2 ^ 256"
    using small t hi by simp
  ultimately have n: "lval ?n = lval a * nat c + lval t" "length ?n = 8"
    using a t by (simp_all add: lval_add)
  have d: "lval (limbs_of_int (c + 1)) = nat c + 1" "length (limbs_of_int (c + 1)) = 8"
    using c by (simp_all add: limbs_of_int_val nat_add_distrib)
  obtain q where q: "limbs_div ?n (limbs_of_int (c + 1)) = Inr q" "length q = 8"
    "lval q = (lval a * nat c + lval t) div (nat c + 1)"
    using limbs_div_correct [of ?n "limbs_of_int (c + 1)"] n d by auto
  then show thesis using average_between [OF a(2,3) t(2,3)] by (intro that) auto
qed

lemma dgw_step_inv:
  assumes "dgw_inv lo hi t0 k s" "k < 24" "hi < 2 ^ 250"
    and "lo \<le> lval (fst (SetCompact (bi_nBits b)))" "lval (fst (SetCompact (bi_nBits b))) \<le> hi"
    and "0 < bi_nTime b" "k = 0 \<Longrightarrow> t0 = bi_GetBlockTime b"
  obtains s' where "dgw_step b s = Inr s'" "dgw_inv lo hi t0 (Suc k) s'"
proof (cases "k = 0")
  case True
  with assms that show thesis
    by (auto simp: dgw_step_def dgw_inv_def bi_GetBlockTime_def word_less_def Let_def)
next
  case False
  then have i: "length (dgw_Average s) = 8" "lo \<le> lval (dgw_Average s)" "lval (dgw_Average s) \<le> hi"
    "dgw_AveragePrev s = dgw_Average s" "dgw_CountBlocks s = int k" "0 < dgw_LastBlockTime s"
    "dgw_nActualTimespan s = t0 - dgw_LastBlockTime s"
    using assms(1) by (simp_all add: dgw_inv_def)
  obtain q where q: "limbs_div (limbs_add (limbs_mul32 (dgw_Average s) (word_of_int (int k + 1)))
      (fst (SetCompact (bi_nBits b)))) (limbs_of_int (int k + 1 + 1)) = Inr q"
    "length q = 8" "lo \<le> lval q" "lval q \<le> hi"
    using False assms i by (rule_tac dgw_average [of "dgw_Average s" lo hi "fst (SetCompact (bi_nBits b))" "int k + 1"]) auto
  have "0 < bi_GetBlockTime b" using assms(6) by (simp add: bi_GetBlockTime_def word_less_def)
  with False q i assms(2) that show thesis
    by (simp add: dgw_step_def dgw_inv_def Let_def)
qed

lemma dgw_loop_inv:
  assumes "dgw_inv lo hi t0 k s" "k \<le> 24" "24 \<le> k + length bs" "hi < 2 ^ 250"
    and "\<forall>b \<in> set (take (24 - k) bs). 0 < bi_nHeight b \<and> 0 < bi_nTime b
      \<and> lo \<le> lval (fst (SetCompact (bi_nBits b))) \<and> lval (fst (SetCompact (bi_nBits b))) \<le> hi"
    and "k = 0 \<Longrightarrow> t0 = bi_GetBlockTime (hd bs)"
  obtains s' where "dgw_loop (int k + 1) bs s = Inr s'" "dgw_inv lo hi t0 24 s'"
    "k < 24 \<Longrightarrow> dgw_LastBlockTime s' = bi_GetBlockTime (bs ! (23 - k))"
  using assms
proof (induction bs arbitrary: k s thesis)
  case Nil
  then show thesis by simp
next
  case (Cons b bs)
  show thesis
  proof (cases "k = 24")
    case True
    with Cons.prems show thesis by (intro Cons.prems(1) [of s]) simp_all
  next
    case False
    with Cons.prems(3) have k: "k < 24" by simp
    then obtain j where j: "24 - k = Suc j" "j = 23 - k" by (cases "24 - k") auto
    have b: "0 < bi_nHeight b" "0 < bi_nTime b" "lo \<le> lval (fst (SetCompact (bi_nBits b)))"
      "lval (fst (SetCompact (bi_nBits b))) \<le> hi"
      using Cons.prems(6) by (simp_all add: j)
    obtain s1 where s1: "dgw_step b s = Inr s1" "dgw_inv lo hi t0 (Suc k) s1"
      using dgw_step_inv [OF Cons.prems(2) k Cons.prems(5) b(3,4,2)] Cons.prems(7) by auto
    have last: "dgw_LastBlockTime s1 = bi_GetBlockTime b"
      using s1(1) by (auto simp: dgw_step_def Let_def split: sum.splits)
    show thesis
    proof (cases "Suc k = 24")
      case True
      have "dgw_loop (int k + 1) (b # bs) s = Inr s1"
      proof (cases bs)
        case (Cons b' bs')
        with True b k s1 show ?thesis by simp
      qed (use b k s1 in simp)
      with True s1 last show thesis by (intro Cons.prems(1) [of s1]) simp_all
    next
      case False
      then have ne: "bs \<noteq> []" using Cons.prems(4) k by auto
      have rest: "\<forall>b \<in> set (take (24 - Suc k) bs). 0 < bi_nHeight b \<and> 0 < bi_nTime b
        \<and> lo \<le> lval (fst (SetCompact (bi_nBits b))) \<and> lval (fst (SetCompact (bi_nBits b))) \<le> hi"
        using Cons.prems(6) by (simp add: j)
      obtain s' where s': "dgw_loop (int (Suc k) + 1) bs s1 = Inr s'" "dgw_inv lo hi t0 24 s'"
        "dgw_LastBlockTime s' = bi_GetBlockTime (bs ! (23 - Suc k))"
        using Cons.IH [OF _ s1(2) _ _ Cons.prems(5) rest] False k Cons.prems(4) by auto
      have "dgw_loop (int k + 1) (b # bs) s = Inr s'"
        using s' s1 b k ne by (simp add: add.commute)
      moreover have "(b # bs) ! (23 - k) = bs ! (23 - Suc k)"
        using False k by (simp add: nth_Cons')
      ultimately show thesis using s' by (intro Cons.prems(1) [of s']) simp_all
    qed
  qed
qed

lemma dgw_clamp_range:
  "0 \<le> t \<Longrightarrow> t sdiv 3 \<le> dgw_clamp t x \<and> dgw_clamp t x \<le> t * 3"
  by (auto simp: dgw_clamp_def Let_def sdiv_nonneg)

lemma dgw_retarget_value:
  assumes "pow_params_ok p" "length (dgw_Average s) = 8"
    and "lval (dgw_Average s) * nat (72 * nTargetSpacing p) < 2 ^ 256"
    and "dgw_CountBlocks s = 24" "nTargetSpacing p < 2 ^ 25"
  defines "T \<equiv> 24 * nTargetSpacing p"
  obtains r where "dgw_retarget p s = Inr r" "length r = 8"
    "lval r = min (lval (powLimit p)) (lval (dgw_Average s) * nat (dgw_clamp T (dgw_nActualTimespan s)) div nat T)"
proof -
  note l = pow_params_limits [OF assms(1)]
  have T: "0 < T" "T < 2 ^ 30" using l assms(5) by (simp_all add: T_def)
  let ?c = "dgw_clamp T (dgw_nActualTimespan s)"
  have "0 \<le> T sdiv 3" using T by (simp add: sdiv_nonneg)
  then have c: "0 \<le> ?c" "?c < 2 ^ 32" using dgw_clamp_range [of T "dgw_nActualTimespan s"] T by simp_all
  have "nat ?c \<le> nat (72 * nTargetSpacing p)"
    using dgw_clamp_range [of T "dgw_nActualTimespan s"] T by (simp add: T_def nat_mono)
  then have "lval (dgw_Average s) * nat ?c \<le> lval (dgw_Average s) * nat (72 * nTargetSpacing p)" by simp
  also note assms(3)
  finally obtain q where q: "limbs_div (limbs_mul32 (dgw_Average s) (word_of_int ?c)) (limbs_of_int T) = Inr q"
    "length q = 8" "lval q = lval (dgw_Average s) * nat ?c div nat T"
    using assms(2) c T by (rule_tac scaled_quotient [of "dgw_Average s" ?c T]) auto
  let ?r = "if limbs_compare q (powLimit p) > 0 then powLimit p else q"
  have "dgw_retarget p s = Inr ?r"
    using q(1) by (simp add: dgw_retarget_def Let_def assms(4) T_def)
  moreover have "lval ?r = min (lval (powLimit p)) (lval q)"
    using limbs_compare_nat [OF q(2) l(1)] by simp
  ultimately show thesis using q l by (intro that) auto
qed

section \<open>Totality\<close>

lemma dgw_step_total:
  assumes "0 \<le> dgw_CountBlocks s" "length (dgw_Average s) = 8" "length (dgw_AveragePrev s) = 8"
  obtains s' where "dgw_step b s = Inr s'" "dgw_CountBlocks s' = dgw_CountBlocks s + 1"
    "length (dgw_Average s') = 8" "length (dgw_AveragePrev s') = 8"
proof -
  let ?c = "dgw_CountBlocks s + 1" and ?t = "fst (SetCompact (bi_nBits b))"
  let ?n = "limbs_add (limbs_mul32 (dgw_AveragePrev s) (word_of_int ?c)) ?t"
  have "\<exists>q. limbs_div ?n (limbs_of_int (?c + 1)) = Inr q \<and> length q = 8" if "?c \<le> 24"
    using limbs_div_correct [of ?n "limbs_of_int (?c + 1)"] that assms by (auto simp: limbs_of_int_val)
  then obtain a where a: "(if ?c \<le> 24 then if ?c = 1 then Inr ?t else limbs_div ?n (limbs_of_int (?c + 1))
      else Inr (dgw_Average s)) = Inr a" "length a = 8"
    using assms(2) by (cases "?c \<le> 24"; cases "?c = 1") auto
  have "dgw_step b s = Inr \<lparr>dgw_nActualTimespan = (if dgw_LastBlockTime s > 0
        then dgw_nActualTimespan s + (dgw_LastBlockTime s - bi_GetBlockTime b) else dgw_nActualTimespan s),
      dgw_LastBlockTime = bi_GetBlockTime b, dgw_CountBlocks = ?c, dgw_Average = a,
      dgw_AveragePrev = (if ?c \<le> 24 then a else dgw_AveragePrev s)\<rparr>"
    unfolding dgw_step_def Let_def a(1) by simp
  then show thesis by (rule that) (use a(2) assms(3) in simp_all)
qed

lemma dgw_loop_total:
  assumes "0 \<le> dgw_CountBlocks s" "length (dgw_Average s) = 8" "length (dgw_AveragePrev s) = 8"
    and "dgw_CountBlocks s + 1 = i" "i \<le> 25"
  obtains s' where "dgw_loop i bs s = Inr s'" "length (dgw_Average s') = 8"
    "dgw_CountBlocks s \<le> dgw_CountBlocks s'" "dgw_CountBlocks s' \<le> 24"
    "bs \<noteq> [] \<Longrightarrow> 0 < bi_nHeight (hd bs) \<Longrightarrow> 0 < dgw_CountBlocks s'"
  using assms
proof (induction bs arbitrary: i s thesis)
  case Nil
  then show thesis by (intro Nil.prems(1) [of s]) simp_all
next
  case (Cons b bs)
  obtain s1 where s1: "dgw_step b s = Inr s1" "dgw_CountBlocks s1 = dgw_CountBlocks s + 1"
    "length (dgw_Average s1) = 8" "length (dgw_AveragePrev s1) = 8"
    using Cons.prems(2-4) by (rule dgw_step_total)
  show thesis
  proof (cases "0 < bi_nHeight b \<and> i \<le> 24")
    case False
    with Cons.prems show thesis by (intro Cons.prems(1) [of s]) auto
  next
    case True
    obtain s' where "dgw_loop (i + 1) bs s1 = Inr s'" "length (dgw_Average s') = 8"
      "dgw_CountBlocks s1 \<le> dgw_CountBlocks s'" "dgw_CountBlocks s' \<le> 24"
      using Cons.IH [where s = s1 and i = "i + 1"] s1 True Cons.prems by auto
    with True s1 Cons.prems show thesis by (cases bs; intro Cons.prems(1) [of s']) auto
  qed
qed

lemma dgw_retarget_total:
  assumes "pow_params_ok p" "length (dgw_Average s) = 8" "0 < dgw_CountBlocks s" "dgw_CountBlocks s \<le> 24"
  obtains r where "dgw_retarget p s = Inr r" "length r = 8" "lval r \<le> lval (powLimit p)"
proof -
  note l = pow_params_limits [OF assms(1)]
  let ?T = "dgw_CountBlocks s * nTargetSpacing p"
  have "?T \<le> 24 * nTargetSpacing p" using l assms(4) by (intro mult_right_mono) simp_all
  also have "\<dots> < 2 ^ 64" using l by simp
  finally have T: "0 < ?T" "?T < 2 ^ 64" using l assms(3) by simp_all
  let ?n = "limbs_mul32 (dgw_Average s) (word_of_int (dgw_clamp ?T (dgw_nActualTimespan s)))"
  obtain q where q: "limbs_div ?n (limbs_of_int ?T) = Inr q" "length q = 8"
    using limbs_div_correct [of ?n "limbs_of_int ?T"] T assms(2) by (auto simp: limbs_of_int_val)
  let ?r = "if limbs_compare q (powLimit p) > 0 then powLimit p else q"
  have "dgw_retarget p s = Inr ?r" using q(1) by (simp add: dgw_retarget_def Let_def)
  moreover have "lval ?r \<le> lval (powLimit p)" using limbs_compare_nat [OF q(2) l(1)] by auto
  ultimately show thesis using q l by (intro that) auto
qed

text \<open>The limit that applies to the block after \<open>pindexLast\<close>: proof of stake or proof of work.\<close>

definition next_block_pos :: "ConsensusParams \<Rightarrow> PowIndex list \<Rightarrow> int option \<Rightarrow> bool" where
  "next_block_pos p hist nVersion \<longleftrightarrow>
     hist \<noteq> [] \<and> 24 \<le> bi_nHeight (hd hist) \<and> Params_NetworkUpgradeActive p (bi_nHeight (hd hist) + 1) UPGRADE_POS
       \<and> \<not> (\<exists>v. nVersion = Some v \<and> 11 \<le> v)"

definition next_work_limit :: "ConsensusParams \<Rightarrow> PowIndex list \<Rightarrow> int option \<Rightarrow> limbs" where
  "next_work_limit p hist nVersion =
     (if next_block_pos p hist nVersion
      then ProofOfStakeLimit p (IsTimeProtocolV2 p (bi_nHeight (hd hist) + 1)) else powLimit p)"

lemma GetNextWorkRequired_pos_branch:
  assumes "next_block_pos p (b # b' # bs) nVersion"
  shows "GetNextWorkRequired False False p (b # b' # bs) nVersion =
    (let fTimeV2 = IsTimeProtocolV2 p (bi_nHeight b + 1);
         bn0 = fst (SetCompact (bi_nBits b));
         bn = (if fTimeV2 \<and> \<not> IsTimeProtocolV2 p (bi_nHeight b) then limbs_shl bn0 4 else bn0)
     in case pos_retarget p fTimeV2 (pos_spacing p fTimeV2 (bi_GetBlockTime b - bi_GetBlockTime b')) bn of
          Inl e \<Rightarrow> Inl e | Inr bnNew \<Rightarrow> compact_result bnNew)"
  using assms
  by (auto simp: GetNextWorkRequired_def next_block_pos_def Let_def split: option.splits)

lemma GetNextWorkRequired_dgw_branch:
  assumes "\<not> next_block_pos p (b # bs) nVersion" "24 \<le> bi_nHeight b"
  shows "GetNextWorkRequired False False p (b # bs) nVersion =
    (case dgw_loop 1 (b # bs) dgw_init of
       Inl e \<Rightarrow> Inl (PowUint e)
     | Inr s \<Rightarrow> (case dgw_retarget p s of Inl e \<Rightarrow> Inl (PowUint e) | Inr bnNew \<Rightarrow> compact_result bnNew))"
  using assms
  by (auto simp: GetNextWorkRequired_def next_block_pos_def Let_def simp del: dgw_loop.simps split: option.splits)

lemma GetNextWorkRequired_genesis_branch:
  "hist = [] \<or> bi_nHeight (hd hist) < 24 \<Longrightarrow>
     GetNextWorkRequired False False p hist nVersion = compact_result (powLimit p)"
  by (cases hist) (auto simp: GetNextWorkRequired_def)

lemma lval_max_shr: "lval (limbs_shr (limbs_not (limbs_zero 8)) n) = (2 ^ 256 - 1) div 2 ^ n"
  by (simp add: limb_simps)

lemma length_max_shr: "length (limbs_shr (limbs_not (limbs_zero 8)) n) = 8"
  by simp

lemma mainConsensus_limits:
  "lval (powLimit mainConsensus) = 2 ^ 236 - 1" "lval (posLimitV1 mainConsensus) = 2 ^ 232 - 1"
  "lval (posLimitV2 mainConsensus) = 2 ^ 236 - 1"
  by (simp_all add: mainConsensus_def lval_max_shr)

lemma mainConsensus_pow_ok: "pow_params_ok mainConsensus"
  unfolding pow_params_ok_def mainConsensus_limits
  by (simp add: mainConsensus_def length_max_shr)

lemma mainConsensus_upgrades:
  "IsTimeProtocolV2 mainConsensus h \<longleftrightarrow> 200 \<le> h"
  "Params_NetworkUpgradeActive mainConsensus h UPGRADE_POS \<longleftrightarrow> 200 \<le> h"
  by (auto simp: IsTimeProtocolV2_def upgrade_active_iff mainConsensus_def upgrade_at0_def)

section \<open>Properties\<close>

text \<open>
  The work of a block never throws: it is \<open>floor (2 ^ 256 / (target + 1))\<close>, computed without
  a 257-bit intermediate value, when the compact target is positive and representable, and zero
  for every other compact word.
\<close>

lemma GetBlockProof_value:
  "\<exists>w. GetBlockProof nBits = Inr w \<and> length w = 8
    \<and> lval w = (if valid_target nBits then 2 ^ 256 div (compact_target nBits + 1) else 0)"
proof (cases "valid_target nBits")
  case True
  then show ?thesis by (rule GetBlockProof_valid) (simp add: True)
next
  case False
  then show ?thesis by (simp add: GetBlockProof_invalid)
qed

text \<open>
  Outside the regression test network \<open>CheckProofOfWork\<close> accepts exactly the hashes that, read
  as 256-bit numbers, are at most the decoded target, for compact words that decode to a
  positive representable target not above the proof-of-work limit.
\<close>

lemma CheckProofOfWork_iff:
  assumes "length (powLimit p) = 8"
  shows "CheckProofOfWork False p hash nBits \<longleftrightarrow>
    valid_target nBits \<and> compact_target nBits \<le> lval (powLimit p) \<and> unat hash \<le> compact_target nBits"
proof (rule SetCompact_cases [of nBits])
  fix t n v
  assume s: "SetCompact nBits = (t, n, v)" "length t = 8" "lval t = compact_target nBits mod 2 ^ 256"
    "n \<longleftrightarrow> compact_word nBits \<noteq> 0 \<and> bit nBits 23" "v \<longleftrightarrow> 2 ^ 256 \<le> compact_target nBits"
  show ?thesis
  proof (cases "valid_target nBits")
    case True
    then have "lval t = compact_target nBits" using s(3) by (simp add: valid_target_def)
    moreover have "\<not> (n \<or> v \<or> limbs_is_null t)" using True target_rejected_iff [OF s(1)] by simp
    ultimately show ?thesis
      using True limbs_compare_nat [OF s(2) assms] limbs_compare_nat [of "limbs_of_u256 hash" t] s(2)
      by (auto simp: CheckProofOfWork_def s(1) lval_limbs_of_u256)
  next
    case False
    then show ?thesis using target_rejected_iff [OF s(1)] by (auto simp: CheckProofOfWork_def s(1))
  qed
qed

text \<open>
  C12. On a parameter set whose limits and spacings are sane, and for a chain tip that has a
  predecessor once its height reaches 24, the difficulty routine always returns a compact word;
  the target it encodes is at most the limit that applies to the next block (proof of stake or
  proof of work), and in the proof-of-stake branch it is a valid, positive target.
\<close>

theorem GetNextWorkRequired_total_in_range:
  assumes "pow_params_ok p"
    and "hist \<noteq> [] \<Longrightarrow> 24 \<le> bi_nHeight (hd hist) \<Longrightarrow> tl hist \<noteq> []"
  shows "\<exists>nBits. GetNextWorkRequired False False p hist nVersion = Inr nBits
    \<and> compact_target nBits \<le> lval (next_work_limit p hist nVersion)
    \<and> (next_block_pos p hist nVersion \<longrightarrow> valid_target nBits)"
proof -
  note l = pow_params_limits [OF assms(1)]
  consider (gen) "hist = [] \<or> bi_nHeight (hd hist) < 24"
    | (pos) b b' bs where "hist = b # b' # bs" "next_block_pos p hist nVersion"
    | (dgw) b bs where "hist = b # bs" "\<not> next_block_pos p hist nVersion" "24 \<le> bi_nHeight b"
    using assms(2)
    by (cases hist; cases "tl hist"; cases "bi_nHeight (hd hist) < 24"; cases "next_block_pos p hist nVersion")
      (auto simp: not_less)
  then show ?thesis
  proof cases
    case gen
    obtain c where "compact_result (powLimit p) = Inr c" "compact_target c \<le> lval (powLimit p)"
      using l(1) by (rule compact_result_ok)
    moreover have "\<not> next_block_pos p hist nVersion" using gen by (auto simp: next_block_pos_def)
    ultimately show ?thesis using gen
      by (simp add: GetNextWorkRequired_genesis_branch next_work_limit_def)
  next
    case pos
    define v2 where "v2 = IsTimeProtocolV2 p (bi_nHeight b + 1)"
    define bn where "bn = (if v2 \<and> \<not> IsTimeProtocolV2 p (bi_nHeight b)
      then limbs_shl (fst (SetCompact (bi_nBits b))) 4 else fst (SetCompact (bi_nBits b)))"
    define sp where "sp = pos_spacing p v2 (bi_GetBlockTime b - bi_GetBlockTime b')"
    have "length bn = 8" by (simp add: bn_def)
    then obtain q r where r: "pos_retarget p v2 sp bn = Inr r" "length r = 8"
      "lval r = pos_bounded (lval (ProofOfStakeLimit p v2)) (lval q)"
      using assms(1) by (rule_tac pos_retarget_quot [of p bn v2 sp])
    obtain c where c: "compact_result r = Inr c" "compact_target c \<le> lval r" "lval r \<noteq> 0 \<Longrightarrow> valid_target c"
      using r(2) by (rule compact_result_ok) blast
    have "0 < lval r \<and> lval r \<le> lval (ProofOfStakeLimit p v2)"
      using r(3) pow_params_pos(2) [OF assms(1), of v2] by (auto simp: pos_bounded_def)
    moreover have "GetNextWorkRequired False False p hist nVersion = Inr c"
      using pos GetNextWorkRequired_pos_branch [of p b b' bs nVersion] r(1) c(1)
      by (simp add: Let_def v2_def bn_def sp_def)
    ultimately show ?thesis using c pos by (simp add: next_work_limit_def v2_def)
  next
    case dgw
    obtain s where s: "dgw_loop 1 hist dgw_init = Inr s" "length (dgw_Average s) = 8"
      "dgw_CountBlocks s \<le> 24" "0 < dgw_CountBlocks s"
      using dgw by (rule_tac dgw_loop_total [of dgw_init 1 hist]) (auto simp: dgw_init_def)
    obtain r where r: "dgw_retarget p s = Inr r" "length r = 8" "lval r \<le> lval (powLimit p)"
      using assms(1) s(2,4,3) by (rule dgw_retarget_total)
    obtain c where "compact_result r = Inr c" "compact_target c \<le> lval r"
      using r(2) by (rule compact_result_ok)
    with dgw s r show ?thesis
      by (simp add: GetNextWorkRequired_dgw_branch next_work_limit_def del: dgw_loop.simps)
  qed
qed

theorem GetNextWorkRequired_total_in_range_witness:
  "(let b = \<lparr>bi_nHeight = 300, bi_nTime = 1780599300, bi_nBits = 0x1e0ffff0\<rparr>;
        b' = \<lparr>bi_nHeight = 299, bi_nTime = 1780599270, bi_nBits = 0x1e0ffff0\<rparr>
    in pow_params_ok mainConsensus
      \<and> (\<exists>nBits. GetNextWorkRequired False False mainConsensus [b, b'] None = Inr nBits
          \<and> compact_target nBits \<le> 2 ^ 236 - 1 \<and> valid_target nBits))"
proof -
  let ?b = "\<lparr>bi_nHeight = 300, bi_nTime = 1780599300, bi_nBits = 0x1e0ffff0\<rparr>"
  let ?b' = "\<lparr>bi_nHeight = 299, bi_nTime = 1780599270, bi_nBits = 0x1e0ffff0\<rparr>"
  have "next_block_pos mainConsensus [?b, ?b'] None"
    by (simp add: next_block_pos_def mainConsensus_upgrades)
  moreover have "lval (next_work_limit mainConsensus [?b, ?b'] None) = 2 ^ 236 - 1"
    using calculation by (simp add: next_work_limit_def ProofOfStakeLimit_def mainConsensus_upgrades mainConsensus_limits)
  ultimately show ?thesis
    using mainConsensus_pow_ok GetNextWorkRequired_total_in_range [OF mainConsensus_pow_ok, of "[?b, ?b']" None]
    by (simp add: Let_def)
qed

text \<open>
  Proof-of-stake retargeting on the main network once the second time protocol is active: if
  the target of the tip is within the limit, the multiplication does not wrap, and the next
  target is the compact form of \<open>target * (1770 + 2 * spacing) / 1830\<close>, where the spacing
  is the time between the last two blocks with negative values replaced by one second and values
  above 300 seconds cut, bounded by \<open>2 ^ 236 - 1\<close>.
\<close>

lemma mainnet_pos_retarget:
  assumes "hist = b # b' # bs" "200 \<le> bi_nHeight b" "\<not> (\<exists>v. nVersion = Some v \<and> 11 \<le> v)"
    and "compact_target (bi_nBits b) < 2 ^ 236"
    and "dt = bi_GetBlockTime b - bi_GetBlockTime b'"
    and "spacing = (if dt < 0 then 1 else min dt 300)"
  shows "\<exists>bnNew. length bnNew = 8
    \<and> lval bnNew = pos_bounded (2 ^ 236 - 1) (compact_target (bi_nBits b) * nat (1770 + 2 * spacing) div 1830)
    \<and> GetNextWorkRequired False False mainConsensus hist nVersion = compact_result bnNew"
proof -
  have pos: "next_block_pos mainConsensus (b # b' # bs) nVersion"
    using assms(2,3) by (simp add: next_block_pos_def mainConsensus_upgrades)
  have v2: "IsTimeProtocolV2 mainConsensus (bi_nHeight b + 1)" "IsTimeProtocolV2 mainConsensus (bi_nHeight b)"
    using assms(2) by (simp_all add: mainConsensus_upgrades)
  let ?t = "fst (SetCompact (bi_nBits b))"
  have t: "length ?t = 8" "lval ?t = compact_target (bi_nBits b)"
    using lval_SetCompact [of "bi_nBits b"] assms(4) by (simp_all add: compact_target_def)
  have sp: "pos_spacing mainConsensus True dt = spacing" "0 \<le> spacing" "spacing \<le> 300"
    by (simp_all add: assms(6) pos_spacing_def mainConsensus_def)
  have par: "TargetTimespan mainConsensus True = 1800" "nTargetSpacing mainConsensus = 30"
    "ProofOfStakeLimit mainConsensus True = posLimitV2 mainConsensus"
    by (simp_all add: TargetTimespan_def ProofOfStakeLimit_def mainConsensus_def)
  have sd: "(1800 :: int) sdiv 30 = 60" by (simp add: sdiv_nonneg)
  obtain q r where r: "limbs_div (limbs_mul32 ?t (word_of_int ((60 - 1) * 30 + spacing + spacing))) (limbs_of_int ((60 + 1) * 30)) = Inr q"
    "pos_retarget mainConsensus True spacing ?t = Inr r" "length r = 8"
    "lval r = pos_bounded (lval (posLimitV2 mainConsensus)) (lval q)"
    using pos_retarget_quot [OF mainConsensus_pow_ok t(1), of True spacing thesis] unfolding par sd by blast
  let ?k = "(60 - 1) * 30 + spacing + spacing"
  have "lval ?t * nat ?k \<le> 2 ^ 236 * 2370"
    using assms(4) sp by (intro mult_le_mono) (simp_all add: t)
  then obtain q' where "limbs_div (limbs_mul32 ?t (word_of_int ?k)) (limbs_of_int ((60 + 1) * 30)) = Inr q'"
    "lval q' = lval ?t * nat ?k div nat ((60 + 1) * 30)"
    using sp t(1) by (rule_tac scaled_quotient [of ?t ?k "(60 + 1) * 30"]) auto
  with r(1) have "lval q = compact_target (bi_nBits b) * nat (1770 + 2 * spacing) div 1830"
    by (simp add: t add.commute)
  moreover have "GetNextWorkRequired False False mainConsensus hist nVersion = compact_result r"
    using GetNextWorkRequired_pos_branch [OF pos] v2 r(2) sp(1) by (simp add: Let_def assms(1,5))
  ultimately show ?thesis using r(3,4) by (auto simp: mainConsensus_limits)
qed

text \<open>
  Dark Gravity Wave on the main network (before proof of stake, and for ADAM blocks of
  version 11 and above): if the last 24 blocks have positive heights and times and targets between
  \<open>lo\<close> and \<open>hi\<close>, with \<open>hi\<close> within the limit, then nothing wraps or throws, the
  running average lies between \<open>lo\<close> and \<open>hi\<close>, and the next target is the compact form of
  \<open>average * timespan / 720\<close>, where the timespan is the time between the first and the last
  of the 24 blocks clamped to [240, 2160], bounded by the proof-of-work limit.
\<close>

lemma mainnet_dgw_retarget:
  assumes "24 \<le> length hist" "24 \<le> bi_nHeight (hd hist)" "\<not> next_block_pos mainConsensus hist nVersion"
    and "\<forall>b \<in> set (take 24 hist). 0 < bi_nHeight b \<and> 0 < bi_nTime b
      \<and> lo \<le> compact_target (bi_nBits b) \<and> compact_target (bi_nBits b) \<le> hi"
    and "hi < 2 ^ 236"
    and "dt = bi_GetBlockTime (hist ! 0) - bi_GetBlockTime (hist ! 23)"
  shows "\<exists>avg bnNew. lo \<le> avg \<and> avg \<le> hi \<and> length bnNew = 8
    \<and> lval bnNew = min (2 ^ 236 - 1) (avg * nat (max 240 (min dt 2160)) div 720)
    \<and> GetNextWorkRequired False False mainConsensus hist nVersion = compact_result bnNew"
proof -
  obtain b bs where h: "hist = b # bs" using assms(1) by (cases hist) auto
  have small: "lval (fst (SetCompact c)) = compact_target c" if "compact_target c \<le> hi" for c
    using lval_SetCompact [of c] that assms(5) by (simp add: compact_target_def)
  have all: "\<forall>b \<in> set (take (24 - 0) hist). 0 < bi_nHeight b \<and> 0 < bi_nTime b
      \<and> lo \<le> lval (fst (SetCompact (bi_nBits b))) \<and> lval (fst (SetCompact (bi_nBits b))) \<le> hi"
    using assms(4) small by auto
  have "dgw_inv lo hi (bi_GetBlockTime b) 0 dgw_init" by (simp add: dgw_inv_def dgw_init_def)
  then obtain s where s: "dgw_loop 1 hist dgw_init = Inr s" "dgw_inv lo hi (bi_GetBlockTime b) 24 s"
    "dgw_LastBlockTime s = bi_GetBlockTime (hist ! 23)"
    using dgw_loop_inv [OF _ _ _ _ all] assms(1,5) h by auto
  have i: "length (dgw_Average s) = 8" "lo \<le> lval (dgw_Average s)" "lval (dgw_Average s) \<le> hi"
    "dgw_CountBlocks s = 24" "dgw_nActualTimespan s = dt"
    using s(2,3) h by (simp_all add: dgw_inv_def assms(6))
  have sp: "nTargetSpacing mainConsensus = 30" by (simp add: mainConsensus_def)
  have "lval (dgw_Average s) * nat (72 * nTargetSpacing mainConsensus) < 2 ^ 256"
    using i(3) assms(5) by (simp add: sp)
  then obtain r where r: "dgw_retarget mainConsensus s = Inr r" "length r = 8"
    "lval r = min (lval (powLimit mainConsensus)) (lval (dgw_Average s) * nat (dgw_clamp (24 * 30) dt) div nat (24 * 30))"
    using dgw_retarget_value [OF mainConsensus_pow_ok i(1) _ i(4)] i(5) unfolding sp by auto
  have "dgw_clamp (24 * 30) dt = max 240 (min dt 2160)"
    by (simp add: dgw_clamp_def sdiv_nonneg)
  with r(3) have "lval r = min (2 ^ 236 - 1) (lval (dgw_Average s) * nat (max 240 (min dt 2160)) div 720)"
    by (simp only: mainConsensus_limits) simp
  moreover have "GetNextWorkRequired False False mainConsensus hist nVersion = compact_result r"
    using GetNextWorkRequired_dgw_branch [of mainConsensus b bs nVersion] assms(2,3) s(1) r(1) h
    by (simp del: dgw_loop.simps)
  ultimately show ?thesis using i(2,3) r(2) by blast
qed

end
