(* ===== verification/Merkle.thy ===== *)
theory Merkle
  imports Prelude
begin

text \<open>
  Merkle roots and branches (\<open>src/src/consensus/merkle.cpp\<close>).  The double SHA-256 of two
  concatenated hashes is the argument \<open>H\<close> of every definition; nothing is assumed of it.
  \<open>MerkleComputation\<close> is the constant-space calculator; its array \<open>inner\<close> is a function from
  levels to hashes, and \<open>count\<close> is a natural number, which agrees with the \<open>uint32_t\<close> of the
  source as long as there are at most \<open>2 ^ 31\<close> leaves (a block of 8 MB has far fewer
  transactions).  A loop that would run past the highest bit of \<open>count\<close> is the value \<open>None\<close>.
  The reference definitions build the tree level by level.
\<close>

section \<open>The constant-space calculator\<close>

record MerkleSt =
  ms_h :: uint256
  ms_matchh :: bool
  ms_branch :: "uint256 list"
  ms_mutated :: bool

text \<open>Lines shared by both loops: extend the branch if one of the two children carries the match.\<close>

definition merkle_push :: "bool \<Rightarrow> (nat \<Rightarrow> uint256) \<Rightarrow> int \<Rightarrow> nat \<Rightarrow> MerkleSt \<Rightarrow> MerkleSt" where
  "merkle_push pbranch inner matchlevel level st =
     (if pbranch
      then if ms_matchh st then st\<lparr>ms_branch := ms_branch st @ [inner level]\<rparr>
           else if matchlevel = int level then st\<lparr>ms_branch := ms_branch st @ [ms_h st], ms_matchh := True\<rparr>
           else st
      else st)"

function merkle_carry :: "(uint256 \<Rightarrow> uint256 \<Rightarrow> uint256) \<Rightarrow> bool \<Rightarrow> (nat \<Rightarrow> uint256) \<Rightarrow> int \<Rightarrow> nat \<Rightarrow> nat \<Rightarrow>
    MerkleSt \<Rightarrow> (nat \<times> MerkleSt) option" where
  "merkle_carry H pbranch inner matchlevel count level st =
     (if count < 2 ^ level then None
      else if bit count level then Some (level, st)
      else let st1 = merkle_push pbranch inner matchlevel level st
           in merkle_carry H pbranch inner matchlevel count (Suc level)
                (st1\<lparr>ms_mutated := (ms_mutated st1 \<or> inner level = ms_h st1),
                     ms_h := H (inner level) (ms_h st1)\<rparr>))"
  by auto
termination
  by (relation "measure (\<lambda>(H, pbranch, inner, matchlevel, count, level, st). count - level)")
    (auto intro: diff_less_mono2 less_le_trans [OF less_exp])

text \<open>The first loop: the leaves \<open>leaves[count], leaves[count+1], \<dots>\<close> are still to be processed.\<close>

fun merkle_leaves :: "(uint256 \<Rightarrow> uint256 \<Rightarrow> uint256) \<Rightarrow> bool \<Rightarrow> nat \<Rightarrow> uint256 list \<Rightarrow> nat \<Rightarrow> (nat \<Rightarrow> uint256) \<Rightarrow> int \<Rightarrow>
    uint256 list \<Rightarrow> bool \<Rightarrow> ((nat \<Rightarrow> uint256) \<times> int \<times> uint256 list \<times> bool) option" where
  "merkle_leaves H pbranch branchpos [] count inner matchlevel branch mutated = Some (inner, matchlevel, branch, mutated)"
| "merkle_leaves H pbranch branchpos (leaf # rest) count inner matchlevel branch mutated =
     (case merkle_carry H pbranch inner matchlevel (Suc count) 0
             \<lparr>ms_h = leaf, ms_matchh = (count = branchpos), ms_branch = branch, ms_mutated = mutated\<rparr> of
        None \<Rightarrow> None
      | Some (level, st) \<Rightarrow>
          merkle_leaves H pbranch branchpos rest (Suc count) (inner(level := ms_h st))
            (if ms_matchh st then int level else matchlevel) (ms_branch st) (ms_mutated st))"

function merkle_lowest :: "nat \<Rightarrow> nat \<Rightarrow> nat option" where
  "merkle_lowest count level =
     (if count < 2 ^ level then None
      else if bit count level then Some level
      else merkle_lowest count (Suc level))"
  by auto
termination
  by (relation "measure (\<lambda>(count, level). count - level)")
    (auto intro: diff_less_mono2 less_le_trans [OF less_exp])

text \<open>The propagation at the end of a sweep round, which does not touch the mutation flag.\<close>

function merkle_propagate :: "(uint256 \<Rightarrow> uint256 \<Rightarrow> uint256) \<Rightarrow> bool \<Rightarrow> (nat \<Rightarrow> uint256) \<Rightarrow> int \<Rightarrow> nat \<Rightarrow> nat \<Rightarrow>
    MerkleSt \<Rightarrow> (nat \<times> MerkleSt) option" where
  "merkle_propagate H pbranch inner matchlevel count level st =
     (if count < 2 ^ level then None
      else if bit count level then Some (level, st)
      else let st1 = merkle_push pbranch inner matchlevel level st
           in merkle_propagate H pbranch inner matchlevel count (Suc level)
                (st1\<lparr>ms_h := H (inner level) (ms_h st1)\<rparr>))"
  by auto
termination
  by (relation "measure (\<lambda>(H, pbranch, inner, matchlevel, count, level, st). count - level)")
    (auto intro: diff_less_mono2 less_le_trans [OF less_exp])

text \<open>
  The final sweep.  Every round raises \<open>level\<close>, and \<open>count\<close> never passes the next power of two,
  so \<open>fuel\<close> equal to the number of leaves is enough (shown below).
\<close>

fun merkle_sweep :: "nat \<Rightarrow> (uint256 \<Rightarrow> uint256 \<Rightarrow> uint256) \<Rightarrow> bool \<Rightarrow> (nat \<Rightarrow> uint256) \<Rightarrow> int \<Rightarrow> nat \<Rightarrow> nat \<Rightarrow>
    MerkleSt \<Rightarrow> MerkleSt option" where
  "merkle_sweep 0 H pbranch inner matchlevel count level st = None"
| "merkle_sweep (Suc fuel) H pbranch inner matchlevel count level st =
     (if count = 2 ^ level then Some st
      else let st1 = (if pbranch \<and> ms_matchh st then st\<lparr>ms_branch := ms_branch st @ [ms_h st]\<rparr> else st);
               st2 = st1\<lparr>ms_h := H (ms_h st1) (ms_h st1)\<rparr>;
               count' = count + 2 ^ level
           in case merkle_propagate H pbranch inner matchlevel count' (Suc level) st2 of
                None \<Rightarrow> None
              | Some (level', st3) \<Rightarrow> merkle_sweep fuel H pbranch inner matchlevel count' level' st3)"

text \<open>
  The result is the root, the mutation flag and the branch; \<open>pbranch\<close> says whether the caller
  passed a branch vector.  \<open>ComputeMerkleRoot\<close> passes no vector and the position \<open>-1\<close>, which is
  \<open>2 ^ 32 - 1\<close> as a \<open>uint32_t\<close>.
\<close>

definition MerkleComputation :: "(uint256 \<Rightarrow> uint256 \<Rightarrow> uint256) \<Rightarrow> uint256 list \<Rightarrow> bool \<Rightarrow> nat \<Rightarrow>
    (uint256 \<times> bool \<times> uint256 list) option" where
  "MerkleComputation H leaves pbranch branchpos =
     (if leaves = [] then Some (0, False, [])
      else case merkle_leaves H pbranch branchpos leaves 0 (\<lambda>_. 0) (- 1) [] False of
        None \<Rightarrow> None
      | Some (inner, matchlevel, branch, mutated) \<Rightarrow>
          (case merkle_lowest (length leaves) 0 of
             None \<Rightarrow> None
           | Some level \<Rightarrow>
               map_option (\<lambda>st. (ms_h st, ms_mutated st, ms_branch st))
                 (merkle_sweep (Suc (length leaves)) H pbranch inner matchlevel (length leaves) level
                   \<lparr>ms_h = inner level, ms_matchh = (matchlevel = int level), ms_branch = branch,
                    ms_mutated = mutated\<rparr>)))"

definition ComputeMerkleRoot :: "(uint256 \<Rightarrow> uint256 \<Rightarrow> uint256) \<Rightarrow> uint256 list \<Rightarrow> (uint256 \<times> bool) option" where
  "ComputeMerkleRoot H leaves =
     map_option (\<lambda>(root, mutated, branch). (root, mutated)) (MerkleComputation H leaves False (2 ^ 32 - 1))"

definition ComputeMerkleBranch :: "(uint256 \<Rightarrow> uint256 \<Rightarrow> uint256) \<Rightarrow> uint256 list \<Rightarrow> nat \<Rightarrow> uint256 list option" where
  "ComputeMerkleBranch H leaves position =
     map_option (\<lambda>(root, mutated, branch). branch) (MerkleComputation H leaves True position)"

fun ComputeMerkleRootFromBranch :: "(uint256 \<Rightarrow> uint256 \<Rightarrow> uint256) \<Rightarrow> uint256 \<Rightarrow> uint256 list \<Rightarrow> nat \<Rightarrow> uint256" where
  "ComputeMerkleRootFromBranch H hash [] nIndex = hash"
| "ComputeMerkleRootFromBranch H hash (it # rest) nIndex =
     ComputeMerkleRootFromBranch H (if odd nIndex then H it hash else H hash it) rest (nIndex div 2)"

text \<open>\<open>BlockMerkleRoot\<close> and \<open>BlockMerkleBranch\<close>: the leaves are the transaction hashes.\<close>

definition BlockMerkleRoot :: "(uint256 \<Rightarrow> uint256 \<Rightarrow> uint256) \<Rightarrow> ('tx \<Rightarrow> uint256) \<Rightarrow> 'tx list \<Rightarrow> (uint256 \<times> bool) option" where
  "BlockMerkleRoot H GetHash vtx = ComputeMerkleRoot H (map GetHash vtx)"

definition BlockMerkleBranch :: "(uint256 \<Rightarrow> uint256 \<Rightarrow> uint256) \<Rightarrow> ('tx \<Rightarrow> uint256) \<Rightarrow> 'tx list \<Rightarrow> nat \<Rightarrow> uint256 list option" where
  "BlockMerkleBranch H GetHash vtx position = ComputeMerkleBranch H (map GetHash vtx) position"

section \<open>Reference tree\<close>

fun next_level :: "(uint256 \<Rightarrow> uint256 \<Rightarrow> uint256) \<Rightarrow> uint256 list \<Rightarrow> uint256 list" where
  "next_level H (x # y # r) = H x y # next_level H r"
| "next_level H [x] = [H x x]"
| "next_level H [] = []"

definition level_of :: "(uint256 \<Rightarrow> uint256 \<Rightarrow> uint256) \<Rightarrow> uint256 list \<Rightarrow> nat \<Rightarrow> uint256 list" where
  "level_of H xs l = (next_level H ^^ l) xs"

lemma length_next_level: "length (next_level H xs) = (length xs + 1) div 2"
  by (induction H xs rule: next_level.induct) auto

function merkle_root :: "(uint256 \<Rightarrow> uint256 \<Rightarrow> uint256) \<Rightarrow> uint256 list \<Rightarrow> uint256" where
  "merkle_root H xs =
     (if length xs \<le> 1 then (case xs of [] \<Rightarrow> 0 | x # _ \<Rightarrow> x) else merkle_root H (next_level H xs))"
  by auto
termination
  by (relation "measure (\<lambda>(H, xs). length xs)") (auto simp: length_next_level)

declare merkle_carry.simps [simp del] merkle_lowest.simps [simp del] merkle_propagate.simps [simp del]
  merkle_root.simps [simp del]

subsection \<open>Levels\<close>

lemma nth_next_level:
  "2 * i + 1 < length xs \<Longrightarrow> next_level H xs ! i = H (xs ! (2 * i)) (xs ! (2 * i + 1))"
proof (induction H xs arbitrary: i rule: next_level.induct)
  case (1 H x y r)
  then show ?case by (cases i) auto
qed auto

lemma last_next_level:
  "odd (length xs) \<Longrightarrow> next_level H xs ! (length xs div 2) = H (xs ! (length xs - 1)) (xs ! (length xs - 1))"
proof (induction H xs rule: next_level.induct)
  case (1 H x y r)
  then have "r \<noteq> []" by auto
  then obtain m where "length r = Suc m" by (cases r) auto
  with 1 show ?case by simp
qed auto

lemma level_of_0 [simp]: "level_of H xs 0 = xs"
  by (simp add: level_of_def)

lemma level_of_Suc: "level_of H xs (Suc l) = next_level H (level_of H xs l)"
  by (simp add: level_of_def)

lemma length_level_Suc: "length (level_of H xs (Suc l)) = (length (level_of H xs l) + 1) div 2"
  by (simp add: level_of_Suc length_next_level)

lemma length_level_pos: "xs \<noteq> [] \<Longrightarrow> 0 < length (level_of H xs l)"
  by (induction l) (auto simp: length_level_Suc)

lemma length_level: "2 ^ l * length (level_of H xs l) < length xs + 2 ^ l \<and> length xs \<le> 2 ^ l * length (level_of H xs l)"
proof (induction l)
  case (Suc l)
  let ?m = "length (level_of H xs l)"
  let ?h = "(?m + 1) div 2"
  have "2 ^ l * (2 * ?h) \<le> 2 ^ l * (?m + 1)" "2 ^ l * ?m \<le> 2 ^ l * (2 * ?h)"
    by (intro mult_le_mono2; simp)+
  moreover have "2 ^ Suc l * ?h = 2 ^ l * (2 * ?h)" "2 ^ l * (?m + 1) = 2 ^ l * ?m + 2 ^ l" "(2 :: nat) ^ Suc l = 2 ^ l + 2 ^ l"
    by simp_all
  ultimately show ?case using Suc unfolding length_level_Suc by linarith
qed simp

lemma merkle_root_level:
  "(\<And>j. j < l \<Longrightarrow> 1 < length (level_of H xs j)) \<Longrightarrow> merkle_root H (level_of H xs l) = merkle_root H xs"
proof (induction l)
  case (Suc l)
  then have "1 < length (level_of H xs l)" by simp
  then have "merkle_root H (level_of H xs l) = merkle_root H (level_of H xs (Suc l))"
    by (subst merkle_root.simps) (simp add: level_of_Suc)
  with Suc show ?case by simp
qed simp

lemma merkle_root_singleton: "length xs = 1 \<Longrightarrow> merkle_root H xs = xs ! 0"
  by (cases xs) (simp_all add: merkle_root.simps)

text \<open>The root of the perfect subtree of height \<open>l\<close> over the leaves from \<open>i * 2 ^ l\<close> on.\<close>

primrec node :: "(uint256 \<Rightarrow> uint256 \<Rightarrow> uint256) \<Rightarrow> uint256 list \<Rightarrow> nat \<Rightarrow> nat \<Rightarrow> uint256" where
  "node H xs 0 i = xs ! i"
| "node H xs (Suc l) i = H (node H xs l (2 * i)) (node H xs l (2 * i + 1))"

lemma level_nth:
  "(i + 1) * 2 ^ l \<le> length xs \<Longrightarrow> i < length (level_of H xs l) \<and> level_of H xs l ! i = node H xs l i"
proof (induction l arbitrary: i)
  case (Suc l)
  have "(2 * i + 1 + 1) * 2 ^ l \<le> length xs" "(2 * i + 1) * 2 ^ l \<le> length xs"
    using Suc.prems by (simp_all add: algebra_simps)
  then have "2 * i + 1 < length (level_of H xs l)" "level_of H xs l ! (2 * i) = node H xs l (2 * i)"
    "level_of H xs l ! (2 * i + 1) = node H xs l (2 * i + 1)"
    using Suc.IH [of "2 * i + 1"] Suc.IH [of "2 * i"] by simp_all
  then show ?case by (simp add: length_next_level level_of_Suc nth_next_level)
qed simp

subsection \<open>Binary counters\<close>

lemma dvd_pred_div: "2 ^ l dvd (c :: nat) \<Longrightarrow> 0 < c \<Longrightarrow> (c - 1) div 2 ^ l = c div 2 ^ l - 1"
proof -
  assume "2 ^ l dvd c" "0 < c"
  then obtain q where q: "c = 2 ^ l * q" "0 < q" by (auto elim: dvdE)
  then obtain r where r: "q = Suc r" by (cases q) auto
  have "c - 1 = (2 ^ l - 1) + 2 ^ l * r" by (simp add: q r)
  also have "\<dots> div 2 ^ l = r" by (subst div_mult_self2) simp_all
  finally show ?thesis by (simp add: q r)
qed

lemma div_pow_add: "(c :: nat) div 2 ^ (l + k) = c div 2 ^ l div 2 ^ k"
  by (simp add: power_add div_mult2_eq)

lemma div_pow_Suc: "(c :: nat) div 2 ^ Suc l = c div 2 ^ l div 2"
  using div_pow_add [of c l 1] by simp

lemma odd_pred_div:
  assumes "2 ^ l dvd (c :: nat)" "odd (c div 2 ^ l)" "l < m"
  shows "(c - 1) div 2 ^ m = c div 2 ^ m"
proof -
  obtain k where m: "m = l + (1 + k)" using assms(3) by (metis add.assoc add_Suc_right less_iff_Suc_add plus_1_eq_Suc add.commute)
  have "0 < c" using assms(2) by (auto intro: Nat.gr0I)
  then have "(c - 1) div 2 ^ l div 2 = c div 2 ^ l div 2"
    using dvd_pred_div [OF assms(1)] assms(2) by (auto elim: oddE)
  then show ?thesis unfolding m div_pow_add by simp
qed

lemma even_below: "2 ^ l dvd (c :: nat) \<Longrightarrow> m < l \<Longrightarrow> even (c div 2 ^ m)"
proof -
  assume "2 ^ l dvd c" "m < l"
  then have "(2 :: nat) ^ Suc m dvd c" by (meson Suc_leI dvd_trans le_imp_power_dvd)
  then show ?thesis by (auto elim!: dvdE)
qed

lemma dvd_Suc_pow: "2 ^ l dvd (c :: nat) \<Longrightarrow> even (c div 2 ^ l) \<Longrightarrow> 2 ^ Suc l dvd c"
proof -
  assume "2 ^ l dvd c" "even (c div 2 ^ l)"
  then obtain q where q: "c = 2 ^ l * q" "even q" by (auto elim: dvdE)
  then obtain r where "q = 2 * r" by (auto elim: evenE)
  with q show ?thesis by simp
qed

section \<open>The first loop\<close>

text \<open>
  After \<open>c\<close> leaves, \<open>inner\<close> holds at the level of every set bit of \<open>c\<close> the root of the last
  complete subtree of that height.
\<close>

definition inner_inv :: "(uint256 \<Rightarrow> uint256 \<Rightarrow> uint256) \<Rightarrow> uint256 list \<Rightarrow> nat \<Rightarrow> (nat \<Rightarrow> uint256) \<Rightarrow> bool" where
  "inner_inv H xs c inner \<longleftrightarrow> (\<forall>l. odd (c div 2 ^ l) \<longrightarrow> inner l = node H xs l (c div 2 ^ l - 1))"

text \<open>Two equal complete siblings among the first \<open>c\<close> leaves.\<close>

definition twins :: "(uint256 \<Rightarrow> uint256 \<Rightarrow> uint256) \<Rightarrow> uint256 list \<Rightarrow> nat \<Rightarrow> bool" where
  "twins H xs c \<longleftrightarrow> (\<exists>l k. (2 * k + 2) * 2 ^ l \<le> c \<and> node H xs l (2 * k) = node H xs l (2 * k + 1))"

text \<open>Twins that the carry of the \<open>c\<close>-th leaf meets below level \<open>l\<close>.\<close>

definition carry_twins :: "(uint256 \<Rightarrow> uint256 \<Rightarrow> uint256) \<Rightarrow> uint256 list \<Rightarrow> nat \<Rightarrow> nat \<Rightarrow> bool" where
  "carry_twins H xs c l \<longleftrightarrow> (\<exists>j < l. node H xs j (c div 2 ^ j - 2) = node H xs j (c div 2 ^ j - 1))"

lemma bit_count: "bit (c :: nat) l \<longleftrightarrow> odd (c div 2 ^ l)"
  by (simp add: bit_iff_odd)

lemma merkle_push_h [simp]: "ms_h (merkle_push pb inner ml l st) = ms_h st"
  "ms_mutated (merkle_push pb inner ml l st) = ms_mutated st"
  by (simp_all add: merkle_push_def)

lemma merkle_carry_root:
  assumes "0 < c" "inner_inv H xs (c - 1) inner" "2 ^ level dvd c"
    and "ms_h st = node H xs level (c div 2 ^ level - 1)"
    and "ms_mutated st \<longleftrightarrow> M \<or> carry_twins H xs c level"
  obtains lv st' where "merkle_carry H pb inner ml c level st = Some (lv, st')" "odd (c div 2 ^ lv)" "2 ^ lv dvd c"
    "ms_h st' = node H xs lv (c div 2 ^ lv - 1)" "ms_mutated st' \<longleftrightarrow> M \<or> carry_twins H xs c lv"
  using assms
proof (induction H pb inner ml c level st arbitrary: thesis rule: merkle_carry.induct)
  case (1 H pb inner ml c level st)
  note prems = "1.prems" and IH = "1.IH"
  have ge: "\<not> c < 2 ^ level" using dvd_imp_le [OF prems(4,2)] by simp
  show thesis
  proof (cases "odd (c div 2 ^ level)")
    case True
    with ge have "merkle_carry H pb inner ml c level st = Some (level, st)"
      by (simp add: merkle_carry.simps bit_count)
    with True prems show thesis by blast
  next
    case False
    define k where "k = c div 2 ^ level div 2 - 1"
    have "c div 2 ^ level \<noteq> 0" using ge by (simp add: div_eq_0_iff)
    with False have k: "c div 2 ^ level = 2 * k + 2" by (auto simp: k_def elim!: evenE)
    have inner: "inner level = node H xs level (2 * k)"
      using prems(3) dvd_pred_div [OF prems(4,2)] by (auto simp: inner_inv_def k)
    let ?st1 = "merkle_push pb inner ml level st"
    let ?st2 = "?st1\<lparr>ms_mutated := (ms_mutated ?st1 \<or> inner level = ms_h ?st1), ms_h := H (inner level) (ms_h ?st1)\<rparr>"
    have "ms_h ?st2 = node H xs (Suc level) (c div 2 ^ Suc level - 1)"
      unfolding div_pow_Suc k by (simp add: k inner prems(5))
    moreover have "ms_mutated ?st2 \<longleftrightarrow> M \<or> carry_twins H xs c (Suc level)"
      using prems(5,6) by (auto simp: carry_twins_def less_Suc_eq k inner)
    ultimately obtain lv st' where r: "merkle_carry H pb inner ml c (Suc level) ?st2 = Some (lv, st')"
      "odd (c div 2 ^ lv)" "2 ^ lv dvd c" "ms_h st' = node H xs lv (c div 2 ^ lv - 1)"
      "ms_mutated st' \<longleftrightarrow> M \<or> carry_twins H xs c lv"
      using IH [OF ge _ refl _ prems(2,3) dvd_Suc_pow [OF prems(4)]] False by (auto simp: bit_count)
    have "merkle_carry H pb inner ml c level st = Some (lv, st')"
      using ge False r(1) by (subst merkle_carry.simps) (simp add: bit_count Let_def)
    with r show thesis by (intro prems(1))
  qed
qed

lemma inner_inv_store:
  assumes "0 < c" "inner_inv H xs (c - 1) inner" "odd (c div 2 ^ lv)" "2 ^ lv dvd c"
    and "h = node H xs lv (c div 2 ^ lv - 1)"
  shows "inner_inv H xs c (inner(lv := h))"
  unfolding inner_inv_def
proof (intro allI impI)
  fix l
  assume o: "odd (c div 2 ^ l)"
  consider "l = lv" | "l < lv" | "lv < l" by linarith
  then show "(inner(lv := h)) l = node H xs l (c div 2 ^ l - 1)"
  proof cases
    case 2
    with even_below [OF assms(4)] o show ?thesis by blast
  next
    case 3
    with odd_pred_div [OF assms(4,3)] assms(2) o show ?thesis by (simp add: inner_inv_def)
  qed (simp add: assms(5))
qed

lemma twins_step:
  assumes "0 < c" "odd (c div 2 ^ lv)" "2 ^ lv dvd c"
  shows "twins H xs c \<longleftrightarrow> twins H xs (c - 1) \<or> carry_twins H xs c lv"
proof
  assume "twins H xs c"
  then obtain l k where t: "(2 * k + 2) * 2 ^ l \<le> c" "node H xs l (2 * k) = node H xs l (2 * k + 1)"
    by (auto simp: twins_def)
  show "twins H xs (c - 1) \<or> carry_twins H xs c lv"
  proof (cases "(2 * k + 2) * 2 ^ l = c")
    case True
    then have q: "c div 2 ^ l = 2 * k + 2" by (metis nonzero_mult_div_cancel_right power_not_zero zero_neq_numeral)
    have "l < lv"
    proof (rule ccontr)
      assume "\<not> l < lv"
      moreover have "2 ^ Suc l dvd c" using True by (auto simp flip: True)
      ultimately show False using even_below [of "Suc l" c lv] assms(2) by simp
    qed
    with t q show ?thesis by (auto simp: carry_twins_def)
  next
    case False
    with t(1) have "(2 * k + 2) * 2 ^ l \<le> c - 1" by linarith
    with t(2) show ?thesis unfolding twins_def by blast
  qed
next
  assume "twins H xs (c - 1) \<or> carry_twins H xs c lv"
  then show "twins H xs c"
  proof
    assume "carry_twins H xs c lv"
    then obtain j where j: "j < lv" "node H xs j (c div 2 ^ j - 2) = node H xs j (c div 2 ^ j - 1)"
      by (auto simp: carry_twins_def)
    have "even (c div 2 ^ j)" by (rule even_below [OF assms(3) j(1)])
    moreover have "c div 2 ^ j \<noteq> 0"
    proof -
      have "(2 :: nat) ^ j \<le> 2 ^ lv" using j(1) by (simp add: power_increasing)
      also have "\<dots> \<le> c" using assms by (intro dvd_imp_le)
      finally show ?thesis by (simp add: div_eq_0_iff)
    qed
    moreover define k where "k = c div 2 ^ j div 2 - 1"
    ultimately have k: "c div 2 ^ j = 2 * k + 2" by (auto elim!: evenE)
    then have "(2 * k + 2) * 2 ^ j \<le> c" by (metis div_times_less_eq_dividend)
    with j k show ?thesis by (auto simp: twins_def)
  next
    assume "twins H xs (c - 1)"
    then show ?thesis unfolding twins_def by (meson diff_le_self le_trans)
  qed
qed

lemma merkle_leaves_root:
  assumes "xs = pre @ rest" "inner_inv H xs (length pre) inner"
    and "mutated \<longleftrightarrow> twins H xs (length pre)"
  obtains inner' ml' br' where
    "merkle_leaves H pb pos rest (length pre) inner ml br mutated = Some (inner', ml', br', twins H xs (length xs))"
    "inner_inv H xs (length xs) inner'"
  using assms
proof (induction rest arbitrary: pre inner ml br mutated thesis)
  case Nil
  then show thesis by simp
next
  case (Cons leaf rest)
  let ?c = "Suc (length pre)"
  let ?st = "\<lparr>ms_h = leaf, ms_matchh = (length pre = pos), ms_branch = br, ms_mutated = mutated\<rparr>"
  obtain lv st where c: "merkle_carry H pb inner ml ?c 0 ?st = Some (lv, st)" "odd (?c div 2 ^ lv)" "2 ^ lv dvd ?c"
    "ms_h st = node H xs lv (?c div 2 ^ lv - 1)" "ms_mutated st \<longleftrightarrow> mutated \<or> carry_twins H xs ?c lv"
    using Cons.prems by (rule_tac merkle_carry_root [of ?c H xs inner 0 ?st mutated pb ml]) (auto simp: carry_twins_def)
  have inv: "inner_inv H xs ?c (inner(lv := ms_h st))"
    using Cons.prems c by (intro inner_inv_store) simp_all
  have mut: "ms_mutated st \<longleftrightarrow> twins H xs ?c"
    using twins_step [OF _ c(2,3)] c(5) Cons.prems(4) by simp
  show thesis
  proof (rule Cons.IH [where pre = "pre @ [leaf]" and inner = "inner(lv := ms_h st)" and mutated = "ms_mutated st"
        and ml = "if ms_matchh st then int lv else ml" and br = "ms_branch st"])
    fix inner' ml' br'
    assume "merkle_leaves H pb pos rest (length (pre @ [leaf])) (inner(lv := ms_h st))
        (if ms_matchh st then int lv else ml) (ms_branch st) (ms_mutated st) =
        Some (inner', ml', br', twins H xs (length xs))" and "inner_inv H xs (length xs) inner'"
    with c(1) show thesis by (intro Cons.prems(1)) simp_all
  qed (use Cons.prems(2) inv mut in \<open>simp_all add: fun_upd_def\<close>)
qed

section \<open>The sweep\<close>

text \<open>
  During the sweep \<open>count\<close> is the number of leaves rounded up to a multiple of \<open>2 ^ level\<close>, the
  running hash is the last node of that level, and every lower level had more than one node.
\<close>

definition sweep_inv :: "(uint256 \<Rightarrow> uint256 \<Rightarrow> uint256) \<Rightarrow> uint256 list \<Rightarrow> nat \<Rightarrow> nat \<Rightarrow> uint256 \<Rightarrow> bool" where
  "sweep_inv H xs c l h \<longleftrightarrow>
     2 ^ l dvd c \<and> c div 2 ^ l = length (level_of H xs l) \<and> length xs \<le> c \<and> c < length xs + 2 ^ l
     \<and> h = level_of H xs l ! (length (level_of H xs l) - 1)
     \<and> (\<forall>j < l. 1 < length (level_of H xs j))"

lemma sweep_inv_ge: "xs \<noteq> [] \<Longrightarrow> sweep_inv H xs c l h \<Longrightarrow> 2 ^ l \<le> c"
  by (rule dvd_imp_le) (auto simp: sweep_inv_def intro: less_le_trans [of 0 "length xs"])

lemma sweep_inner:
  assumes "sweep_inv H xs c l h" "length xs < c" "inner_inv H xs (length xs) inner" "c div 2 ^ l = 2 * k + 2"
  shows "inner l = level_of H xs l ! (2 * k)" "length (level_of H xs l) = 2 * k + 2" "length xs div 2 ^ l = 2 * k + 1"
proof -
  have c: "c = 2 ^ l * (2 * k + 2)"
    using assms(1,4) by (metis dvd_mult_div_cancel sweep_inv_def)
  show q: "length xs div 2 ^ l = 2 * k + 1"
  proof (rule div_nat_eqI)
    show "2 ^ l * (2 * k + 1) \<le> length xs" using assms(1) by (simp add: sweep_inv_def c algebra_simps)
    show "length xs < 2 ^ l * Suc (2 * k + 1)" using assms(2) by (simp add: c)
  qed
  have "(2 * k + 1) * 2 ^ l \<le> length xs" using q by (metis div_times_less_eq_dividend)
  with q assms(3) show "inner l = level_of H xs l ! (2 * k)"
    using level_nth [of "2 * k" l xs H] by (simp add: inner_inv_def)
  show "length (level_of H xs l) = 2 * k + 2" using assms(1,4) by (simp add: sweep_inv_def)
qed

lemma sweep_inv_Suc:
  assumes "sweep_inv H xs c l h" "length xs < c" "inner_inv H xs (length xs) inner" "c div 2 ^ l = 2 * k + 2"
  shows "sweep_inv H xs c (Suc l) (H (inner l) h)"
proof -
  note i = sweep_inner [OF assms]
  have l: "length (level_of H xs (Suc l)) = k + 1" by (simp add: length_level_Suc i(2))
  have "level_of H xs (Suc l) ! k = H (inner l) h"
    using i assms(1) by (simp add: level_of_Suc nth_next_level sweep_inv_def)
  moreover have "c div 2 ^ Suc l = k + 1" unfolding div_pow_Suc assms(4) by simp
  moreover have "even (c div 2 ^ l)" unfolding assms(4) by simp
  then have "2 ^ Suc l dvd c" using assms(1) by (intro dvd_Suc_pow) (simp_all add: sweep_inv_def)
  ultimately show ?thesis
    using assms(1) i(2) by (auto simp: sweep_inv_def l less_Suc_eq)
qed

lemma even_cases: "even (c :: nat) \<Longrightarrow> c \<noteq> 0 \<Longrightarrow> (\<And>k. c = 2 * k + 2 \<Longrightarrow> thesis) \<Longrightarrow> thesis"
proof -
  assume "even c" "c \<noteq> 0" and that: "\<And>k. c = 2 * k + 2 \<Longrightarrow> thesis"
  then obtain r where "c = 2 * r" "r \<noteq> 0" by (auto elim: evenE)
  then have "c = 2 * (r - 1) + 2" by simp
  then show thesis by (rule that)
qed

lemma merkle_propagate_inv:
  assumes "xs \<noteq> []" "sweep_inv H xs c l (ms_h st)" "length xs < c" "inner_inv H xs (length xs) inner"
  obtains lv st' where "merkle_propagate H pb inner ml c l st = Some (lv, st')" "l \<le> lv"
    "odd (c div 2 ^ lv)" "sweep_inv H xs c lv (ms_h st')" "ms_mutated st' = ms_mutated st"
  using assms
proof (induction H pb inner ml c l st arbitrary: thesis rule: merkle_propagate.induct)
  case (1 H pb inner ml c l st)
  note prems = "1.prems" and IH = "1.IH"
  have ge: "\<not> c < 2 ^ l" using sweep_inv_ge [OF prems(2,3)] by simp
  show thesis
  proof (cases "odd (c div 2 ^ l)")
    case True
    with ge have "merkle_propagate H pb inner ml c l st = Some (l, st)"
      by (simp add: merkle_propagate.simps bit_count)
    with True prems show thesis by blast
  next
    case False
    have "c div 2 ^ l \<noteq> 0" using ge by (simp add: div_eq_0_iff)
    with False obtain k where k: "c div 2 ^ l = 2 * k + 2" by (auto elim: even_cases)
    let ?st1 = "merkle_push pb inner ml l st"
    let ?st2 = "?st1\<lparr>ms_h := H (inner l) (ms_h ?st1)\<rparr>"
    have "sweep_inv H xs c (Suc l) (ms_h ?st2)"
      using sweep_inv_Suc [OF prems(3,4,5) k] by simp
    then obtain lv st' where r: "merkle_propagate H pb inner ml c (Suc l) ?st2 = Some (lv, st')" "Suc l \<le> lv"
      "odd (c div 2 ^ lv)" "sweep_inv H xs c lv (ms_h st')" "ms_mutated st' = ms_mutated ?st2"
      using IH [OF ge _ refl _ prems(2) _ prems(4,5)] False by (auto simp: bit_count)
    have "merkle_propagate H pb inner ml c l st = Some (lv, st')"
      using ge False r(1) by (subst merkle_propagate.simps) (simp add: bit_count Let_def)
    with r show thesis by (intro prems(1) [of lv st']) simp_all
  qed
qed

lemma sweep_inv_dup:
  assumes "sweep_inv H xs c l h" "odd (c div 2 ^ l)" "c \<noteq> 2 ^ l" "xs \<noteq> []"
  shows "sweep_inv H xs (c + 2 ^ l) (Suc l) (H h h)" "length xs < c + 2 ^ l" "1 < length (level_of H xs l)"
proof -
  let ?n = "length (level_of H xs l)"
  have c: "c = 2 ^ l * ?n" using assms(1) by (metis dvd_mult_div_cancel sweep_inv_def)
  have o: "odd ?n" using assms(1,2) by (simp add: sweep_inv_def)
  have "?n \<noteq> 1" using c assms(3) by auto
  then show gt: "1 < ?n" using length_level_pos [OF assms(4), of H l] by linarith
  show "length xs < c + 2 ^ l" using assms(1) by (simp add: sweep_inv_def add_strict_increasing2 le_less_trans)
  obtain m where m: "?n = 2 * m + 1" using o by (elim oddE)
  have c': "c + 2 ^ l = 2 ^ Suc l * (m + 1)" by (simp add: c m algebra_simps)
  have "(c + 2 ^ l) div 2 ^ Suc l = m + 1" unfolding c' by (rule nonzero_mult_div_cancel_left) simp
  moreover have "length (level_of H xs (Suc l)) = m + 1" by (simp add: length_level_Suc m)
  moreover have "level_of H xs (Suc l) ! m = H h h"
    using last_next_level [OF o, of H] assms(1) by (simp add: level_of_Suc sweep_inv_def m)
  moreover have "2 ^ Suc l dvd c + 2 ^ l" unfolding c' by simp
  ultimately show "sweep_inv H xs (c + 2 ^ l) (Suc l) (H h h)"
    using assms(1) gt by (auto simp: sweep_inv_def less_Suc_eq)
qed

lemma sweep_done:
  assumes "sweep_inv H xs (2 ^ l) l h"
  shows "h = merkle_root H xs"
proof -
  have "length (level_of H xs l) = 1" using assms by (simp add: sweep_inv_def)
  with assms have "h = merkle_root H (level_of H xs l)"
    by (simp add: sweep_inv_def merkle_root_singleton)
  also have "\<dots> = merkle_root H xs"
    using assms unfolding sweep_inv_def by (intro merkle_root_level) blast
  finally show ?thesis .
qed

lemma merkle_sweep_root:
  assumes "xs \<noteq> []" "inner_inv H xs (length xs) inner"
    and "sweep_inv H xs c l (ms_h st)" "odd (c div 2 ^ l)" "c div 2 ^ l \<le> fuel"
  obtains st' where "merkle_sweep fuel H pb inner ml c l st = Some st'" "ms_h st' = merkle_root H xs"
    "ms_mutated st' = ms_mutated st"
  using assms(3-5)
proof (induction fuel arbitrary: c l st thesis)
  case 0
  then show thesis by (metis even_zero le_zero_eq)
next
  case (Suc fuel)
  show thesis
  proof (cases "c = 2 ^ l")
    case True
    with Suc.prems sweep_done [of H xs l "ms_h st"] show thesis by (intro Suc.prems(1) [of st]) simp_all
  next
    case False
    note dup = sweep_inv_dup [OF Suc.prems(2,3) False assms(1)]
    define st2 where "st2 = (if pb \<and> ms_matchh st then st\<lparr>ms_branch := ms_branch st @ [ms_h st]\<rparr> else st)
      \<lparr>ms_h := H (ms_h st) (ms_h st)\<rparr>"
    have st2: "ms_h st2 = H (ms_h st) (ms_h st)" "ms_mutated st2 = ms_mutated st" by (simp_all add: st2_def)
    obtain lv st3 where p: "merkle_propagate H pb inner ml (c + 2 ^ l) (Suc l) st2 = Some (lv, st3)" "Suc l \<le> lv"
      "odd ((c + 2 ^ l) div 2 ^ lv)" "sweep_inv H xs (c + 2 ^ l) lv (ms_h st3)" "ms_mutated st3 = ms_mutated st2"
      using merkle_propagate_inv [OF assms(1) dup(1) [folded st2(1)] dup(2) assms(2)] by metis
    have "(c + 2 ^ l) div 2 ^ lv \<le> fuel"
    proof -
      have "(c + 2 ^ l) div 2 ^ lv \<le> (c + 2 ^ l) div 2 ^ Suc l"
        using p(2) by (intro div_le_mono2 power_increasing) simp_all
      also have "\<dots> = length (level_of H xs (Suc l))" using dup(1) by (simp add: sweep_inv_def)
      also have "\<dots> < length (level_of H xs l)" using dup(3) by (simp add: length_level_Suc)
      also have "\<dots> = c div 2 ^ l" using Suc.prems(2) by (simp add: sweep_inv_def)
      finally show ?thesis using Suc.prems(4) by simp
    qed
    then obtain st' where r: "merkle_sweep fuel H pb inner ml (c + 2 ^ l) lv st3 = Some st'" "ms_h st' = merkle_root H xs"
      "ms_mutated st' = ms_mutated st3"
      using Suc.IH [OF _ p(4,3)] by metis
    have "merkle_sweep (Suc fuel) H pb inner ml c l st = Some st'"
      using False p(1) r(1) by (cases "pb \<and> ms_matchh st") (auto simp: st2_def)
    with r p st2 show thesis by (intro Suc.prems(1) [of st']) simp_all
  qed
qed

subsection \<open>The root\<close>

lemma merkle_lowest_ok:
  assumes "0 < c" "2 ^ l dvd c"
  obtains lv where "merkle_lowest c l = Some lv" "odd (c div 2 ^ lv)" "2 ^ lv dvd c" "l \<le> lv"
  using assms
proof (induction c l arbitrary: thesis rule: merkle_lowest.induct)
  case (1 c l)
  have ge: "\<not> c < 2 ^ l" using dvd_imp_le [OF "1.prems"(3,2)] by simp
  show thesis
  proof (cases "odd (c div 2 ^ l)")
    case True
    with ge have "merkle_lowest c l = Some l" by (simp add: merkle_lowest.simps bit_count)
    with True "1.prems" show thesis by blast
  next
    case False
    then obtain lv where r: "merkle_lowest c (Suc l) = Some lv" "odd (c div 2 ^ lv)" "2 ^ lv dvd c" "Suc l \<le> lv"
      using "1.IH" [OF ge _ _ "1.prems"(2) dvd_Suc_pow [OF "1.prems"(3)]] by (auto simp: bit_count)
    have "merkle_lowest c l = Some lv" using ge False r(1) by (subst merkle_lowest.simps) (simp add: bit_count)
    with r Suc_leD [OF r(4)] show thesis by (intro "1.prems"(1))
  qed
qed

lemma sweep_inv_start:
  assumes "xs \<noteq> []" "inner_inv H xs (length xs) inner" "odd (length xs div 2 ^ l)" "2 ^ l dvd length xs"
  shows "sweep_inv H xs (length xs) l (inner l)"
proof -
  have len: "length (level_of H xs j) = length xs div 2 ^ j" if "j \<le> l" for j
  proof -
    have "2 ^ j dvd length xs" using that assms(4) by (meson dvd_trans le_imp_power_dvd)
    then obtain q where q: "length xs = 2 ^ j * q" by (elim dvdE)
    have "2 ^ j * length (level_of H xs j) < 2 ^ j * (q + 1)" "2 ^ j * q \<le> 2 ^ j * length (level_of H xs j)"
      using length_level [of j H xs] by (simp_all add: q)
    then have "length (level_of H xs j) < q + 1" "q \<le> length (level_of H xs j)"
      by (simp_all only: mult_less_cancel1 mult_le_cancel1)
    then have "length (level_of H xs j) = q" by simp
    then show ?thesis by (simp add: q)
  qed
  have big: "1 < length xs div 2 ^ j" if "j < l" for j
  proof -
    have "even (length xs div 2 ^ j)" by (rule even_below [OF assms(4) that])
    moreover have "length xs div 2 ^ j \<noteq> 0"
    proof -
      have "(2 :: nat) ^ j \<le> 2 ^ l" using that by (simp add: power_increasing)
      also have "\<dots> \<le> length xs" using assms by (intro dvd_imp_le) simp_all
      finally show ?thesis by (simp add: div_eq_0_iff)
    qed
    ultimately show ?thesis by (auto elim!: evenE)
  qed
  have pos: "0 < length xs div 2 ^ l" using assms(3) by (auto intro: Nat.gr0I)
  have "(length xs div 2 ^ l - 1 + 1) * 2 ^ l \<le> length xs" using pos by (simp add: div_times_less_eq_dividend)
  then have "level_of H xs l ! (length xs div 2 ^ l - 1) = inner l"
    using level_nth [of "length xs div 2 ^ l - 1" l xs H] assms(2,3) by (simp add: inner_inv_def)
  then show ?thesis using assms(4) big by (simp add: sweep_inv_def len)
qed

lemma MerkleComputation_root:
  assumes "xs \<noteq> []"
  obtains br where "MerkleComputation H xs pb pos = Some (merkle_root H xs, twins H xs (length xs), br)"
proof -
  obtain inner ml br where l: "merkle_leaves H pb pos xs 0 (\<lambda>_. 0) (- 1) [] False = Some (inner, ml, br, twins H xs (length xs))"
    "inner_inv H xs (length xs) inner"
    by (rule merkle_leaves_root [of xs "[]" xs H "\<lambda>_. 0" False pb pos "- 1" "[]"])
      (simp_all add: inner_inv_def twins_def)
  obtain lv where v: "merkle_lowest (length xs) 0 = Some lv" "odd (length xs div 2 ^ lv)" "2 ^ lv dvd length xs"
    using assms by (rule_tac merkle_lowest_ok [of "length xs" 0]) auto
  let ?st = "\<lparr>ms_h = inner lv, ms_matchh = (ml = int lv), ms_branch = br, ms_mutated = twins H xs (length xs)\<rparr>"
  have "sweep_inv H xs (length xs) lv (ms_h ?st)"
    using sweep_inv_start [OF assms l(2) v(2,3)] by simp
  then obtain st where "merkle_sweep (Suc (length xs)) H pb inner ml (length xs) lv ?st = Some st"
    "ms_h st = merkle_root H xs" "ms_mutated st = ms_mutated ?st"
    using v(2) by (rule_tac merkle_sweep_root [OF assms l(2), of "length xs" lv ?st "Suc (length xs)" pb ml])
      (simp_all add: le_SucI)
  with l v assms that show thesis by (auto simp: MerkleComputation_def)
qed

section \<open>Branches\<close>

text \<open>The sibling of the ancestor of leaf \<open>pos\<close> at level \<open>l\<close>; a last node without sibling is its own.\<close>

definition sibling :: "(uint256 \<Rightarrow> uint256 \<Rightarrow> uint256) \<Rightarrow> uint256 list \<Rightarrow> nat \<Rightarrow> nat \<Rightarrow> uint256" where
  "sibling H xs pos l =
     (let ys = level_of H xs l; i = pos div 2 ^ l
      in if odd i then ys ! (i - 1) else if i + 1 < length ys then ys ! (i + 1) else ys ! i)"

definition siblings :: "(uint256 \<Rightarrow> uint256 \<Rightarrow> uint256) \<Rightarrow> uint256 list \<Rightarrow> nat \<Rightarrow> nat \<Rightarrow> uint256 list" where
  "siblings H xs pos l = map (sibling H xs pos) [0..<l]"

lemma siblings_Suc: "siblings H xs pos (Suc l) = siblings H xs pos l @ [sibling H xs pos l]"
  by (simp add: siblings_def)

text \<open>
  After \<open>c\<close> leaves the matched leaf, once passed, lies in the complete subtree stored at
  \<open>matchlevel\<close>, and the branch holds its siblings below that level.
\<close>

definition match_inv :: "(uint256 \<Rightarrow> uint256 \<Rightarrow> uint256) \<Rightarrow> uint256 list \<Rightarrow> nat \<Rightarrow> nat \<Rightarrow> int \<Rightarrow> uint256 list \<Rightarrow> bool" where
  "match_inv H xs pos c ml br \<longleftrightarrow>
     (if pos < c
      then \<exists>m. ml = int m \<and> odd (c div 2 ^ m) \<and> pos div 2 ^ m = c div 2 ^ m - 1 \<and> br = siblings H xs pos m
      else ml = - 1 \<and> br = [])"

text \<open>The running hash is the node with index \<open>i\<close> of level \<open>l\<close>; it carries the match or \<open>inner\<close> does.\<close>

definition st_match :: "(uint256 \<Rightarrow> uint256 \<Rightarrow> uint256) \<Rightarrow> uint256 list \<Rightarrow> nat \<Rightarrow> nat \<Rightarrow> int \<Rightarrow> nat \<Rightarrow> nat \<Rightarrow> MerkleSt \<Rightarrow> bool" where
  "st_match H xs pos c ml i l st \<longleftrightarrow>
     (if pos div 2 ^ l = i then ms_matchh st \<and> ms_branch st = siblings H xs pos l
      else \<not> ms_matchh st \<and> match_inv H xs pos c ml (ms_branch st))"

lemma st_match_update [simp]:
  "st_match H xs pos c ml i l (st\<lparr>ms_h := h\<rparr>) = st_match H xs pos c ml i l st"
  "st_match H xs pos c ml i l (st\<lparr>ms_mutated := mu\<rparr>) = st_match H xs pos c ml i l st"
  by (simp_all add: st_match_def)

lemma block_unique_less:
  assumes "odd ((c :: nat) div 2 ^ a)" "odd (c div 2 ^ b)" "pos div 2 ^ a = c div 2 ^ a - 1" "pos div 2 ^ b = c div 2 ^ b - 1"
  shows "\<not> a < b"
proof
  assume "a < b"
  then obtain k where b: "b = a + (1 + k)" by (metis add_Suc_right less_imp_Suc_add plus_1_eq_Suc)
  have "(c div 2 ^ a - 1) div 2 = c div 2 ^ a div 2" using assms(1) by (auto elim: oddE)
  then have "pos div 2 ^ b = c div 2 ^ b" unfolding b div_pow_add assms(3) by simp
  with assms(2,4) show False by (cases "c div 2 ^ b") auto
qed

lemma block_unique:
  "odd ((c :: nat) div 2 ^ a) \<Longrightarrow> odd (c div 2 ^ b) \<Longrightarrow> pos div 2 ^ a = c div 2 ^ a - 1 \<Longrightarrow>
    pos div 2 ^ b = c div 2 ^ b - 1 \<Longrightarrow> a = b"
  using block_unique_less [of c a b pos] block_unique_less [of c b a pos] by linarith

lemma st_match_push:
  assumes m: "st_match H xs pos c ml (2 * k + 1) l st" and c: "c div 2 ^ l = 2 * k + 1"
    and len: "2 * k + 2 \<le> length (level_of H xs l)"
    and L: "inner l = level_of H xs l ! (2 * k)" "ms_h st = level_of H xs l ! (2 * k + 1)"
  shows "st_match H xs pos c ml k (Suc l) ((merkle_push True inner ml l st)\<lparr>ms_mutated := mu, ms_h := h'\<rparr>)"
proof -
  let ?i = "pos div 2 ^ l"
  have S: "pos div (2 * 2 ^ l) = ?i div 2" using div_pow_Suc [of pos l] by simp
  consider (right) "?i = 2 * k + 1" | (left) "?i = 2 * k" | (other) "?i \<noteq> 2 * k + 1" "?i \<noteq> 2 * k" by blast
  then show ?thesis
  proof cases
    case right
    then have "sibling H xs pos l = inner l" by (simp add: sibling_def L)
    with right m show ?thesis by (simp add: st_match_def merkle_push_def S siblings_Suc)
  next
    case left
    then have n: "\<not> ms_matchh st" "match_inv H xs pos c ml (ms_branch st)" using m by (simp_all add: st_match_def)
    have "pos < c"
    proof (rule ccontr)
      assume "\<not> pos < c"
      then have "c div 2 ^ l \<le> ?i" by (simp add: div_le_mono)
      then show False using left c by simp
    qed
    with n(2) obtain j where j: "ml = int j" "odd (c div 2 ^ j)" "pos div 2 ^ j = c div 2 ^ j - 1"
      "ms_branch st = siblings H xs pos j" by (auto simp: match_inv_def)
    have "j = l" by (rule block_unique [OF j(2) _ j(3)]) (simp_all add: c left)
    moreover have "sibling H xs pos l = ms_h st" using left len by (simp add: sibling_def L)
    ultimately show ?thesis using left n j by (simp add: st_match_def merkle_push_def S siblings_Suc)
  next
    case other
    then have n: "\<not> ms_matchh st" "match_inv H xs pos c ml (ms_branch st)" using m by (simp_all add: st_match_def)
    have "ml \<noteq> int l"
    proof
      assume "ml = int l"
      then have "pos div 2 ^ l = c div 2 ^ l - 1" using n(2) by (auto simp: match_inv_def split: if_splits)
      with other c show False by simp
    qed
    moreover have "?i div 2 \<noteq> k" using other by (auto simp: S)
    ultimately show ?thesis using n by (simp add: st_match_def merkle_push_def S)
  qed
qed

lemma merkle_carry_branch:
  assumes "0 < c" "c \<le> length xs" "inner_inv H xs (c - 1) inner" "2 ^ level dvd c"
    and "ms_h st = node H xs level (c div 2 ^ level - 1)"
    and "st_match H xs pos (c - 1) ml (c div 2 ^ level - 1) level st"
    and "pb" and "merkle_carry H pb inner ml c level st = Some (lv, st')"
  shows "st_match H xs pos (c - 1) ml (c div 2 ^ lv - 1) lv st'"
  using assms
proof (induction H pb inner ml c level st rule: merkle_carry.induct)
  case (1 H pb inner ml c level st)
  note prems = "1.prems" and IH = "1.IH"
  have ge: "\<not> c < 2 ^ level" using dvd_imp_le [OF prems(4,1)] by simp
  show ?case
  proof (cases "odd (c div 2 ^ level)")
    case True
    with ge prems(8) have "lv = level \<and> st' = st"
      by (simp add: merkle_carry.simps bit_count)
    with prems show ?thesis by blast
  next
    case False
    have "c div 2 ^ level \<noteq> 0" using ge by (simp add: div_eq_0_iff)
    with False obtain k where k: "c div 2 ^ level = 2 * k + 2" by (auto elim: even_cases)
    have c1: "(c - 1) div 2 ^ level = 2 * k + 1" using dvd_pred_div [OF prems(4,1)] by (simp add: k)
    have "(2 * k + 1 + 1) * 2 ^ level \<le> length xs"
      using prems(2) div_times_less_eq_dividend [of c "2 ^ level"] by (simp add: k)
    moreover have "(2 * k + 1) * 2 ^ level \<le> length xs" using calculation by simp
    ultimately have L: "2 * k + 2 \<le> length (level_of H xs level)" "level_of H xs level ! (2 * k) = node H xs level (2 * k)"
      "level_of H xs level ! (2 * k + 1) = node H xs level (2 * k + 1)"
      using level_nth [of "2 * k + 1" level xs H] level_nth [of "2 * k" level xs H] by simp_all
    have inner: "inner level = node H xs level (2 * k)"
      using prems(3) c1 by (auto simp: inner_inv_def)
    have inn: "inner level = level_of H xs level ! (2 * k)" using L(2) inner by simp
    have hs: "ms_h st = level_of H xs level ! (2 * k + 1)" using prems(5) L(3) by (simp add: k)
    have sm: "st_match H xs pos (c - 1) ml (2 * k + 1) level st" using prems(6) by (simp add: k)
    let ?st1 = "merkle_push pb inner ml level st"
    let ?st2 = "?st1\<lparr>ms_mutated := (ms_mutated ?st1 \<or> inner level = ms_h ?st1), ms_h := H (inner level) (ms_h ?st1)\<rparr>"
    have cS: "c div 2 ^ Suc level - 1 = k" unfolding div_pow_Suc k by simp
    have "ms_h ?st2 = node H xs (Suc level) (c div 2 ^ Suc level - 1)"
      unfolding cS by (simp add: k inner prems(5))
    moreover have "st_match H xs pos (c - 1) ml (c div 2 ^ Suc level - 1) (Suc level) ?st2"
      using st_match_push [where inner = inner, OF sm c1 L(1) inn hs, of "H (inner level) (ms_h ?st1)" "ms_mutated ?st1 \<or> inner level = ms_h ?st1"]
        prems(7) unfolding cS by simp
    moreover have "merkle_carry H pb inner ml c (Suc level) ?st2 = Some (lv, st')"
      using prems(8) ge False by (subst (asm) merkle_carry.simps) (simp add: bit_count Let_def)
    ultimately show ?thesis
      using IH [OF ge _ refl prems(1,2,3) dvd_Suc_pow [OF prems(4)] _ _ prems(7)] False by (simp add: bit_count)
  qed
qed

lemma match_inv_store:
  assumes "0 < c" "odd (c div 2 ^ lv)" "2 ^ lv dvd c"
    and m: "st_match H xs pos (c - 1) ml (c div 2 ^ lv - 1) lv st"
  shows "match_inv H xs pos c (if ms_matchh st then int lv else ml) (ms_branch st)"
proof (cases "pos div 2 ^ lv = c div 2 ^ lv - 1")
  case True
  have "pos < c"
  proof (rule ccontr)
    assume "\<not> pos < c"
    then have "c div 2 ^ lv \<le> pos div 2 ^ lv" by (simp add: div_le_mono)
    with True assms(2) show False by (cases "c div 2 ^ lv") auto
  qed
  with True m assms(2) show ?thesis by (auto simp: st_match_def match_inv_def)
next
  case False
  then have n: "\<not> ms_matchh st" "match_inv H xs pos (c - 1) ml (ms_branch st)" using m by (simp_all add: st_match_def)
  show ?thesis
  proof (cases "pos < c - 1")
    case True
    then obtain j where j: "ml = int j" "odd ((c - 1) div 2 ^ j)" "pos div 2 ^ j = (c - 1) div 2 ^ j - 1"
      "ms_branch st = siblings H xs pos j" using n(2) by (auto simp: match_inv_def)
    have "lv < j"
    proof (rule ccontr)
      assume "\<not> lv < j"
      then obtain d where d: "lv = j + d" by (auto simp: not_less le_iff_add)
      show False
      proof (cases d)
        case 0
        then show False using j(2) d assms(2) dvd_pred_div [OF assms(3,1)] by simp
      next
        case (Suc e)
        have dj: "2 ^ j dvd c" using assms(3) d by (auto simp: power_add intro: dvd_mult_left)
        obtain q where q: "c div 2 ^ j = 2 * q" using even_below [OF assms(3), of j] d Suc by (auto elim: evenE)
        have "q \<noteq> 0" using j(2) dvd_pred_div [OF dj assms(1)] q by auto
        then have "pos div 2 ^ j = 2 * (q - 1)" using j(3) dvd_pred_div [OF dj assms(1)] q by simp
        then have "pos div 2 ^ Suc j = q - 1" unfolding div_pow_Suc by simp
        moreover have "c div 2 ^ Suc j = q" unfolding div_pow_Suc q by simp
        moreover have lv: "lv = Suc j + e" using d Suc by simp
        moreover have "(q - 1) div 2 ^ e = q div 2 ^ e - 1"
        proof (rule dvd_pred_div)
          have "2 ^ e * 2 ^ Suc j dvd c" using assms(3) lv by (simp add: power_add ac_simps)
          then have "2 ^ e dvd c div 2 ^ Suc j" by (rule dvd_mult_imp_div)
          then show "2 ^ e dvd q" using calculation by simp
        qed (use \<open>q \<noteq> 0\<close> in simp)
        ultimately have "pos div 2 ^ lv = c div 2 ^ lv - 1" by (simp only: div_pow_add)
        with False show False by simp
      qed
    qed
    then have "(c - 1) div 2 ^ j = c div 2 ^ j" by (rule odd_pred_div [OF assms(3,2)])
    with j n True show ?thesis by (auto simp: match_inv_def)
  next
    case False
    have "pos \<noteq> c - 1"
      using \<open>pos div 2 ^ lv \<noteq> c div 2 ^ lv - 1\<close> dvd_pred_div [OF assms(3,1)] by auto
    with False assms(1) have "\<not> pos < c" by simp
    with False n show ?thesis by (auto simp: match_inv_def)
  qed
qed

lemma merkle_leaves_branch:
  assumes "xs = pre @ rest" "inner_inv H xs (length pre) inner" "match_inv H xs pos (length pre) ml br"
    and "merkle_leaves H True pos rest (length pre) inner ml br mutated = Some (inner', ml', br', mutated')"
  shows "match_inv H xs pos (length xs) ml' br'"
  using assms
proof (induction rest arbitrary: pre inner ml br mutated)
  case Nil
  then show ?case by simp
next
  case (Cons leaf rest)
  let ?c = "Suc (length pre)"
  let ?st = "\<lparr>ms_h = leaf, ms_matchh = (length pre = pos), ms_branch = br, ms_mutated = mutated\<rparr>"
  obtain lv st where c: "merkle_carry H True inner ml ?c 0 ?st = Some (lv, st)" "odd (?c div 2 ^ lv)" "2 ^ lv dvd ?c"
    "ms_h st = node H xs lv (?c div 2 ^ lv - 1)"
    using Cons.prems by (rule_tac merkle_carry_root [of ?c H xs inner 0 ?st mutated True ml]) (auto simp: carry_twins_def)
  have "st_match H xs pos (?c - 1) ml (?c div 2 ^ 0 - 1) 0 ?st"
    using Cons.prems(3) by (auto simp: st_match_def siblings_def match_inv_def)
  then have "st_match H xs pos (?c - 1) ml (?c div 2 ^ lv - 1) lv st"
    using c(1) Cons.prems(1,2) by (rule_tac merkle_carry_branch [of ?c xs H inner 0 ?st pos ml True]) simp_all
  then have "match_inv H xs pos ?c (if ms_matchh st then int lv else ml) (ms_branch st)"
    using c by (intro match_inv_store) simp_all
  moreover have "inner_inv H xs ?c (inner(lv := ms_h st))"
    using Cons.prems c by (intro inner_inv_store) simp_all
  moreover have "merkle_leaves H True pos rest (length (pre @ [leaf])) (inner(lv := ms_h st))
      (if ms_matchh st then int lv else ml) (ms_branch st) (ms_mutated st) = Some (inner', ml', br', mutated')"
    using Cons.prems(4) c(1) by simp
  ultimately show ?case
    using Cons.prems(1) by (rule_tac Cons.IH [of "pre @ [leaf]"]) (simp_all add: fun_upd_def)
qed

lemma merkle_propagate_branch:
  assumes "xs \<noteq> []" "sweep_inv H xs c l (ms_h st)" "length xs < c" "inner_inv H xs (length xs) inner"
    and "st_match H xs pos (length xs) ml (c div 2 ^ l - 1) l st"
    and "pb" and "merkle_propagate H pb inner ml c l st = Some (lv, st')"
  shows "st_match H xs pos (length xs) ml (c div 2 ^ lv - 1) lv st'"
  using assms
proof (induction H pb inner ml c l st rule: merkle_propagate.induct)
  case (1 H pb inner ml c l st)
  note prems = "1.prems" and IH = "1.IH"
  have ge: "\<not> c < 2 ^ l" using sweep_inv_ge [OF prems(1,2)] by simp
  show ?case
  proof (cases "odd (c div 2 ^ l)")
    case True
    with ge prems(7) have "lv = l \<and> st' = st" by (simp add: merkle_propagate.simps bit_count)
    with prems show ?thesis by blast
  next
    case False
    have "c div 2 ^ l \<noteq> 0" using ge by (simp add: div_eq_0_iff)
    with False obtain k where k: "c div 2 ^ l = 2 * k + 2" by (auto elim: even_cases)
    note i = sweep_inner [OF prems(2,3,4) k]
    have hs: "ms_h st = level_of H xs l ! (2 * k + 1)" using prems(2) i(2) by (simp add: sweep_inv_def)
    have len: "2 * k + 2 \<le> length (level_of H xs l)" using i(2) by simp
    have sm: "st_match H xs pos (length xs) ml (2 * k + 1) l st" using prems(5) by (simp add: k)
    let ?st1 = "merkle_push pb inner ml l st"
    let ?st2 = "?st1\<lparr>ms_h := H (inner l) (ms_h ?st1)\<rparr>"
    have cS: "c div 2 ^ Suc l - 1 = k" unfolding div_pow_Suc k by simp
    have "sweep_inv H xs c (Suc l) (ms_h ?st2)"
      using sweep_inv_Suc [OF prems(2,3,4) k] by simp
    moreover have "st_match H xs pos (length xs) ml (c div 2 ^ Suc l - 1) (Suc l) ?st2"
      using st_match_push [where inner = inner, OF sm i(3) len i(1) hs, of "H (inner l) (ms_h ?st1)" "ms_mutated ?st1"]
        prems(6) unfolding cS by simp
    moreover have "merkle_propagate H pb inner ml c (Suc l) ?st2 = Some (lv, st')"
      using prems(7) ge False by (subst (asm) merkle_propagate.simps) (simp add: bit_count Let_def)
    ultimately show ?thesis
      using IH [OF ge _ refl prems(1) _ prems(3,4) _ prems(6)] False by (simp add: bit_count)
  qed
qed

lemma st_match_dup:
  assumes "sweep_inv H xs c l (ms_h st)" "odd (c div 2 ^ l)" "pos < length xs" "inner_inv H xs (length xs) inner"
    and m: "st_match H xs pos (length xs) ml (c div 2 ^ l - 1) l st"
  shows "st_match H xs pos (length xs) ml ((c + 2 ^ l) div 2 ^ Suc l - 1) (Suc l)
    ((if ms_matchh st then st\<lparr>ms_branch := ms_branch st @ [ms_h st]\<rparr> else st)\<lparr>ms_h := h'\<rparr>)"
proof -
  obtain q where q: "c div 2 ^ l = 2 * q + 1" using assms(2) by (elim oddE)
  have n: "length (level_of H xs l) = 2 * q + 1" using assms(1) q by (simp add: sweep_inv_def)
  have "(c + 2 ^ l) div 2 ^ l = c div 2 ^ l + 1" by (rule div_add_self2) simp
  then have cS: "(c + 2 ^ l) div 2 ^ Suc l - 1 = q" unfolding div_pow_Suc by (simp add: q)
  have le: "pos div 2 ^ l < 2 * q + 1"
    using assms(3) length_level [of l H xs] unfolding n by (intro less_mult_imp_div_less) (simp add: mult.commute)
  have S: "pos div (2 * 2 ^ l) = pos div 2 ^ l div 2" using div_pow_Suc [of pos l] by simp
  show ?thesis
  proof (cases "pos div 2 ^ l = 2 * q")
    case True
    then have "sibling H xs pos l = ms_h st" using assms(1) n by (simp add: sibling_def sweep_inv_def)
    with True m q show ?thesis unfolding cS by (simp add: st_match_def S siblings_Suc)
  next
    case False
    with le have "pos div 2 ^ l div 2 \<noteq> q" by linarith
    with False m q show ?thesis unfolding cS by (simp add: st_match_def S)
  qed
qed

lemma merkle_sweep_branch:
  assumes "xs \<noteq> []" "inner_inv H xs (length xs) inner" "pos < length xs"
    and "sweep_inv H xs c l (ms_h st)" "odd (c div 2 ^ l)"
    and "st_match H xs pos (length xs) ml (c div 2 ^ l - 1) l st"
    and "merkle_sweep fuel H True inner ml c l st = Some st'"
  obtains top where "ms_branch st' = siblings H xs pos top" "length (level_of H xs top) = 1" "pos div 2 ^ top = 0"
    "merkle_root H xs = level_of H xs top ! 0"
  using assms(4-)
proof (induction fuel arbitrary: c l st thesis)
  case 0
  then show thesis by simp
next
  case (Suc fuel)
  show thesis
  proof (cases "c = 2 ^ l")
    case True
    have len: "length (level_of H xs l) = 1" using Suc.prems(2) by (simp add: sweep_inv_def True)
    have "pos < 2 ^ l" using assms(3) Suc.prems(2) by (simp add: sweep_inv_def True)
    then have p: "pos div 2 ^ l = 0" by simp
    have "ms_branch st = siblings H xs pos l" using Suc.prems(4) p by (simp add: st_match_def True)
    moreover have "merkle_root H xs = level_of H xs l ! 0"
      using sweep_done [of H xs l "ms_h st"] Suc.prems(2) len by (simp add: sweep_inv_def True)
    moreover have "st' = st" using Suc.prems(5) True by simp
    ultimately show thesis using len p by (intro Suc.prems(1)) simp_all
  next
    case False
    note dup = sweep_inv_dup [OF Suc.prems(2,3) False assms(1)]
    define st2 where "st2 = (if ms_matchh st then st\<lparr>ms_branch := ms_branch st @ [ms_h st]\<rparr> else st)
      \<lparr>ms_h := H (ms_h st) (ms_h st)\<rparr>"
    have st2: "ms_h st2 = H (ms_h st) (ms_h st)" by (simp add: st2_def)
    have m2: "st_match H xs pos (length xs) ml ((c + 2 ^ l) div 2 ^ Suc l - 1) (Suc l) st2"
      unfolding st2_def by (rule st_match_dup [OF Suc.prems(2,3) assms(3,2) Suc.prems(4)])
    obtain lv st3 where p: "merkle_propagate H True inner ml (c + 2 ^ l) (Suc l) st2 = Some (lv, st3)"
      "odd ((c + 2 ^ l) div 2 ^ lv)" "sweep_inv H xs (c + 2 ^ l) lv (ms_h st3)"
      using merkle_propagate_inv [OF assms(1) dup(1) [folded st2] dup(2) assms(2)] by metis
    have sm: "st_match H xs pos (length xs) ml ((c + 2 ^ l) div 2 ^ lv - 1) lv st3"
      by (rule merkle_propagate_branch [OF assms(1) dup(1) [folded st2] dup(2) assms(2) m2 TrueI p(1)])
    have sw: "merkle_sweep fuel H True inner ml (c + 2 ^ l) lv st3 = Some st'"
      using Suc.prems(5) False p(1) by (cases "ms_matchh st") (auto simp: st2_def)
    show thesis by (rule Suc.IH [OF _ p(3,2) sm sw]) (rule Suc.prems(1))
  qed
qed

lemma st_match_start:
  assumes "match_inv H xs pos (length xs) ml br" "pos < length xs" "odd (length xs div 2 ^ lv)"
  shows "st_match H xs pos (length xs) ml (length xs div 2 ^ lv - 1) lv
    \<lparr>ms_h = h, ms_matchh = (ml = int lv), ms_branch = br, ms_mutated = mu\<rparr>"
proof -
  obtain m where m: "ml = int m" "odd (length xs div 2 ^ m)" "pos div 2 ^ m = length xs div 2 ^ m - 1"
    "br = siblings H xs pos m" using assms(1,2) by (auto simp: match_inv_def)
  have "m = lv" if "pos div 2 ^ lv = length xs div 2 ^ lv - 1"
    by (rule block_unique [OF m(2) assms(3) m(3) that])
  with m assms show ?thesis by (auto simp: st_match_def)
qed

lemma MerkleComputation_branch:
  assumes "pos < length xs" "MerkleComputation H xs True pos = Some (root, mu, br)"
  obtains top where "br = siblings H xs pos top" "length (level_of H xs top) = 1" "pos div 2 ^ top = 0"
    "merkle_root H xs = level_of H xs top ! 0"
proof -
  have ne: "xs \<noteq> []" using assms(1) by auto
  obtain inner ml br0 where l: "merkle_leaves H True pos xs 0 (\<lambda>_. 0) (- 1) [] False = Some (inner, ml, br0, twins H xs (length xs))"
    "inner_inv H xs (length xs) inner"
    by (rule merkle_leaves_root [of xs "[]" xs H "\<lambda>_. 0" False True pos "- 1" "[]"])
      (simp_all add: inner_inv_def twins_def)
  have mi: "match_inv H xs pos (length xs) ml br0"
    using l(1) by (rule_tac merkle_leaves_branch [of xs "[]" xs H "\<lambda>_. 0" pos "- 1" "[]" False inner ml br0])
      (simp_all add: inner_inv_def match_inv_def)
  obtain lv where v: "merkle_lowest (length xs) 0 = Some lv" "odd (length xs div 2 ^ lv)" "2 ^ lv dvd length xs"
    using ne by (rule_tac merkle_lowest_ok [of "length xs" 0]) auto
  let ?st = "\<lparr>ms_h = inner lv, ms_matchh = (ml = int lv), ms_branch = br0, ms_mutated = twins H xs (length xs)\<rparr>"
  obtain st where st: "merkle_sweep (Suc (length xs)) H True inner ml (length xs) lv ?st = Some st" "ms_branch st = br"
    using assms(2) ne l(1) v(1) by (auto simp: MerkleComputation_def simp del: merkle_sweep.simps)
  have "sweep_inv H xs (length xs) lv (ms_h ?st)" using sweep_inv_start [OF ne l(2) v(2,3)] by simp
  then show thesis
    using merkle_sweep_branch [OF ne l(2) assms(1) _ v(2) st_match_start [OF mi assms(1) v(2)] st(1)] st(2) that by auto
qed

lemma level_parent:
  fixes pos l :: nat
  assumes "pos < length xs"
  defines "i \<equiv> pos div 2 ^ l"
  shows "level_of H xs (Suc l) ! (pos div 2 ^ Suc l) =
    (if odd i then H (sibling H xs pos l) (level_of H xs l ! i) else H (level_of H xs l ! i) (sibling H xs pos l))"
proof -
  let ?L = "level_of H xs l"
  have il: "i < length ?L"
    using assms(1) length_level [of l H xs] unfolding i_def by (intro less_mult_imp_div_less) (simp add: mult.commute)
  have S: "pos div 2 ^ Suc l = i div 2" unfolding i_def by (rule div_pow_Suc)
  show ?thesis
  proof (cases "odd i")
    case True
    then obtain k where "i = 2 * k + 1" by (elim oddE)
    with il True show ?thesis
      unfolding S level_of_Suc by (simp add: nth_next_level sibling_def Let_def flip: i_def)
  next
    case False
    then obtain k where k: "i = 2 * k" by (auto elim: evenE)
    show ?thesis
    proof (cases "i + 1 < length ?L")
      case True
      with k False show ?thesis
        unfolding S level_of_Suc by (simp add: nth_next_level sibling_def Let_def flip: i_def)
    next
      case last: False
      then have "length ?L = 2 * k + 1" using il k by simp
      then show ?thesis
        using last_next_level [of ?L H] False k last
        unfolding S level_of_Suc by (simp add: sibling_def Let_def flip: i_def)
    qed
  qed
qed

lemma branch_climbs:
  assumes "pos < length xs"
  shows "ComputeMerkleRootFromBranch H (level_of H xs j ! (pos div 2 ^ j)) (map (sibling H xs pos) [j..<j + d]) (pos div 2 ^ j) =
    level_of H xs (j + d) ! (pos div 2 ^ (j + d))"
proof (induction d arbitrary: j)
  case (Suc d)
  have "[j..<j + Suc d] = j # [Suc j..<Suc j + d]" by (simp add: upt_conv_Cons)
  then show ?case
    using Suc [of "Suc j"] level_parent [OF assms, of H j] unfolding div_pow_Suc by (simp add: div_pow_Suc)
qed simp

section \<open>Properties\<close>

text \<open>
  C15. For every hash function and every list of leaves the constant-space computation finishes
  and returns the root of the tree built level by level (an odd last node is combined with
  itself), together with a mutation flag that is set exactly when two complete sibling subtrees
  somewhere in the tree have equal roots.
\<close>

theorem ComputeMerkleRoot_correct:
  "ComputeMerkleRoot H leaves = Some (merkle_root H leaves, twins H leaves (length leaves))"
proof (cases "leaves = []")
  case True
  then show ?thesis
    by (simp add: ComputeMerkleRoot_def MerkleComputation_def merkle_root.simps twins_def)
next
  case False
  then obtain br where
    "MerkleComputation H leaves False (2 ^ 32 - 1) = Some (merkle_root H leaves, twins H leaves (length leaves), br)"
    by (rule MerkleComputation_root)
  then show ?thesis by (simp only: ComputeMerkleRoot_def) simp
qed

text \<open>
  For every position in the list the branch computation finishes, and folding the branch from
  the leaf at that position gives exactly the root that \<open>ComputeMerkleRoot\<close> computes.
\<close>

lemma ComputeMerkleBranch_verifies:
  assumes "position < length leaves"
  shows "\<exists>branch mutated. ComputeMerkleBranch H leaves position = Some branch
    \<and> ComputeMerkleRoot H leaves = Some (ComputeMerkleRootFromBranch H (leaves ! position) branch position, mutated)"
proof -
  have ne: "leaves \<noteq> []" using assms by auto
  obtain br where b: "MerkleComputation H leaves True position = Some (merkle_root H leaves, twins H leaves (length leaves), br)"
    using ne by (rule MerkleComputation_root)
  obtain top where t: "br = siblings H leaves position top" "position div 2 ^ top = 0"
    "merkle_root H leaves = level_of H leaves top ! 0"
    using assms b by (rule MerkleComputation_branch)
  obtain br' where r: "MerkleComputation H leaves False (2 ^ 32 - 1) = Some (merkle_root H leaves, twins H leaves (length leaves), br')"
    using ne by (rule MerkleComputation_root)
  have "ComputeMerkleRootFromBranch H (leaves ! position) br position = merkle_root H leaves"
    using branch_climbs [OF assms, of H 0 top] t by (simp add: siblings_def)
  moreover have "ComputeMerkleRoot H leaves = Some (merkle_root H leaves, twins H leaves (length leaves))"
    unfolding ComputeMerkleRoot_def r by simp
  ultimately show ?thesis by (simp add: ComputeMerkleBranch_def b)
qed

text \<open>The pairs that folding a branch hashes, leaf first.\<close>

fun branch_inputs :: "(uint256 \<Rightarrow> uint256 \<Rightarrow> uint256) \<Rightarrow> uint256 \<Rightarrow> uint256 list \<Rightarrow> nat \<Rightarrow> (uint256 \<times> uint256) list" where
  "branch_inputs H hash [] nIndex = []"
| "branch_inputs H hash (it # rest) nIndex =
     (let p = if odd nIndex then (it, hash) else (hash, it)
      in p # branch_inputs H (case_prod H p) rest (nIndex div 2))"

text \<open>
  A branch binds its leaf: if two different leaves fold to the same root at the same index
  with branches of equal length, then at some step the two foldings themselves feed the hash function two
  different pairs with the same hash.
\<close>

lemma branch_binding:
  assumes "length branch = length branch'" "leaf \<noteq> leaf'"
    and "ComputeMerkleRootFromBranch H leaf branch nIndex = ComputeMerkleRootFromBranch H leaf' branch' nIndex"
  shows "\<exists>(p, q) \<in> set (zip (branch_inputs H leaf branch nIndex) (branch_inputs H leaf' branch' nIndex)).
    p \<noteq> q \<and> case_prod H p = case_prod H q"
  using assms
proof (induction branch branch' arbitrary: leaf leaf' nIndex rule: list_induct2)
  case (Cons x xs y ys)
  let ?p = "if odd nIndex then (x, leaf) else (leaf, x)" and ?q = "if odd nIndex then (y, leaf') else (leaf', y)"
  have ne: "?p \<noteq> ?q" using Cons.prems(1) by simp
  show ?case
  proof (cases "case_prod H ?p = case_prod H ?q")
    case True
    with ne show ?thesis by (auto simp: Let_def split: if_splits)
  next
    case False
    with Cons.IH [OF False, of "nIndex div 2"] Cons.prems(2) show ?thesis by (auto simp: Let_def split: if_splits)
  qed
qed simp

end
