(* ===== verification/Serialize.thy ===== *)
theory Serialize
  imports Prelude "HOL-Library.Monad_Syntax"
begin

text \<open>
  The serialization layer (\<open>src/src/serialize.h\<close>, byte order helpers of
  \<open>src/src/crypto/common.h\<close>).  A writer is a function to byte lists; a reader takes the bytes
  that are left in the stream and returns a value with the remaining bytes, or \<open>None\<close> where the
  source throws \<open>std::ios_base::failure\<close>.  The locale \<open>codec\<close> is the contract every pair of
  \<open>Serialize\<close> and \<open>Unserialize\<close> has to meet: reading what was written returns the value and
  leaves the rest of the stream.  It is interpreted on each encoding of the development.
\<close>

section \<open>Byte order\<close>

type_synonym 'a reader = "bytes \<Rightarrow> ('a \<times> bytes) option"

primrec le_bytes :: "nat \<Rightarrow> nat \<Rightarrow> bytes" where
  "le_bytes 0 n = []"
| "le_bytes (Suc k) n = of_nat n # le_bytes k (n div 256)"

primrec le_val :: "bytes \<Rightarrow> nat" where
  "le_val [] = 0"
| "le_val (b # bs) = unat b + 256 * le_val bs"

definition read_bytes :: "nat \<Rightarrow> bytes reader" where
  "read_bytes n s = (if length s < n then None else Some (take n s, drop n s))"

definition WriteLE16 :: "u16 \<Rightarrow> bytes" where
  "WriteLE16 x = le_bytes 2 (unat x)"

definition WriteLE32 :: "u32 \<Rightarrow> bytes" where
  "WriteLE32 x = le_bytes 4 (unat x)"

definition WriteLE64 :: "u64 \<Rightarrow> bytes" where
  "WriteLE64 x = le_bytes 8 (unat x)"

definition ReadLE16 :: "bytes \<Rightarrow> u16" where
  "ReadLE16 p = of_nat (le_val (take 2 p))"

definition ReadLE32 :: "bytes \<Rightarrow> u32" where
  "ReadLE32 p = of_nat (le_val (take 4 p))"

definition ReadLE64 :: "bytes \<Rightarrow> u64" where
  "ReadLE64 p = of_nat (le_val (take 8 p))"

definition WriteBE32 :: "u32 \<Rightarrow> bytes" where
  "WriteBE32 x = rev (le_bytes 4 (unat x))"

definition WriteBE64 :: "u64 \<Rightarrow> bytes" where
  "WriteBE64 x = rev (le_bytes 8 (unat x))"

definition ReadBE32 :: "bytes \<Rightarrow> u32" where
  "ReadBE32 p = of_nat (le_val (rev (take 4 p)))"

definition ReadBE64 :: "bytes \<Rightarrow> u64" where
  "ReadBE64 p = of_nat (le_val (rev (take 8 p)))"

definition ser_writedata8 :: "u8 \<Rightarrow> bytes" where
  "ser_writedata8 x = [x]"

definition ser_writedata16 :: "u16 \<Rightarrow> bytes" where
  "ser_writedata16 x = le_bytes 2 (unat x)"

definition ser_writedata32 :: "u32 \<Rightarrow> bytes" where
  "ser_writedata32 x = le_bytes 4 (unat x)"

definition ser_writedata64 :: "u64 \<Rightarrow> bytes" where
  "ser_writedata64 x = le_bytes 8 (unat x)"

definition ser_readdata8 :: "u8 reader" where
  "ser_readdata8 s = do { (b, s) \<leftarrow> read_bytes 1 s; Some (b ! 0, s) }"

definition ser_readdata16 :: "u16 reader" where
  "ser_readdata16 s = do { (b, s) \<leftarrow> read_bytes 2 s; Some (of_nat (le_val b), s) }"

definition ser_readdata32 :: "u32 reader" where
  "ser_readdata32 s = do { (b, s) \<leftarrow> read_bytes 4 s; Some (of_nat (le_val b), s) }"

definition ser_readdata64 :: "u64 reader" where
  "ser_readdata64 s = do { (b, s) \<leftarrow> read_bytes 8 s; Some (of_nat (le_val b), s) }"

section \<open>Compact sizes\<close>

definition MAX_SIZE :: u64 where
  "MAX_SIZE = 0x02000000"

definition GetSizeOfCompactSize :: "u64 \<Rightarrow> nat" where
  "GetSizeOfCompactSize nSize =
     (if nSize < 253 then 1 else if nSize \<le> 0xffff then 1 + 2
      else if nSize \<le> 0xffffffff then 1 + 4 else 1 + 8)"

definition WriteCompactSize :: "u64 \<Rightarrow> bytes" where
  "WriteCompactSize nSize =
     (if nSize < 253 then ser_writedata8 (ucast nSize)
      else if nSize \<le> 0xffff then ser_writedata8 253 @ ser_writedata16 (ucast nSize)
      else if nSize \<le> 0xffffffff then ser_writedata8 254 @ ser_writedata32 (ucast nSize)
      else ser_writedata8 255 @ ser_writedata64 nSize)"

definition ReadCompactSize :: "u64 reader" where
  "ReadCompactSize s = do {
     (chSize, s) \<leftarrow> ser_readdata8 s;
     (nSizeRet, s) \<leftarrow>
       (if chSize < 253 then Some (ucast chSize, s)
        else if chSize = 253 then do {
          (x, s) \<leftarrow> ser_readdata16 s; if (ucast x :: u64) < 253 then None else Some (ucast x, s) }
        else if chSize = 254 then do {
          (x, s) \<leftarrow> ser_readdata32 s; if (ucast x :: u64) < 0x10000 then None else Some (ucast x, s) }
        else do {
          (x, s) \<leftarrow> ser_readdata64 s; if x < 0x100000000 then None else Some (x, s) });
     if nSizeRet > MAX_SIZE then None else Some (nSizeRet, s) }"

section \<open>Variable-length integers\<close>

text \<open>The array \<open>tmp\<close> of \<open>WriteVarInt\<close>, least significant digit first; \<open>more\<close> is \<open>len != 0\<close>.\<close>

function varint_tmp :: "'a :: len word \<Rightarrow> bool \<Rightarrow> bytes" where
  "varint_tmp n more =
     ((ucast n AND 0x7f) OR (if more then 0x80 else 0)) #
     (if unat n \<le> 0x7f then [] else varint_tmp (drop_bit 7 n - 1) True)"
  by auto
termination
proof (relation "measure (\<lambda>(n, more). unat n)", goal_cases)
  case (2 n more)
  then have nz: "unat (drop_bit 7 n) \<noteq> 0"
    unfolding unat_drop_bit_eq by (simp add: drop_bit_eq_div div_eq_0_iff)
  then have "1 \<le> drop_bit 7 n" by (simp add: word_le_nat_alt)
  then have "unat (drop_bit 7 n - 1) = unat (drop_bit 7 n) - 1" by (simp add: unat_sub)
  moreover have "unat (drop_bit 7 n) \<le> unat n"
    unfolding unat_drop_bit_eq by (simp add: drop_bit_eq_div)
  ultimately show ?case using nz by simp
qed simp

definition WriteVarInt :: "'a :: len word \<Rightarrow> bytes" where
  "WriteVarInt n = rev (varint_tmp n False)"

definition GetSizeOfVarInt :: "'a :: len word \<Rightarrow> nat" where
  "GetSizeOfVarInt n = length (varint_tmp n False)"

fun ReadVarInt_loop :: "'a :: len word \<Rightarrow> 'a word reader" where
  "ReadVarInt_loop n [] = None"
| "ReadVarInt_loop n (chData # s) =
     (let n1 = push_bit 7 n OR ucast (chData AND 0x7f)
      in if chData AND 0x80 \<noteq> 0 then ReadVarInt_loop (n1 + 1) s else Some (n1, s))"

definition ReadVarInt :: "'a :: len word reader" where
  "ReadVarInt s = ReadVarInt_loop 0 s"

section \<open>Vectors\<close>

text \<open>
  Vectors of bytes are read in blocks of at most 5,000,000 bytes, other vectors element by
  element; \<open>unsigned int nSize\<close> holds the size, which \<open>ReadCompactSize\<close> bounds by \<open>MAX_SIZE\<close>.
\<close>

definition put_blob :: "bytes \<Rightarrow> bytes" where
  "put_blob v = WriteCompactSize (of_nat (length v)) @ v"

function read_blocks :: "nat \<Rightarrow> nat \<Rightarrow> bytes \<Rightarrow> bytes reader" where
  "read_blocks nSize i v s =
     (if i < nSize
      then do { (b, s) \<leftarrow> read_bytes (min (nSize - i) 5000000) s;
                read_blocks nSize (i + min (nSize - i) 5000000) (v @ b) s }
      else Some (v, s))"
  by auto
termination
  by (relation "measure (\<lambda>(nSize, i, v, s). nSize - i)") auto

definition get_blob :: "bytes reader" where
  "get_blob s = do { (nSize, s) \<leftarrow> ReadCompactSize s; read_blocks (unat nSize) 0 [] s }"

definition put_vector :: "('a \<Rightarrow> bytes) \<Rightarrow> 'a list \<Rightarrow> bytes" where
  "put_vector put v = WriteCompactSize (of_nat (length v)) @ concat (map put v)"

primrec read_items :: "'a reader \<Rightarrow> nat \<Rightarrow> 'a list reader" where
  "read_items get 0 s = Some ([], s)"
| "read_items get (Suc n) s = do { (x, s) \<leftarrow> get s; (xs, s) \<leftarrow> read_items get n s; Some (x # xs, s) }"

definition get_vector :: "'a reader \<Rightarrow> 'a list reader" where
  "get_vector get s = do { (nSize, s) \<leftarrow> ReadCompactSize s; read_items get (unat nSize) s }"

declare varint_tmp.simps [simp del] read_blocks.simps [simp del]

section \<open>The contract\<close>

locale codec =
  fixes wf :: "'a \<Rightarrow> bool" and put :: "'a \<Rightarrow> bytes" and get :: "'a reader"
  assumes get_put: "wf x \<Longrightarrow> get (put x @ rest) = Some (x, rest)"
begin

lemma put_inject:
  assumes "wf x" "wf y" "put x @ r = put y @ r'"
  shows "x = y \<and> r = r'"
proof -
  have "Some (x, r) = get (put x @ r)" by (rule get_put [OF assms(1), symmetric])
  also have "\<dots> = Some (y, r')" unfolding assms(3) by (rule get_put [OF assms(2)])
  finally show ?thesis by simp
qed

lemma read_items_put:
  "(\<And>x. x \<in> set xs \<Longrightarrow> wf x) \<Longrightarrow> read_items get (length xs) (concat (map put xs) @ rest) = Some (xs, rest)"
  by (induction xs) (simp_all add: get_put)

end

section \<open>Round trips\<close>

lemma length_le_bytes [simp]: "length (le_bytes k n) = k"
  by (induction k arbitrary: n) simp_all

lemma le_val_le_bytes [simp]: "le_val (le_bytes k n) = n mod 256 ^ k"
proof (induction k arbitrary: n)
  case (Suc k)
  have "unat (of_nat n :: u8) = n mod 256" by (simp add: unat_of_nat)
  then show ?case using Suc [of "n div 256"] by (simp add: mod_mult2_eq)
qed simp

lemma le_val_less: "le_val bs < 256 ^ length bs"
proof (induction bs)
  case (Cons b bs)
  have "unat b < 256" using unsigned_less [of b] by simp
  with Cons show ?case by simp
qed simp

lemma le_bytes_le_val [simp]: "le_bytes (length bs) (le_val bs) = bs"
proof (induction bs)
  case (Cons b bs)
  have u: "unat b < 256" using unsigned_less [of b] by simp
  then have "(of_nat (unat b + 256 * le_val bs) :: u8) = b"
    by (simp only: word_unat_eq_iff unat_of_nat) simp
  moreover have "(unat b + 256 * le_val bs) div 256 = le_val bs" using u by simp
  ultimately show ?case using Cons by simp
qed simp

lemma read_bytes_append [simp]: "length b = n \<Longrightarrow> read_bytes n (b @ rest) = Some (b, rest)"
  by (simp add: read_bytes_def)

lemma of_nat_unat_mod: "LENGTH('a) \<le> 8 * k \<Longrightarrow> of_nat (unat (x :: 'a :: len word) mod 256 ^ k) = x"
proof -
  assume "LENGTH('a) \<le> 8 * k"
  have "unat x < 2 ^ LENGTH('a)" by (rule unsigned_less)
  also have "\<dots> \<le> 2 ^ (8 * k)" using \<open>LENGTH('a) \<le> 8 * k\<close> by (intro power_increasing) simp_all
  finally have "unat x < 256 ^ k" by (simp add: power_mult)
  then show ?thesis by simp
qed

lemma ReadLE_WriteLE [simp]:
  "ReadLE16 (WriteLE16 x @ rest) = x" "ReadLE32 (WriteLE32 y @ rest) = y" "ReadLE64 (WriteLE64 z @ rest) = z"
  "ReadBE32 (WriteBE32 y @ rest) = y" "ReadBE64 (WriteBE64 z @ rest) = z"
  using of_nat_unat_mod [of 2 x] of_nat_unat_mod [of 4 y] of_nat_unat_mod [of 8 z]
  by (simp_all add: ReadLE16_def WriteLE16_def ReadLE32_def WriteLE32_def ReadLE64_def WriteLE64_def
      ReadBE32_def WriteBE32_def ReadBE64_def WriteBE64_def)

interpretation ser8: codec "\<lambda>_. True" ser_writedata8 ser_readdata8
  by unfold_locales (simp add: ser_writedata8_def ser_readdata8_def read_bytes_def)

interpretation ser16: codec "\<lambda>_. True" ser_writedata16 ser_readdata16
  by unfold_locales (use of_nat_unat_mod [of 2, where 'a = 16] in \<open>simp add: ser_writedata16_def ser_readdata16_def\<close>)

interpretation ser32: codec "\<lambda>_. True" ser_writedata32 ser_readdata32
  by unfold_locales (use of_nat_unat_mod [of 4, where 'a = 32] in \<open>simp add: ser_writedata32_def ser_readdata32_def\<close>)

interpretation ser64: codec "\<lambda>_. True" ser_writedata64 ser_readdata64
  by unfold_locales (use of_nat_unat_mod [of 8, where 'a = 64] in \<open>simp add: ser_writedata64_def ser_readdata64_def\<close>)

lemmas ser_get_put = ser8.get_put ser16.get_put ser32.get_put ser64.get_put

lemma unat_ucast_mod: "unat (ucast (x :: 'a :: len word) :: 'b :: len word) = unat x mod 2 ^ LENGTH('b)"
  by (simp add: unsigned_ucast_eq take_bit_eq_mod)

lemma ucast_ucast_u64:
  "(x :: u64) < 253 \<Longrightarrow> ucast (ucast x :: u8) = x"
  "x \<le> 0xffff \<Longrightarrow> ucast (ucast x :: u16) = x"
  "x \<le> 0xffffffff \<Longrightarrow> ucast (ucast x :: u32) = x"
  by (simp_all only: word_unat_eq_iff unat_ucast_mod) (simp_all add: word_less_nat_alt word_le_nat_alt)

lemma ucast_u8_less: "(x :: u64) < 253 \<Longrightarrow> (ucast x :: u8) < 253"
  by (simp add: word_less_nat_alt unsigned_ucast_eq take_bit_nat_eq_self)

lemma ReadCompactSize_Write: "nSize \<le> MAX_SIZE \<Longrightarrow> ReadCompactSize (WriteCompactSize nSize @ rest) = Some (nSize, rest)"
proof -
  assume "nSize \<le> MAX_SIZE"
  then have le: "\<not> MAX_SIZE < nSize" by simp
  consider "nSize < 253" | "\<not> nSize < 253" "nSize \<le> 0xffff" | "\<not> nSize \<le> 0xffff" "nSize \<le> 0xffffffff"
    | "\<not> nSize \<le> 0xffffffff" by blast
  then show ?thesis
  proof cases
    case 1
    with le show ?thesis
      by (simp add: ReadCompactSize_def WriteCompactSize_def ser_get_put ucast_u8_less ucast_ucast_u64)
  next
    case 2
    with le show ?thesis
      by (simp add: ReadCompactSize_def WriteCompactSize_def ser_get_put ucast_ucast_u64)
  next
    case 3
    then have "\<not> nSize < 253" "\<not> nSize < 0x10000" by (simp_all add: word_less_nat_alt word_le_nat_alt)
    with 3 le show ?thesis
      by (simp add: ReadCompactSize_def WriteCompactSize_def ser_get_put ucast_ucast_u64)
  next
    case 4
    with le show ?thesis by (simp add: MAX_SIZE_def word_le_nat_alt word_less_nat_alt)
  qed
qed

interpretation compact_size: codec "\<lambda>n. n \<le> MAX_SIZE" WriteCompactSize ReadCompactSize
  by unfold_locales (rule ReadCompactSize_Write)

text \<open>Only the shortest encoding is accepted: what was read can only be the writer's output.\<close>

lemma read_bytes_SomeD: "read_bytes n s = Some (b, r) \<Longrightarrow> s = b @ r \<and> length b = n"
  by (auto simp: read_bytes_def split: if_splits)

lemma length_2_le_bytes: "length b = 2 \<Longrightarrow> le_bytes 2 (unat (of_nat (le_val b) :: u16)) = b"
  using le_bytes_le_val [of b] le_val_less [of b] by (simp add: unat_of_nat)

lemma length_4_le_bytes: "length b = 4 \<Longrightarrow> le_bytes 4 (unat (of_nat (le_val b) :: u32)) = b"
  using le_bytes_le_val [of b] le_val_less [of b] by (simp add: unat_of_nat)

lemma length_8_le_bytes: "length b = 8 \<Longrightarrow> le_bytes 8 (unat (of_nat (le_val b) :: u64)) = b"
  using le_bytes_le_val [of b] le_val_less [of b] by (simp add: unat_of_nat)

lemma ser_readdata_SomeD:
  "ser_readdata8 s = Some (x8, r) \<Longrightarrow> s = ser_writedata8 x8 @ r"
  "ser_readdata16 s = Some (x16, r) \<Longrightarrow> s = ser_writedata16 x16 @ r"
  "ser_readdata32 s = Some (x32, r) \<Longrightarrow> s = ser_writedata32 x32 @ r"
  "ser_readdata64 s = Some (x64, r) \<Longrightarrow> s = ser_writedata64 x64 @ r"
  unfolding ser_readdata8_def ser_readdata16_def ser_readdata32_def ser_readdata64_def
    ser_writedata8_def ser_writedata16_def ser_writedata32_def ser_writedata64_def
  by (auto simp: bind_eq_Some_conv length_2_le_bytes length_4_le_bytes length_8_le_bytes length_Suc_conv
      dest!: read_bytes_SomeD)

lemma unat_u8_less: "unat (x :: u8) < 256"
  using unsigned_less [of x] by simp

lemma unat_u16_less: "unat (x :: u16) < 65536"
  using unsigned_less [of x] by simp

lemma ucast_widen:
  "unat (ucast (x8 :: u8) :: u64) = unat x8" "unat (ucast (x16 :: u16) :: u64) = unat x16" "unat (ucast (x32 :: u32) :: u64) = unat x32"
  using unat_u8_less [of x8] unat_u16_less [of x16] unat_lt2p32 [of x32] by (simp_all add: unat_ucast_mod)

lemma ucast_back:
  "(ucast (ucast (x8 :: u8) :: u64) :: u8) = x8" "(ucast (ucast (x16 :: u16) :: u64) :: u16) = x16"
  "(ucast (ucast (x32 :: u32) :: u64) :: u32) = x32"
  using unat_u8_less [of x8] unat_u16_less [of x16] unat_lt2p32 [of x32]
  by (simp_all only: word_unat_eq_iff unat_ucast_mod ucast_widen) simp_all

lemma ReadCompactSize_canonical:
  assumes "ReadCompactSize s = Some (n, r)"
  shows "s = WriteCompactSize n @ r \<and> n \<le> MAX_SIZE"
proof -
  obtain ch s1 where c: "s = ser_writedata8 ch @ s1" "ser_readdata8 s = Some (ch, s1)"
    using assms by (auto simp: ReadCompactSize_def bind_eq_Some_conv dest: ser_readdata_SomeD)
  consider (a) "ch < 253" | (b) "ch = 253" | (c) "ch = 254" | (d) "ch = 255"
  proof -
    have "unat ch < 256" using unsigned_less [of ch] by simp
    then have "unat ch < 253 \<or> unat ch = 253 \<or> unat ch = 254 \<or> unat ch = 255" by linarith
    then show thesis using that by (auto simp: word_less_nat_alt word_unat_eq_iff)
  qed
  then show ?thesis
  proof cases
    case a
    with assms c have n: "n = ucast ch" "r = s1" "n \<le> MAX_SIZE"
      by (auto simp: ReadCompactSize_def split: if_splits)
    moreover have "n < 253" using a by (simp add: n(1) word_less_nat_alt ucast_widen)
    ultimately show ?thesis by (simp add: c(1) WriteCompactSize_def ucast_back)
  next
    case b
    with assms c obtain x where x: "ser_readdata16 s1 = Some (x, r)" "n = ucast x" "\<not> n < 253" "n \<le> MAX_SIZE"
      by (auto simp: ReadCompactSize_def bind_eq_Some_conv split: if_splits)
    moreover have "n \<le> 0xffff" using unat_u16_less [of x] by (simp add: x(2) word_le_nat_alt ucast_widen)
    ultimately show ?thesis
      using ser_readdata_SomeD(2) [OF x(1)] by (simp add: c(1) b WriteCompactSize_def ucast_back)
  next
    case c2: c
    with assms c obtain x where x: "ser_readdata32 s1 = Some (x, r)" "n = ucast x" "\<not> n < 0x10000" "n \<le> MAX_SIZE"
      by (auto simp: ReadCompactSize_def bind_eq_Some_conv split: if_splits)
    moreover have "n \<le> 0xffffffff" using unat_lt2p32 [of x] by (simp add: x(2) word_le_nat_alt ucast_widen)
    moreover have "\<not> n < 253" "\<not> n \<le> 0xffff" using x(3) by (simp_all add: word_less_nat_alt word_le_nat_alt)
    ultimately show ?thesis
      using ser_readdata_SomeD(3) [OF x(1)] by (simp add: c(1) c2 WriteCompactSize_def ucast_back)
  next
    case d
    with assms c obtain x where "ser_readdata64 s1 = Some (x, r)" "n = x" "\<not> n < 0x100000000" "n \<le> MAX_SIZE"
      by (auto simp: ReadCompactSize_def bind_eq_Some_conv split: if_splits)
    then show ?thesis by (simp add: MAX_SIZE_def word_less_nat_alt word_le_nat_alt)
  qed
qed

subsection \<open>Variable-length integers\<close>

lemma word_split7: "push_bit 7 (drop_bit 7 n) OR (n AND 0x7f) = (n :: 'a :: len word)"
proof -
  have "(0x7f :: 'a word) = mask 7" by (simp add: mask_eq_exp_minus_1)
  then show ?thesis by (auto simp: bit_eq_iff bit_simps not_le)
qed

lemma low7: "8 \<le> LENGTH('a) \<Longrightarrow> (ucast (ucast n AND 0x7f :: u8) :: 'a :: len word) = n AND 0x7f"
proof -
  assume "8 \<le> LENGTH('a)"
  moreover have "(0x7f :: 'a word) = mask 7" "(0x7f :: u8) = mask 7" by (simp_all add: mask_eq_exp_minus_1)
  ultimately show ?thesis by (auto simp: bit_eq_iff bit_simps)
qed

lemma bit_int_128: "bit (0x80 :: int) n \<longleftrightarrow> n = 7"
proof -
  have "(0x80 :: int) = 2 ^ 7" by simp
  then show ?thesis by (simp only: bit_exp_iff) auto
qed

lemma digit_bits:
  "((x AND 0x7f) OR 0x80) AND 0x7f = (x AND 0x7f :: u8)" "((x AND 0x7f) OR 0x80) AND 0x80 \<noteq> (0 :: u8)"
  "(x AND 0x7f) AND 0x80 = (0 :: u8)" "(x AND 0x7f) AND 0x7f = (x AND 0x7f :: u8)"
proof -
  have m: "(0x7f :: u8) = mask 7" by (simp add: mask_eq_exp_minus_1)
  show "((x AND 0x7f) OR 0x80) AND 0x7f = (x AND 0x7f :: u8)" unfolding m by (rule bit_eqI) (auto simp: bit_simps bit_int_128)
  show "(x AND 0x7f) AND 0x80 = (0 :: u8)" unfolding m by (rule bit_eqI) (auto simp: bit_simps bit_int_128)
  show "(x AND 0x7f) AND 0x7f = (x AND 0x7f :: u8)" by (simp add: and.assoc)
  have "bit (((x AND 0x7f) OR 0x80) AND 0x80 :: u8) 7" unfolding m by (simp add: bit_simps bit_int_128)
  then show "((x AND 0x7f) OR 0x80) AND 0x80 \<noteq> (0 :: u8)" by auto
qed

lemma ReadVarInt_more:
  "8 \<le> LENGTH('a) \<Longrightarrow> ReadVarInt_loop 0 (rev (varint_tmp (n :: 'a :: len word) True) @ r) = ReadVarInt_loop (n + 1) r"
proof (induction n True arbitrary: r rule: varint_tmp.induct)
  case (1 n)
  have id: "push_bit 7 (drop_bit 7 n) OR (n AND 0x7f) = n" by (rule word_split7)
  let ?d = "(ucast n AND 0x7f) OR 0x80 :: u8"
  have step: "ReadVarInt_loop (drop_bit 7 n) (?d # r) = ReadVarInt_loop (n + 1) r"
    by (simp add: digit_bits low7 [OF "1.prems"] id)
  show ?case
  proof (cases "unat n \<le> 0x7f")
    case True
    then have "drop_bit 7 n = 0"
      by (simp add: word_unat_eq_iff) (simp only: unat_drop_bit_eq, simp add: drop_bit_eq_div)
    with True step show ?thesis by (simp add: varint_tmp.simps [of n])
  next
    case False
    then have "ReadVarInt_loop 0 (rev (varint_tmp n True) @ r) = ReadVarInt_loop 0 (rev (varint_tmp (drop_bit 7 n - 1) True) @ ?d # r)"
      by (simp add: varint_tmp.simps [of n])
    also have "\<dots> = ReadVarInt_loop (drop_bit 7 n) (?d # r)"
      using "1.hyps" [OF False "1.prems"] by simp
    finally show ?thesis using step by simp
  qed
qed

lemma ReadVarInt_Write:
  "8 \<le> LENGTH('a) \<Longrightarrow> ReadVarInt (WriteVarInt (n :: 'a :: len word) @ r) = Some (n, r)"
proof -
  assume len: "8 \<le> LENGTH('a)"
  have id: "push_bit 7 (drop_bit 7 n) OR (n AND 0x7f) = n" by (rule word_split7)
  let ?d = "ucast n AND 0x7f :: u8"
  have step: "ReadVarInt_loop (drop_bit 7 n) (?d # r) = Some (n, r)"
    by (simp add: digit_bits low7 [OF len] id)
  show ?thesis
  proof (cases "unat n \<le> 0x7f")
    case True
    then have "drop_bit 7 n = 0"
      by (simp add: word_unat_eq_iff) (simp only: unat_drop_bit_eq, simp add: drop_bit_eq_div)
    with True step show ?thesis by (simp add: ReadVarInt_def WriteVarInt_def varint_tmp.simps [of n])
  next
    case False
    then have "ReadVarInt (WriteVarInt n @ r) = ReadVarInt_loop 0 (rev (varint_tmp (drop_bit 7 n - 1) True) @ ?d # r)"
      by (simp add: ReadVarInt_def WriteVarInt_def varint_tmp.simps [of n])
    also have "\<dots> = ReadVarInt_loop (drop_bit 7 n) (?d # r)"
      using ReadVarInt_more [OF len, of "drop_bit 7 n - 1" "?d # r"] by simp
    finally show ?thesis using step by simp
  qed
qed

interpretation varint32: codec "\<lambda>_. True" "WriteVarInt :: u32 \<Rightarrow> bytes" ReadVarInt
  by unfold_locales (rule ReadVarInt_Write, simp)

interpretation varint64: codec "\<lambda>_. True" "WriteVarInt :: u64 \<Rightarrow> bytes" ReadVarInt
  by unfold_locales (rule ReadVarInt_Write, simp)

subsection \<open>Vectors\<close>

lemma read_blocks_all:
  "i \<le> nSize \<Longrightarrow> nSize - i \<le> length s \<Longrightarrow>
     read_blocks nSize i v s = Some (v @ take (nSize - i) s, drop (nSize - i) s)"
proof (induction nSize i v s rule: read_blocks.induct)
  case (1 nSize i v s)
  show ?case
  proof (cases "i < nSize")
    case True
    define k where "k = min (nSize - i) 5000000"
    have k: "k \<le> length s" "i + k \<le> nSize" "nSize - (i + k) \<le> length s - k"
      using 1(3) True by (auto simp: k_def)
    have rb: "read_bytes k s = Some (take k s, drop k s)" using k by (simp add: read_bytes_def)
    have r: "read_blocks nSize (i + k) (v @ take k s) (drop k s) =
        Some ((v @ take k s) @ take (nSize - (i + k)) (drop k s), drop (nSize - (i + k)) (drop k s))"
      using "1.IH" [OF True, folded k_def, OF rb refl] k by simp
    have t: "take k s @ take (nSize - (i + k)) (drop k s) = take (nSize - i) s"
      and d: "drop (nSize - (i + k)) (drop k s) = drop (nSize - i) s"
      using k True by (simp_all add: take_add [symmetric] add.commute)
    have "read_blocks nSize i v s = read_blocks nSize (i + k) (v @ take k s) (drop k s)"
      by (subst read_blocks.simps) (simp add: True rb flip: k_def)
    then show ?thesis using r t d by simp
  qed (use 1 in \<open>simp add: read_blocks.simps\<close>)
qed

lemma size_of_nat: "n \<le> unat MAX_SIZE \<Longrightarrow> of_nat n \<le> MAX_SIZE \<and> unat (of_nat n :: u64) = n"
  by (simp add: word_le_nat_alt unat_of_nat MAX_SIZE_def)

interpretation blob: codec "\<lambda>v. length v \<le> unat MAX_SIZE" put_blob get_blob
proof
  fix v rest :: bytes
  assume "length v \<le> unat MAX_SIZE"
  then show "get_blob (put_blob v @ rest) = Some (v, rest)"
    using size_of_nat [of "length v"] read_blocks_all [of 0 "length v" "v @ rest" "[]"]
    by (simp add: get_blob_def put_blob_def ReadCompactSize_Write)
qed

context codec
begin

lemma vector_codec:
  "codec (\<lambda>xs. length xs \<le> unat MAX_SIZE \<and> (\<forall>x \<in> set xs. wf x)) (put_vector put) (get_vector get)"
proof (unfold_locales, elim conjE)
  fix xs rest
  assume "length xs \<le> unat MAX_SIZE" and "\<forall>x \<in> set xs. wf x"
  then show "get_vector get (put_vector put xs @ rest) = Some (xs, rest)"
    using size_of_nat [of "length xs"] read_items_put [of xs rest]
    by (simp add: get_vector_def put_vector_def ReadCompactSize_Write)
qed

end

subsection \<open>Canonical codecs\<close>

text \<open>
  The stronger contract of the encodings that have one representation per value: whatever the reader accepts is
  the writer's output.
\<close>

locale canonical_codec = codec +
  assumes canon: "get s = Some (x, r) \<Longrightarrow> s = put x @ r \<and> wf x"
begin

lemma get_iff: "get s = Some (x, r) \<longleftrightarrow> s = put x @ r \<and> wf x"
  using canon [of s x r] get_put [of x r] by blast

lemma read_items_canon:
  "read_items get n s = Some (xs, r) \<Longrightarrow> s = concat (map put xs) @ r \<and> length xs = n \<and> (\<forall>x \<in> set xs. wf x)"
proof (induction n arbitrary: s xs)
  case (Suc n)
  then obtain y s' ys where "get s = Some (y, s')" "read_items get n s' = Some (ys, r)" "xs = y # ys"
    by (auto simp: bind_eq_Some_conv)
  with Suc.IH [of s' ys] canon [of s y s'] show ?case by simp
qed simp

lemma vector_canonical_codec:
  "canonical_codec (\<lambda>xs. length xs \<le> unat MAX_SIZE \<and> (\<forall>x \<in> set xs. wf x)) (put_vector put) (get_vector get)"
proof (rule canonical_codec.intro [OF vector_codec], unfold_locales)
  fix s xs r
  assume "get_vector get s = Some (xs, r)"
  then obtain n s' where n: "ReadCompactSize s = Some (n, s')" "read_items get (unat n) s' = Some (xs, r)"
    by (auto simp: get_vector_def bind_eq_Some_conv)
  from read_items_canon [OF n(2)] have xs: "s' = concat (map put xs) @ r" "length xs = unat n" "\<forall>x \<in> set xs. wf x"
    by auto
  have "s = WriteCompactSize n @ s'" "n \<le> MAX_SIZE" using ReadCompactSize_canonical [OF n(1)] by auto
  with xs show "s = put_vector put xs @ r \<and> length xs \<le> unat MAX_SIZE \<and> (\<forall>x \<in> set xs. wf x)"
    by (simp add: put_vector_def word_le_nat_alt)
qed

end

interpretation ser8: canonical_codec "\<lambda>_. True" ser_writedata8 ser_readdata8
  by unfold_locales (simp add: ser_readdata_SomeD)

interpretation ser16: canonical_codec "\<lambda>_. True" ser_writedata16 ser_readdata16
  by unfold_locales (simp add: ser_readdata_SomeD)

interpretation ser32: canonical_codec "\<lambda>_. True" ser_writedata32 ser_readdata32
  by unfold_locales (simp add: ser_readdata_SomeD)

interpretation ser64: canonical_codec "\<lambda>_. True" ser_writedata64 ser_readdata64
  by unfold_locales (simp add: ser_readdata_SomeD)

interpretation compact_size: canonical_codec "\<lambda>n. n \<le> MAX_SIZE" WriteCompactSize ReadCompactSize
  by unfold_locales (simp add: ReadCompactSize_canonical)

lemma read_blocks_SomeD:
  "read_blocks nSize i v s = Some (w, r) \<Longrightarrow> i \<le> nSize \<Longrightarrow> \<exists>b. w = v @ b \<and> s = b @ r \<and> length b = nSize - i"
proof (induction nSize i v s rule: read_blocks.induct)
  case (1 nSize i v s)
  show ?case
  proof (cases "i < nSize")
    case True
    define k where "k = min (nSize - i) 5000000"
    from 1(2) True obtain b s' where b: "read_bytes k s = Some (b, s')" "read_blocks nSize (i + k) (v @ b) s' = Some (w, r)"
      by (subst (asm) read_blocks.simps) (auto simp: bind_eq_Some_conv k_def)
    have "i + k \<le> nSize" using True by (simp add: k_def)
    then obtain c where "w = (v @ b) @ c" "s' = c @ r" "length c = nSize - (i + k)"
      using "1.IH" [OF True, folded k_def, OF b(1) refl b(2)] by blast
    with read_bytes_SomeD [OF b(1)] \<open>i + k \<le> nSize\<close> show ?thesis by (intro exI [of _ "b @ c"]) simp
  next
    case False
    with 1(2,3) show ?thesis by (subst (asm) read_blocks.simps) simp
  qed
qed

interpretation blob: canonical_codec "\<lambda>v. length v \<le> unat MAX_SIZE" put_blob get_blob
proof
  fix s v r
  assume "get_blob s = Some (v, r)"
  then obtain n s' where n: "ReadCompactSize s = Some (n, s')" "read_blocks (unat n) 0 [] s' = Some (v, r)"
    by (auto simp: get_blob_def bind_eq_Some_conv)
  from read_blocks_SomeD [OF n(2)] have "s' = v @ r" "length v = unat n" by auto
  moreover have "s = WriteCompactSize n @ s'" "n \<le> MAX_SIZE" using ReadCompactSize_canonical [OF n(1)] by auto
  ultimately show "s = put_blob v @ r \<and> length v \<le> unat MAX_SIZE"
    by (simp add: put_blob_def word_le_nat_alt)
qed

section \<open>Properties\<close>

text \<open>
  Compact sizes: every size up to \<open>MAX_SIZE\<close> is read back from its encoding whatever follows it
  in the stream, and a successful read never accepts anything but that encoding, so an encoded
  size has exactly one representation.
\<close>

lemma CompactSize_canonical:
  "ReadCompactSize s = Some (nSize, rest) \<longleftrightarrow> s = WriteCompactSize nSize @ rest \<and> nSize \<le> MAX_SIZE"
  using ReadCompactSize_canonical [of s nSize rest] ReadCompactSize_Write [of nSize rest] by blast

text \<open>
  Variable-length integers: for 32-bit and 64-bit operands the reader returns what the writer
  wrote and leaves the rest of the stream untouched; in particular no intermediate addition or
  shift of the reader wraps around.
\<close>

lemma VarInt_roundtrip:
  "ReadVarInt (WriteVarInt (n :: u32) @ rest) = Some (n, rest)
    \<and> ReadVarInt (WriteVarInt (m :: u64) @ rest) = Some (m, rest)"
  by (simp add: varint32.get_put varint64.get_put)

end
