(* ===== verification/Script.thy ===== *)
theory Script
  imports Serialize
begin

text \<open>
  Scripts (\<open>src/src/script/script.h\<close>, \<open>src/src/script/script.cpp\<close>): numbers as they appear on
  the stack (\<open>CScriptNum\<close>), pushing data, parsing instructions, counting signature operations
  and the pattern tests of \<open>CScript\<close>.  A script is a list of bytes; an iterator into a script is
  the list of bytes that are left.  Opcodes are bytes, named as in the source.
\<close>

section \<open>Opcodes and limits\<close>

abbreviation OP_0 :: u8 where "OP_0 \<equiv> 0x00"
abbreviation OP_FALSE :: u8 where "OP_FALSE \<equiv> 0x00"
abbreviation OP_PUSHDATA1 :: u8 where "OP_PUSHDATA1 \<equiv> 0x4c"
abbreviation OP_PUSHDATA2 :: u8 where "OP_PUSHDATA2 \<equiv> 0x4d"
abbreviation OP_PUSHDATA4 :: u8 where "OP_PUSHDATA4 \<equiv> 0x4e"
abbreviation OP_1NEGATE :: u8 where "OP_1NEGATE \<equiv> 0x4f"
abbreviation OP_RESERVED :: u8 where "OP_RESERVED \<equiv> 0x50"
abbreviation OP_1 :: u8 where "OP_1 \<equiv> 0x51"
abbreviation OP_TRUE :: u8 where "OP_TRUE \<equiv> 0x51"
abbreviation OP_2 :: u8 where "OP_2 \<equiv> 0x52"
abbreviation OP_3 :: u8 where "OP_3 \<equiv> 0x53"
abbreviation OP_4 :: u8 where "OP_4 \<equiv> 0x54"
abbreviation OP_5 :: u8 where "OP_5 \<equiv> 0x55"
abbreviation OP_6 :: u8 where "OP_6 \<equiv> 0x56"
abbreviation OP_7 :: u8 where "OP_7 \<equiv> 0x57"
abbreviation OP_8 :: u8 where "OP_8 \<equiv> 0x58"
abbreviation OP_9 :: u8 where "OP_9 \<equiv> 0x59"
abbreviation OP_10 :: u8 where "OP_10 \<equiv> 0x5a"
abbreviation OP_11 :: u8 where "OP_11 \<equiv> 0x5b"
abbreviation OP_12 :: u8 where "OP_12 \<equiv> 0x5c"
abbreviation OP_13 :: u8 where "OP_13 \<equiv> 0x5d"
abbreviation OP_14 :: u8 where "OP_14 \<equiv> 0x5e"
abbreviation OP_15 :: u8 where "OP_15 \<equiv> 0x5f"
abbreviation OP_16 :: u8 where "OP_16 \<equiv> 0x60"
abbreviation OP_NOP :: u8 where "OP_NOP \<equiv> 0x61"
abbreviation OP_VER :: u8 where "OP_VER \<equiv> 0x62"
abbreviation OP_IF :: u8 where "OP_IF \<equiv> 0x63"
abbreviation OP_NOTIF :: u8 where "OP_NOTIF \<equiv> 0x64"
abbreviation OP_VERIF :: u8 where "OP_VERIF \<equiv> 0x65"
abbreviation OP_VERNOTIF :: u8 where "OP_VERNOTIF \<equiv> 0x66"
abbreviation OP_ELSE :: u8 where "OP_ELSE \<equiv> 0x67"
abbreviation OP_ENDIF :: u8 where "OP_ENDIF \<equiv> 0x68"
abbreviation OP_VERIFY :: u8 where "OP_VERIFY \<equiv> 0x69"
abbreviation OP_RETURN :: u8 where "OP_RETURN \<equiv> 0x6a"
abbreviation OP_TOALTSTACK :: u8 where "OP_TOALTSTACK \<equiv> 0x6b"
abbreviation OP_FROMALTSTACK :: u8 where "OP_FROMALTSTACK \<equiv> 0x6c"
abbreviation OP_2DROP :: u8 where "OP_2DROP \<equiv> 0x6d"
abbreviation OP_2DUP :: u8 where "OP_2DUP \<equiv> 0x6e"
abbreviation OP_3DUP :: u8 where "OP_3DUP \<equiv> 0x6f"
abbreviation OP_2OVER :: u8 where "OP_2OVER \<equiv> 0x70"
abbreviation OP_2ROT :: u8 where "OP_2ROT \<equiv> 0x71"
abbreviation OP_2SWAP :: u8 where "OP_2SWAP \<equiv> 0x72"
abbreviation OP_IFDUP :: u8 where "OP_IFDUP \<equiv> 0x73"
abbreviation OP_DEPTH :: u8 where "OP_DEPTH \<equiv> 0x74"
abbreviation OP_DROP :: u8 where "OP_DROP \<equiv> 0x75"
abbreviation OP_DUP :: u8 where "OP_DUP \<equiv> 0x76"
abbreviation OP_NIP :: u8 where "OP_NIP \<equiv> 0x77"
abbreviation OP_OVER :: u8 where "OP_OVER \<equiv> 0x78"
abbreviation OP_PICK :: u8 where "OP_PICK \<equiv> 0x79"
abbreviation OP_ROLL :: u8 where "OP_ROLL \<equiv> 0x7a"
abbreviation OP_ROT :: u8 where "OP_ROT \<equiv> 0x7b"
abbreviation OP_SWAP :: u8 where "OP_SWAP \<equiv> 0x7c"
abbreviation OP_TUCK :: u8 where "OP_TUCK \<equiv> 0x7d"
abbreviation OP_CAT :: u8 where "OP_CAT \<equiv> 0x7e"
abbreviation OP_SUBSTR :: u8 where "OP_SUBSTR \<equiv> 0x7f"
abbreviation OP_LEFT :: u8 where "OP_LEFT \<equiv> 0x80"
abbreviation OP_RIGHT :: u8 where "OP_RIGHT \<equiv> 0x81"
abbreviation OP_SIZE :: u8 where "OP_SIZE \<equiv> 0x82"
abbreviation OP_INVERT :: u8 where "OP_INVERT \<equiv> 0x83"
abbreviation OP_AND :: u8 where "OP_AND \<equiv> 0x84"
abbreviation OP_OR :: u8 where "OP_OR \<equiv> 0x85"
abbreviation OP_XOR :: u8 where "OP_XOR \<equiv> 0x86"
abbreviation OP_EQUAL :: u8 where "OP_EQUAL \<equiv> 0x87"
abbreviation OP_EQUALVERIFY :: u8 where "OP_EQUALVERIFY \<equiv> 0x88"
abbreviation OP_RESERVED1 :: u8 where "OP_RESERVED1 \<equiv> 0x89"
abbreviation OP_RESERVED2 :: u8 where "OP_RESERVED2 \<equiv> 0x8a"
abbreviation OP_1ADD :: u8 where "OP_1ADD \<equiv> 0x8b"
abbreviation OP_1SUB :: u8 where "OP_1SUB \<equiv> 0x8c"
abbreviation OP_2MUL :: u8 where "OP_2MUL \<equiv> 0x8d"
abbreviation OP_2DIV :: u8 where "OP_2DIV \<equiv> 0x8e"
abbreviation OP_NEGATE :: u8 where "OP_NEGATE \<equiv> 0x8f"
abbreviation OP_ABS :: u8 where "OP_ABS \<equiv> 0x90"
abbreviation OP_NOT :: u8 where "OP_NOT \<equiv> 0x91"
abbreviation OP_0NOTEQUAL :: u8 where "OP_0NOTEQUAL \<equiv> 0x92"
abbreviation OP_ADD :: u8 where "OP_ADD \<equiv> 0x93"
abbreviation OP_SUB :: u8 where "OP_SUB \<equiv> 0x94"
abbreviation OP_MUL :: u8 where "OP_MUL \<equiv> 0x95"
abbreviation OP_DIV :: u8 where "OP_DIV \<equiv> 0x96"
abbreviation OP_MOD :: u8 where "OP_MOD \<equiv> 0x97"
abbreviation OP_LSHIFT :: u8 where "OP_LSHIFT \<equiv> 0x98"
abbreviation OP_RSHIFT :: u8 where "OP_RSHIFT \<equiv> 0x99"
abbreviation OP_BOOLAND :: u8 where "OP_BOOLAND \<equiv> 0x9a"
abbreviation OP_BOOLOR :: u8 where "OP_BOOLOR \<equiv> 0x9b"
abbreviation OP_NUMEQUAL :: u8 where "OP_NUMEQUAL \<equiv> 0x9c"
abbreviation OP_NUMEQUALVERIFY :: u8 where "OP_NUMEQUALVERIFY \<equiv> 0x9d"
abbreviation OP_NUMNOTEQUAL :: u8 where "OP_NUMNOTEQUAL \<equiv> 0x9e"
abbreviation OP_LESSTHAN :: u8 where "OP_LESSTHAN \<equiv> 0x9f"
abbreviation OP_GREATERTHAN :: u8 where "OP_GREATERTHAN \<equiv> 0xa0"
abbreviation OP_LESSTHANOREQUAL :: u8 where "OP_LESSTHANOREQUAL \<equiv> 0xa1"
abbreviation OP_GREATERTHANOREQUAL :: u8 where "OP_GREATERTHANOREQUAL \<equiv> 0xa2"
abbreviation OP_MIN :: u8 where "OP_MIN \<equiv> 0xa3"
abbreviation OP_MAX :: u8 where "OP_MAX \<equiv> 0xa4"
abbreviation OP_WITHIN :: u8 where "OP_WITHIN \<equiv> 0xa5"
abbreviation OP_RIPEMD160 :: u8 where "OP_RIPEMD160 \<equiv> 0xa6"
abbreviation OP_SHA1 :: u8 where "OP_SHA1 \<equiv> 0xa7"
abbreviation OP_SHA256 :: u8 where "OP_SHA256 \<equiv> 0xa8"
abbreviation OP_HASH160 :: u8 where "OP_HASH160 \<equiv> 0xa9"
abbreviation OP_HASH256 :: u8 where "OP_HASH256 \<equiv> 0xaa"
abbreviation OP_CODESEPARATOR :: u8 where "OP_CODESEPARATOR \<equiv> 0xab"
abbreviation OP_CHECKSIG :: u8 where "OP_CHECKSIG \<equiv> 0xac"
abbreviation OP_CHECKSIGVERIFY :: u8 where "OP_CHECKSIGVERIFY \<equiv> 0xad"
abbreviation OP_CHECKMULTISIG :: u8 where "OP_CHECKMULTISIG \<equiv> 0xae"
abbreviation OP_CHECKMULTISIGVERIFY :: u8 where "OP_CHECKMULTISIGVERIFY \<equiv> 0xaf"
abbreviation OP_NOP1 :: u8 where "OP_NOP1 \<equiv> 0xb0"
abbreviation OP_CHECKLOCKTIMEVERIFY :: u8 where "OP_CHECKLOCKTIMEVERIFY \<equiv> 0xb1"
abbreviation OP_NOP2 :: u8 where "OP_NOP2 \<equiv> 0xb1"
abbreviation OP_CHECKSEQUENCEVERIFY :: u8 where "OP_CHECKSEQUENCEVERIFY \<equiv> 0xb2"
abbreviation OP_NOP3 :: u8 where "OP_NOP3 \<equiv> 0xb2"
abbreviation OP_NOP4 :: u8 where "OP_NOP4 \<equiv> 0xb3"
abbreviation OP_NOP5 :: u8 where "OP_NOP5 \<equiv> 0xb4"
abbreviation OP_NOP6 :: u8 where "OP_NOP6 \<equiv> 0xb5"
abbreviation OP_NOP7 :: u8 where "OP_NOP7 \<equiv> 0xb6"
abbreviation OP_NOP8 :: u8 where "OP_NOP8 \<equiv> 0xb7"
abbreviation OP_NOP9 :: u8 where "OP_NOP9 \<equiv> 0xb8"
abbreviation OP_NOP10 :: u8 where "OP_NOP10 \<equiv> 0xb9"
abbreviation OP_CHECKSIGADD :: u8 where "OP_CHECKSIGADD \<equiv> 0xba"
abbreviation OP_MLOAD :: u8 where "OP_MLOAD \<equiv> 0xc4"
abbreviation OP_MSTORE :: u8 where "OP_MSTORE \<equiv> 0xc5"
abbreviation OP_SLOAD :: u8 where "OP_SLOAD \<equiv> 0xc7"
abbreviation OP_SSTORE :: u8 where "OP_SSTORE \<equiv> 0xc8"
abbreviation OP_PUBLISH :: u8 where "OP_PUBLISH \<equiv> 0xc9"
abbreviation OP_RUN :: u8 where "OP_RUN \<equiv> 0xca"
abbreviation OP_UPDATE_STATUS :: u8 where "OP_UPDATE_STATUS \<equiv> 0xcb"
abbreviation OP_INVALIDOPCODE :: u8 where "OP_INVALIDOPCODE \<equiv> 0xff"

definition MAX_SCRIPT_ELEMENT_SIZE :: nat where
  "MAX_SCRIPT_ELEMENT_SIZE = 520"

definition MAX_OPS_PER_SCRIPT :: nat where
  "MAX_OPS_PER_SCRIPT = 201"

definition MAX_PUBKEYS_PER_MULTISIG :: nat where
  "MAX_PUBKEYS_PER_MULTISIG = 20"

definition MAX_SCRIPT_SIZE :: nat where
  "MAX_SCRIPT_SIZE = 10000"

definition LOCKTIME_THRESHOLD :: int where
  "LOCKTIME_THRESHOLD = 500000000"

section \<open>Script numbers\<close>

text \<open>
  \<open>m_value\<close> is an \<open>int64_t\<close>, here an \<open>int\<close>; \<open>absvalue\<close> is its magnitude as a \<open>uint64_t\<close>, which exists
  for every \<open>int64_t\<close>.
\<close>

datatype scriptnum_error = ScriptNumOverflow | NonMinimallyEncoded

fun scriptnum_bytes :: "nat \<Rightarrow> bytes" where
  "scriptnum_bytes absvalue =
     (if absvalue = 0 then [] else of_nat (absvalue mod 256) # scriptnum_bytes (absvalue div 256))"

definition CScriptNum_serialize :: "int \<Rightarrow> bytes" where
  "CScriptNum_serialize value =
     (if value = 0 then []
      else let neg = (value < 0);
               result = scriptnum_bytes (nat \<bar>value\<bar>)
           in if last result AND 0x80 \<noteq> 0 then result @ [if neg then 0x80 else 0]
              else if neg then butlast result @ [last result OR 0x80]
              else result)"

text \<open>The sign bit is known to be set where the source clears it, so clearing is subtraction.\<close>

definition CScriptNum_set_vch :: "bytes \<Rightarrow> int" where
  "CScriptNum_set_vch vch =
     (if vch = [] then 0
      else if last vch AND 0x80 \<noteq> 0 then - (int (le_val vch) - 0x80 * 256 ^ (length vch - 1))
      else int (le_val vch))"

definition CScriptNum_of_vch :: "bytes \<Rightarrow> bool \<Rightarrow> nat \<Rightarrow> scriptnum_error + int" where
  "CScriptNum_of_vch vch fRequireMinimal nMaxNumSize =
     (if length vch > nMaxNumSize then Inl ScriptNumOverflow
      else if fRequireMinimal \<and> length vch > 0 \<and> last vch AND 0x7f = 0
              \<and> (length vch \<le> 1 \<or> vch ! (length vch - 2) AND 0x80 = 0)
      then Inl NonMinimallyEncoded
      else Inr (CScriptNum_set_vch vch))"

definition CScriptNum_getint :: "int \<Rightarrow> int" where
  "CScriptNum_getint m_value =
     (if m_value > 2 ^ 31 - 1 then 2 ^ 31 - 1 else if m_value < - (2 ^ 31) then - (2 ^ 31) else m_value)"

section \<open>Building scripts\<close>

definition script_push_data :: "bytes \<Rightarrow> bytes" where
  "script_push_data b =
     (if length b < 0x4c then [of_nat (length b)]
      else if length b \<le> 0xff then [OP_PUSHDATA1, of_nat (length b)]
      else if length b \<le> 0xffff then OP_PUSHDATA2 # WriteLE16 (of_nat (length b))
      else OP_PUSHDATA4 # WriteLE32 (of_nat (length b))) @ b"

definition script_push_int64 :: "int \<Rightarrow> bytes" where
  "script_push_int64 n =
     (if n = - 1 \<or> (n \<ge> 1 \<and> n \<le> 16) then [word_of_int (n + (0x51 - 1))]
      else if n = 0 then [OP_0]
      else script_push_data (CScriptNum_serialize n))"

definition EncodeOP_N :: "int \<Rightarrow> u8 option" where
  "EncodeOP_N n =
     (if \<not> (n \<ge> 0 \<and> n \<le> 16) then None else if n = 0 then Some OP_0 else Some (word_of_int (0x51 + n - 1)))"

definition DecodeOP_N :: "u8 \<Rightarrow> int option" where
  "DecodeOP_N opcode =
     (if opcode = OP_0 then Some 0
      else if \<not> (opcode \<ge> OP_1 \<and> opcode \<le> OP_16) then None
      else Some (uint opcode - (0x51 - 1)))"

section \<open>Parsing\<close>

text \<open>
  \<open>GetOp2\<close> returns its result, the opcode (\<open>OP_INVALIDOPCODE\<close> on failure), the data read and the
  iterator, which on failure stands after the bytes already consumed.
\<close>

definition GetOp2_data :: "u8 \<Rightarrow> nat \<Rightarrow> bytes \<Rightarrow> bool \<times> u8 \<times> bytes \<times> bytes" where
  "GetOp2_data opcode nSize pc =
     (if length pc < nSize then (False, OP_INVALIDOPCODE, [], pc)
      else (True, opcode, take nSize pc, drop nSize pc))"

definition GetOp2 :: "bytes \<Rightarrow> bool \<times> u8 \<times> bytes \<times> bytes" where
  "GetOp2 s =
     (case s of
        [] \<Rightarrow> (False, OP_INVALIDOPCODE, [], [])
      | opcode # pc \<Rightarrow>
          if opcode \<le> OP_PUSHDATA4
          then if opcode < OP_PUSHDATA1 then GetOp2_data opcode (unat opcode) pc
               else if opcode = OP_PUSHDATA1
               then if length pc < 1 then (False, OP_INVALIDOPCODE, [], pc)
                    else GetOp2_data opcode (unat (pc ! 0)) (drop 1 pc)
               else if opcode = OP_PUSHDATA2
               then if length pc < 2 then (False, OP_INVALIDOPCODE, [], pc)
                    else GetOp2_data opcode (unat (ReadLE16 pc)) (drop 2 pc)
               else if length pc < 4 then (False, OP_INVALIDOPCODE, [], pc)
                    else GetOp2_data opcode (unat (ReadLE32 pc)) (drop 4 pc)
          else (True, opcode, [], pc))"

definition GetOp :: "bytes \<Rightarrow> (u8 \<times> bytes \<times> bytes) option" where
  "GetOp s = (case GetOp2 s of (fRet, opcode, data, pc) \<Rightarrow> if fRet then Some (opcode, data, pc) else None)"

lemma GetOp2_shorter: "s \<noteq> [] \<Longrightarrow> GetOp2 s = (b, opcode, data, pc) \<Longrightarrow> length pc < length s"
  by (auto simp: GetOp2_def GetOp2_data_def split: list.splits if_splits)

lemma GetOp_shorter: "GetOp s = Some (opcode, data, pc) \<Longrightarrow> length pc < length s"
  using GetOp2_shorter [of s] by (cases "s = []") (auto simp: GetOp_def GetOp2_def split: prod.splits if_splits)

text \<open>What one instruction adds to the count, given the opcode before it.\<close>

definition opcode_sigops :: "bool \<Rightarrow> u8 \<Rightarrow> u8 \<Rightarrow> nat" where
  "opcode_sigops fAccurate lastOpcode opcode =
     (if opcode = OP_CHECKSIG \<or> opcode = OP_CHECKSIGVERIFY then 1
      else if opcode = OP_CHECKMULTISIG \<or> opcode = OP_CHECKMULTISIGVERIFY
      then if fAccurate \<and> lastOpcode \<ge> OP_1 \<and> lastOpcode \<le> OP_16
           then unat (lastOpcode - (OP_1 - 1)) else MAX_PUBKEYS_PER_MULTISIG
      else 0)"

function GetSigOpCount_loop :: "bool \<Rightarrow> u8 \<Rightarrow> nat \<Rightarrow> bytes \<Rightarrow> nat" where
  "GetSigOpCount_loop fAccurate lastOpcode n pc =
     (case GetOp pc of
        None \<Rightarrow> n
      | Some (opcode, data, pc') \<Rightarrow>
          GetSigOpCount_loop fAccurate opcode (n + opcode_sigops fAccurate lastOpcode opcode) pc')"
  by auto
termination
  by (relation "measure (\<lambda>(f, l, n, pc). length pc)") (auto dest: GetOp_shorter)

definition GetSigOpCount :: "bool \<Rightarrow> bytes \<Rightarrow> nat" where
  "GetSigOpCount fAccurate s = GetSigOpCount_loop fAccurate OP_INVALIDOPCODE 0 s"

definition IsPayToScriptHash :: "bytes \<Rightarrow> bool" where
  "IsPayToScriptHash s \<longleftrightarrow> length s = 23 \<and> s ! 0 = OP_HASH160 \<and> s ! 1 = 0x14 \<and> s ! 22 = OP_EQUAL"

text \<open>The last item a push-only script pushes; \<open>None\<close> is the early \<open>return 0\<close>.\<close>

function last_push :: "bytes \<Rightarrow> bytes \<Rightarrow> bytes option" where
  "last_push data pc =
     (if pc = [] then Some data
      else case GetOp pc of
        None \<Rightarrow> None
      | Some (opcode, data', pc') \<Rightarrow> if opcode > OP_16 then None else last_push data' pc')"
  by auto
termination
  by (relation "measure (\<lambda>(d, pc). length pc)") (auto dest: GetOp_shorter)

definition GetSigOpCount_p2sh :: "bytes \<Rightarrow> bytes \<Rightarrow> nat" where
  "GetSigOpCount_p2sh s scriptSig =
     (if \<not> IsPayToScriptHash s then GetSigOpCount True s
      else case last_push [] scriptSig of None \<Rightarrow> 0 | Some data \<Rightarrow> GetSigOpCount True data)"

function IsPushOnly :: "bytes \<Rightarrow> bool" where
  "IsPushOnly pc =
     (if pc = [] then True
      else case GetOp pc of
        None \<Rightarrow> False
      | Some (opcode, data, pc') \<Rightarrow> if opcode > OP_16 then False else IsPushOnly pc')"
  by auto
termination
  by (relation "measure length") (auto dest: GetOp_shorter)

text \<open>\<open>IsNormalPaymentScript\<close> ignores the result of \<open>GetOp\<close> and only looks at the opcode.\<close>

function normal_payment_loop :: "nat \<Rightarrow> bytes \<Rightarrow> bool" where
  "normal_payment_loop i pc =
     (if pc = [] then True
      else case GetOp2 pc of (fRet, opcode, data, pc') \<Rightarrow>
        if i = 0 \<and> opcode \<noteq> OP_DUP then False
        else if i = 1 \<and> opcode \<noteq> OP_HASH160 then False
        else if i = 3 \<and> opcode \<noteq> OP_EQUALVERIFY then False
        else if i = 4 \<and> opcode \<noteq> OP_CHECKSIG then False
        else if i = 5 then False
        else normal_payment_loop (i + 1) pc')"
  by auto
termination
  by (relation "measure (\<lambda>(i, pc). length pc)") (auto dest!: GetOp2_shorter [OF _ sym])

definition IsNormalPaymentScript :: "bytes \<Rightarrow> bool" where
  "IsNormalPaymentScript s = (if length s \<noteq> 25 then False else normal_payment_loop 0 s)"

definition StartsWithOpcode :: "u8 \<Rightarrow> bytes \<Rightarrow> bool" where
  "StartsWithOpcode opcode s \<longleftrightarrow> s \<noteq> [] \<and> s ! 0 = opcode"

definition IsUnspendable :: "bytes \<Rightarrow> bool" where
  "IsUnspendable s \<longleftrightarrow> (length s > 0 \<and> s ! 0 = OP_RETURN) \<or> length s > MAX_SCRIPT_SIZE"

function script_Find :: "u8 \<Rightarrow> bytes \<Rightarrow> nat" where
  "script_Find op pc =
     (case GetOp pc of
        None \<Rightarrow> 0
      | Some (opcode, data, pc') \<Rightarrow> (if opcode = op then 1 else 0) + script_Find op pc')"
  by auto
termination
  by (relation "measure (\<lambda>(op, pc). length pc)") (auto dest: GetOp_shorter)

text \<open>
  \<open>FindAndDelete\<close>: at an instruction boundary drop every copy of \<open>b\<close>, then copy the next
  instruction.  The pair is the number of copies found and the bytes that remain.
\<close>

function strip_copies :: "bytes \<Rightarrow> bytes \<Rightarrow> nat \<times> bytes" where
  "strip_copies b pc =
     (if b \<noteq> [] \<and> length b \<le> length pc \<and> take (length b) pc = b
      then (case strip_copies b (drop (length b) pc) of (n, r) \<Rightarrow> (n + 1, r))
      else (0, pc))"
  by auto
termination
  by (relation "measure (\<lambda>(b, pc). length pc)") (auto simp: neq_Nil_conv)

declare strip_copies.simps [simp del]

lemma strip_copies_shorter: "length (snd (strip_copies b pc)) \<le> length pc"
proof (induction b pc rule: strip_copies.induct)
  case (1 b pc)
  then show ?case by (subst strip_copies.simps) (auto split: prod.splits)
qed

lemma FindAndDelete_shorter:
  "(n, pc2) = strip_copies b pc \<Longrightarrow> GetOp pc2 = Some (opcode, data, pc') \<Longrightarrow> length pc' < length pc"
  using strip_copies_shorter [of b pc] by (cases "strip_copies b pc") (auto dest: GetOp_shorter)

function FindAndDelete_loop :: "bytes \<Rightarrow> bytes \<Rightarrow> nat \<times> bytes" where
  "FindAndDelete_loop b pc =
     (case strip_copies b pc of
        (n, pc2) \<Rightarrow>
          (case GetOp pc2 of
             None \<Rightarrow> (n, pc2)
           | Some (opcode, data, pc') \<Rightarrow>
               (case FindAndDelete_loop b pc' of
                  (m, r) \<Rightarrow> (n + m, take (length pc2 - length pc') pc2 @ r))))"
  by auto
termination
  by (relation "measure (\<lambda>(b, pc). length pc)") (auto dest: FindAndDelete_shorter)

definition FindAndDelete :: "bytes \<Rightarrow> bytes \<Rightarrow> nat \<times> bytes" where
  "FindAndDelete script b =
     (if b = [] then (0, script)
      else case FindAndDelete_loop b script of (nFound, result) \<Rightarrow>
        (nFound, if nFound > 0 then result else script))"

declare scriptnum_bytes.simps [simp del] GetSigOpCount_loop.simps [simp del] last_push.simps [simp del]
  IsPushOnly.simps [simp del] normal_payment_loop.simps [simp del] script_Find.simps [simp del]
  FindAndDelete_loop.simps [simp del]

section \<open>Bytes\<close>

lemma byte_sign: "b AND 0x80 \<noteq> (0 :: u8) \<longleftrightarrow> 128 \<le> unat b"
proof -
  have "b AND 0x80 \<noteq> 0 \<longleftrightarrow> bit b 7" using and_exp_eq_0_iff_not_bit [of b 7] by simp
  also have "\<dots> \<longleftrightarrow> bit (unat b) 7" by (simp add: bit_unsigned_iff)
  also have "\<dots> \<longleftrightarrow> odd (unat b div 128)" by (simp add: bit_iff_odd)
  also have "\<dots> \<longleftrightarrow> 128 \<le> unat b"
  proof -
    have "unat b div 128 < 2" using unat_u8_less [of b] by (simp add: less_mult_imp_div_less)
    then show ?thesis by (auto simp: less_2_cases_iff div_eq_0_iff)
  qed
  finally show ?thesis .
qed

lemma unat_byte_and_7f: "unat (b AND 0x7f :: u8) = unat b mod 128"
proof -
  have "b AND 0x7f = take_bit 7 b" by (simp add: take_bit_eq_mask mask_eq_exp_minus_1)
  then show ?thesis by (simp only: unsigned_take_bit_eq) (simp add: take_bit_eq_mod)
qed

lemma byte_low: "b AND 0x7f = (0 :: u8) \<longleftrightarrow> unat b mod 128 = 0"
  by (simp add: word_unat_eq_iff unat_byte_and_7f)

lemma unat_byte_or_80: "unat b < 128 \<Longrightarrow> unat (b OR 0x80 :: u8) = unat b + 128"
proof -
  assume "unat b < 128"
  then have "b AND 0x80 = 0" using byte_sign [of b] by linarith
  then have "b OR 0x80 = b + 0x80" by (simp add: disjunctive_add_eq_or)
  with \<open>unat b < 128\<close> show ?thesis by (simp add: unat_word_ariths)
qed

lemma le_val_snoc: "le_val (xs @ [b]) = le_val xs + 256 ^ length xs * unat b"
  by (induction xs) (simp_all add: algebra_simps)

section \<open>Script numbers\<close>

lemma le_val_scriptnum_bytes [simp]: "le_val (scriptnum_bytes n) = n"
proof (induction n rule: scriptnum_bytes.induct)
  case (1 n)
  then show ?case by (subst scriptnum_bytes.simps) (simp add: unat_of_nat)
qed

lemma scriptnum_bytes_Nil: "scriptnum_bytes n = [] \<longleftrightarrow> n = 0"
  by (simp add: scriptnum_bytes.simps)

lemma last_scriptnum_bytes: "n \<noteq> 0 \<Longrightarrow> unat (last (scriptnum_bytes n)) \<noteq> 0"
proof (induction n rule: scriptnum_bytes.induct)
  case (1 n)
  show ?case
  proof (cases "n div 256 = 0")
    case True
    with 1 show ?thesis
      by (subst scriptnum_bytes.simps) (simp add: scriptnum_bytes_Nil [THEN iffD2] unat_of_nat)
  next
    case False
    with 1 show ?thesis by (subst scriptnum_bytes.simps) (simp add: scriptnum_bytes_Nil)
  qed
qed

lemma scriptnum_bytes_le_val: "ys = [] \<or> unat (last ys) \<noteq> 0 \<Longrightarrow> scriptnum_bytes (le_val ys) = ys"
proof (induction ys)
  case Nil
  then show ?case by (simp add: scriptnum_bytes.simps)
next
  case (Cons y ys)
  have y: "unat y < 256" by (rule unat_u8_less)
  have nz: "le_val (y # ys) \<noteq> 0"
  proof (cases "ys = []")
    case False
    with Cons have "scriptnum_bytes (le_val ys) = ys" by simp
    with False have "le_val ys \<noteq> 0" by (metis scriptnum_bytes_Nil)
    then show ?thesis by simp
  qed (use Cons in simp)
  have "scriptnum_bytes (le_val ys) = ys" using Cons by (cases "ys = []") auto
  moreover have "(unat y + 256 * le_val ys) div 256 = le_val ys" "(unat y + 256 * le_val ys) mod 256 = unat y"
    using y by simp_all
  ultimately show ?case using nz by (subst scriptnum_bytes.simps) simp
qed

text \<open>Sign and magnitude of a number on the stack.\<close>

lemma set_vch_snoc:
  "CScriptNum_set_vch (xs @ [b]) =
     (if 128 \<le> unat b then - 1 else 1) * int (le_val xs + 256 ^ length xs * (unat b mod 128))"
proof -
  have b: "unat b < 256" by (rule unat_u8_less)
  show ?thesis
  proof (cases "128 \<le> unat b")
    case True
    then obtain k where k: "unat b = 128 + k" using le_Suc_ex by blast
    with b have "k < 128" by simp
    with True k show ?thesis
      using byte_sign [of b] by (simp add: CScriptNum_set_vch_def le_val_snoc algebra_simps)
  next
    case False
    then show ?thesis using byte_sign [of b] by (simp add: CScriptNum_set_vch_def le_val_snoc)
  qed
qed

lemma serialize_cases:
  assumes "v \<noteq> 0"
  obtains xs b where "CScriptNum_serialize v = xs @ [b]" "128 \<le> unat b \<longleftrightarrow> v < 0"
    "le_val xs + 256 ^ length xs * (unat b mod 128) = nat \<bar>v\<bar>"
    "unat b mod 128 \<noteq> 0 \<or> (xs \<noteq> [] \<and> 128 \<le> unat (last xs))"
proof -
  let ?r = "scriptnum_bytes (nat \<bar>v\<bar>)"
  have ne: "?r \<noteq> []" and nz: "unat (last ?r) \<noteq> 0"
    using assms last_scriptnum_bytes [of "nat \<bar>v\<bar>"] by (simp_all add: scriptnum_bytes_Nil)
  have split: "?r = butlast ?r @ [last ?r]" using ne by simp
  have val: "le_val (butlast ?r) + 256 ^ length (butlast ?r) * unat (last ?r) = nat \<bar>v\<bar>"
    using le_val_snoc [of "butlast ?r" "last ?r"] ne by simp
  show thesis
  proof (cases "128 \<le> unat (last ?r)")
    case True
    then show thesis using assms ne byte_sign [of "last ?r"]
      by (intro that [of ?r "if v < 0 then 0x80 else 0"]) (auto simp: CScriptNum_serialize_def Let_def)
  next
    case False
    show thesis
    proof (cases "v < 0")
      case True
      with False show thesis
        using assms ne nz val byte_sign [of "last ?r"] unat_byte_or_80 [of "last ?r"]
        by (intro that [of "butlast ?r" "last ?r OR 0x80"]) (auto simp: CScriptNum_serialize_def Let_def)
    next
      case nn: False
      have "CScriptNum_serialize v = butlast ?r @ [last ?r]"
        using False nn assms ne byte_sign [of "last ?r"] by (auto simp: CScriptNum_serialize_def Let_def)
      then show thesis using False nn nz val by (rule_tac that) auto
    qed
  qed
qed

lemma set_vch_serialize: "CScriptNum_set_vch (CScriptNum_serialize v) = v"
proof (cases "v = 0")
  case True
  then show ?thesis by (simp add: CScriptNum_serialize_def CScriptNum_set_vch_def)
next
  case False
  then show ?thesis by (rule serialize_cases) (auto simp: set_vch_snoc)
qed

lemma minimal_check_snoc:
  fixes b :: u8
  shows "(last (xs @ [b]) AND 0x7f = 0 \<and> (length (xs @ [b]) \<le> 1 \<or> (xs @ [b]) ! (length (xs @ [b]) - 2) AND 0x80 = 0)) \<longleftrightarrow>
     \<not> (unat b mod 128 \<noteq> 0 \<or> (xs \<noteq> [] \<and> 128 \<le> unat (last xs)))"
proof (cases xs rule: rev_cases)
  case (snoc ys y)
  have "(ys @ y # b # []) ! length ys = y" by (simp add: nth_append)
  with snoc show ?thesis using byte_sign [of y] by (auto simp: byte_low)
qed (simp add: byte_low)

lemma sign_magnitude:
  assumes "v = (if neg then - 1 else 1) * int m" "m \<noteq> 0"
  shows "v \<noteq> 0" "v < 0 \<longleftrightarrow> neg" "nat \<bar>v\<bar> = m"
  using assms by auto

lemma serialize_set_vch:
  assumes "unat b mod 128 \<noteq> 0 \<or> (xs \<noteq> [] \<and> 128 \<le> unat (last xs))"
  shows "CScriptNum_serialize (CScriptNum_set_vch (xs @ [b])) = xs @ [b]"
proof -
  have b256: "unat b < 256" by (rule unat_u8_less)
  let ?m = "le_val xs + 256 ^ length xs * (unat b mod 128)" and ?neg = "128 \<le> unat b"
  let ?v = "CScriptNum_set_vch (xs @ [b])"
  have v: "?v = (if ?neg then - 1 else 1) * int ?m" by (rule set_vch_snoc)
  show ?thesis
  proof (cases "unat b mod 128 = 0")
    case False
    define c where "c = (of_nat (unat b mod 128) :: u8)"
    have c: "unat c = unat b mod 128" using b256 by (simp add: c_def unat_of_nat)
    have m: "?m = le_val (xs @ [c])" by (simp add: le_val_snoc c)
    have bytes: "scriptnum_bytes ?m = xs @ [c]" unfolding m by (rule scriptnum_bytes_le_val) (simp add: c False)
    have "?m \<noteq> 0" using False by simp
    note v0 = sign_magnitude [OF v this]
    have low: "c AND 0x80 = 0" using byte_sign [of c] c by (metis mod_less_divisor not_less zero_less_numeral)
    have "c OR 0x80 = b" if ?neg
    proof -
      have "unat b mod 128 = unat b - 128" using that b256 by (simp add: mod_if)
      then show ?thesis using unat_byte_or_80 [of c] c that b256 by (simp add: word_unat_eq_iff)
    qed
    moreover have "c = b" if "\<not> ?neg" using that by (simp add: word_unat_eq_iff c)
    ultimately show ?thesis
      using v0 low by (simp add: CScriptNum_serialize_def Let_def bytes)
  next
    case True
    with assms have xs: "xs \<noteq> []" "128 \<le> unat (last xs)" by simp_all
    have m: "?m = le_val xs" using True by simp
    have bytes: "scriptnum_bytes ?m = xs" unfolding m by (rule scriptnum_bytes_le_val) (use xs in simp)
    have "?m \<noteq> 0" using bytes xs(1) scriptnum_bytes_Nil by metis
    note v0 = sign_magnitude [OF v this]
    have "b = (if ?neg then 0x80 else 0)" using True b256 by (auto simp: word_unat_eq_iff mod_if split: if_splits)
    moreover have "last xs AND 0x80 \<noteq> 0" using xs byte_sign [of "last xs"] by simp
    ultimately show ?thesis using v0 by (simp add: CScriptNum_serialize_def Let_def bytes)
  qed
qed

lemma CScriptNum_set_vch_bound:
  assumes "length vch \<le> Suc n"
  shows "\<bar>CScriptNum_set_vch vch\<bar> < 128 * 256 ^ n"
proof (cases vch rule: rev_cases)
  case Nil
  then show ?thesis by (simp add: CScriptNum_set_vch_def)
next
  case (snoc xs b)
  have "le_val xs + 256 ^ length xs * (unat b mod 128) < 256 ^ length xs + 256 ^ length xs * (unat b mod 128)"
    using le_val_less [of xs] by simp
  also have "\<dots> = 256 ^ length xs * Suc (unat b mod 128)" by simp
  also have "\<dots> \<le> 256 ^ length xs * 128" by (intro mult_left_mono) (simp_all add: Suc_leI)
  also have "\<dots> \<le> 256 ^ n * 128" using assms snoc by (intro mult_right_mono power_increasing) simp_all
  finally have "int (le_val xs + 256 ^ length xs * (unat b mod 128)) < int (256 ^ n * 128)"
    by (simp only: of_nat_less_iff)
  moreover have "\<bar>CScriptNum_set_vch vch\<bar> = int (le_val xs + 256 ^ length xs * (unat b mod 128))"
    unfolding snoc set_vch_snoc
    by (cases "128 \<le> unat b") (simp_all only: if_True if_False mult_minus_left mult_1 abs_minus_cancel abs_of_nat)
  ultimately show ?thesis by (simp add: mult.commute)
qed

section \<open>Pushing and reading back\<close>

lemma ReadLE16_append: "ReadLE16 (WriteLE16 x @ r) = x"
  using ReadLE_WriteLE(1) [of x r] by simp

lemma GetOp_push_data:
  assumes "length b < 2 ^ 32"
  shows "\<exists>opcode \<le> OP_PUSHDATA4. GetOp (script_push_data b @ r) = Some (opcode, b, r)"
proof -
  have len: "length (WriteLE16 x) = 2" "length (WriteLE32 y) = 4" for x y
    by (simp_all add: WriteLE16_def WriteLE32_def)
  consider "length b < 0x4c" | "0x4c \<le> length b" "length b \<le> 0xff"
    | "0xff < length b" "length b \<le> 0xffff" | "0xffff < length b" by linarith
  then show ?thesis
  proof cases
    case 1
    then have "unat (of_nat (length b) :: u8) = length b" by (simp add: unat_of_nat)
    with 1 show ?thesis
      by (simp add: script_push_data_def GetOp_def GetOp2_def GetOp2_data_def word_le_nat_alt word_less_nat_alt)
  next
    case 2
    then have "unat (of_nat (length b) :: u8) = length b" by (simp add: unat_of_nat)
    with 2 show ?thesis
      by (simp add: script_push_data_def GetOp_def GetOp2_def GetOp2_data_def)
  next
    case 3
    then have "unat (of_nat (length b) :: u16) = length b" by (simp add: unat_of_nat)
    with 3 show ?thesis
      by (simp add: script_push_data_def GetOp_def GetOp2_def GetOp2_data_def ReadLE_WriteLE len)
  next
    case 4
    with assms have "unat (of_nat (length b) :: u32) = length b" by (simp add: unat_of_nat)
    with 4 show ?thesis
      by (simp add: script_push_data_def GetOp_def GetOp2_def GetOp2_data_def ReadLE_WriteLE len)
  qed
qed

text \<open>The number of signature operations is linear in the size of a script.\<close>

lemma opcode_sigops_bounds:
  "opcode_sigops f l opcode \<le> 20" "opcode_sigops True l opcode \<le> opcode_sigops False l' opcode"
proof -
  have "unat (l - 0x50) \<le> 20" if "0x51 \<le> l" "l \<le> 0x60"
    using that by (simp add: word_le_nat_alt unat_sub)
  then show "opcode_sigops f l opcode \<le> 20" "opcode_sigops True l opcode \<le> opcode_sigops False l' opcode"
    by (auto simp: opcode_sigops_def MAX_PUBKEYS_PER_MULTISIG_def)
qed

lemma GetSigOpCount_loop_bound: "GetSigOpCount_loop f l n pc \<le> n + 20 * length pc"
proof (induction f l n pc rule: GetSigOpCount_loop.induct)
  case (1 f l n pc)
  show ?case
  proof (cases "GetOp pc")
    case None
    then show ?thesis by (subst GetSigOpCount_loop.simps) simp
  next
    case (Some t)
    obtain opcode data pc' where t: "t = (opcode, data, pc')" by (cases t)
    have sh: "length pc' < length pc" using Some t GetOp_shorter by simp
    then show ?thesis using 1 [OF Some t [symmetric] refl] opcode_sigops_bounds(1) [of f l opcode]
      by (subst GetSigOpCount_loop.simps) (simp add: Some t)
  qed
qed

lemma GetSigOpCount_accurate_le:
  "n \<le> m \<Longrightarrow> GetSigOpCount_loop True l n pc \<le> GetSigOpCount_loop False l' m pc"
proof (induction True l n pc arbitrary: l' m rule: GetSigOpCount_loop.induct)
  case (1 l n pc)
  show ?case
  proof (cases "GetOp pc")
    case None
    then show ?thesis using 1 by (subst (1 2) GetSigOpCount_loop.simps) simp
  next
    case (Some t)
    obtain opcode data pc' where t: "t = (opcode, data, pc')" by (cases t)
    show ?thesis
      using 1(1) [OF Some t [symmetric] refl, of "m + opcode_sigops False l' opcode" opcode]
        1(2) opcode_sigops_bounds(2) [of l opcode l']
      by (subst (1 2) GetSigOpCount_loop.simps) (simp add: Some t add_mono)
  qed
qed

section \<open>Deleting a byte string\<close>

lemma strip_copies_length:
  "strip_copies b pc = (n, r) \<Longrightarrow> length pc = n * length b + length r"
proof (induction b pc arbitrary: n r rule: strip_copies.induct)
  case (1 b pc)
  show ?case
  proof (cases "b \<noteq> [] \<and> length b \<le> length pc \<and> take (length b) pc = b")
    case True
    obtain m q where mq: "strip_copies b (drop (length b) pc) = (m, q)" by fastforce
    with True 1(2) have "n = m + 1" "r = q" by (subst (asm) strip_copies.simps, simp)+
    moreover have "length b \<le> length pc" using True by simp
    ultimately show ?thesis using 1(1) [OF True mq] by simp
  next
    case False
    with 1(2) show ?thesis by (subst (asm) strip_copies.simps) auto
  qed
qed

lemma FindAndDelete_loop_length:
  "FindAndDelete_loop b pc = (n, r) \<Longrightarrow> length pc = n * length b + length r"
proof (induction b pc arbitrary: n r rule: FindAndDelete_loop.induct)
  case (1 b pc)
  obtain k pc2 where s: "strip_copies b pc = (k, pc2)" by fastforce
  note l = strip_copies_length [OF s]
  show ?case
  proof (cases "GetOp pc2")
    case None
    with 1(2) s l show ?thesis by (subst (asm) FindAndDelete_loop.simps) simp
  next
    case (Some t)
    obtain opcode data pc' where t: "t = (opcode, data, pc')" by (cases t)
    obtain m q where mq: "FindAndDelete_loop b pc' = (m, q)" by fastforce
    have "n = k + m" "r = take (length pc2 - length pc') pc2 @ q"
      using 1(2) s Some t mq by (subst (asm) FindAndDelete_loop.simps, simp)+
    moreover have "length pc' < length pc2" using Some t GetOp_shorter by simp
    ultimately show ?thesis using 1(1) [OF s [symmetric] Some t [symmetric] refl mq] l by (simp add: algebra_simps)
  qed
qed

section \<open>Properties\<close>

text \<open>
  Numbers on the script stack.  With minimal encoding required, \<open>CScriptNum(vch, true, n)\<close> accepts exactly the
  byte strings of at most \<open>n\<close> bytes that \<open>CScriptNum::serialize\<close> produces, and returns the number they were
  made from: the encoding is a bijection, every non-minimal encoding is refused, and a four byte operand lies strictly
  between \<open>-2^31\<close> and \<open>2^31\<close>.
\<close>

lemma CScriptNum_minimal:
  "(CScriptNum_of_vch vch True n = Inr v \<longleftrightarrow> length vch \<le> n \<and> vch = CScriptNum_serialize v) \<and>
   (CScriptNum_of_vch vch fRequireMinimal 4 \<noteq> Inr v \<or> \<bar>v\<bar> < 2 ^ 31)"
proof
  show "CScriptNum_of_vch vch True n = Inr v \<longleftrightarrow> length vch \<le> n \<and> vch = CScriptNum_serialize v" (is "?l \<longleftrightarrow> ?r")
  proof
    assume ?l
    then have len: "length vch \<le> n" and v: "v = CScriptNum_set_vch vch"
      and min: "\<not> (vch \<noteq> [] \<and> last vch AND 0x7f = 0 \<and> (length vch \<le> 1 \<or> vch ! (length vch - 2) AND 0x80 = 0))"
      by (auto simp: CScriptNum_of_vch_def split: if_splits)
    have "CScriptNum_serialize (CScriptNum_set_vch vch) = vch"
    proof (cases vch rule: rev_cases)
      case Nil
      then show ?thesis by (simp add: CScriptNum_serialize_def CScriptNum_set_vch_def)
    next
      case (snoc xs b)
      then have "unat b mod 128 \<noteq> 0 \<or> (xs \<noteq> [] \<and> 128 \<le> unat (last xs))"
        using min minimal_check_snoc [of xs b] by blast
      then show ?thesis unfolding snoc by (rule serialize_set_vch)
    qed
    with len v show ?r by simp
  next
    assume r: ?r
    show ?l
    proof (cases "v = 0")
      case True
      with r show ?thesis by (simp add: CScriptNum_serialize_def CScriptNum_of_vch_def CScriptNum_set_vch_def)
    next
      case False
      then obtain xs b where s: "CScriptNum_serialize v = xs @ [b]"
        and m: "unat b mod 128 \<noteq> 0 \<or> (xs \<noteq> [] \<and> 128 \<le> unat (last xs))" by (rule serialize_cases)
      then show ?thesis using r minimal_check_snoc [of xs b] set_vch_serialize [of v]
        by (auto simp: CScriptNum_of_vch_def)
    qed
  qed
  show "CScriptNum_of_vch vch fRequireMinimal 4 \<noteq> Inr v \<or> \<bar>v\<bar> < 2 ^ 31"
    using CScriptNum_set_vch_bound [of vch 3] by (auto simp: CScriptNum_of_vch_def split: if_splits)
qed

text \<open>
  Instruction parsing inverts script building: for every byte string shorter than \<open>2^32\<close> the parser \<open>GetOp\<close>
  reads back from \<open>CScript << b\<close> exactly the data pushed and stops at the bytes after it, with a push opcode, so
  a script made of pushes is push-only.
\<close>

lemma push_data_roundtrip:
  assumes "length b < 2 ^ 32"
  shows "(\<exists>opcode. GetOp (script_push_data b @ r) = Some (opcode, b, r) \<and> opcode \<le> OP_PUSHDATA4) \<and>
    IsPushOnly (script_push_data b @ r) = IsPushOnly r"
proof
  obtain opcode where op: "opcode \<le> OP_PUSHDATA4" "GetOp (script_push_data b @ r) = Some (opcode, b, r)"
    using GetOp_push_data [OF assms, of r] by blast
  then show "\<exists>opcode. GetOp (script_push_data b @ r) = Some (opcode, b, r) \<and> opcode \<le> OP_PUSHDATA4" by blast
  have "script_push_data b \<noteq> []" by (simp add: script_push_data_def)
  moreover have "\<not> OP_16 < opcode" using op(1) by (simp add: word_le_nat_alt word_less_nat_alt)
  ultimately show "IsPushOnly (script_push_data b @ r) = IsPushOnly r"
    by (subst IsPushOnly.simps) (simp add: op(2))
qed

text \<open>
  Signature operation counts.  Whatever its bytes, a script of \<open>k\<close> bytes counts at most \<open>20 * k\<close>
  signature operations, and the accurate count never exceeds the legacy count.
\<close>

lemma GetSigOpCount_bounds:
  "GetSigOpCount fAccurate s \<le> 20 * length s \<and> GetSigOpCount True s \<le> GetSigOpCount False s"
  using GetSigOpCount_loop_bound [of fAccurate "0xff" 0 s] GetSigOpCount_accurate_le [of 0 0 "0xff" s "0xff"]
  by (simp add: GetSigOpCount_def)

end
