(* ===== verification/PubKey.thy ===== *)
theory PubKey
  imports Serialize "HOL-Library.List_Lexorder"
begin

text \<open>
  Public keys as the node stores them (\<open>CPubKey\<close> of \<open>src/src/pubkey.h\<close>).  The model keeps the
  meaningful prefix of the 65 byte array: the key bytes of a valid key, whose first byte determines its length, and the
  single byte \<open>0xFF\<close> of an invalidated one.  Curve arithmetic is not modelled; the hash behind \<open>GetID\<close> is a
  parameter.
\<close>

datatype cpubkey = CPubKey (key_vch: bytes)

definition PUBLIC_KEY_SIZE :: nat where "PUBLIC_KEY_SIZE = 65"

definition COMPRESSED_PUBLIC_KEY_SIZE :: nat where "COMPRESSED_PUBLIC_KEY_SIZE = 33"

definition GetLen :: "u8 \<Rightarrow> nat" where
  "GetLen chHeader =
     (if chHeader = 2 \<or> chHeader = 3 then COMPRESSED_PUBLIC_KEY_SIZE
      else if chHeader = 4 \<or> chHeader = 6 \<or> chHeader = 7 then PUBLIC_KEY_SIZE
      else 0)"

definition invalid_key :: cpubkey where
  "invalid_key = CPubKey [0xFF]"

definition ValidSize :: "bytes \<Rightarrow> bool" where
  "ValidSize vch \<longleftrightarrow> length vch > 0 \<and> GetLen (vch ! 0) = length vch"

definition pubkey_Set :: "bytes \<Rightarrow> cpubkey" where
  "pubkey_Set vch =
     (let len = if vch = [] then 0 else GetLen (vch ! 0)
      in if len \<noteq> 0 \<and> len = length vch then CPubKey vch else invalid_key)"

definition pubkey_size :: "cpubkey \<Rightarrow> nat" where
  "pubkey_size k = GetLen (key_vch k ! 0)"

definition pubkey_bytes :: "cpubkey \<Rightarrow> bytes" where
  "pubkey_bytes k = take (pubkey_size k) (key_vch k)"

definition pubkey_IsValid :: "cpubkey \<Rightarrow> bool" where
  "pubkey_IsValid k \<longleftrightarrow> pubkey_size k > 0"

definition pubkey_IsCompressed :: "cpubkey \<Rightarrow> bool" where
  "pubkey_IsCompressed k \<longleftrightarrow> pubkey_size k = COMPRESSED_PUBLIC_KEY_SIZE"

definition pubkey_GetID :: "(bytes \<Rightarrow> uint160) \<Rightarrow> cpubkey \<Rightarrow> uint160" where
  "pubkey_GetID Hash160 k = Hash160 (pubkey_bytes k)"

definition put_pubkey :: "cpubkey \<Rightarrow> bytes" where
  "put_pubkey k = WriteCompactSize (of_nat (pubkey_size k)) @ pubkey_bytes k"

text \<open>
  \<open>Unserialize\<close> into a freshly constructed key, whose first byte is \<open>0xFF\<close>: the bytes read replace a prefix
  of the array.
\<close>

definition get_pubkey :: "cpubkey reader" where
  "get_pubkey s = do {
     (len, s) \<leftarrow> ReadCompactSize s;
     (b, s) \<leftarrow> read_bytes (unat len) s;
     Some (if unat len \<le> PUBLIC_KEY_SIZE
           then if unat len \<noteq> GetLen ((b @ [0xFF]) ! 0) then invalid_key
                else if b = [] then invalid_key else CPubKey b
           else invalid_key, s) }"

text \<open>The keys that exist at run time: those \<open>Set\<close> produces.\<close>

definition wf_pubkey :: "cpubkey \<Rightarrow> bool" where
  "wf_pubkey k \<longleftrightarrow> k = invalid_key \<or> ValidSize (key_vch k)"

text \<open>The order of \<open>std::set<CPubKey>\<close>: first byte, then the key bytes, as unsigned bytes.\<close>

instantiation cpubkey :: linorder
begin

definition less_eq_cpubkey :: "cpubkey \<Rightarrow> cpubkey \<Rightarrow> bool" where
  "less_eq_cpubkey a b \<longleftrightarrow> key_vch a \<le> key_vch b"

definition less_cpubkey :: "cpubkey \<Rightarrow> cpubkey \<Rightarrow> bool" where
  "less_cpubkey a b \<longleftrightarrow> key_vch a < key_vch b"

instance
  by intro_classes (auto simp: less_eq_cpubkey_def less_cpubkey_def cpubkey.expand)

end

lemma GetLen_bound: "GetLen h \<le> 65"
  by (simp add: GetLen_def PUBLIC_KEY_SIZE_def COMPRESSED_PUBLIC_KEY_SIZE_def)

lemma invalid_key_facts [simp]:
  "pubkey_size invalid_key = 0" "pubkey_bytes invalid_key = []" "\<not> pubkey_IsValid invalid_key" "wf_pubkey invalid_key"
  by (simp_all add: invalid_key_def pubkey_size_def pubkey_bytes_def pubkey_IsValid_def GetLen_def wf_pubkey_def)

lemma wf_pubkey_Set [simp]: "wf_pubkey (pubkey_Set vch)"
  by (auto simp: pubkey_Set_def wf_pubkey_def ValidSize_def Let_def)

lemma pubkey_Set_valid: "pubkey_IsValid (pubkey_Set vch) \<longleftrightarrow> ValidSize vch"
  by (auto simp: pubkey_Set_def ValidSize_def Let_def pubkey_IsValid_def pubkey_size_def invalid_key_def GetLen_def)

lemma pubkey_Set_bytes: "ValidSize vch \<Longrightarrow> pubkey_bytes (pubkey_Set vch) = vch"
  by (auto simp: pubkey_Set_def ValidSize_def Let_def pubkey_bytes_def pubkey_size_def)

lemma pubkey_Set_pubkey_bytes: "wf_pubkey k \<Longrightarrow> pubkey_Set (pubkey_bytes k) = k"
proof (cases "k = invalid_key")
  case True
  then show ?thesis by (simp add: pubkey_Set_def)
next
  case False
  assume "wf_pubkey k"
  with False show ?thesis
    by (cases k) (simp add: wf_pubkey_def pubkey_Set_def ValidSize_def Let_def pubkey_bytes_def pubkey_size_def)
qed

interpretation pubkey: codec wf_pubkey put_pubkey get_pubkey
proof
  fix k rest
  assume wf: "wf_pubkey k"
  have small: "pubkey_size k \<le> 65" by (simp add: pubkey_size_def GetLen_bound)
  then have u: "unat (of_nat (pubkey_size k) :: u64) = pubkey_size k" by (simp add: unat_of_nat)
  then have m: "(of_nat (pubkey_size k) :: u64) \<le> MAX_SIZE" using small by (simp add: word_le_nat_alt MAX_SIZE_def)
  show "get_pubkey (put_pubkey k @ rest) = Some (k, rest)"
  proof (cases "k = invalid_key")
    case True
    then show ?thesis using m
      by (simp add: get_pubkey_def put_pubkey_def ReadCompactSize_Write read_bytes_def GetLen_def)
  next
    case False
    with wf have v: "ValidSize (key_vch k)" by (simp add: wf_pubkey_def)
    then have "length (key_vch k) = pubkey_size k" "key_vch k \<noteq> []" by (auto simp: ValidSize_def pubkey_size_def)
    then show ?thesis using m u small v
      by (cases k) (simp add: get_pubkey_def put_pubkey_def ReadCompactSize_Write pubkey_bytes_def
          PUBLIC_KEY_SIZE_def pubkey_size_def nth_append)
  qed
qed

end
