(* ===== verification/Transaction.thy ===== *)
theory Transaction
  imports Script PubKey ConsensusParams
begin

text \<open>
  Transactions (\<open>src/src/primitives/transaction.h\<close> and \<open>.cpp\<close>): outpoints, inputs, outputs and transactions
  with their serialization, and the value, kind and size functions.  The cached \<open>hash\<close> member is the function
  \<open>tx_GetHash\<close> of the serialization, with the double SHA-256 as a parameter.  The unused member
  \<open>CTxIn::prevPubKey\<close> is left out.  Amounts are mathematical integers; \<open>wrap64\<close> is written where the source
  adds \<open>int64_t\<close> values before it has checked them.
\<close>

section \<open>Fixed width fields\<close>

definition wrap64 :: "int \<Rightarrow> int" where
  "wrap64 x = (x + 2 ^ 63) mod 2 ^ 64 - 2 ^ 63"

definition put_int32 :: "int \<Rightarrow> bytes" where
  "put_int32 x = ser_writedata32 (word_of_int x)"

definition get_int32 :: "int reader" where
  "get_int32 s = do { (x, s) \<leftarrow> ser_readdata32 s; Some (sint x, s) }"

definition put_int64 :: "int \<Rightarrow> bytes" where
  "put_int64 x = ser_writedata64 (word_of_int x)"

definition get_int64 :: "int reader" where
  "get_int64 s = do { (x, s) \<leftarrow> ser_readdata64 s; Some (sint x, s) }"

definition put_uint256 :: "uint256 \<Rightarrow> bytes" where
  "put_uint256 h = le_bytes 32 (unat h)"

definition get_uint256 :: "uint256 reader" where
  "get_uint256 s = do { (b, s) \<leftarrow> read_bytes 32 s; Some (of_nat (le_val b), s) }"

section \<open>Records\<close>

record COutPoint =
  op_hash :: uint256
  op_n :: u32

record CTxIn =
  prevout :: COutPoint
  scriptSig :: bytes
  nSequence :: u32

record CTxOut =
  nValue :: int
  scriptPubKey :: bytes
  nRounds :: int

record CTransaction =
  tx_nVersion :: int
  vin :: "CTxIn list"
  vout :: "CTxOut list"
  nLockTime :: u32

section \<open>Outpoints, inputs and outputs\<close>

definition null_outpoint :: COutPoint where
  "null_outpoint = \<lparr>op_hash = 0, op_n = - 1\<rparr>"

definition COutPoint_IsNull :: "COutPoint \<Rightarrow> bool" where
  "COutPoint_IsNull o' \<longleftrightarrow> op_hash o' = 0 \<and> op_n o' = - 1"

text \<open>\<open>uint256\<close> is \<open>base_uint<256>\<close>, so \<open>operator<\<close> compares the hashes as numbers.\<close>

definition COutPoint_less :: "COutPoint \<Rightarrow> COutPoint \<Rightarrow> bool" where
  "COutPoint_less a b \<longleftrightarrow> op_hash a < op_hash b \<or> (op_hash a = op_hash b \<and> op_n a < op_n b)"

definition put_outpoint :: "COutPoint \<Rightarrow> bytes" where
  "put_outpoint o' = put_uint256 (op_hash o') @ ser_writedata32 (op_n o')"

definition get_outpoint :: "COutPoint reader" where
  "get_outpoint s = do {
     (h, s) \<leftarrow> get_uint256 s;
     (n, s) \<leftarrow> ser_readdata32 s;
     Some (\<lparr>op_hash = h, op_n = n\<rparr>, s) }"

definition SEQUENCE_FINAL :: u32 where "SEQUENCE_FINAL = 0xffffffff"

definition CTxIn_IsFinal :: "CTxIn \<Rightarrow> bool" where
  "CTxIn_IsFinal i \<longleftrightarrow> nSequence i = 0xffffffff"

definition put_txin :: "CTxIn \<Rightarrow> bytes" where
  "put_txin i = put_outpoint (prevout i) @ put_blob (scriptSig i) @ ser_writedata32 (nSequence i)"

definition get_txin :: "CTxIn reader" where
  "get_txin s = do {
     (p, s) \<leftarrow> get_outpoint s;
     (sig, s) \<leftarrow> get_blob s;
     (q, s) \<leftarrow> ser_readdata32 s;
     Some (\<lparr>prevout = p, scriptSig = sig, nSequence = q\<rparr>, s) }"

definition CTxOut_SetNull :: CTxOut where
  "CTxOut_SetNull = \<lparr>nValue = - 1, scriptPubKey = [], nRounds = - 10\<rparr>"

definition new_txout :: "int \<Rightarrow> bytes \<Rightarrow> CTxOut" where
  "new_txout v s = \<lparr>nValue = v, scriptPubKey = s, nRounds = - 10\<rparr>"

definition CTxOut_IsNull :: "CTxOut \<Rightarrow> bool" where
  "CTxOut_IsNull out \<longleftrightarrow> nValue out = - 1"

definition CTxOut_SetEmpty :: "CTxOut \<Rightarrow> CTxOut" where
  "CTxOut_SetEmpty out = out\<lparr>nValue := 0, scriptPubKey := []\<rparr>"

definition CTxOut_IsEmpty :: "CTxOut \<Rightarrow> bool" where
  "CTxOut_IsEmpty out \<longleftrightarrow> nValue out = 0 \<and> scriptPubKey out = []"

definition put_txout :: "CTxOut \<Rightarrow> bytes" where
  "put_txout out = put_int64 (nValue out) @ put_blob (scriptPubKey out)"

definition get_txout :: "CTxOut reader" where
  "get_txout s = do {
     (v, s) \<leftarrow> get_int64 s;
     (spk, s) \<leftarrow> get_blob s;
     Some (CTxOut_SetNull\<lparr>nValue := v, scriptPubKey := spk\<rparr>, s) }"

text \<open>\<open>CFeeRate::GetFee\<close> (\<open>src/src/amount.cpp\<close>) and the dust threshold built on it.  \<open>nSatoshisPerK * nSize\<close>
  is computed in \<open>size_t\<close>, so the quotient is unsigned.\<close>

definition GetFee :: "int \<Rightarrow> nat \<Rightarrow> int" where
  "GetFee nSatoshisPerK nSize =
     (let nFee = sint (word_of_int nSatoshisPerK * of_nat nSize div 1000 :: u64)
      in if nFee = 0 \<and> nSatoshisPerK > 0 then nSatoshisPerK else nFee)"

definition NewFeeRate :: "int \<Rightarrow> nat \<Rightarrow> int" where
  "NewFeeRate nFeePaid nSize =
     (if nSize > 0 then sint (word_of_int (nFeePaid * 1000) div of_nat nSize :: u64) else 0)"

definition GetDustThreshold :: "int \<Rightarrow> CTxOut \<Rightarrow> int" where
  "GetDustThreshold minRelayTxFee out =
     (if IsUnspendable (scriptPubKey out) then 0
      else 3 * GetFee minRelayTxFee (length (put_txout out) + 148))"

definition IsDust :: "int \<Rightarrow> CTxOut \<Rightarrow> bool" where
  "IsDust minRelayTxFee out \<longleftrightarrow> nValue out < GetDustThreshold minRelayTxFee out"

section \<open>Transactions\<close>

definition put_tx :: "CTransaction \<Rightarrow> bytes" where
  "put_tx tx = put_int32 (tx_nVersion tx) @ put_vector put_txin (vin tx) @ put_vector put_txout (vout tx)
     @ ser_writedata32 (nLockTime tx)"

definition get_tx :: "CTransaction reader" where
  "get_tx s = do {
     (ver, s) \<leftarrow> get_int32 s;
     (ins, s) \<leftarrow> get_vector get_txin s;
     (outs, s) \<leftarrow> get_vector get_txout s;
     (l, s) \<leftarrow> ser_readdata32 s;
     Some (\<lparr>tx_nVersion = ver, vin = ins, vout = outs, nLockTime = l\<rparr>, s) }"

definition tx_GetHash :: "(bytes \<Rightarrow> uint256) \<Rightarrow> CTransaction \<Rightarrow> uint256" where
  "tx_GetHash Hash tx = Hash (put_tx tx)"

definition CTransaction_IsNull :: "CTransaction \<Rightarrow> bool" where
  "CTransaction_IsNull tx \<longleftrightarrow> vin tx = [] \<and> vout tx = []"

definition IsCoinBase :: "CTransaction \<Rightarrow> bool" where
  "IsCoinBase tx \<longleftrightarrow> length (vin tx) = 1 \<and> COutPoint_IsNull (prevout (vin tx ! 0))"

definition IsCoinStake :: "CTransaction \<Rightarrow> bool" where
  "IsCoinStake tx =
     (if vin tx = [] then False
      else if COutPoint_IsNull (prevout (vin tx ! 0)) then False
      else length (vout tx) \<ge> 2 \<and> CTxOut_IsEmpty (vout tx ! 0))"

datatype value_error = ValueNegative | ValueWraps

fun GetValueOut_loop :: "int \<Rightarrow> CTxOut list \<Rightarrow> value_error + int" where
  "GetValueOut_loop nValueOut [] = Inr nValueOut"
| "GetValueOut_loop nValueOut (it # rest) =
     (if nValue it < 0 then Inl ValueNegative
      else if wrap64 (nValueOut + nValue it) < nValueOut then Inl ValueWraps
      else GetValueOut_loop (wrap64 (nValueOut + nValue it)) rest)"

definition GetValueOut :: "CTransaction \<Rightarrow> value_error + int" where
  "GetValueOut tx = GetValueOut_loop 0 (vout tx)"

definition GetTotalSize :: "CTransaction \<Rightarrow> nat" where
  "GetTotalSize tx = length (put_tx tx)"

fun modified_size_loop :: "nat \<Rightarrow> CTxIn list \<Rightarrow> nat" where
  "modified_size_loop nTxSize [] = nTxSize"
| "modified_size_loop nTxSize (it # rest) =
     (let offset = 41 + min 110 (length (scriptSig it))
      in modified_size_loop (if nTxSize > offset then nTxSize - offset else nTxSize) rest)"

definition CalculateModifiedSize :: "CTransaction \<Rightarrow> nat \<Rightarrow> nat" where
  "CalculateModifiedSize tx nTxSize =
     modified_size_loop (if nTxSize = 0 then GetTotalSize tx else nTxSize) (vin tx)"

section \<open>Codecs\<close>

text \<open>Values that fit their C++ types; lengths below the size limit of the stream.\<close>

definition wf_int32 :: "int \<Rightarrow> bool" where "wf_int32 x \<longleftrightarrow> - (2 ^ 31) \<le> x \<and> x < 2 ^ 31"

definition wf_int64 :: "int \<Rightarrow> bool" where "wf_int64 x \<longleftrightarrow> - (2 ^ 63) \<le> x \<and> x < 2 ^ 63"

definition wf_txin :: "CTxIn \<Rightarrow> bool" where
  "wf_txin i \<longleftrightarrow> length (scriptSig i) \<le> unat MAX_SIZE"

definition wf_txout :: "CTxOut \<Rightarrow> bool" where
  "wf_txout out \<longleftrightarrow> wf_int64 (nValue out) \<and> length (scriptPubKey out) \<le> unat MAX_SIZE \<and> nRounds out = - 10"

definition wf_tx :: "CTransaction \<Rightarrow> bool" where
  "wf_tx tx \<longleftrightarrow> wf_int32 (tx_nVersion tx) \<and> length (vin tx) \<le> unat MAX_SIZE \<and> list_all wf_txin (vin tx)
     \<and> length (vout tx) \<le> unat MAX_SIZE \<and> list_all wf_txout (vout tx)"

lemma wrap64_id: "wf_int64 x \<Longrightarrow> wrap64 x = x"
  by (simp add: wf_int64_def wrap64_def)

lemma sint_wf [simp]: "wf_int32 (sint (x32 :: u32))" "wf_int64 (sint (x64 :: u64))"
  using sint_range_size [of x32] sint_range_size [of x64] by (auto simp: wf_int32_def wf_int64_def word_size)

lemma sint_word_of_int:
  "wf_int32 x \<Longrightarrow> sint (word_of_int x :: u32) = x" "wf_int64 y \<Longrightarrow> sint (word_of_int y :: u64) = y"
  by (simp_all add: wf_int32_def wf_int64_def int_word_sint)

interpretation int32: canonical_codec wf_int32 put_int32 get_int32
  by unfold_locales
    (auto simp: put_int32_def get_int32_def ser_get_put sint_word_of_int bind_eq_Some_conv dest: ser32.canon)

interpretation int64: canonical_codec wf_int64 put_int64 get_int64
  by unfold_locales
    (auto simp: put_int64_def get_int64_def ser_get_put sint_word_of_int bind_eq_Some_conv dest: ser64.canon)

interpretation u256: canonical_codec "\<lambda>_. True" put_uint256 get_uint256
proof
  fix h :: uint256 and rest
  have "unat h < 2 ^ 256" using unsigned_less [of h] by simp
  then have "unat h mod 256 ^ 32 = unat h" by simp
  then show "get_uint256 (put_uint256 h @ rest) = Some (h, rest)"
    by (simp add: put_uint256_def get_uint256_def)
next
  fix s h r
  assume "get_uint256 s = Some (h, r)"
  then obtain b where b: "s = b @ r" "length b = 32" "h = of_nat (le_val b)"
    by (auto simp: get_uint256_def bind_eq_Some_conv dest: read_bytes_SomeD)
  then have "unat h = le_val b" using le_val_less [of b] by (simp add: unat_of_nat)
  then show "s = put_uint256 h @ r \<and> True" using b le_bytes_le_val [of b] by (simp add: put_uint256_def)
qed

lemmas field_codecs = ser_get_put int32.get_put int64.get_put u256.get_put blob.get_put

lemmas field_canon = ser32.canon int32.canon int64.canon u256.canon blob.canon

interpretation outpoint: canonical_codec "\<lambda>_. True" put_outpoint get_outpoint
  by unfold_locales
    (auto simp: put_outpoint_def get_outpoint_def field_codecs bind_eq_Some_conv dest!: field_canon)

interpretation txin: canonical_codec wf_txin put_txin get_txin
  by unfold_locales
    (auto simp: put_txin_def get_txin_def wf_txin_def outpoint.get_put field_codecs bind_eq_Some_conv
      dest!: field_canon outpoint.canon)

interpretation txout: canonical_codec wf_txout put_txout get_txout
  by unfold_locales
    (auto simp: put_txout_def get_txout_def wf_txout_def CTxOut_SetNull_def field_codecs bind_eq_Some_conv
      dest!: field_canon)

interpretation txins: canonical_codec "\<lambda>xs. length xs \<le> unat MAX_SIZE \<and> (\<forall>x \<in> set xs. wf_txin x)" "put_vector put_txin" "get_vector get_txin"
  by (rule txin.vector_canonical_codec)

interpretation txouts: canonical_codec "\<lambda>xs. length xs \<le> unat MAX_SIZE \<and> (\<forall>x \<in> set xs. wf_txout x)" "put_vector put_txout" "get_vector get_txout"
  by (rule txout.vector_canonical_codec)

interpretation tx: canonical_codec wf_tx put_tx get_tx
  by unfold_locales
    (auto simp: put_tx_def get_tx_def wf_tx_def list_all_iff txins.get_put txouts.get_put field_codecs bind_eq_Some_conv
      dest!: field_canon txins.canon txouts.canon)

section \<open>Values\<close>

lemma GetValueOut_loop_iff:
  assumes "\<forall>o' \<in> set outs. wf_int64 (nValue o')" "0 \<le> a" "a < 2 ^ 63"
  shows "GetValueOut_loop a outs = Inr v \<longleftrightarrow>
    (\<forall>o' \<in> set outs. 0 \<le> nValue o') \<and> v = a + sum_list (map nValue outs) \<and> v < 2 ^ 63"
  using assms
proof (induction outs arbitrary: a)
  case (Cons x xs)
  have x: "nValue x < 2 ^ 63" using Cons.prems(1) by (simp add: wf_int64_def)
  consider "nValue x < 0" | "0 \<le> nValue x" "a + nValue x < 2 ^ 63" | "0 \<le> nValue x" "2 ^ 63 \<le> a + nValue x" by linarith
  then show ?case
  proof cases
    case 2
    then have "wrap64 (a + nValue x) = a + nValue x" using Cons.prems by (intro wrap64_id) (simp add: wf_int64_def)
    with 2 Cons show ?thesis by auto
  next
    case 3
    have "wrap64 (a + nValue x) = a + nValue x - 2 ^ 64"
      using 3 x Cons.prems unfolding wrap64_def by (simp add: mod_pos_geq)
    then have "wrap64 (a + nValue x) < a" using x by simp
    moreover have "2 ^ 63 \<le> a + (nValue x + sum_list (map nValue xs))" if "\<forall>o' \<in> set xs. 0 \<le> nValue o'"
      using 3 that sum_list_nonneg [of "map nValue xs"] by fastforce
    ultimately show ?thesis using 3 by auto
  qed auto
qed auto

section \<open>Properties\<close>

text \<open>
  C27. Transactions have exactly one encoding.  The deserializer accepts a byte stream as the transaction \<open>tx\<close>
  followed by \<open>rest\<close> if and only if the stream is the serialization of \<open>tx\<close> followed by \<open>rest\<close> and the fields of
  \<open>tx\<close> fit their types: every transaction is read back unchanged, and no second encoding of a transaction (whose
  hash would differ) is ever accepted.
\<close>

theorem tx_encoding_unique:
  "get_tx s = Some (tx, rest) \<longleftrightarrow> s = put_tx tx @ rest \<and> wf_tx tx"
  by (rule tx.get_iff)

text \<open>
  The value of a transaction.  For outputs in the range of \<open>int64_t\<close>, \<open>GetValueOut\<close> returns a value exactly
  when no output is negative and the mathematical sum of the outputs is below \<open>2^63\<close>, and then it returns that sum:
  the wrap-around test catches every overflow.
\<close>

lemma GetValueOut_exact:
  assumes "list_all (\<lambda>out. wf_int64 (nValue out)) (vout tx)"
  shows "GetValueOut tx = Inr v \<longleftrightarrow>
    list_all (\<lambda>out. 0 \<le> nValue out) (vout tx) \<and> v = sum_list (map nValue (vout tx)) \<and> v < 2 ^ 63"
  using assms GetValueOut_loop_iff [of "vout tx" 0 v] by (simp add: GetValueOut_def list_all_iff)

end
