(* ===== verification/StrEncodings.thy ===== *)
theory StrEncodings
  imports Serialize
begin

text \<open>
  Text encodings (\<open>src/src/utilstrencodings.h\<close> and \<open>.cpp\<close>): hexadecimal strings.  A \<open>std::string\<close> is a
  list of characters; reading past its end yields the terminating NUL, which no table accepts.
\<close>

section \<open>Hexadecimal\<close>

definition c_isspace :: "char \<Rightarrow> bool" where
  "c_isspace c \<longleftrightarrow> (let n = of_char c :: nat in n = 32 \<or> (9 \<le> n \<and> n \<le> 13))"

text \<open>\<open>p_util_hexdigit\<close>, as a function on character codes.\<close>

definition HexDigit :: "char \<Rightarrow> int" where
  "HexDigit c =
     (let n = of_char c :: int
      in if 48 \<le> n \<and> n \<le> 57 then n - 48
         else if 65 \<le> n \<and> n \<le> 70 then n - 55
         else if 97 \<le> n \<and> n \<le> 102 then n - 87
         else - 1)"

definition IsHex :: "string \<Rightarrow> bool" where
  "IsHex str \<longleftrightarrow> (\<forall>c \<in> set str. \<not> HexDigit c < 0) \<and> length str > 0 \<and> length str mod 2 = 0"

function ParseHex :: "string \<Rightarrow> bytes" where
  "ParseHex psz =
     (case dropWhile c_isspace psz of
        [] \<Rightarrow> []
      | c1 # rest \<Rightarrow>
          if HexDigit c1 = - 1 then []
          else (case rest of
                  [] \<Rightarrow> []
                | c2 # rest' \<Rightarrow>
                    if HexDigit c2 = - 1 then []
                    else (push_bit 4 (word_of_int (HexDigit c1)) OR word_of_int (HexDigit c2)) # ParseHex rest'))"
  by auto
termination
proof (relation "measure length", goal_cases)
  case (2 psz c1 rest c2 rest')
  then have "length (dropWhile c_isspace psz) = Suc (Suc (length rest'))" by simp
  then show ?case using length_dropWhile_le [of c_isspace psz] by simp
qed simp

definition hexmap :: "nat \<Rightarrow> char" where
  "hexmap i = ''0123456789abcdef'' ! i"

definition HexStr :: "bytes \<Rightarrow> string" where
  "HexStr v = concat (map (\<lambda>val. [hexmap (unat (drop_bit 4 val)), hexmap (unat (val AND 15))]) v)"

declare ParseHex.simps [simp del]

lemma hexmap_digits: "list_all (\<lambda>i. HexDigit (hexmap i) = int i \<and> \<not> c_isspace (hexmap i)) [0..<16]"
  by code_simp

lemma hexmap_digit: "i < 16 \<Longrightarrow> HexDigit (hexmap i) = int i \<and> \<not> c_isspace (hexmap i)"
  using hexmap_digits by (simp add: list_all_iff del: upt_rec_numeral)

lemma unat_nibbles:
  "unat (drop_bit 4 (b :: u8)) = unat b div 16" "unat (b AND 15) = unat b mod 16"
proof -
  show "unat (drop_bit 4 b) = unat b div 16" unfolding unat_drop_bit_eq by (simp add: drop_bit_eq_div)
  have "b AND 15 = take_bit 4 b" by (simp add: take_bit_eq_mask mask_eq_exp_minus_1)
  then show "unat (b AND 15) = unat b mod 16" by (simp only: unsigned_take_bit_eq) (simp add: take_bit_eq_mod)
qed

lemma nibbles_join: "push_bit 4 (of_nat (unat b div 16)) OR of_nat (unat b mod 16) = (b :: u8)"
proof -
  have "unat b div 16 < 256" using unat_u8_less [of b] by (simp add: less_mult_imp_div_less)
  then have hi: "(of_nat (unat b div 16) :: u8) = drop_bit 4 b"
    using unat_nibbles(1) [of b] by (simp add: word_unat_eq_iff unat_of_nat)
  have lo: "(of_nat (unat b mod 16) :: u8) = take_bit 4 b"
    using unat_nibbles(2) [of b] by (simp add: word_unat_eq_iff unat_of_nat take_bit_eq_mask mask_eq_exp_minus_1)
  show ?thesis unfolding hi lo by (rule bit_word_eqI) (auto simp: bit_simps)
qed

lemma ParseHex_Cons:
  "ParseHex (hexmap (unat (drop_bit 4 b)) # hexmap (unat (b AND 15)) # s) = b # ParseHex s"
proof -
  have "unat b div 16 < 16" using unat_u8_less [of b] by (simp add: less_mult_imp_div_less)
  then show ?thesis using hexmap_digit [of "unat b div 16"] hexmap_digit [of "unat b mod 16"]
    by (subst ParseHex.simps) (simp add: unat_nibbles nibbles_join)
qed

lemma ParseHex_HexStr: "ParseHex (HexStr v) = v"
  by (induction v) (simp add: HexStr_def ParseHex.simps, simp add: HexStr_def ParseHex_Cons)

lemma IsHex_HexStr: "IsHex (HexStr v) \<longleftrightarrow> v \<noteq> []"
proof -
  have d: "unat b div 16 < 16" for b :: u8 using unat_u8_less [of b] by (simp add: less_mult_imp_div_less)
  have "\<forall>c \<in> set (HexStr v). \<not> HexDigit c < 0"
    using hexmap_digit d by (auto simp: HexStr_def unat_nibbles)
  moreover have "length (HexStr v) = 2 * length v" by (induction v) (simp_all add: HexStr_def)
  ultimately show ?thesis by (simp add: IsHex_def)
qed

end
