(* ===== verification/Mescal.thy ===== *)
theory Mescal
  imports Script StrEncodings "HOL-Library.List_Lexorder"
begin

text \<open>
  The MESCAL contract language (\<open>src/src/script/mescal.cpp\<close>): the compiler from contract objects to scripts and the
  decompiler from scripts to contract objects.  JSON values are the datatype \<open>univalue\<close> with the accessors the code
  uses (\<open>src/src/univalue/lib/univalue.cpp\<close>); numbers are kept by value.  Parsing the JSON text itself is a
  parameter of \<open>CMescal_Compile\<close>.  Every \<open>errorStr\<close> and every exception caught by the two entry points is a
  constructor of \<open>mescal_error\<close>.
\<close>

section \<open>JSON values\<close>

datatype univalue =
    VNULL
  | VOBJ "(string \<times> univalue) list"
  | VARR "univalue list"
  | VSTR string
  | VNUM int
  | VBOOL bool

fun uv_key :: "univalue \<Rightarrow> string \<Rightarrow> univalue" where
  "uv_key (VOBJ kvs) key = (case map_of kvs key of None \<Rightarrow> VNULL | Some v \<Rightarrow> v)"
| "uv_key _ key = VNULL"

fun uv_index :: "univalue \<Rightarrow> nat \<Rightarrow> univalue" where
  "uv_index (VOBJ kvs) i = (if i \<ge> length kvs then VNULL else snd (kvs ! i))"
| "uv_index (VARR vs) i = (if i \<ge> length vs then VNULL else vs ! i)"
| "uv_index _ i = VNULL"

fun uv_exists :: "univalue \<Rightarrow> string \<Rightarrow> bool" where
  "uv_exists (VOBJ kvs) key \<longleftrightarrow> key \<in> set (map fst kvs)"
| "uv_exists _ key \<longleftrightarrow> False"

fun uv_values :: "univalue \<Rightarrow> univalue list" where
  "uv_values (VOBJ kvs) = map snd kvs"
| "uv_values (VARR vs) = vs"
| "uv_values _ = []"

definition uv_size :: "univalue \<Rightarrow> nat" where
  "uv_size v = length (uv_values v)"

fun uv_isObject :: "univalue \<Rightarrow> bool" where
  "uv_isObject (VOBJ _) = True"
| "uv_isObject _ = False"

fun uv_isArray :: "univalue \<Rightarrow> bool" where
  "uv_isArray (VARR _) = True"
| "uv_isArray _ = False"

datatype mescal_error =
    ParseFailed | NoActiveContract | ActionsNotArray | DepthExceeded | MissingInput string | UnknownRole string
  | BlockNotFound string | ConditionNotFound string | UnknownActionType string
  | MalformedScript | InvalidNumberPush | UnclosedIf | UnsupportedOpcode
  | CaughtException

text \<open>The getters throw \<open>std::runtime_error\<close> on a value of another type or out of range.\<close>

fun get_str :: "univalue \<Rightarrow> mescal_error + string" where
  "get_str (VSTR s) = Inr s"
| "get_str _ = Inl CaughtException"

fun get_int64_uv :: "univalue \<Rightarrow> mescal_error + int" where
  "get_int64_uv (VNUM n) = (if - (2 ^ 63) \<le> n \<and> n < 2 ^ 63 then Inr n else Inl CaughtException)"
| "get_int64_uv _ = Inl CaughtException"

fun get_int_uv :: "univalue \<Rightarrow> mescal_error + int" where
  "get_int_uv (VNUM n) = (if - (2 ^ 31) \<le> n \<and> n < 2 ^ 31 then Inr n else Inl CaughtException)"
| "get_int_uv _ = Inl CaughtException"

fun uv_str_is :: "univalue \<Rightarrow> string \<Rightarrow> bool" where
  "uv_str_is (VSTR s) t \<longleftrightarrow> s = t"
| "uv_str_is _ t \<longleftrightarrow> False"

definition sum_bind :: "'e + 'a \<Rightarrow> ('a \<Rightarrow> 'e + 'b) \<Rightarrow> 'e + 'b" where
  "sum_bind m f = (case m of Inl e \<Rightarrow> Inl e | Inr x \<Rightarrow> f x)"

lemma sum_bind_simps [simp]: "sum_bind (Inl e) f = Inl e" "sum_bind (Inr x) f = f x"
  by (simp_all add: sum_bind_def)

definition input_value :: "univalue \<Rightarrow> nat \<Rightarrow> univalue" where
  "input_value inputs i = uv_key (uv_index inputs i) ''value''"

section \<open>Compiler\<close>

definition IsPubKey :: "bytes \<Rightarrow> bool" where
  "IsPubKey vch \<longleftrightarrow> (length vch = 33 \<and> (vch ! 0 = 0x02 \<or> vch ! 0 = 0x03)) \<or> (length vch = 65 \<and> vch ! 0 = 0x04)"

definition push_scriptnum :: "int \<Rightarrow> bytes" where
  "push_scriptnum n = script_push_data (CScriptNum_serialize n)"

definition string_bytes :: "string \<Rightarrow> bytes" where
  "string_bytes s = map (\<lambda>c. of_char c) s"

definition compile_hash160 :: "univalue \<Rightarrow> univalue \<Rightarrow> mescal_error + bytes" where
  "compile_hash160 blockObj inputs =
     (if uv_size inputs < 1 then Inl (MissingInput ''hash160'')
      else let input = uv_index inputs 0 in
        sum_bind (get_str (uv_key input ''value'')) (\<lambda>valStr.
          let isHtlcEqual = (uv_exists blockObj ''mode'' \<and> uv_str_is (uv_key blockObj ''mode'') ''htlc-equal'')
                \<or> (uv_exists input ''name'' \<and> uv_str_is (uv_key input ''name'') ''hash160'')
                \<or> (uv_exists input ''type'' \<and> uv_str_is (uv_key input ''type'') ''hash160'')
          in if isHtlcEqual \<and> IsHex valStr \<and> length valStr = 40
             then Inr ([OP_HASH160] @ script_push_data (ParseHex valStr) @ [OP_EQUAL])
             else Inr (script_push_data (if IsHex valStr then ParseHex valStr else string_bytes valStr) @ [OP_HASH160])))"

definition compile_checksig :: "univalue \<Rightarrow> univalue \<Rightarrow> mescal_error + bytes" where
  "compile_checksig blockObj inputs =
     (if uv_size inputs < 1 then Inl (MissingInput ''check-signature-verification'')
      else sum_bind (get_str (input_value inputs 0)) (\<lambda>pubkeyHex.
        let useVerify = (if uv_exists blockObj ''verify''
                         then (case uv_key blockObj ''verify'' of VBOOL b \<Rightarrow> b | _ \<Rightarrow> True) else True)
        in Inr (script_push_data (ParseHex pubkeyHex) @ [if useVerify then OP_CHECKSIGVERIFY else OP_CHECKSIG])))"

fun multisig_inputs :: "int \<times> int \<times> univalue \<Rightarrow> univalue list \<Rightarrow> mescal_error + (int \<times> int \<times> univalue)" where
  "multisig_inputs acc [] = Inr acc"
| "multisig_inputs (m, n, sigs) (i # rest) =
     sum_bind (get_str (uv_key i ''name'')) (\<lambda>name.
       if name = ''m'' then sum_bind (get_int_uv (uv_key i ''value'')) (\<lambda>m'. multisig_inputs (m', n, sigs) rest)
       else if name = ''n'' then sum_bind (get_int_uv (uv_key i ''value'')) (\<lambda>n'. multisig_inputs (m, n', sigs) rest)
       else if name = ''Signatures'' then multisig_inputs (m, n, uv_key i ''value'') rest
       else multisig_inputs (m, n, sigs) rest)"

fun push_keys :: "univalue list \<Rightarrow> mescal_error + bytes" where
  "push_keys [] = Inr []"
| "push_keys (s # rest) =
     sum_bind (get_str s) (\<lambda>h. sum_bind (push_keys rest) (\<lambda>r. Inr (script_push_data (ParseHex h) @ r)))"

definition compile_multisig :: "univalue \<Rightarrow> mescal_error + bytes" where
  "compile_multisig inputs =
     sum_bind (multisig_inputs (0, 0, VNULL) (uv_values inputs)) (\<lambda>(m, n, sigs).
       if m \<le> 0 \<or> n \<le> 0 \<or> uv_size sigs = 0 then Inl (MissingInput ''multi-signature'')
       else sum_bind (push_keys (uv_values sigs)) (\<lambda>ks.
         Inr (script_push_int64 m @ ks @ script_push_int64 n @ [OP_CHECKMULTISIG])))"

definition coin_lock_script :: "bytes \<Rightarrow> int \<Rightarrow> bytes \<Rightarrow> bytes" where
  "coin_lock_script pubkey lockTime pubkeyHash =
     script_push_data pubkey @ [OP_DROP] @ push_scriptnum lockTime @ [OP_CHECKLOCKTIMEVERIFY, OP_DROP, OP_DUP, OP_HASH160]
       @ script_push_data pubkeyHash @ [OP_EQUALVERIFY, OP_CHECKSIG]"

definition compile_coin_lock :: "univalue \<Rightarrow> mescal_error + bytes" where
  "compile_coin_lock inputs =
     (if uv_size inputs < 3 then Inl (MissingInput ''coin-lock-miner'')
      else sum_bind (get_str (input_value inputs 0)) (\<lambda>pubkeyHex.
        sum_bind (get_int64_uv (input_value inputs 1)) (\<lambda>lockTime.
        sum_bind (get_str (input_value inputs 2)) (\<lambda>pubkeyHashHex.
          Inr (coin_lock_script (ParseHex pubkeyHex) lockTime (ParseHex pubkeyHashHex))))))"

definition pow_lock_script :: "bytes \<Rightarrow> bytes \<Rightarrow> bytes \<Rightarrow> int \<Rightarrow> bytes \<Rightarrow> bytes" where
  "pow_lock_script nonce challenge pubkey lockTime pubkeyHash =
     script_push_data nonce @ script_push_data challenge @ script_push_data pubkey @ [OP_DROP, OP_DROP, OP_DROP]
       @ push_scriptnum lockTime @ [OP_CHECKLOCKTIMEVERIFY, OP_DROP, OP_DUP, OP_HASH160]
       @ script_push_data pubkeyHash @ [OP_EQUALVERIFY, OP_CHECKSIG]"

definition compile_pow_lock :: "univalue \<Rightarrow> mescal_error + bytes" where
  "compile_pow_lock inputs =
     (if uv_size inputs < 5 then Inl (MissingInput ''pow-miner'')
      else sum_bind (get_str (input_value inputs 0)) (\<lambda>nonceHex.
        sum_bind (get_str (input_value inputs 1)) (\<lambda>challengeHex.
        sum_bind (get_str (input_value inputs 2)) (\<lambda>pubkeyHex.
        sum_bind (get_int64_uv (input_value inputs 3)) (\<lambda>lockTime.
        sum_bind (get_str (input_value inputs 4)) (\<lambda>pubkeyHashHex.
          Inr (pow_lock_script (ParseHex nonceHex) (ParseHex challengeHex) (ParseHex pubkeyHex) lockTime
                 (ParseHex pubkeyHashHex))))))))"

definition CompileBasicBlock :: "univalue \<Rightarrow> mescal_error + bytes" where
  "CompileBasicBlock blockObj =
     sum_bind (get_str (uv_key blockObj ''role'')) (\<lambda>role.
       let inputs = uv_key blockObj ''inputs'' in
       if role = ''hash160'' then compile_hash160 blockObj inputs
       else if role = ''check-signature-verification'' then compile_checksig blockObj inputs
       else if role = ''equalverify-checksig'' then
         if uv_size inputs < 1 then Inl (MissingInput role)
         else sum_bind (get_str (input_value inputs 0)) (\<lambda>h.
           Inr ([OP_DUP, OP_HASH160] @ script_push_data (ParseHex h) @ [OP_EQUALVERIFY, OP_CHECKSIG]))
       else if role = ''number'' then
         if uv_size inputs < 1 then Inl (MissingInput role)
         else sum_bind (get_int64_uv (input_value inputs 0)) (\<lambda>val. Inr (script_push_int64 val))
       else if role = ''multi-signature'' then compile_multisig inputs
       else if role = ''lock-time'' then
         if uv_size inputs < 1 then Inl (MissingInput role)
         else sum_bind (get_int64_uv (input_value inputs 0)) (\<lambda>lockTime.
           Inr (push_scriptnum lockTime @ [OP_CHECKLOCKTIMEVERIFY, OP_DROP]))
       else if role = ''add'' then Inr [OP_ADD]
       else if role = ''sub'' then Inr [OP_SUB]
       else if role = ''bool-and'' then Inr [OP_BOOLAND]
       else if role = ''bool-or'' then Inr [OP_BOOLOR]
       else if role = ''num-equal'' then Inr [OP_NUMEQUAL]
       else if role = ''greater-than'' then Inr [OP_GREATERTHAN]
       else if role = ''drop'' then Inr [OP_DROP]
       else if role = ''coin-lock-miner'' then compile_coin_lock inputs
       else if role = ''pow-miner'' then compile_pow_lock inputs
       else Inl (UnknownRole role))"

fun compile_seq :: "(univalue \<Rightarrow> mescal_error + bytes) \<Rightarrow> univalue list \<Rightarrow> mescal_error + bytes" where
  "compile_seq f [] = Inr []"
| "compile_seq f (a # rest) = sum_bind (f a) (\<lambda>s. sum_bind (compile_seq f rest) (\<lambda>r. Inr (s @ r)))"

text \<open>The expressions of a condition, joined by \<open>OP_BOOLAND\<close>; \<open>i\<close> is the loop counter.\<close>

fun compile_exprs :: "(univalue \<Rightarrow> mescal_error + bytes) \<Rightarrow> nat \<Rightarrow> univalue list \<Rightarrow> mescal_error + bytes" where
  "compile_exprs f i [] = Inr []"
| "compile_exprs f i (a # rest) =
     sum_bind (f a) (\<lambda>s. sum_bind (compile_exprs f (i + 1) rest) (\<lambda>r. Inr (s @ (if i > 0 then [OP_BOOLAND] else []) @ r)))"

text \<open>The body of \<open>CompileCondition\<close>, with the recursive calls at the next depth as an argument.\<close>

definition condition_body :: "(univalue \<Rightarrow> mescal_error + bytes) \<Rightarrow> univalue \<Rightarrow> mescal_error + bytes" where
  "condition_body compile condObj =
     sum_bind (compile_exprs compile 0 (uv_values (uv_key condObj ''expressions''))) (\<lambda>es.
     sum_bind (compile_seq compile (uv_values (uv_key condObj ''true''))) (\<lambda>ts.
     sum_bind (let falseBranch = uv_key condObj ''false''
               in if uv_size falseBranch > 0
                  then sum_bind (compile_seq compile (uv_values falseBranch)) (\<lambda>fs. Inr (OP_ELSE # fs))
                  else Inr []) (\<lambda>fs.
       Inr (es @ [OP_IF] @ ts @ fs @ [OP_ENDIF]))))"

text \<open>
  \<open>CompileAction\<close> and \<open>CompileCondition\<close> call each other with growing depth and stop beyond 32; the first argument
  is what is left of it, \<open>33 - depth\<close>.
\<close>

fun CompileAction :: "nat \<Rightarrow> (string \<rightharpoonup> univalue) \<Rightarrow> (string \<rightharpoonup> univalue) \<Rightarrow> univalue \<Rightarrow> mescal_error + bytes"
and CompileCondition :: "nat \<Rightarrow> (string \<rightharpoonup> univalue) \<Rightarrow> (string \<rightharpoonup> univalue) \<Rightarrow> univalue \<Rightarrow> mescal_error + bytes" where
  "CompileAction 0 basicBlocks conditions action = Inl DepthExceeded"
| "CompileAction (Suc k) basicBlocks conditions action =
     sum_bind (get_str (uv_key action ''type'')) (\<lambda>type.
     sum_bind (get_str (uv_key action ''name'')) (\<lambda>name.
       if type = ''basic''
       then (case basicBlocks name of
               Some block \<Rightarrow> CompileBasicBlock block
             | None \<Rightarrow> if uv_exists action ''role'' then CompileBasicBlock action else Inl (BlockNotFound name))
       else if type = ''condition''
       then (case conditions name of
               Some cond \<Rightarrow> CompileCondition k basicBlocks conditions cond
             | None \<Rightarrow>
                 if uv_exists action ''role''
                 then sum_bind (get_str (uv_key action ''role'')) (\<lambda>role.
                        if role = ''if-condition'' then CompileCondition k basicBlocks conditions action
                        else Inl (ConditionNotFound name))
                 else Inl (ConditionNotFound name))
       else Inl (UnknownActionType type)))"
| "CompileCondition 0 basicBlocks conditions condObj = Inl DepthExceeded"
| "CompileCondition (Suc k) basicBlocks conditions condObj =
     condition_body (CompileAction k basicBlocks conditions) condObj"

text \<open>Symbol tables: later definitions of a key do not exist, \<open>operator[]\<close> finds the first.\<close>

definition symbol_table :: "univalue \<Rightarrow> string \<Rightarrow> (string \<rightharpoonup> univalue)" where
  "symbol_table root key =
     (case uv_key root key of VOBJ kvs \<Rightarrow> map_of kvs | _ \<Rightarrow> Map.empty)"

definition CompileContract :: "univalue \<Rightarrow> univalue \<Rightarrow> mescal_error + bytes" where
  "CompileContract root targetContract =
     (let actions = uv_key targetContract ''actions''
      in if \<not> uv_isArray actions then Inl ActionsNotArray
         else compile_seq (CompileAction 33 (symbol_table root ''basic'') (symbol_table root ''condition'')) (uv_values actions))"

text \<open>The first key of \<open>std::map\<close> is the least one.\<close>

definition first_contract :: "univalue \<Rightarrow> string" where
  "first_contract root =
     (case uv_key root ''contract'' of
        VOBJ kvs \<Rightarrow> (case sort_key (\<lambda>k. map (of_char :: char \<Rightarrow> nat) k) (map fst kvs) of [] \<Rightarrow> '''' | k # _ \<Rightarrow> k)
      | _ \<Rightarrow> '''')"

definition CMescal_Compile :: "(string \<Rightarrow> univalue option) \<Rightarrow> string \<Rightarrow> mescal_error + bytes" where
  "CMescal_Compile read jsonStr =
     (case read jsonStr of
        None \<Rightarrow> Inl ParseFailed
      | Some root \<Rightarrow>
          if uv_exists root ''type'' \<and> uv_str_is (uv_key root ''type'') ''contract'' then CompileContract root root
          else let active = (case uv_key root ''active_contract'' of VSTR s \<Rightarrow> s | _ \<Rightarrow> first_contract root)
               in if active = '''' then Inl NoActiveContract
                  else (case symbol_table root ''contract'' active of
                          None \<Rightarrow> Inl NoActiveContract
                        | Some target \<Rightarrow> CompileContract root target))"

section \<open>Decompiler\<close>

text \<open>\<open>std::to_string\<close> of a counter.\<close>

fun to_string :: "nat \<Rightarrow> string" where
  "to_string n = (if n < 10 then [char_of (48 + n)] else to_string (n div 10) @ [char_of (48 + n mod 10)])"

declare to_string.simps [simp del]

definition basic_block :: "string \<Rightarrow> nat \<Rightarrow> string \<Rightarrow> (string \<times> univalue) list \<Rightarrow> univalue" where
  "basic_block prefix basicCount role more =
     VOBJ ([(''type'', VSTR ''basic''), (''name'', VSTR (prefix @ to_string basicCount)), (''role'', VSTR role)] @ more)"

definition block_input :: "string \<Rightarrow> string \<Rightarrow> univalue \<Rightarrow> univalue" where
  "block_input type name v = VOBJ [(''type'', VSTR type), (''name'', VSTR name), (''value'', v)]"

text \<open>\<open>MatchPattern\<close>: \<open>OP_PUSHDATA4\<close> in a pattern stands for any data push.\<close>

fun MatchPattern :: "u8 list \<Rightarrow> bytes \<Rightarrow> (bytes list \<times> bytes) option" where
  "MatchPattern [] pc = Some ([], pc)"
| "MatchPattern (expected # pattern) pc =
     (case GetOp pc of
        None \<Rightarrow> None
      | Some (op, data, pc') \<Rightarrow>
          if expected = OP_PUSHDATA4
          then if \<not> op \<le> OP_PUSHDATA4 then None
               else (case MatchPattern pattern pc' of None \<Rightarrow> None | Some (ps, r) \<Rightarrow> Some (data # ps, r))
          else if op \<noteq> expected then None
          else MatchPattern pattern pc')"

definition coin_lock_pattern :: "u8 list" where
  "coin_lock_pattern = [OP_PUSHDATA4, OP_DROP, OP_PUSHDATA4, OP_CHECKLOCKTIMEVERIFY, OP_DROP, OP_DUP, OP_HASH160,
     OP_PUSHDATA4, OP_EQUALVERIFY, OP_CHECKSIG]"

definition pow_lock_pattern :: "u8 list" where
  "pow_lock_pattern = [OP_PUSHDATA4, OP_PUSHDATA4, OP_PUSHDATA4, OP_DROP, OP_DROP, OP_DROP, OP_PUSHDATA4,
     OP_CHECKLOCKTIMEVERIFY, OP_DROP, OP_DUP, OP_HASH160, OP_PUSHDATA4, OP_EQUALVERIFY, OP_CHECKSIG]"

definition coin_lock_block :: "nat \<Rightarrow> bytes \<Rightarrow> int \<Rightarrow> bytes \<Rightarrow> univalue" where
  "coin_lock_block basicCount pubkey lockTime pubkeyHash =
     basic_block ''coin-lock-miner-'' basicCount ''coin-lock-miner''
       [(''inputs'', VARR [block_input ''pubkey'' ''Pubkey'' (VSTR (HexStr pubkey)),
          block_input ''timestamp-or-block-height'' ''Lock-Until'' (VNUM lockTime),
          block_input ''pubkeyhash'' ''PubkeyHash'' (VSTR (HexStr pubkeyHash))])]"

definition pow_lock_block :: "nat \<Rightarrow> bytes \<Rightarrow> bytes \<Rightarrow> bytes \<Rightarrow> int \<Rightarrow> bytes \<Rightarrow> univalue" where
  "pow_lock_block basicCount nonce challenge pubkey lockTime pubkeyHash =
     basic_block ''pow-miner-'' basicCount ''pow-miner''
       [(''inputs'', VARR [block_input ''nonce'' ''Nonce'' (VSTR (HexStr nonce)),
          block_input ''challenge'' ''Challenge'' (VSTR (HexStr challenge)),
          block_input ''pubkey'' ''Pubkey'' (VSTR (HexStr pubkey)),
          block_input ''timestamp-or-block-height'' ''Lock-Until'' (VNUM lockTime),
          block_input ''pubkeyhash'' ''PubkeyHash'' (VSTR (HexStr pubkeyHash))])]"

definition DecodeScriptInt :: "u8 \<Rightarrow> bytes \<Rightarrow> int option" where
  "DecodeScriptInt op data =
     (if op = OP_0 then Some 0
      else if op \<ge> OP_1 \<and> op \<le> OP_16 then DecodeOP_N op
      else if op > 0 \<and> op \<le> OP_PUSHDATA4 \<and> data \<noteq> [] \<and> length data \<le> 4
      then (case CScriptNum_of_vch data True 4 of Inl _ \<Rightarrow> None | Inr n \<Rightarrow> Some (CScriptNum_getint n))
      else None)"

text \<open>The public keys of a multi-signature block, and the instruction that ends them.\<close>

function collect_keys :: "bytes \<Rightarrow> bytes list \<times> (u8 \<times> bytes \<times> bytes) option" where
  "collect_keys pc =
     (case GetOp pc of
        None \<Rightarrow> ([], None)
      | Some (opNext, dataNext, pc') \<Rightarrow>
          if opNext > 0 \<and> opNext \<le> OP_PUSHDATA4 \<and> IsPubKey dataNext
          then (case collect_keys pc' of (ks, e) \<Rightarrow> (dataNext # ks, e))
          else ([], Some (opNext, dataNext, pc')))"
  by auto
termination
  by (relation "measure length") (auto dest: GetOp_shorter)

declare collect_keys.simps [simp del]

definition multisig_block :: "nat \<Rightarrow> int \<Rightarrow> int \<Rightarrow> bytes list \<Rightarrow> univalue" where
  "multisig_block basicCount mVal nVal keys =
     basic_block ''multi-sig-'' basicCount ''multi-signature''
       [(''inputs'', VARR [VOBJ [(''name'', VSTR ''m''), (''type'', VSTR ''number''), (''value'', VNUM mVal)],
          VOBJ [(''name'', VSTR ''n''), (''type'', VSTR ''number''), (''value'', VNUM nVal)],
          VOBJ [(''name'', VSTR ''Signatures''), (''type'', VSTR ''array''),
                (''value'', VARR (map (\<lambda>k. VSTR (HexStr k)) keys))]])]"

definition MatchMultisigBlock :: "nat \<Rightarrow> bytes \<Rightarrow> (univalue \<times> bytes) option" where
  "MatchMultisigBlock basicCount pc =
     (case GetOp pc of
        None \<Rightarrow> None
      | Some (opM, dataM, pc1) \<Rightarrow>
          (case DecodeScriptInt opM dataM of
             None \<Rightarrow> None
           | Some mVal \<Rightarrow>
               if \<not> (mVal > 0 \<and> mVal \<le> 20) then None
               else (case collect_keys pc1 of
                       (keys, None) \<Rightarrow> None
                     | (keys, Some (opNext, dataNext, pc2)) \<Rightarrow>
                         if keys = [] then None
                         else (case DecodeScriptInt opNext dataNext of
                                 None \<Rightarrow> None
                               | Some nVal \<Rightarrow>
                                   if \<not> (nVal = int (length keys) \<and> mVal \<le> nVal) then None
                                   else (case GetOp pc2 of
                                           None \<Rightarrow> None
                                         | Some (opCheck, _, pc3) \<Rightarrow>
                                             if opCheck = OP_CHECKMULTISIG
                                             then Some (multisig_block basicCount mVal nVal keys, pc3) else None)))))"

text \<open>
  One iteration of the loop: an error, a block to push with the rest of the script, or \<open>OP_IF\<close> with the rest.
\<close>

datatype decompile_step = StepError mescal_error | StepBlock univalue bytes | StepIf bytes

definition with_number :: "bytes \<Rightarrow> (int \<Rightarrow> decompile_step) \<Rightarrow> decompile_step" where
  "with_number vch f = (case CScriptNum_of_vch vch True 4 of Inl _ \<Rightarrow> StepError CaughtException | Inr n \<Rightarrow> f n)"

definition or_else :: "'a option \<Rightarrow> 'a option \<Rightarrow> 'a option" where
  "or_else a b = (case a of None \<Rightarrow> b | Some x \<Rightarrow> Some x)"

definition match_registration :: "nat \<Rightarrow> bytes \<Rightarrow> decompile_step option" where
  "match_registration basicCount pc =
     (case MatchPattern coin_lock_pattern pc of
        Some (pushes, pc') \<Rightarrow>
          if IsPubKey (pushes ! 0)
          then Some (with_number (pushes ! 1) (\<lambda>n. StepBlock (coin_lock_block basicCount (pushes ! 0) n (pushes ! 2)) pc'))
          else None
      | None \<Rightarrow> None)"

definition match_pow_registration :: "nat \<Rightarrow> bytes \<Rightarrow> decompile_step option" where
  "match_pow_registration basicCount pc =
     (case MatchPattern pow_lock_pattern pc of
        Some (pushes, pc') \<Rightarrow>
          if IsPubKey (pushes ! 2)
          then Some (with_number (pushes ! 3) (\<lambda>n.
                 StepBlock (pow_lock_block basicCount (pushes ! 0) (pushes ! 1) (pushes ! 2) n (pushes ! 4)) pc'))
          else None
      | None \<Rightarrow> None)"

definition match_locktime :: "nat \<Rightarrow> bytes \<Rightarrow> decompile_step option" where
  "match_locktime basicCount pc =
     (case MatchPattern [OP_PUSHDATA4, OP_CHECKLOCKTIMEVERIFY, OP_DROP] pc of
        Some (pushes, pc') \<Rightarrow>
          Some (with_number (pushes ! 0) (\<lambda>n. StepBlock (basic_block ''lock-time-'' basicCount ''lock-time''
            [(''inputs'', VARR [block_input ''timestamp-or-block-height'' ''Lock-Until'' (VNUM n)])]) pc'))
      | None \<Rightarrow> None)"

definition match_pubkeyhash :: "nat \<Rightarrow> bytes \<Rightarrow> decompile_step option" where
  "match_pubkeyhash basicCount pc =
     (case MatchPattern [OP_DUP, OP_HASH160, OP_PUSHDATA4, OP_EQUALVERIFY, OP_CHECKSIG] pc of
        Some (pushes, pc') \<Rightarrow>
          Some (StepBlock (basic_block ''equalverify-checksig-'' basicCount ''equalverify-checksig''
            [(''inputs'', VARR [block_input ''pubkeyhash'' ''PubkeyHash'' (VSTR (HexStr (pushes ! 0)))])]) pc')
      | None \<Rightarrow> None)"

definition checksig_block :: "string \<Rightarrow> nat \<Rightarrow> bool \<Rightarrow> bytes \<Rightarrow> univalue" where
  "checksig_block prefix basicCount verify pubkey =
     basic_block prefix basicCount ''check-signature-verification''
       [(''verify'', VBOOL verify), (''inputs'', VARR [block_input ''pubkey'' ''Pubkey'' (VSTR (HexStr pubkey))])]"

definition match_checksig :: "nat \<Rightarrow> bytes \<Rightarrow> decompile_step option" where
  "match_checksig basicCount pc =
     or_else
       (case MatchPattern [OP_PUSHDATA4, OP_CHECKSIGVERIFY] pc of
          Some (pushes, pc') \<Rightarrow>
            if IsPubKey (pushes ! 0) then Some (StepBlock (checksig_block ''check-sig-verify-'' basicCount True (pushes ! 0)) pc')
            else None
        | None \<Rightarrow> None)
       (case MatchPattern [OP_PUSHDATA4, OP_CHECKSIG] pc of
          Some (pushes, pc') \<Rightarrow>
            if IsPubKey (pushes ! 0) then Some (StepBlock (checksig_block ''check-sig-'' basicCount False (pushes ! 0)) pc')
            else None
        | None \<Rightarrow> None)"

definition match_hash160 :: "nat \<Rightarrow> bytes \<Rightarrow> decompile_step option" where
  "match_hash160 basicCount pc =
     or_else
       (case MatchPattern [OP_HASH160, OP_PUSHDATA4, OP_EQUAL] pc of
          Some (pushes, pc') \<Rightarrow>
            if length (pushes ! 0) = 20
            then Some (StepBlock (basic_block ''hash160-'' basicCount ''hash160''
                   [(''mode'', VSTR ''htlc-equal''),
                    (''inputs'', VARR [block_input ''hash160'' ''hash160'' (VSTR (HexStr (pushes ! 0)))])]) pc')
            else None
        | None \<Rightarrow> None)
       (case MatchPattern [OP_PUSHDATA4, OP_HASH160] pc of
          Some (pushes, pc') \<Rightarrow>
            Some (StepBlock (basic_block ''hash160-'' basicCount ''hash160''
              [(''inputs'', VARR [block_input ''string-or-number'' ''String-or-Number-to-Hash''
                  (VSTR (HexStr (pushes ! 0)))])]) pc')
        | None \<Rightarrow> None)"

definition number_block :: "nat \<Rightarrow> int \<Rightarrow> univalue" where
  "number_block basicCount n =
     basic_block ''number-'' basicCount ''number'' [(''inputs'', VARR [block_input ''number'' ''Number'' (VNUM n)])]"

definition generic_step :: "nat \<Rightarrow> bytes \<Rightarrow> decompile_step" where
  "generic_step basicCount pc =
     (case GetOp pc of
        None \<Rightarrow> StepError MalformedScript
      | Some (opcode, vch, pc') \<Rightarrow>
          if opcode \<le> OP_PUSHDATA4
          then (case CScriptNum_of_vch vch True 4 of
                  Inl _ \<Rightarrow> StepError InvalidNumberPush
                | Inr n \<Rightarrow> StepBlock (number_block basicCount n) pc')
          else if opcode = OP_1NEGATE \<or> (opcode \<ge> OP_1 \<and> opcode \<le> OP_16)
          then StepBlock (number_block basicCount
                 (if opcode = OP_1NEGATE then - 1 else the (DecodeOP_N opcode))) pc'
          else if opcode = OP_ADD then StepBlock (basic_block ''add-'' basicCount ''add'' []) pc'
          else if opcode = OP_SUB then StepBlock (basic_block ''sub-'' basicCount ''sub'' []) pc'
          else if opcode = OP_BOOLAND then StepBlock (basic_block ''bool-and-'' basicCount ''bool-and'' []) pc'
          else if opcode = OP_BOOLOR then StepBlock (basic_block ''bool-or-'' basicCount ''bool-or'' []) pc'
          else if opcode = OP_NUMEQUAL then StepBlock (basic_block ''num-equal-'' basicCount ''num-equal'' []) pc'
          else if opcode = OP_DROP then StepBlock (basic_block ''drop-'' basicCount ''drop'' []) pc'
          else if opcode = OP_GREATERTHAN then StepBlock (basic_block ''greater-than-'' basicCount ''greater-than'' []) pc'
          else if opcode = OP_IF then StepIf pc'
          else StepError UnsupportedOpcode)"

definition decompile_iteration :: "nat \<Rightarrow> bytes \<Rightarrow> decompile_step" where
  "decompile_iteration basicCount pc =
     (case or_else (match_registration basicCount pc)
          (or_else (match_pow_registration basicCount pc)
          (or_else (map_option (\<lambda>(b, pc'). StepBlock b pc') (MatchMultisigBlock basicCount pc))
          (or_else (match_locktime basicCount pc)
          (or_else (match_pubkeyhash basicCount pc)
          (or_else (match_checksig basicCount pc)
                   (match_hash160 basicCount pc)))))) of
        Some st \<Rightarrow> st
      | None \<Rightarrow> generic_step basicCount pc)"

text \<open>Every iteration consumes part of the script.\<close>

fun step_rest :: "decompile_step \<Rightarrow> bytes option" where
  "step_rest (StepError e) = None"
| "step_rest (StepBlock b pc) = Some pc"
| "step_rest (StepIf pc) = Some pc"

lemma MatchPattern_shorter: "MatchPattern ps pc = Some (d, pc') \<Longrightarrow> length pc' \<le> length pc \<and> (ps \<noteq> [] \<longrightarrow> length pc' < length pc)"
proof (induction ps arbitrary: pc d)
  case (Cons p ps)
  then show ?case
    by (fastforce dest: GetOp_shorter split: option.splits if_splits prod.splits)
qed simp

lemma collect_keys_shorter:
  "collect_keys pc = (ks, Some (op, d, pc')) \<Longrightarrow> length pc' < length pc"
proof (induction pc arbitrary: ks rule: collect_keys.induct)
  case (1 pc)
  show ?case
  proof (cases "GetOp pc")
    case None
    with 1(2) show ?thesis by (simp add: collect_keys.simps)
  next
    case (Some t)
    obtain opn dn pcn where t: "t = (opn, dn, pcn)" by (cases t)
    have sh: "length pcn < length pc" using Some t GetOp_shorter by simp
    show ?thesis
    proof (cases "opn > 0 \<and> opn \<le> OP_PUSHDATA4 \<and> IsPubKey dn")
      case True
      obtain ks' e where c: "collect_keys pcn = (ks', e)" by fastforce
      with 1(2) Some t True have "e = Some (op, d, pc')" by (subst (asm) collect_keys.simps) simp
      with 1(1) [OF Some t [symmetric] refl True] c sh show ?thesis by fastforce
    next
      case False
      with 1(2) Some t sh show ?thesis by (subst (asm) collect_keys.simps) auto
    qed
  qed
qed

lemma MatchMultisigBlock_shorter: "MatchMultisigBlock n pc = Some (b, pc') \<Longrightarrow> length pc' < length pc"
  unfolding MatchMultisigBlock_def
  by (auto split: option.splits if_splits prod.splits dest!: GetOp_shorter collect_keys_shorter)

lemma step_rest_with_number: "step_rest (with_number v f) = Some r \<Longrightarrow> \<exists>n. step_rest (f n) = Some r"
  by (auto simp: with_number_def split: sum.splits)

declare MatchPattern.simps [simp del]

lemma pattern_not_Nil: "coin_lock_pattern \<noteq> []" "pow_lock_pattern \<noteq> []"
  by (simp_all add: coin_lock_pattern_def pow_lock_pattern_def)

lemma MatchPattern_strict: "MatchPattern ps pc = Some (d, pc') \<Longrightarrow> ps \<noteq> [] \<Longrightarrow> length pc' < length pc"
  using MatchPattern_shorter by blast

lemma matchers_shorter:
  "match_registration n pc = Some st \<Longrightarrow> step_rest st = Some r \<Longrightarrow> length r < length pc"
  "match_pow_registration n pc = Some st \<Longrightarrow> step_rest st = Some r \<Longrightarrow> length r < length pc"
  "match_locktime n pc = Some st \<Longrightarrow> step_rest st = Some r \<Longrightarrow> length r < length pc"
  "match_pubkeyhash n pc = Some st \<Longrightarrow> step_rest st = Some r \<Longrightarrow> length r < length pc"
  "match_checksig n pc = Some st \<Longrightarrow> step_rest st = Some r \<Longrightarrow> length r < length pc"
  "match_hash160 n pc = Some st \<Longrightarrow> step_rest st = Some r \<Longrightarrow> length r < length pc"
  unfolding match_registration_def match_pow_registration_def match_locktime_def match_pubkeyhash_def
    match_checksig_def match_hash160_def or_else_def
  by (auto simp: pattern_not_Nil split: option.splits if_splits prod.splits
      dest!: step_rest_with_number MatchPattern_strict)

lemma generic_step_shorter: "step_rest (generic_step n pc) = Some r \<Longrightarrow> length r < length pc"
  by (auto simp: generic_step_def split: option.splits if_splits sum.splits dest: GetOp_shorter)

lemma decompile_iteration_shorter: "step_rest (decompile_iteration n pc) = Some r \<Longrightarrow> length r < length pc"
  unfolding decompile_iteration_def or_else_def
  by (auto split: option.splits dest: matchers_shorter generic_step_shorter MatchMultisigBlock_shorter)

section \<open>Conditions and the main loop\<close>

text \<open>
  Stacks have their top first.  \<open>if_exprs\<close> is the loop that collects the expressions before \<open>OP_IF\<close>; its first
  argument is \<open>exprList\<close> with its last element first, which is the order after \<open>std::reverse\<close>.
\<close>

definition has_role :: "univalue \<Rightarrow> string \<Rightarrow> bool" where
  "has_role v role \<longleftrightarrow> uv_isObject v \<and> uv_exists v ''role'' \<and> uv_str_is (uv_key v ''role'') role"

function if_exprs :: "univalue list \<Rightarrow> univalue list \<Rightarrow> univalue list \<times> univalue list" where
  "if_exprs exprList stack =
     (if length stack \<ge> 2 \<and> has_role (hd exprList) ''bool-and''
      then let ex = hd stack # tl exprList; st = tl stack
           in if st \<noteq> [] \<and> uv_isObject (hd st) \<and> uv_exists (hd st) ''role'' \<and> \<not> uv_str_is (uv_key (hd st) ''role'') ''bool-and''
              then if_exprs (hd st # ex) (tl st)
              else if_exprs ex st
      else (exprList, stack))"
  by auto
termination
  by (relation "measure (\<lambda>(ex, st). length st)") auto

definition true_expr :: univalue where
  "true_expr = VOBJ [(''type'', VSTR ''basic''), (''name'', VSTR ''true''), (''role'', VSTR ''number''),
     (''inputs'', VARR [VOBJ [(''value'', VNUM 1)]])]"

definition collect_exprs :: "univalue list \<Rightarrow> univalue list \<times> univalue list" where
  "collect_exprs stack = (if stack \<noteq> [] then if_exprs [hd stack] (tl stack) else ([true_expr], []))"

text \<open>
  The search for the matching \<open>OP_ELSE\<close> and \<open>OP_ENDIF\<close>: the branches, the rest of the script and the
  remaining nesting depth.
\<close>

function split_if :: "nat \<Rightarrow> nat \<Rightarrow> bool \<Rightarrow> bytes \<Rightarrow> bytes \<Rightarrow> bytes \<Rightarrow> mescal_error + (bytes \<times> bytes \<times> bytes \<times> nat)" where
  "split_if depth ifDepth inFalse trueScript falseScript pc =
     (case GetOp pc of
        None \<Rightarrow> Inr (trueScript, falseScript, pc, ifDepth)
      | Some (innerOp, _, pc') \<Rightarrow>
          if innerOp = OP_IF \<and> depth + (ifDepth + 1) > 32 then Inl DepthExceeded
          else if innerOp = OP_ENDIF \<and> ifDepth - 1 = 0 then Inr (trueScript, falseScript, pc', 0)
          else if innerOp = OP_ELSE \<and> ifDepth = 1 then split_if depth ifDepth True trueScript falseScript pc'
          else let d = if innerOp = OP_IF then ifDepth + 1 else if innerOp = OP_ENDIF then ifDepth - 1 else ifDepth;
                   instr = take (length pc - length pc') pc
               in if inFalse then split_if depth d inFalse trueScript (falseScript @ instr) pc'
                  else split_if depth d inFalse (trueScript @ instr) falseScript pc')"
  by auto
termination
  by (relation "measure (\<lambda>(depth, d, b, t, f, pc). length pc)") (auto dest: GetOp_shorter)

declare if_exprs.simps [simp del] split_if.simps [simp del]

lemma split_if_shorter: "split_if depth d b t f pc = Inr (t', f', pc', d') \<Longrightarrow> length pc' \<le> length pc"
proof (induction "length pc" arbitrary: d b t f pc rule: less_induct)
  case less
  show ?case
  proof (cases "GetOp pc")
    case None
    with less.prems show ?thesis by (simp add: split_if.simps)
  next
    case (Some x)
    obtain op da pcn where x: "x = (op, da, pcn)" by (cases x)
    have sh: "length pcn < length pc" using Some x GetOp_shorter by simp
    have "pc' = pcn \<or> (\<exists>d b t f. split_if depth d b t f pcn = Inr (t', f', pc', d'))"
      using less.prems Some x by (subst (asm) split_if.simps) (auto simp: Let_def split: if_splits)
    then show ?thesis using less.hyps [OF sh] sh by fastforce
  qed
qed

lemma decompile_block_shorter: "decompile_iteration n pc = StepBlock b pc' \<Longrightarrow> length pc' < length pc"
  using decompile_iteration_shorter [of n pc pc'] by simp

lemma decompile_loop_shorter:
  "decompile_iteration n pc = StepIf pc' \<Longrightarrow> split_if depth 1 False [] [] pc' = Inr (t, f, pc'', d) \<Longrightarrow> length pc'' < length pc"
  using decompile_iteration_shorter [of n pc pc'] split_if_shorter [of depth 1 False "[]" "[]" pc' t f pc'' d] by simp

definition condition_block :: "nat \<Rightarrow> univalue list \<Rightarrow> univalue list \<Rightarrow> univalue list option \<Rightarrow> univalue" where
  "condition_block condCount exprList trueActions falseActions =
     VOBJ ([(''type'', VSTR ''condition''), (''name'', VSTR (''if-condition-'' @ to_string condCount)),
            (''role'', VSTR ''if-condition''), (''expressions'', VARR exprList), (''true'', VARR trueActions)]
           @ (case falseActions of None \<Rightarrow> [] | Some fs \<Rightarrow> [(''false'', VARR fs)]))"

text \<open>
  The loop of \<open>Decompile\<close>, returning the actions.  A branch is decompiled one level deeper; beyond level 32 the call
  returns the depth error.
\<close>

function Decompile_loop :: "nat \<Rightarrow> univalue list \<Rightarrow> nat \<Rightarrow> nat \<Rightarrow> bytes \<Rightarrow> mescal_error + univalue list" where
  "Decompile_loop depth stack basicCount condCount pc =
     (if pc = [] then Inr (rev stack)
      else case decompile_iteration basicCount pc of
        StepError e \<Rightarrow> Inl e
      | StepBlock block pc' \<Rightarrow> Decompile_loop depth (block # stack) (basicCount + 1) condCount pc'
      | StepIf pc' \<Rightarrow>
          (case collect_exprs stack of (exprList, stack') \<Rightarrow>
            (case split_if depth 1 False [] [] pc' of
               Inl e \<Rightarrow> Inl e
             | Inr (trueScript, falseScript, pc'', ifDepth) \<Rightarrow>
                 if ifDepth \<noteq> 0 then Inl UnclosedIf
                 else (case (if depth + 1 > 32 then Inl DepthExceeded else Decompile_loop (depth + 1) [] 0 0 trueScript) of
                         Inl e \<Rightarrow> Inl e
                       | Inr trueActions \<Rightarrow>
                           if length falseScript > 0
                           then (case (if depth + 1 > 32 then Inl DepthExceeded
                                       else Decompile_loop (depth + 1) [] 0 0 falseScript) of
                                   Inl e \<Rightarrow> Inl e
                                 | Inr falseActions \<Rightarrow>
                                     Decompile_loop depth
                                       (condition_block condCount exprList trueActions (Some falseActions) # stack')
                                       basicCount (condCount + 1) pc'')
                           else Decompile_loop depth
                                  (condition_block condCount exprList trueActions None # stack')
                                  basicCount (condCount + 1) pc''))))"
  by pat_completeness auto
termination
proof (relation "measures [\<lambda>(depth, st, b, c, pc). 33 - depth, \<lambda>(depth, st, b, c, pc). length pc]", goal_cases)
  case 2
  then show ?case using decompile_block_shorter by simp
next
  case 5
  then show ?case by (auto dest: decompile_loop_shorter [unfolded One_nat_def])
next
  case 6
  then show ?case by (auto dest: decompile_loop_shorter [unfolded One_nat_def])
qed auto

declare Decompile_loop.simps [simp del]

definition Decompile :: "bytes \<Rightarrow> mescal_error + univalue" where
  "Decompile script =
     (case Decompile_loop 0 [] 0 0 script of
        Inl e \<Rightarrow> Inl e
      | Inr actions \<Rightarrow> Inr (VOBJ [(''type'', VSTR ''contract''), (''name'', VSTR ''Decompiled-Contract''),
                                   (''actions'', VARR actions)]))"

section \<open>Matching compiled scripts\<close>

lemma GetOp_opcode: "\<not> op \<le> OP_PUSHDATA4 \<Longrightarrow> GetOp (op # r) = Some (op, [], r)"
  by (simp add: GetOp_def GetOp2_def)

lemma MatchPattern_push:
  assumes "length b < 2 ^ 32"
  shows "MatchPattern (OP_PUSHDATA4 # ps) (script_push_data b @ r) =
    (case MatchPattern ps r of None \<Rightarrow> None | Some (ds, q) \<Rightarrow> Some (b # ds, q))"
  using GetOp_push_data [OF assms, of r] by (auto simp: MatchPattern.simps)

lemma MatchPattern_opcode:
  "\<not> op \<le> OP_PUSHDATA4 \<Longrightarrow> MatchPattern (op # ps) (op # r) = MatchPattern ps r"
  by (auto simp: MatchPattern.simps GetOp_opcode)

lemma MatchPattern_mismatch:
  assumes "length b < 2 ^ 32" "\<not> op \<le> OP_PUSHDATA4"
  shows "MatchPattern (op # ps) (script_push_data b @ r) = None"
  using GetOp_push_data [OF assms(1), of r] assms(2) by (auto simp: MatchPattern.simps)

lemma MatchPattern_Nil: "MatchPattern [] r = Some ([], r)"
  by (simp add: MatchPattern.simps)

lemmas match_compiled = MatchPattern_push MatchPattern_opcode MatchPattern_mismatch MatchPattern_Nil

lemma CScriptNum_of_serialize: "length (CScriptNum_serialize n) \<le> 4 \<Longrightarrow> CScriptNum_of_vch (CScriptNum_serialize n) True 4 = Inr n"
proof (cases "n = 0")
  case True
  then show ?thesis by (simp add: CScriptNum_serialize_def CScriptNum_of_vch_def CScriptNum_set_vch_def)
next
  case False
  assume "length (CScriptNum_serialize n) \<le> 4"
  moreover obtain xs b where "CScriptNum_serialize n = xs @ [b]"
    and "unat b mod 128 \<noteq> 0 \<or> (xs \<noteq> [] \<and> 128 \<le> unat (last xs))" using False by (rule serialize_cases)
  ultimately show ?thesis using minimal_check_snoc [of xs b] set_vch_serialize [of n]
    by (auto simp: CScriptNum_of_vch_def)
qed

lemma IsPubKey_length: "IsPubKey pk \<Longrightarrow> length pk < 2 ^ 32"
  by (auto simp: IsPubKey_def)

lemma coin_lock_iteration:
  assumes "IsPubKey pk" "length h < 2 ^ 32" "length (CScriptNum_serialize n) \<le> 4"
  shows "decompile_iteration c (coin_lock_script pk n h @ r) = StepBlock (coin_lock_block c pk n h) r"
  using assms IsPubKey_length [OF assms(1)]
  by (simp add: decompile_iteration_def or_else_def match_registration_def coin_lock_script_def coin_lock_pattern_def
      push_scriptnum_def match_compiled with_number_def CScriptNum_of_serialize)

lemma pow_lock_iteration:
  assumes "length nonce < 2 ^ 32" "length ch < 2 ^ 32" "IsPubKey pk" "length h < 2 ^ 32"
    and "length (CScriptNum_serialize n) \<le> 4"
  shows "decompile_iteration c (pow_lock_script nonce ch pk n h @ r) = StepBlock (pow_lock_block c nonce ch pk n h) r"
  using assms IsPubKey_length [OF assms(3)]
  by (simp add: decompile_iteration_def or_else_def match_registration_def match_pow_registration_def pow_lock_script_def
      coin_lock_pattern_def pow_lock_pattern_def push_scriptnum_def match_compiled with_number_def CScriptNum_of_serialize)

lemma Decompile_single:
  assumes "\<And>c. decompile_iteration c s = StepBlock (b c) []" "s \<noteq> []"
  shows "Decompile s = Inr (VOBJ [(''type'', VSTR ''contract''), (''name'', VSTR ''Decompiled-Contract''), (''actions'', VARR [b 0])])"
  using assms by (simp add: Decompile_def Decompile_loop.simps)

lemma compile_coin_lock_block:
  assumes "- (2 ^ 63) \<le> n" "n < 2 ^ 63"
  shows "CompileBasicBlock (coin_lock_block c pk n h) = Inr (coin_lock_script pk n h)"
  using assms by (simp add: CompileBasicBlock_def coin_lock_block_def basic_block_def compile_coin_lock_def uv_size_def
      input_value_def block_input_def ParseHex_HexStr numeral_2_eq_2)

lemma compile_pow_lock_block:
  assumes "- (2 ^ 63) \<le> n" "n < 2 ^ 63"
  shows "CompileBasicBlock (pow_lock_block c nonce ch pk n h) = Inr (pow_lock_script nonce ch pk n h)"
  using assms by (simp add: CompileBasicBlock_def pow_lock_block_def basic_block_def compile_pow_lock_def uv_size_def
      input_value_def block_input_def ParseHex_HexStr numeral_2_eq_2 numeral_3_eq_3 eval_nat_numeral)

lemma CompileContract_single:
  assumes "CompileBasicBlock (basic_block p c role more) = Inr s"
  shows "CompileContract (VOBJ [(''type'', VSTR ''contract''), (''name'', VSTR ''Decompiled-Contract''), (''actions'', VARR [basic_block p c role more])])
    (VOBJ [(''type'', VSTR ''contract''), (''name'', VSTR ''Decompiled-Contract''), (''actions'', VARR [basic_block p c role more])]) = Inr s"
  using assms by (simp add: CompileContract_def symbol_table_def basic_block_def numeral_eq_Suc)

lemma short_number_int64:
  assumes "length (CScriptNum_serialize n) \<le> 4"
  shows "- (2 ^ 63) \<le> n" "n < 2 ^ 63"
  using CScriptNum_set_vch_bound [of "CScriptNum_serialize n" 3] assms by (simp_all add: set_vch_serialize)

section \<open>Properties\<close>

text \<open>
  C33. Miner registrations survive decompilation.  For a well-formed public key, a lock time of at most four bytes
  and arguments a script can push, the coin-lock script and the PoW-lock script decompile to a contract with
  exactly one action, the registration block with these values, and compiling that contract gives the script back.
\<close>

theorem registration_roundtrip:
  assumes "IsPubKey pk" "length (CScriptNum_serialize n) \<le> 4"
    and "length h < 2 ^ 32" "length nonce < 2 ^ 32" "length ch < 2 ^ 32"
  shows "(\<exists>contract. Decompile (coin_lock_script pk n h) = Inr contract
      \<and> uv_key contract ''actions'' = VARR [coin_lock_block 0 pk n h]
      \<and> CMescal_Compile (\<lambda>_. Some contract) json = Inr (coin_lock_script pk n h))
    \<and> (\<exists>contract. Decompile (pow_lock_script nonce ch pk n h) = Inr contract
      \<and> uv_key contract ''actions'' = VARR [pow_lock_block 0 nonce ch pk n h]
      \<and> CMescal_Compile (\<lambda>_. Some contract) json = Inr (pow_lock_script nonce ch pk n h))"
proof (intro conjI exI)
  note n = short_number_int64 [OF assms(2)]
  show "Decompile (coin_lock_script pk n h) = Inr (VOBJ [(''type'', VSTR ''contract''),
      (''name'', VSTR ''Decompiled-Contract''), (''actions'', VARR [coin_lock_block 0 pk n h])])"
    using coin_lock_iteration [OF assms(1,3,2), of _ "[]"]
    by (intro Decompile_single) (simp_all add: coin_lock_script_def)
  show "CMescal_Compile (\<lambda>_. Some (VOBJ [(''type'', VSTR ''contract''), (''name'', VSTR ''Decompiled-Contract''),
      (''actions'', VARR [coin_lock_block 0 pk n h])])) json = Inr (coin_lock_script pk n h)"
    using CompileContract_single [OF compile_coin_lock_block [OF n, of 0 pk h, unfolded coin_lock_block_def]]
    by (simp add: CMescal_Compile_def coin_lock_block_def)
  show "Decompile (pow_lock_script nonce ch pk n h) = Inr (VOBJ [(''type'', VSTR ''contract''),
      (''name'', VSTR ''Decompiled-Contract''), (''actions'', VARR [pow_lock_block 0 nonce ch pk n h])])"
    using pow_lock_iteration [OF assms(4,5,1,3,2), of _ "[]"]
    by (intro Decompile_single) (simp_all add: pow_lock_script_def)
  show "CMescal_Compile (\<lambda>_. Some (VOBJ [(''type'', VSTR ''contract''), (''name'', VSTR ''Decompiled-Contract''),
      (''actions'', VARR [pow_lock_block 0 nonce ch pk n h])])) json = Inr (pow_lock_script nonce ch pk n h)"
    using CompileContract_single [OF compile_pow_lock_block [OF n, of 0 nonce ch pk h, unfolded pow_lock_block_def]]
    by (simp add: CMescal_Compile_def pow_lock_block_def)
qed simp_all

theorem registration_roundtrip_witness:
  "IsPubKey (2 # replicate 32 0) \<and> length (CScriptNum_serialize 5000) \<le> 4
    \<and> (\<exists>contract. Decompile (coin_lock_script (2 # replicate 32 0) 5000 (replicate 20 7)) = Inr contract
      \<and> uv_key contract ''actions'' = VARR [coin_lock_block 0 (2 # replicate 32 0) 5000 (replicate 20 7)]
      \<and> CMescal_Compile (\<lambda>_. Some contract) [] = Inr (coin_lock_script (2 # replicate 32 0) 5000 (replicate 20 7)))"
proof -
  have k: "IsPubKey (2 # replicate 32 0)" by (simp add: IsPubKey_def)
  have n: "length (CScriptNum_serialize 5000) \<le> 4" by (simp add: CScriptNum_serialize_def scriptnum_bytes.simps)
  have l: "length (replicate 20 (7 :: u8)) < 2 ^ 32" "length [1 :: u8] < 2 ^ 32" "length [2 :: u8] < 2 ^ 32" by simp_all
  show ?thesis using registration_roundtrip [OF k n l, of "[]"] k n by (simp only: simp_thms)
qed


end
