(* ===== verification/Standard.thy ===== *)
theory Standard
  imports PubKey Mescal
begin

text \<open>
  Output script templates (\<open>src/src/script/standard.h\<close> and \<open>.cpp\<close>): the matchers, \<open>Solver\<close>, the destinations
  a script pays to and the scripts built for them, and \<open>IsStandard\<close> of \<open>src/src/policy/policy.cpp\<close>.  A matcher
  returns \<open>None\<close> where the source returns false.  \<open>Hash160\<close> is a parameter.
\<close>

datatype txnouttype =
    TX_NONSTANDARD | TX_PUBKEY | TX_PUBKEYHASH | TX_SCRIPTHASH | TX_MULTISIG | TX_NULL_DATA | TX_WITNESS_V1_TAPROOT
  | TX_CONTRACT_PUBLISH | TX_CONTRACT_RUN | TX_CONTRACT_STATUS | TX_MESCAL_CONTRACT | TX_ADAM_COINLOCK | TX_ADAM_POWLOCK

section \<open>Matchers\<close>

definition MatchPayToPubkey :: "bytes \<Rightarrow> bytes option" where
  "MatchPayToPubkey script =
     (if length script = PUBLIC_KEY_SIZE + 2 \<and> script ! 0 = 65 \<and> last script = OP_CHECKSIG
      then let pubkey = take PUBLIC_KEY_SIZE (drop 1 script) in if ValidSize pubkey then Some pubkey else None
      else if length script = COMPRESSED_PUBLIC_KEY_SIZE + 2 \<and> script ! 0 = 33 \<and> last script = OP_CHECKSIG
      then let pubkey = take COMPRESSED_PUBLIC_KEY_SIZE (drop 1 script) in if ValidSize pubkey then Some pubkey else None
      else None)"

definition MatchPayToPubkeyHash :: "bytes \<Rightarrow> bytes option" where
  "MatchPayToPubkeyHash script =
     (if length script = 25 \<and> script ! 0 = OP_DUP \<and> script ! 1 = OP_HASH160 \<and> script ! 2 = 20
         \<and> script ! 23 = OP_EQUALVERIFY \<and> script ! 24 = OP_CHECKSIG
      then Some (take 20 (drop 3 script)) else None)"

definition IsSmallInteger :: "u8 \<Rightarrow> bool" where
  "IsSmallInteger opcode \<longleftrightarrow> opcode \<ge> OP_1 \<and> opcode \<le> OP_16"

text \<open>The keys of a multi-signature script, the opcode that ends them and the rest.\<close>

function multisig_keys :: "bytes \<Rightarrow> bytes list \<times> u8 \<times> bytes" where
  "multisig_keys it =
     (case GetOp it of
        None \<Rightarrow> ([], OP_INVALIDOPCODE, [])
      | Some (opcode, data, it') \<Rightarrow>
          if ValidSize data then (case multisig_keys it' of (ks, r) \<Rightarrow> (data # ks, r)) else ([], opcode, it'))"
  by auto
termination
  by (relation "measure length") (auto dest: GetOp_shorter)

declare multisig_keys.simps [simp del]

definition MatchMultisig :: "bytes \<Rightarrow> (nat \<times> bytes list) option" where
  "MatchMultisig script =
     (if length script < 1 \<or> last script \<noteq> OP_CHECKMULTISIG then None
      else case GetOp script of
        None \<Rightarrow> None
      | Some (opcode, _, it) \<Rightarrow>
          if \<not> IsSmallInteger opcode then None
          else let required = nat (the (DecodeOP_N opcode)) in
            (case multisig_keys it of (pubkeys, opcode2, it2) \<Rightarrow>
               if \<not> IsSmallInteger opcode2 then None
               else let keys = nat (the (DecodeOP_N opcode2)) in
                 if length pubkeys \<noteq> keys \<or> keys < required then None
                 else if length it2 = 1 then Some (required, pubkeys) else None))"

text \<open>The loop shared by the three contract matchers: pushes up to the last byte.\<close>

function contract_pushes :: "bytes \<Rightarrow> bool" where
  "contract_pushes pc =
     (if length pc > 1
      then (case GetOp pc of None \<Rightarrow> False | Some (opcode, _, pc') \<Rightarrow> if opcode > OP_16 then False else contract_pushes pc')
      else True)"
  by auto
termination
  by (relation "measure length") (auto dest: GetOp_shorter)

declare contract_pushes.simps [simp del]

definition MatchContractPublish :: "bytes \<Rightarrow> bool" where
  "MatchContractPublish script = (if length script < 2 \<or> last script \<noteq> OP_PUBLISH then False else contract_pushes script)"

definition MatchContractRun :: "bytes \<Rightarrow> bool" where
  "MatchContractRun script = (if length script < 2 \<or> last script \<noteq> OP_RUN then False else contract_pushes script)"

definition MatchContractStatus :: "bytes \<Rightarrow> bool" where
  "MatchContractStatus script = (if length script < 2 \<or> last script \<noteq> OP_UPDATE_STATUS then False else contract_pushes script)"

definition expect_op :: "u8 \<Rightarrow> bytes \<Rightarrow> bytes option" where
  "expect_op expected pc = do { (op, _, pc) \<leftarrow> GetOp pc; if op \<noteq> expected then None else Some pc }"

definition expect_size :: "nat \<Rightarrow> bytes \<Rightarrow> (bytes \<times> bytes) option" where
  "expect_size n pc = do { (_, vch, pc) \<leftarrow> GetOp pc; if length vch \<noteq> n then None else Some (vch, pc) }"

definition uint160_of :: "bytes \<Rightarrow> uint160" where
  "uint160_of vch = of_nat (le_val vch)"

definition uint256_of :: "bytes \<Rightarrow> uint256" where
  "uint256_of vch = of_nat (le_val vch)"

definition lock_time_of :: "bytes \<Rightarrow> int option" where
  "lock_time_of vch = (case CScriptNum_of_vch vch True 4 of Inl _ \<Rightarrow> None | Inr n \<Rightarrow> Some n)"

definition MatchCoinLockRegistration :: "bytes \<Rightarrow> (cpubkey \<times> int \<times> uint160) option" where
  "MatchCoinLockRegistration script =
     (if length script < 60 then None
      else do {
        (vchPubKey, pc) \<leftarrow> expect_size 33 script;
        pc \<leftarrow> expect_op OP_DROP pc;
        (_, vchLockTime, pc) \<leftarrow> GetOp pc;
        pc \<leftarrow> expect_op OP_CHECKLOCKTIMEVERIFY pc;
        pc \<leftarrow> expect_op OP_DROP pc;
        pc \<leftarrow> expect_op OP_DUP pc;
        pc \<leftarrow> expect_op OP_HASH160 pc;
        (vchHash, pc) \<leftarrow> expect_size 20 pc;
        pc \<leftarrow> expect_op OP_EQUALVERIFY pc;
        pc \<leftarrow> expect_op OP_CHECKSIG pc;
        if pc \<noteq> [] then None
        else if \<not> pubkey_IsValid (pubkey_Set vchPubKey) then None
        else do { lockTime \<leftarrow> lock_time_of vchLockTime; Some (pubkey_Set vchPubKey, lockTime, uint160_of vchHash) } })"

definition MatchPoWLockRegistration :: "bytes \<Rightarrow> (bytes \<times> uint256 \<times> cpubkey \<times> int \<times> uint160) option" where
  "MatchPoWLockRegistration script =
     (if length script < 95 then None
      else do {
        (_, vchNonce, pc) \<leftarrow> GetOp script;
        if vchNonce = [] then None
        else do {
          (vchChallenge, pc) \<leftarrow> expect_size 32 pc;
          (vchPubKey, pc) \<leftarrow> expect_size 33 pc;
          pc \<leftarrow> expect_op OP_DROP pc;
          pc \<leftarrow> expect_op OP_DROP pc;
          pc \<leftarrow> expect_op OP_DROP pc;
          (_, vchLockTime, pc) \<leftarrow> GetOp pc;
          pc \<leftarrow> expect_op OP_CHECKLOCKTIMEVERIFY pc;
          pc \<leftarrow> expect_op OP_DROP pc;
          pc \<leftarrow> expect_op OP_DUP pc;
          pc \<leftarrow> expect_op OP_HASH160 pc;
          (vchHash, pc) \<leftarrow> expect_size 20 pc;
          pc \<leftarrow> expect_op OP_EQUALVERIFY pc;
          pc \<leftarrow> expect_op OP_CHECKSIG pc;
          if pc \<noteq> [] then None
          else if \<not> pubkey_IsValid (pubkey_Set vchPubKey) then None
          else do { lockTime \<leftarrow> lock_time_of vchLockTime;
                    Some (vchNonce, uint256_of vchChallenge, pubkey_Set vchPubKey, lockTime, uint160_of vchHash) } } })"

section \<open>Solver\<close>

definition ToByteVector160 :: "uint160 \<Rightarrow> bytes" where
  "ToByteVector160 h = le_bytes 20 (unat h)"

definition is_mescal_contract :: "bytes \<Rightarrow> bool" where
  "is_mescal_contract script =
     (case Decompile script of
        Inl _ \<Rightarrow> False
      | Inr decompiled \<Rightarrow> uv_exists decompiled ''actions'' \<and> uv_size (uv_key decompiled ''actions'') > 0)"

definition Solver :: "bytes \<Rightarrow> bool \<times> txnouttype \<times> bytes list" where
  "Solver script =
     (if IsPayToScriptHash script then (True, TX_SCRIPTHASH, [take 20 (drop 2 script)])
      else if length script = 34 \<and> script ! 0 = OP_1 \<and> script ! 1 = 32
      then (True, TX_WITNESS_V1_TAPROOT, [drop 2 script])
      else if length script \<ge> 1 \<and> script ! 0 = OP_RETURN \<and> IsPushOnly (drop 1 script) then (True, TX_NULL_DATA, [])
      else case MatchPayToPubkey script of Some data \<Rightarrow> (True, TX_PUBKEY, [data])
      | None \<Rightarrow> (case MatchPayToPubkeyHash script of Some data \<Rightarrow> (True, TX_PUBKEYHASH, [data])
      | None \<Rightarrow> (case MatchMultisig script of
          Some (required, keys) \<Rightarrow> (True, TX_MULTISIG, [of_nat required] # keys @ [[of_nat (length keys)]])
      | None \<Rightarrow>
          if MatchContractPublish script \<or> MatchContractRun script \<or> MatchContractStatus script
          then (False, TX_NONSTANDARD, [])
          else if \<not> IsPushOnly script \<and> is_mescal_contract script then (True, TX_MESCAL_CONTRACT, [])
          else case MatchCoinLockRegistration script of
            Some (pubkey, lockTime, pubkeyHash) \<Rightarrow>
              (True, TX_ADAM_COINLOCK, [ToByteVector160 pubkeyHash, pubkey_bytes pubkey])
          | None \<Rightarrow> (case MatchPoWLockRegistration script of
              Some (nonce, challenge, pubkey, lockTime, pubkeyHash) \<Rightarrow>
                (True, TX_ADAM_POWLOCK, [ToByteVector160 pubkeyHash, pubkey_bytes pubkey])
          | None \<Rightarrow> (False, TX_NONSTANDARD, [])))))"

definition ScriptSigArgsExpected :: "txnouttype \<Rightarrow> bytes list \<Rightarrow> int" where
  "ScriptSigArgsExpected t vSolutions =
     (case t of
        TX_PUBKEY \<Rightarrow> 1
      | TX_PUBKEYHASH \<Rightarrow> 2
      | TX_ADAM_COINLOCK \<Rightarrow> 2
      | TX_ADAM_POWLOCK \<Rightarrow> 2
      | TX_MULTISIG \<Rightarrow>
          if length vSolutions < 1 \<or> length (vSolutions ! 0) < 1 then - 1 else uint (vSolutions ! 0 ! 0) + 1
      | TX_SCRIPTHASH \<Rightarrow> 1
      | TX_WITNESS_V1_TAPROOT \<Rightarrow> 1
      | _ \<Rightarrow> - 1)"

section \<open>Destinations\<close>

datatype CTxDestination = CNoDestination | CKeyID uint160 | CScriptID uint160 | WitnessV1Taproot bytes

text \<open>\<open>CXOnlyPubKey\<close> from bytes: anything but 32 bytes becomes the zero key.\<close>

definition CXOnlyPubKey :: "bytes \<Rightarrow> bytes" where
  "CXOnlyPubKey b = (if length b = 32 then b else replicate 32 0)"

definition ExtractDestination :: "(bytes \<Rightarrow> uint160) \<Rightarrow> bytes \<Rightarrow> CTxDestination option" where
  "ExtractDestination Hash160 script =
     (case Solver script of (ok, whichType, vSolutions) \<Rightarrow>
        if \<not> ok then None
        else case whichType of
          TX_PUBKEY \<Rightarrow>
            let pubKey = pubkey_Set (vSolutions ! 0)
            in if \<not> pubkey_IsValid pubKey then None else Some (CKeyID (pubkey_GetID Hash160 pubKey))
        | TX_PUBKEYHASH \<Rightarrow> Some (CKeyID (uint160_of (vSolutions ! 0)))
        | TX_ADAM_COINLOCK \<Rightarrow> Some (CKeyID (uint160_of (vSolutions ! 0)))
        | TX_ADAM_POWLOCK \<Rightarrow> Some (CKeyID (uint160_of (vSolutions ! 0)))
        | TX_SCRIPTHASH \<Rightarrow> Some (CScriptID (uint160_of (vSolutions ! 0)))
        | TX_WITNESS_V1_TAPROOT \<Rightarrow> Some (WitnessV1Taproot (CXOnlyPubKey (vSolutions ! 0)))
        | _ \<Rightarrow> None)"

definition ExtractDestinations :: "(bytes \<Rightarrow> uint160) \<Rightarrow> bytes \<Rightarrow> (txnouttype \<times> CTxDestination list \<times> nat) option" where
  "ExtractDestinations Hash160 script =
     (case Solver script of (ok, typeRet, vSolutions) \<Rightarrow>
        if \<not> ok then None
        else if typeRet = TX_NULL_DATA then None
        else if typeRet = TX_MULTISIG
        then let addressRet = map (\<lambda>v. CKeyID (pubkey_GetID Hash160 (pubkey_Set v)))
                   (filter (\<lambda>v. pubkey_IsValid (pubkey_Set v)) (butlast (tl vSolutions)))
             in if addressRet = [] then None else Some (typeRet, addressRet, unat (hd vSolutions ! 0))
        else map_option (\<lambda>a. (typeRet, [a], 1)) (ExtractDestination Hash160 script))"

fun GetScriptForDestination :: "CTxDestination \<Rightarrow> bytes" where
  "GetScriptForDestination CNoDestination = []"
| "GetScriptForDestination (CKeyID keyID) =
     [OP_DUP, OP_HASH160] @ script_push_data (ToByteVector160 keyID) @ [OP_EQUALVERIFY, OP_CHECKSIG]"
| "GetScriptForDestination (CScriptID scriptID) = [OP_HASH160] @ script_push_data (ToByteVector160 scriptID) @ [OP_EQUAL]"
| "GetScriptForDestination (WitnessV1Taproot dest) = [OP_1] @ script_push_data dest"

definition GetScriptForRawPubKey :: "cpubkey \<Rightarrow> bytes" where
  "GetScriptForRawPubKey pubKey = script_push_data (pubkey_bytes pubKey) @ [OP_CHECKSIG]"

text \<open>\<open>EncodeOP_N\<close> asserts its range, which is the value \<open>None\<close> here.\<close>

definition GetScriptForMultisig :: "int \<Rightarrow> cpubkey list \<Rightarrow> bytes option" where
  "GetScriptForMultisig nRequired keys = do {
     m \<leftarrow> EncodeOP_N nRequired;
     n \<leftarrow> EncodeOP_N (int (length keys));
     Some ([m] @ concat (map (\<lambda>key. script_push_data (pubkey_bytes key)) keys) @ [n, OP_CHECKMULTISIG]) }"

fun IsValidDestination :: "CTxDestination \<Rightarrow> bool" where
  "IsValidDestination CNoDestination = False"
| "IsValidDestination _ = True"

section \<open>Standardness\<close>

definition IsStandard :: "bool \<Rightarrow> nat \<Rightarrow> bytes \<Rightarrow> txnouttype option" where
  "IsStandard fDataCarrier nMaxDatacarrierBytes script =
     (case Solver script of (ok, whichType, vSolutions) \<Rightarrow>
        if \<not> ok then None
        else if whichType = TX_MULTISIG
        then let m = hd vSolutions ! 0; n = last vSolutions ! 0
             in if n < 1 \<or> n > 3 then None else if m < 1 \<or> m > n then None else Some whichType
        else if whichType = TX_NULL_DATA \<and> (\<not> fDataCarrier \<or> length script > nMaxDatacarrierBytes) then None
        else if whichType = TX_CONTRACT_PUBLISH \<or> whichType = TX_CONTRACT_RUN \<or> whichType = TX_CONTRACT_STATUS then None
        else if whichType \<noteq> TX_NONSTANDARD then Some whichType else None)"

section \<open>Scripts built for destinations\<close>

lemma push_data_short: "length b < 76 \<Longrightarrow> script_push_data b = of_nat (length b) # b"
  by (simp add: script_push_data_def)

lemma uint160_roundtrip [simp]: "uint160_of (ToByteVector160 h) = h"
proof -
  have "unat h < 256 ^ 20" using unsigned_less [of h] by simp
  then show ?thesis by (simp add: uint160_of_def ToByteVector160_def)
qed

lemma length_ToByteVector160 [simp]: "length (ToByteVector160 h) = 20"
  by (simp add: ToByteVector160_def)

lemma Solver_pubkeyhash:
  "Solver (GetScriptForDestination (CKeyID h)) = (True, TX_PUBKEYHASH, [ToByteVector160 h])"
proof -
  have s: "GetScriptForDestination (CKeyID h) = [OP_DUP, OP_HASH160, 20] @ ToByteVector160 h @ [OP_EQUALVERIFY, OP_CHECKSIG]"
    by (simp add: push_data_short)
  have "MatchPayToPubkeyHash (GetScriptForDestination (CKeyID h)) = Some (ToByteVector160 h)"
    unfolding s by (simp add: MatchPayToPubkeyHash_def nth_append numeral_3_eq_3)
  moreover have "MatchPayToPubkey (GetScriptForDestination (CKeyID h)) = None"
    unfolding s by (simp add: MatchPayToPubkey_def PUBLIC_KEY_SIZE_def COMPRESSED_PUBLIC_KEY_SIZE_def)
  moreover have "\<not> IsPayToScriptHash (GetScriptForDestination (CKeyID h))" "length (GetScriptForDestination (CKeyID h)) = 25"
    "GetScriptForDestination (CKeyID h) ! 0 = OP_DUP"
    unfolding s by (simp_all add: IsPayToScriptHash_def)
  ultimately show ?thesis by (simp add: Solver_def del: GetScriptForDestination.simps)
qed

lemma Solver_scripthash:
  "Solver (GetScriptForDestination (CScriptID h)) = (True, TX_SCRIPTHASH, [ToByteVector160 h])"
proof -
  have s: "GetScriptForDestination (CScriptID h) = [OP_HASH160, 20] @ ToByteVector160 h @ [OP_EQUAL]"
    by (simp add: push_data_short)
  show ?thesis unfolding s by (simp add: Solver_def IsPayToScriptHash_def nth_append)
qed

lemma Solver_taproot:
  "length b = 32 \<Longrightarrow> Solver (GetScriptForDestination (WitnessV1Taproot b)) = (True, TX_WITNESS_V1_TAPROOT, [b])"
  by (simp add: push_data_short Solver_def IsPayToScriptHash_def)

lemma ValidSize_length: "ValidSize vch \<Longrightarrow> length vch = 33 \<or> length vch = 65"
  by (auto simp: ValidSize_def GetLen_def PUBLIC_KEY_SIZE_def COMPRESSED_PUBLIC_KEY_SIZE_def split: if_splits)

lemma Solver_pubkey:
  assumes "ValidSize k"
  shows "Solver (script_push_data k @ [OP_CHECKSIG]) = (True, TX_PUBKEY, [k])"
proof -
  from ValidSize_length [OF assms] have "length k < 76" by auto
  then have s: "script_push_data k @ [OP_CHECKSIG] = (of_nat (length k) # k) @ [OP_CHECKSIG]" by (simp add: push_data_short)
  from ValidSize_length [OF assms] consider "length k = 33" | "length k = 65" by blast
  then show ?thesis
    by cases (use assms in \<open>simp_all add: s Solver_def IsPayToScriptHash_def MatchPayToPubkey_def PUBLIC_KEY_SIZE_def
        COMPRESSED_PUBLIC_KEY_SIZE_def\<close>)
qed

section \<open>Multi-signature scripts\<close>

lemma GetOp_push: "ValidSize k \<Longrightarrow> \<exists>op \<le> OP_PUSHDATA4. GetOp (script_push_data k @ r) = Some (op, k, r)"
  using ValidSize_length [of k] by (intro GetOp_push_data) auto

lemma multisig_keys_built:
  assumes "list_all ValidSize ks" "\<not> op \<le> OP_PUSHDATA4"
  shows "multisig_keys (concat (map script_push_data ks) @ op # r) = (ks, op, r)"
  using assms(1)
proof (induction ks)
  case Nil
  then show ?case using assms(2) by (subst multisig_keys.simps) (simp add: GetOp_opcode ValidSize_def)
next
  case (Cons k ks)
  then obtain o' where "GetOp (script_push_data k @ concat (map script_push_data ks) @ op # r) =
      Some (o', k, concat (map script_push_data ks) @ op # r)" using GetOp_push by force
  with Cons show ?case by (subst multisig_keys.simps) simp
qed

lemma multisig_keys_sound: "multisig_keys it = (ks, op, r) \<Longrightarrow> list_all ValidSize ks"
proof (induction it arbitrary: ks rule: multisig_keys.induct)
  case (1 it)
  show ?case
  proof (cases "GetOp it")
    case None
    with 1(2) show ?thesis by (subst (asm) multisig_keys.simps) simp
  next
    case (Some t)
    obtain o' d it' where t: "t = (o', d, it')" by (cases t)
    obtain ks' q where k: "multisig_keys it' = (ks', q)" by (cases "multisig_keys it'")
    show ?thesis
    proof (cases "ValidSize d")
      case True
      with 1(2) Some t k have "ks = d # ks'" "q = (op, r)" by (subst (asm) multisig_keys.simps, simp)+
      with 1(1) [OF Some t [symmetric] refl True] k True show ?thesis by simp
    next
      case False
      with 1(2) Some t show ?thesis by (subst (asm) multisig_keys.simps) simp
    qed
  qed
qed

lemma DecodeOP_N_small:
  assumes "IsSmallInteger op"
  shows "nat (the (DecodeOP_N op)) = unat op - 80" "1 \<le> unat op - 80" "unat op - 80 \<le> 16"
proof -
  have "0x51 \<le> unat op" "unat op \<le> 0x60" using assms by (simp_all add: IsSmallInteger_def word_le_nat_alt)
  moreover have "op \<noteq> 0" "op \<ge> 0x51" "op \<le> 0x60" using assms by (auto simp: IsSmallInteger_def)
  moreover have "uint op - 80 = int (unat op - 80)" using calculation(1) by (simp add: of_nat_diff)
  ultimately show "nat (the (DecodeOP_N op)) = unat op - 80" "1 \<le> unat op - 80" "unat op - 80 \<le> 16"
    by (simp_all add: DecodeOP_N_def del: of_nat_diff)
qed

lemma EncodeOP_N_small:
  assumes "1 \<le> n" "n \<le> 16"
  shows "EncodeOP_N (int n) = Some (of_nat (80 + n))" "IsSmallInteger (of_nat (80 + n))" "unat (of_nat (80 + n) :: u8) = 80 + n"
proof -
  show u: "unat (of_nat (80 + n) :: u8) = 80 + n" using assms by (simp only: unat_of_nat) simp
  show "IsSmallInteger (of_nat (80 + n))" using assms u by (simp add: IsSmallInteger_def word_le_nat_alt)
  show "EncodeOP_N (int n) = Some (of_nat (80 + n))" using assms by (simp add: EncodeOP_N_def)
qed

lemma MatchMultisig_built:
  assumes "list_all ValidSize ks" "1 \<le> m" "m \<le> length ks" "length ks \<le> 16"
  shows "MatchMultisig (of_nat (80 + m) # concat (map script_push_data ks) @ [of_nat (80 + length ks), OP_CHECKMULTISIG]) = Some (m, ks)"
proof -
  have n: "1 \<le> length ks" "m \<le> 16" using assms by simp_all
  note em = EncodeOP_N_small [OF assms(2) n(2)] and en = EncodeOP_N_small [OF n(1) assms(4)]
  have big: "\<not> of_nat (80 + m) \<le> OP_PUSHDATA4" "\<not> of_nat (80 + length ks) \<le> OP_PUSHDATA4"
    using em(3) en(3) by (simp_all add: word_le_nat_alt del: of_nat_add)
  have "GetOp (of_nat (80 + m) # concat (map script_push_data ks) @ [of_nat (80 + length ks), OP_CHECKMULTISIG]) =
      Some (of_nat (80 + m), [], concat (map script_push_data ks) @ [of_nat (80 + length ks), OP_CHECKMULTISIG])"
    by (rule GetOp_opcode [OF big(1)])
  then show ?thesis
    using assms(3) em en DecodeOP_N_small(1) [OF em(2)] DecodeOP_N_small(1) [OF en(2)]
      multisig_keys_built [OF assms(1) big(2), of "[OP_CHECKMULTISIG]"]
    by (simp add: MatchMultisig_def del: of_nat_add)
qed

lemma MatchMultisig_sound:
  assumes "MatchMultisig s = Some (m, ks)"
  shows "1 \<le> m" "m \<le> length ks" "length ks \<le> 16" "list_all ValidSize ks"
proof -
  obtain op it op2 it2 where "IsSmallInteger op" "m = nat (the (DecodeOP_N op))" "multisig_keys it = (ks, op2, it2)"
    "IsSmallInteger op2" "length ks = nat (the (DecodeOP_N op2))" "m \<le> length ks"
    using assms by (auto simp: MatchMultisig_def Let_def split: if_splits option.splits prod.splits)
  then show "1 \<le> m" "m \<le> length ks" "length ks \<le> 16" "list_all ValidSize ks"
    using DecodeOP_N_small [of op] DecodeOP_N_small [of op2] multisig_keys_sound by simp_all
qed

lemma last_push_data: "k \<noteq> [] \<Longrightarrow> last (script_push_data k @ r) = (if r = [] then last k else last r)"
  by (simp add: script_push_data_def)

text \<open>A script that starts with a small integer and ends with \<open>OP_CHECKMULTISIG\<close> is no other template.\<close>

lemma Solver_multisig:
  assumes "MatchMultisig s = Some (m, ks)" "IsSmallInteger (s ! 0)" "\<not> (length s = 34 \<and> s ! 0 = OP_1 \<and> s ! 1 = 32)"
  shows "Solver s = (True, TX_MULTISIG, [of_nat m] # ks @ [[of_nat (length ks)]])"
proof -
  have l: "last s = OP_CHECKMULTISIG" "s \<noteq> []" using assms(1) by (auto simp: MatchMultisig_def split: if_splits)
  have "s ! 0 \<noteq> OP_HASH160" "s ! 0 \<noteq> OP_RETURN" "s ! 0 \<noteq> OP_DUP"
    using assms(2) by (auto simp: IsSmallInteger_def)
  then show ?thesis using assms l
    by (auto simp: Solver_def IsPayToScriptHash_def MatchPayToPubkey_def MatchPayToPubkeyHash_def)
qed

lemma Solver_multisigD:
  assumes "Solver s = (ok, TX_MULTISIG, v)"
  shows "\<exists>m ks. MatchMultisig s = Some (m, ks) \<and> v = [of_nat m] # ks @ [[of_nat (length ks)]]"
proof (cases "MatchMultisig s")
  case None
  with assms show ?thesis
    by (simp add: Solver_def split: if_splits option.splits) (auto split: prod.splits)
next
  case (Some p)
  with assms show ?thesis
    by (cases p) (simp add: Solver_def split: if_splits option.splits)
qed

section \<open>Registrations\<close>

lemma expect_size_push: "length b = n \<Longrightarrow> n < 2 ^ 32 \<Longrightarrow> expect_size n (script_push_data b @ r) = Some (b, r)"
  using GetOp_push_data [of b r] by (auto simp: expect_size_def)

lemma expect_op_opcode: "\<not> op \<le> OP_PUSHDATA4 \<Longrightarrow> expect_op op (op # r) = Some r"
  by (simp add: expect_op_def GetOp_opcode)

lemma lock_time_of_serialize: "length (CScriptNum_serialize n) \<le> 4 \<Longrightarrow> lock_time_of (CScriptNum_serialize n) = Some n"
  by (simp add: lock_time_of_def CScriptNum_of_serialize)

lemma length_push_data: "length b < 76 \<Longrightarrow> length (script_push_data b) = Suc (length b)"
  by (simp add: push_data_short)

lemma MatchCoinLock_built:
  assumes "ValidSize pk" "length pk = 33" "length (CScriptNum_serialize n) \<le> 4" "length h = 20"
  shows "MatchCoinLockRegistration (coin_lock_script pk n h) = Some (pubkey_Set pk, n, uint160_of h)"
proof -
  have len: "60 \<le> length (coin_lock_script pk n h)"
    using assms by (simp add: coin_lock_script_def push_scriptnum_def length_push_data)
  obtain o' where lt: "GetOp (script_push_data (CScriptNum_serialize n) @ r) = Some (o' r, CScriptNum_serialize n, r)" for r
    using GetOp_push_data [of "CScriptNum_serialize n"] assms(3) by (auto simp: le_less_trans) metis
  show ?thesis unfolding MatchCoinLockRegistration_def if_not_P [OF len [THEN leD]]
    unfolding coin_lock_script_def push_scriptnum_def
    using assms by (simp add: expect_size_push expect_op_opcode lt lock_time_of_serialize pubkey_Set_valid)
qed

lemma MatchPoWLock_built:
  assumes "ValidSize pk" "length pk = 33" "length (CScriptNum_serialize n) \<le> 4" "length h = 20"
    and "length nonce = 4" "length ch = 32"
  shows "MatchPoWLockRegistration (pow_lock_script nonce ch pk n h) = Some (nonce, uint256_of ch, pubkey_Set pk, n, uint160_of h)"
proof -
  have len: "95 \<le> length (pow_lock_script nonce ch pk n h)"
    using assms by (simp add: pow_lock_script_def push_scriptnum_def length_push_data)
  obtain o' where lt: "GetOp (script_push_data (CScriptNum_serialize n) @ r) = Some (o' r, CScriptNum_serialize n, r)" for r
    using GetOp_push_data [of "CScriptNum_serialize n"] assms(3) by (auto simp: le_less_trans) metis
  obtain o2 where no: "GetOp (script_push_data nonce @ r) = Some (o2 r, nonce, r)" for r
    using GetOp_push_data [of nonce] assms(5) by auto metis
  have "nonce \<noteq> []" using assms(5) by auto
  then show ?thesis unfolding MatchPoWLockRegistration_def if_not_P [OF len [THEN leD]]
    unfolding pow_lock_script_def push_scriptnum_def
    using assms by (simp add: expect_size_push expect_op_opcode lt no lock_time_of_serialize pubkey_Set_valid)
qed

lemma not_push_only:
  "length a < 2 ^ 32 \<Longrightarrow> op > OP_16 \<Longrightarrow> \<not> IsPushOnly (script_push_data a @ op # r)"
proof -
  assume a: "length a < 2 ^ 32" and op: "op > OP_16"
  then have big: "\<not> op \<le> OP_PUSHDATA4" by (simp add: word_le_nat_alt word_less_nat_alt)
  obtain o' where g: "GetOp (script_push_data a @ op # r) = Some (o', a, op # r)" using GetOp_push_data [OF a] by blast
  have "\<not> IsPushOnly (op # r)" using op by (subst IsPushOnly.simps) (simp add: GetOp_opcode [OF big])
  then show ?thesis by (subst IsPushOnly.simps) (simp add: g)
qed

lemma push_only_push:
  "length a < 2 ^ 32 \<Longrightarrow> \<not> IsPushOnly r \<Longrightarrow> \<not> IsPushOnly (script_push_data a @ r)"
  using GetOp_push_data [of a r] by (subst IsPushOnly.simps) (auto simp: script_push_data_def)

lemma mescal_single: "Decompile s = Inr (VOBJ [(''type'', a), (''name'', b), (''actions'', VARR [x])]) \<Longrightarrow> is_mescal_contract s"
  by (simp add: is_mescal_contract_def uv_size_def)

text \<open>What \<open>Solver\<close> does with a script that ends in \<open>OP_CHECKSIG\<close> and is no payment template.\<close>

lemma Solver_contract:
  assumes "last s = OP_CHECKSIG" "35 < length s" "unat (s ! 0) \<le> 33" "\<not> IsPushOnly s" "is_mescal_contract s"
  shows "Solver s = (True, TX_MESCAL_CONTRACT, [])"
proof -
  have h: "s ! 0 \<noteq> OP_HASH160" "s ! 0 \<noteq> OP_RETURN" "s ! 0 \<noteq> OP_DUP" "s ! 0 \<noteq> 65"
    using assms(3) by (auto simp: word_unat_eq_iff)
  have "\<not> IsPayToScriptHash s" using h by (simp add: IsPayToScriptHash_def)
  moreover have "MatchPayToPubkey s = None"
    using h assms(2) by (auto simp: MatchPayToPubkey_def COMPRESSED_PUBLIC_KEY_SIZE_def)
  moreover have "MatchPayToPubkeyHash s = None" using h by (simp add: MatchPayToPubkeyHash_def)
  moreover have "MatchMultisig s = None" using assms(1) by (simp add: MatchMultisig_def)
  moreover have "\<not> MatchContractPublish s" "\<not> MatchContractRun s" "\<not> MatchContractStatus s"
    using assms(1) by (simp_all add: MatchContractPublish_def MatchContractRun_def MatchContractStatus_def)
  ultimately show ?thesis using assms h by (auto simp: Solver_def)
qed

lemma IsPubKey_33: "length pk = 33 \<Longrightarrow> ValidSize pk \<Longrightarrow> IsPubKey pk"
proof -
  assume l: "length pk = 33" and v: "ValidSize pk"
  then have "GetLen (pk ! 0) = 33" by (simp add: ValidSize_def)
  then have "pk ! 0 = 2 \<or> pk ! 0 = 3"
    by (simp add: GetLen_def PUBLIC_KEY_SIZE_def COMPRESSED_PUBLIC_KEY_SIZE_def split: if_splits)
  with l show ?thesis by (simp add: IsPubKey_def)
qed

lemma Solver_coin_lock:
  assumes "ValidSize pk" "length pk = 33" "length (CScriptNum_serialize n) \<le> 4" "length h = 20"
  shows "Solver (coin_lock_script pk n h) = (True, TX_MESCAL_CONTRACT, [])"
proof (rule Solver_contract)
  let ?s = "coin_lock_script pk n h"
  have it: "decompile_iteration c ?s = StepBlock (coin_lock_block c pk n h) []" for c
    using coin_lock_iteration [OF IsPubKey_33 [OF assms(2,1)] _ assms(3), of h c "[]"] assms(4) by simp
  have "?s \<noteq> []" by (simp add: coin_lock_script_def)
  then show "is_mescal_contract ?s" by (rule mescal_single [OF Decompile_single [OF it]])
  show "\<not> IsPushOnly ?s" unfolding coin_lock_script_def using not_push_only [of pk OP_DROP] assms(2) by simp
  show "last ?s = OP_CHECKSIG" by (simp add: coin_lock_script_def)
  show "35 < length ?s" using assms by (simp add: coin_lock_script_def push_scriptnum_def length_push_data)
  show "unat (?s ! 0) \<le> 33" using assms(2) by (simp add: coin_lock_script_def push_data_short)
qed

lemma Solver_pow_lock:
  assumes "ValidSize pk" "length pk = 33" "length (CScriptNum_serialize n) \<le> 4" "length h = 20"
    and "length nonce = 4" "length ch = 32"
  shows "Solver (pow_lock_script nonce ch pk n h) = (True, TX_MESCAL_CONTRACT, [])"
proof (rule Solver_contract)
  let ?s = "pow_lock_script nonce ch pk n h"
  have it: "decompile_iteration c ?s = StepBlock (pow_lock_block c nonce ch pk n h) []" for c
    using pow_lock_iteration [OF _ _ IsPubKey_33 [OF assms(2,1)] _ assms(3), of nonce ch h c "[]"] assms(4-6) by simp
  have "?s \<noteq> []" by (simp add: pow_lock_script_def)
  then show "is_mescal_contract ?s" by (rule mescal_single [OF Decompile_single [OF it]])
  have "\<not> IsPushOnly (script_push_data pk @ OP_DROP # r)" for r using not_push_only [of pk OP_DROP] assms(2) by simp
  then show "\<not> IsPushOnly ?s" unfolding pow_lock_script_def using push_only_push assms(5,6) by simp
  show "last ?s = OP_CHECKSIG" by (simp add: pow_lock_script_def)
  show "35 < length ?s" using assms by (simp add: pow_lock_script_def push_scriptnum_def length_push_data)
  show "unat (?s ! 0) \<le> 33" using assms(5) by (simp add: pow_lock_script_def push_data_short)
qed

section \<open>Properties\<close>

text \<open>
  C34. Destinations and scripts.  The script built for a key hash, a script hash or a 32 byte taproot key is
  recognised as paying to exactly that destination; the script built for a valid raw public key pays to the
  identifier of the key.
\<close>

theorem destination_roundtrip:
  assumes "length x = 32" "ValidSize k"
  shows "ExtractDestination Hash160 (GetScriptForDestination (CKeyID h)) = Some (CKeyID h)
    \<and> ExtractDestination Hash160 (GetScriptForDestination (CScriptID h)) = Some (CScriptID h)
    \<and> ExtractDestination Hash160 (GetScriptForDestination (WitnessV1Taproot x)) = Some (WitnessV1Taproot x)
    \<and> ExtractDestination Hash160 (GetScriptForRawPubKey (CPubKey k)) = Some (CKeyID (Hash160 k))"
proof -
  have "pubkey_bytes (CPubKey k) = k" using assms(2) by (simp add: pubkey_bytes_def pubkey_size_def ValidSize_def)
  then have "Solver (GetScriptForRawPubKey (CPubKey k)) = (True, TX_PUBKEY, [k])"
    using Solver_pubkey [OF assms(2)] by (simp add: GetScriptForRawPubKey_def)
  then show ?thesis
    using assms pubkey_Set_valid [of k] pubkey_Set_bytes [OF assms(2)]
    by (simp add: ExtractDestination_def Solver_pubkeyhash Solver_scripthash Solver_taproot CXOnlyPubKey_def
        pubkey_GetID_def del: GetScriptForDestination.simps)
qed

theorem destination_roundtrip_witness:
  "length (replicate 32 (9 :: u8)) = 32 \<and> ValidSize (2 # replicate 32 0)
    \<and> ExtractDestination (\<lambda>_. 5) (GetScriptForDestination (WitnessV1Taproot (replicate 32 9))) = Some (WitnessV1Taproot (replicate 32 9))"
proof -
  have l: "length (replicate 32 (9 :: u8)) = 32" and v: "ValidSize (2 # replicate 32 0)"
    by (simp_all add: ValidSize_def GetLen_def COMPRESSED_PUBLIC_KEY_SIZE_def)
  show ?thesis using destination_roundtrip [OF l v, of "\<lambda>_. 5"] l v by blast
qed

text \<open>
  Multi-signature templates.  Whatever \<open>Solver\<close> reports as a multi-signature output carries the number of
  required signatures, between one and the number of keys, then at most sixteen well-formed keys, then their number;
  and the script built for such a list of keys is recognised with exactly these values.
\<close>

lemma multisig_solver:
  "(case Solver s of (ok, whichType, vSolutions) \<Rightarrow> whichType \<noteq> TX_MULTISIG \<or>
      (\<exists>m ks. vSolutions = [of_nat m] # ks @ [[of_nat (length ks)]] \<and> 1 \<le> m \<and> m \<le> length ks \<and> length ks \<le> 16 \<and> list_all ValidSize ks))
    \<and> (\<not> (list_all ValidSize keys \<and> 1 \<le> req \<and> req \<le> length keys \<and> length keys \<le> 16)
       \<or> (\<exists>script. GetScriptForMultisig (int req) (map CPubKey keys) = Some script
            \<and> Solver script = (True, TX_MULTISIG, [of_nat req] # keys @ [[of_nat (length keys)]])))"
proof
  show "case Solver s of (ok, whichType, vSolutions) \<Rightarrow> whichType \<noteq> TX_MULTISIG \<or>
      (\<exists>m ks. vSolutions = [of_nat m] # ks @ [[of_nat (length ks)]] \<and> 1 \<le> m \<and> m \<le> length ks \<and> length ks \<le> 16 \<and> list_all ValidSize ks)"
  proof (cases "Solver s")
    case (fields ok t v)
    show ?thesis
    proof (cases "t = TX_MULTISIG")
      case True
      with fields Solver_multisigD [of s ok v] obtain m ks where "MatchMultisig s = Some (m, ks)"
        "v = [of_nat m] # ks @ [[of_nat (length ks)]]" by blast
      with fields MatchMultisig_sound [of s m ks] show ?thesis by (simp only: prod.case) blast
    qed (simp add: fields)
  qed
  have "\<exists>script. GetScriptForMultisig (int req) (map CPubKey keys) = Some script
            \<and> Solver script = (True, TX_MULTISIG, [of_nat req] # keys @ [[of_nat (length keys)]])"
    if v: "list_all ValidSize keys" and r: "1 \<le> req" "req \<le> length keys" "length keys \<le> 16"
  proof -
    have n: "req \<le> 16" "1 \<le> length keys" using r by simp_all
    note em = EncodeOP_N_small [OF r(1) n(1)] and en = EncodeOP_N_small [OF n(2) r(3)]
    have b: "map (\<lambda>key. script_push_data (pubkey_bytes key)) (map CPubKey keys) = map script_push_data keys"
      using v by (auto simp: list_all_iff pubkey_bytes_def pubkey_size_def ValidSize_def)
    let ?s = "of_nat (80 + req) # concat (map script_push_data keys) @ [of_nat (80 + length keys), OP_CHECKMULTISIG]"
    have "GetScriptForMultisig (int req) (map CPubKey keys) = Some ?s"
      unfolding GetScriptForMultisig_def b using em(1) en(1) by (simp del: of_nat_add)
    moreover have "length ?s \<noteq> 34"
    proof -
      obtain k ks where k: "keys = k # ks" using n(2) by (cases keys) auto
      then have "length k = 33 \<or> length k = 65" using v ValidSize_length by simp
      then have "34 \<le> length (script_push_data k)" by (auto simp: length_push_data)
      then show ?thesis by (simp add: k)
    qed
    ultimately show ?thesis
      using Solver_multisig [OF MatchMultisig_built [OF v r]] em(2) by (simp del: of_nat_add)
  qed
  then show "\<not> (list_all ValidSize keys \<and> 1 \<le> req \<and> req \<le> length keys \<and> length keys \<le> 16)
       \<or> (\<exists>script. GetScriptForMultisig (int req) (map CPubKey keys) = Some script
            \<and> Solver script = (True, TX_MULTISIG, [of_nat req] # keys @ [[of_nat (length keys)]]))" by blast
qed

text \<open>
  C38. Miner registrations are contracts to the solver.  A compiled coin-lock or PoW-lock registration is matched as a
  registration with its key, lock time and key hash, but \<open>Solver\<close> reports it as a MESCAL contract, because the
  decompiler accepts it first; its registration types are never reported for such scripts, and no destination is
  extracted from them.
\<close>

theorem registration_is_contract:
  assumes "ValidSize pk" "length pk = 33" "length (CScriptNum_serialize n) \<le> 4" "length h = 20"
    and "length nonce = 4" "length ch = 32"
  shows "MatchCoinLockRegistration (coin_lock_script pk n h) = Some (pubkey_Set pk, n, uint160_of h)
    \<and> MatchPoWLockRegistration (pow_lock_script nonce ch pk n h) = Some (nonce, uint256_of ch, pubkey_Set pk, n, uint160_of h)
    \<and> Solver (coin_lock_script pk n h) = (True, TX_MESCAL_CONTRACT, [])
    \<and> Solver (pow_lock_script nonce ch pk n h) = (True, TX_MESCAL_CONTRACT, [])
    \<and> ExtractDestination Hash160 (coin_lock_script pk n h) = None
    \<and> ExtractDestination Hash160 (pow_lock_script nonce ch pk n h) = None"
  using assms by (simp add: MatchCoinLock_built MatchPoWLock_built Solver_coin_lock Solver_pow_lock ExtractDestination_def)

theorem registration_is_contract_witness:
  "ValidSize (3 # replicate 32 1) \<and> Solver (coin_lock_script (3 # replicate 32 1) 12000 (replicate 20 4)) = (True, TX_MESCAL_CONTRACT, [])"
proof -
  have v: "ValidSize (3 # replicate 32 1)" by (simp add: ValidSize_def GetLen_def COMPRESSED_PUBLIC_KEY_SIZE_def)
  have n: "length (CScriptNum_serialize 12000) \<le> 4" by (simp add: CScriptNum_serialize_def scriptnum_bytes.simps)
  have l: "length (3 # replicate 32 (1 :: u8)) = 33" "length (replicate 20 (4 :: u8)) = 20"
    "length (replicate 4 (0 :: u8)) = 4" "length (replicate 32 (0 :: u8)) = 32" by simp_all
  show ?thesis using registration_is_contract [OF v l(1) n l(2-4), of "\<lambda>_. 0"] v by blast
qed

end
