(* ===== verification/Coins.thy ===== *)
theory Coins
  imports Transaction "HOL-Library.AList"
begin

text \<open>
  The set of unspent outputs (\<open>src/src/coins.h\<close>, \<open>coins.cpp\<close>, and \<open>CCoinsViewDB\<close> of \<open>txdb.cpp\<close>): a stack of
  caches over a database.  A \<open>CCoinsViewCache\<close> keeps entries flagged \<open>DIRTY\<close> and \<open>FRESH\<close> over its base view; the
  stack is the list of the caches, top first, and the last one has the database as its base, so a call through
  \<open>base->\<close> is a call on the tail of the list.  Reading is not pure: \<open>FetchCoin\<close> fills every cache it passes.
  \<open>std::unordered_map\<close> is an association list in the order of iteration.  \<open>cachedCoinsUsage\<close>, a memory statistic,
  is left out.  The specification is the map \<open>utxo\<close> of the unspent outputs, and the cache operations are shown to
  implement the map operations under the invariant \<open>cache_inv\<close>.
\<close>

section \<open>Coins and cache entries\<close>

record Coin =
  fCoinBase :: bool
  fCoinStake :: bool
  coin_out :: CTxOut
  coin_nHeight :: u32

definition new_Coin :: "CTxOut \<Rightarrow> int \<Rightarrow> bool \<Rightarrow> bool \<Rightarrow> Coin" where
  "new_Coin outIn nHeightIn fCoinBaseIn fCoinStakeIn =
     \<lparr>fCoinBase = fCoinBaseIn, fCoinStake = fCoinStakeIn, coin_out = outIn, coin_nHeight = word_of_int nHeightIn\<rparr>"

definition Coin_Clear :: "Coin \<Rightarrow> Coin" where
  "Coin_Clear c = c\<lparr>coin_out := CTxOut_SetNull, fCoinBase := False, fCoinStake := False, coin_nHeight := 0\<rparr>"

definition coinEmpty :: Coin where
  "coinEmpty = \<lparr>fCoinBase = False, fCoinStake = False, coin_out = CTxOut_SetNull, coin_nHeight = 0\<rparr>"

definition IsSpent :: "Coin \<Rightarrow> bool" where
  "IsSpent c \<longleftrightarrow> CTxOut_IsNull (coin_out c)"

record CCoinsCacheEntry =
  ce_coin :: Coin
  ce_flags :: u8

definition DIRTY :: u8 where "DIRTY = push_bit 0 1"
definition FRESH :: u8 where "FRESH = push_bit 1 1"

definition has_flag :: "u8 \<Rightarrow> CCoinsCacheEntry \<Rightarrow> bool" where
  "has_flag f e \<longleftrightarrow> ce_flags e AND f \<noteq> 0"

type_synonym CCoinsMap = "(COutPoint \<times> CCoinsCacheEntry) list"

record CCoinsViewCache =
  hashBlock :: uint256
  cacheCoins :: CCoinsMap

record CCoinsViewDB =
  db_coins :: "(COutPoint \<times> Coin) list"
  db_best_block :: "uint256 option"

section \<open>The database\<close>

definition db_GetCoin :: "CCoinsViewDB \<Rightarrow> COutPoint \<Rightarrow> Coin option" where
  "db_GetCoin db outpoint = map_of (db_coins db) outpoint"

definition db_HaveCoin :: "CCoinsViewDB \<Rightarrow> COutPoint \<Rightarrow> bool" where
  "db_HaveCoin db outpoint \<longleftrightarrow> map_of (db_coins db) outpoint \<noteq> None"

definition db_GetBestBlock :: "CCoinsViewDB \<Rightarrow> uint256" where
  "db_GetBestBlock db = (case db_best_block db of None \<Rightarrow> 0 | Some h \<Rightarrow> h)"

fun db_batch :: "CCoinsMap \<Rightarrow> (COutPoint \<times> Coin) list \<Rightarrow> (COutPoint \<times> Coin) list" where
  "db_batch [] m = m"
| "db_batch ((op, e) # mapCoins) m =
     db_batch mapCoins
       (if has_flag DIRTY e then
          if IsSpent (ce_coin e) then AList.delete op m else AList.update op (ce_coin e) m
        else m)"

definition db_BatchWrite :: "CCoinsMap \<Rightarrow> uint256 \<Rightarrow> CCoinsViewDB \<Rightarrow> CCoinsViewDB" where
  "db_BatchWrite mapCoins hash db =
     db\<lparr>db_coins := db_batch mapCoins (db_coins db),
        db_best_block := (if hash \<noteq> 0 then Some hash else db_best_block db)\<rparr>"

section \<open>Reading through the caches\<close>

text \<open>\<open>FetchCoin\<close> on the empty list is \<open>GetCoin\<close> of the database.\<close>

fun FetchCoin :: "CCoinsViewDB \<Rightarrow> COutPoint \<Rightarrow> CCoinsViewCache list \<Rightarrow> CCoinsCacheEntry option \<times> CCoinsViewCache list" where
  "FetchCoin db op [] = (map_option (\<lambda>c. \<lparr>ce_coin = c, ce_flags = 0\<rparr>) (db_GetCoin db op), [])"
| "FetchCoin db op (c # base) =
     (case map_of (cacheCoins c) op of
        Some e \<Rightarrow> (Some e, c # base)
      | None \<Rightarrow>
          (case FetchCoin db op base of
             (None, base) \<Rightarrow> (None, c # base)
           | (Some e, base) \<Rightarrow>
               let ret = \<lparr>ce_coin = ce_coin e, ce_flags = (if IsSpent (ce_coin e) then FRESH else 0)\<rparr>
               in (Some ret, c\<lparr>cacheCoins := AList.update op ret (cacheCoins c)\<rparr> # base)))"

definition GetCoin :: "CCoinsViewDB \<Rightarrow> COutPoint \<Rightarrow> CCoinsViewCache list \<Rightarrow> Coin option \<times> CCoinsViewCache list" where
  "GetCoin db op cs = (case FetchCoin db op cs of (r, cs) \<Rightarrow> (map_option ce_coin r, cs))"

definition AccessCoin :: "CCoinsViewDB \<Rightarrow> COutPoint \<Rightarrow> CCoinsViewCache list \<Rightarrow> Coin \<times> CCoinsViewCache list" where
  "AccessCoin db op cs =
     (case FetchCoin db op cs of (None, cs) \<Rightarrow> (coinEmpty, cs) | (Some e, cs) \<Rightarrow> (ce_coin e, cs))"

definition HaveCoin :: "CCoinsViewDB \<Rightarrow> COutPoint \<Rightarrow> CCoinsViewCache list \<Rightarrow> bool \<times> CCoinsViewCache list" where
  "HaveCoin db op cs =
     (case FetchCoin db op cs of (None, cs) \<Rightarrow> (False, cs) | (Some e, cs) \<Rightarrow> (\<not> IsSpent (ce_coin e), cs))"

definition HaveCoinInCache :: "COutPoint \<Rightarrow> CCoinsViewCache \<Rightarrow> bool" where
  "HaveCoinInCache op c \<longleftrightarrow> map_of (cacheCoins c) op \<noteq> None"

fun GetBestBlock :: "CCoinsViewDB \<Rightarrow> CCoinsViewCache list \<Rightarrow> uint256 \<times> CCoinsViewCache list" where
  "GetBestBlock db [] = (db_GetBestBlock db, [])"
| "GetBestBlock db (c # base) =
     (if hashBlock c = 0 then
        case GetBestBlock db base of (h, base) \<Rightarrow> (h, c\<lparr>hashBlock := h\<rparr> # base)
      else (hashBlock c, c # base))"

definition SetBestBlock :: "uint256 \<Rightarrow> CCoinsViewCache \<Rightarrow> CCoinsViewCache" where
  "SetBestBlock hashBlockIn c = c\<lparr>hashBlock := hashBlockIn\<rparr>"

section \<open>Changing the top cache\<close>

datatype coins_error = AssertSpent | ReplacesNonPruned | FreshMisapplied

definition AddCoin :: "COutPoint \<Rightarrow> Coin \<Rightarrow> bool \<Rightarrow> CCoinsViewCache \<Rightarrow> coins_error + CCoinsViewCache" where
  "AddCoin outpoint coin possible_overwrite c =
     (if IsSpent coin then Inl AssertSpent
      else if IsUnspendable (scriptPubKey (coin_out coin)) then Inr c
      else
        let e = (case map_of (cacheCoins c) outpoint of None \<Rightarrow> \<lparr>ce_coin = coinEmpty, ce_flags = 0\<rparr> | Some e \<Rightarrow> e)
        in if \<not> possible_overwrite \<and> \<not> IsSpent (ce_coin e) then Inl ReplacesNonPruned
           else
             let fresh = (\<not> possible_overwrite \<and> \<not> has_flag DIRTY e)
             in Inr (c\<lparr>cacheCoins := AList.update outpoint
                         \<lparr>ce_coin = coin, ce_flags = ce_flags e OR (DIRTY OR (if fresh then FRESH else 0))\<rparr>
                         (cacheCoins c)\<rparr>))"

fun AddCoins_loop :: "uint256 \<Rightarrow> bool \<Rightarrow> bool \<Rightarrow> int \<Rightarrow> nat \<Rightarrow> CTxOut list \<Rightarrow> CCoinsViewCache \<Rightarrow> coins_error + CCoinsViewCache" where
  "AddCoins_loop txid fCoinbase fCoinstake nHeight i [] c = Inr c"
| "AddCoins_loop txid fCoinbase fCoinstake nHeight i (out # outs) c =
     (case AddCoin \<lparr>op_hash = txid, op_n = of_nat i\<rparr> (new_Coin out nHeight fCoinbase fCoinstake) False c of
        Inl err \<Rightarrow> Inl err
      | Inr c \<Rightarrow> AddCoins_loop txid fCoinbase fCoinstake nHeight (Suc i) outs c)"

definition AddCoins :: "(bytes \<Rightarrow> uint256) \<Rightarrow> CTransaction \<Rightarrow> int \<Rightarrow> CCoinsViewCache \<Rightarrow> coins_error + CCoinsViewCache" where
  "AddCoins Hash tx nHeight c =
     AddCoins_loop (tx_GetHash Hash tx) (IsCoinBase tx) (IsCoinStake tx) nHeight 0 (vout tx) c"

text \<open>\<open>SpendCoin\<close> returns what it stores through \<open>moveout\<close>, \<open>None\<close> when it returns before that.\<close>

definition SpendCoin :: "CCoinsViewDB \<Rightarrow> COutPoint \<Rightarrow> CCoinsViewCache list \<Rightarrow> Coin option \<times> CCoinsViewCache list" where
  "SpendCoin db op cs =
     (case FetchCoin db op cs of
        (Some e, c # base) \<Rightarrow>
          (Some (ce_coin e),
           (if has_flag FRESH e then c\<lparr>cacheCoins := AList.delete op (cacheCoins c)\<rparr>
            else c\<lparr>cacheCoins := AList.update op \<lparr>ce_coin = Coin_Clear (ce_coin e), ce_flags = ce_flags e OR DIRTY\<rparr>
                     (cacheCoins c)\<rparr>) # base)
      | (_, cs) \<Rightarrow> (None, cs))"

definition Uncache :: "COutPoint \<Rightarrow> CCoinsViewCache \<Rightarrow> CCoinsViewCache" where
  "Uncache op c =
     (case map_of (cacheCoins c) op of
        Some e \<Rightarrow> if ce_flags e = 0 then c\<lparr>cacheCoins := AList.delete op (cacheCoins c)\<rparr> else c
      | None \<Rightarrow> c)"

definition GetCacheSize :: "CCoinsViewCache \<Rightarrow> nat" where
  "GetCacheSize c = length (cacheCoins c)"

section \<open>Flushing into the base\<close>

definition batch_entry :: "COutPoint \<Rightarrow> CCoinsCacheEntry \<Rightarrow> CCoinsMap \<Rightarrow> coins_error + CCoinsMap" where
  "batch_entry op e m =
     (if \<not> has_flag DIRTY e then Inr m
      else case map_of m op of
        None \<Rightarrow>
          if has_flag FRESH e \<and> IsSpent (ce_coin e) then Inr m
          else Inr (AList.update op
                      \<lparr>ce_coin = ce_coin e, ce_flags = (if has_flag FRESH e then DIRTY OR FRESH else DIRTY)\<rparr> m)
      | Some us \<Rightarrow>
          if has_flag FRESH e \<and> \<not> IsSpent (ce_coin us) then Inl FreshMisapplied
          else if has_flag FRESH us \<and> IsSpent (ce_coin e) then Inr (AList.delete op m)
          else Inr (AList.update op \<lparr>ce_coin = ce_coin e, ce_flags = ce_flags us OR DIRTY\<rparr> m))"

fun batch_loop :: "CCoinsMap \<Rightarrow> CCoinsMap \<Rightarrow> coins_error + CCoinsMap" where
  "batch_loop [] m = Inr m"
| "batch_loop ((op, e) # mapCoins) m =
     (case batch_entry op e m of Inl err \<Rightarrow> Inl err | Inr m \<Rightarrow> batch_loop mapCoins m)"

definition BatchWrite :: "CCoinsMap \<Rightarrow> uint256 \<Rightarrow> CCoinsViewCache \<Rightarrow> coins_error + CCoinsViewCache" where
  "BatchWrite mapCoins hashBlockIn c =
     (case batch_loop mapCoins (cacheCoins c) of
        Inl err \<Rightarrow> Inl err
      | Inr m \<Rightarrow> Inr (c\<lparr>cacheCoins := m, hashBlock := hashBlockIn\<rparr>))"

fun Flush :: "CCoinsViewDB \<Rightarrow> CCoinsViewCache list \<Rightarrow> coins_error + CCoinsViewDB \<times> CCoinsViewCache list" where
  "Flush db [] = Inr (db, [])"
| "Flush db [c] = Inr (db_BatchWrite (cacheCoins c) (hashBlock c) db, [c\<lparr>cacheCoins := []\<rparr>])"
| "Flush db (c # p # base) =
     (case BatchWrite (cacheCoins c) (hashBlock c) p of
        Inl err \<Rightarrow> Inl err
      | Inr p \<Rightarrow> Inr (db, c\<lparr>cacheCoins := []\<rparr> # p # base))"

section \<open>Sums over the inputs of a transaction\<close>

fun GetValueIn_loop :: "CCoinsViewDB \<Rightarrow> int \<Rightarrow> CTxIn list \<Rightarrow> CCoinsViewCache list \<Rightarrow> int \<times> CCoinsViewCache list" where
  "GetValueIn_loop db nResult [] cs = (nResult, cs)"
| "GetValueIn_loop db nResult (i # ins) cs =
     (case AccessCoin db (prevout i) cs of
        (coin, cs) \<Rightarrow> GetValueIn_loop db (wrap64 (nResult + nValue (coin_out coin))) ins cs)"

definition GetValueIn :: "CCoinsViewDB \<Rightarrow> CTransaction \<Rightarrow> CCoinsViewCache list \<Rightarrow> int \<times> CCoinsViewCache list" where
  "GetValueIn db tx cs = (if IsCoinBase tx then (0, cs) else GetValueIn_loop db 0 (vin tx) cs)"

fun HaveInputs_loop :: "CCoinsViewDB \<Rightarrow> CTxIn list \<Rightarrow> CCoinsViewCache list \<Rightarrow> bool \<times> CCoinsViewCache list" where
  "HaveInputs_loop db [] cs = (True, cs)"
| "HaveInputs_loop db (i # ins) cs =
     (case HaveCoin db (prevout i) cs of
        (False, cs) \<Rightarrow> (False, cs)
      | (True, cs) \<Rightarrow> HaveInputs_loop db ins cs)"

definition HaveInputs :: "CCoinsViewDB \<Rightarrow> CTransaction \<Rightarrow> CCoinsViewCache list \<Rightarrow> bool \<times> CCoinsViewCache list" where
  "HaveInputs db tx cs = (if IsCoinBase tx then (True, cs) else HaveInputs_loop db (vin tx) cs)"

text \<open>\<open>nHeight - coin.nHeight + 1\<close> is computed in \<open>uint32_t\<close> and converted to \<open>int\<close>.\<close>

definition GetCoinDepthAtHeight :: "CCoinsViewDB \<Rightarrow> COutPoint \<Rightarrow> int \<Rightarrow> CCoinsViewCache list \<Rightarrow> int \<times> CCoinsViewCache list" where
  "GetCoinDepthAtHeight db op nHeight cs =
     (case AccessCoin db op cs of
        (coin, cs) \<Rightarrow>
          (if \<not> IsSpent coin then sint (word_of_int nHeight - coin_nHeight coin + 1 :: u32) else - 1, cs))"

text \<open>\<open>MAX_OUTPUTS_PER_BLOCK\<close> divides the block size by the nine bytes of an empty output.\<close>

definition MAX_OUTPUTS_PER_BLOCK :: nat where
  "MAX_OUTPUTS_PER_BLOCK = 8000000 div length (put_txout CTxOut_SetNull)"

fun AccessByTxid_loop :: "CCoinsViewDB \<Rightarrow> uint256 \<Rightarrow> nat \<Rightarrow> u32 \<Rightarrow> CCoinsViewCache list \<Rightarrow> Coin \<times> CCoinsViewCache list" where
  "AccessByTxid_loop db txid 0 n cs = (coinEmpty, cs)"
| "AccessByTxid_loop db txid (Suc left) n cs =
     (case AccessCoin db \<lparr>op_hash = txid, op_n = n\<rparr> cs of
        (alternate, cs) \<Rightarrow>
          if \<not> IsSpent alternate then (alternate, cs) else AccessByTxid_loop db txid left (n + 1) cs)"

definition AccessByTxid :: "CCoinsViewDB \<Rightarrow> uint256 \<Rightarrow> CCoinsViewCache list \<Rightarrow> Coin \<times> CCoinsViewCache list" where
  "AccessByTxid db txid cs = AccessByTxid_loop db txid MAX_OUTPUTS_PER_BLOCK 0 cs"

section \<open>Specification\<close>

text \<open>
  The unspent output a coin stands for, the map a stack of caches represents, and the invariant: an entry that is
  \<open>FRESH\<close> hides no unspent output of the base, and one that is not \<open>DIRTY\<close> agrees with the base.
\<close>

definition unspent :: "Coin \<Rightarrow> Coin option" where
  "unspent c = (if IsSpent c then None else Some c)"

fun utxo :: "CCoinsViewDB \<Rightarrow> CCoinsViewCache list \<Rightarrow> COutPoint \<Rightarrow> Coin option" where
  "utxo db [] op = Option.bind (db_GetCoin db op) unspent"
| "utxo db (c # base) op =
     (case map_of (cacheCoins c) op of Some e \<Rightarrow> unspent (ce_coin e) | None \<Rightarrow> utxo db base op)"

definition entry_ok :: "Coin option \<Rightarrow> CCoinsCacheEntry \<Rightarrow> bool" where
  "entry_ok below e \<longleftrightarrow>
     (has_flag FRESH e \<longrightarrow> below = None) \<and> (has_flag DIRTY e \<or> unspent (ce_coin e) = below)"

definition map_ok :: "(COutPoint \<Rightarrow> Coin option) \<Rightarrow> CCoinsMap \<Rightarrow> bool" where
  "map_ok below m \<longleftrightarrow> distinct (map fst m) \<and> list_all (\<lambda>(op, e). entry_ok (below op) e) m"

fun cache_inv :: "CCoinsViewDB \<Rightarrow> CCoinsViewCache list \<Rightarrow> bool" where
  "cache_inv db [] \<longleftrightarrow> True"
| "cache_inv db (c # base) \<longleftrightarrow> map_ok (utxo db base) (cacheCoins c) \<and> cache_inv db base"

lemma flags [simp]:
  "has_flag h \<lparr>ce_coin = c, ce_flags = f OR g\<rparr> \<longleftrightarrow>
     has_flag h \<lparr>ce_coin = c, ce_flags = f\<rparr> \<or> has_flag h \<lparr>ce_coin = c, ce_flags = g\<rparr>"
  "has_flag DIRTY \<lparr>ce_coin = c, ce_flags = DIRTY\<rparr>" "has_flag FRESH \<lparr>ce_coin = c, ce_flags = FRESH\<rparr>"
  "\<not> has_flag DIRTY \<lparr>ce_coin = c, ce_flags = FRESH\<rparr>" "\<not> has_flag FRESH \<lparr>ce_coin = c, ce_flags = DIRTY\<rparr>"
  "\<not> has_flag h \<lparr>ce_coin = c, ce_flags = 0\<rparr>"
  "has_flag h \<lparr>ce_coin = c, ce_flags = ce_flags e\<rparr> = has_flag h e"
  by (auto simp: has_flag_def DIRTY_def FRESH_def bit.conj_disj_distrib2 or_eq_0_iff)

lemma unspent_simps [simp]:
  "unspent coinEmpty = None" "unspent (Coin_Clear c) = None" "IsSpent coinEmpty" "IsSpent (Coin_Clear c)"
  by (simp_all add: unspent_def IsSpent_def coinEmpty_def Coin_Clear_def CTxOut_IsNull_def CTxOut_SetNull_def)

lemma unspent_eq: "unspent c = None \<longleftrightarrow> IsSpent c" "\<not> IsSpent c \<Longrightarrow> unspent c = Some c" "IsSpent c \<Longrightarrow> unspent c = None"
  by (simp_all add: unspent_def)

lemma map_ok_lookup: "map_ok below m \<Longrightarrow> map_of m op = Some e \<Longrightarrow> entry_ok (below op) e"
  by (auto simp: map_ok_def list_all_iff dest: map_of_SomeD)

lemma map_ok_update: "map_ok below m \<Longrightarrow> entry_ok (below op) e \<Longrightarrow> map_ok below (AList.update op e m)"
proof -
  assume a: "map_ok below m" "entry_ok (below op) e"
  then have d: "distinct (map fst (AList.update op e m))" by (simp add: map_ok_def distinct_update)
  moreover have "entry_ok (below op') e'" if "(op', e') \<in> set (AList.update op e m)" for op' e'
    using map_of_is_SomeI [OF d that] a map_ok_lookup [OF a(1), of op' e'] by (auto simp: update_conv' split: if_splits)
  ultimately show ?thesis by (auto simp: map_ok_def list_all_iff)
qed

lemma map_ok_delete: "map_ok below m \<Longrightarrow> map_ok below (AList.delete op m)"
  using distinct_delete [of m op] by (auto simp: map_ok_def list_all_iff AList.delete_eq)

lemma map_of_delete: "map_of (AList.delete op m) op' = (if op' = op then None else map_of m op')"
  by (simp add: delete_conv')

lemma utxo_update:
  "utxo db (c\<lparr>cacheCoins := AList.update op e (cacheCoins c)\<rparr> # base) = (utxo db (c # base))(op := unspent (ce_coin e))"
  by (simp add: fun_eq_iff update_conv')

lemma utxo_delete:
  "utxo db (c\<lparr>cacheCoins := AList.delete op (cacheCoins c)\<rparr> # base) = (utxo db (c # base))(op := utxo db base op)"
  by (simp add: fun_eq_iff map_of_delete)

lemma utxo_base: "utxo db base' = utxo db base \<Longrightarrow> utxo db (c # base') = utxo db (c # base)"
  by (simp add: fun_eq_iff split: option.split)


lemma FetchCoin_spec:
  assumes "cache_inv db cs" "FetchCoin db op cs = (r, cs')"
  shows "cache_inv db cs' \<and> utxo db cs' = utxo db cs \<and> length cs' = length cs
    \<and> Option.bind r (\<lambda>e. unspent (ce_coin e)) = utxo db cs op
    \<and> (\<forall>e c base. r = Some e \<longrightarrow> cs' = c # base \<longrightarrow> map_of (cacheCoins c) op = Some e)"
  using assms
proof (induction cs arbitrary: r cs')
  case Nil
  then show ?case by (cases "db_GetCoin db op") auto
next
  case (Cons c base)
  show ?case
  proof (cases "map_of (cacheCoins c) op")
    case None
    obtain r1 base1 where f: "FetchCoin db op base = (r1, base1)" by fastforce
    have ih: "cache_inv db base1" "utxo db base1 = utxo db base" "length base1 = length base"
      "Option.bind r1 (\<lambda>e. unspent (ce_coin e)) = utxo db base op"
      using Cons.IH [OF _ f] Cons.prems(1) by auto
    show ?thesis
    proof (cases r1)
      case (Some e)
      have "unspent (ce_coin e) = utxo db base op" using ih(4) Some by simp
      moreover define ret where
        "ret = \<lparr>ce_coin = ce_coin e, ce_flags = (if IsSpent (ce_coin e) then FRESH else 0)\<rparr>"
      ultimately have ok: "entry_ok (utxo db base op) ret"
        using unspent_eq(3) [of "ce_coin e"] by (auto simp: entry_ok_def)
      have eq: "r = Some ret" "cs' = c\<lparr>cacheCoins := AList.update op ret (cacheCoins c)\<rparr> # base1"
        using Cons.prems(2) None f Some by (auto simp: Let_def ret_def)
      have "utxo db cs' = utxo db (c # base)"
        using None \<open>unspent (ce_coin e) = utxo db base op\<close>
        unfolding eq utxo_update utxo_base [OF ih(2)] by (simp add: fun_eq_iff ret_def)
      moreover have "unspent (ce_coin ret) = utxo db (c # base) op"
        using None \<open>unspent (ce_coin e) = utxo db base op\<close> by (simp add: ret_def)
      ultimately show ?thesis using eq ih ok Cons.prems(1) by (auto simp: update_conv' intro: map_ok_update)
    next
      case None
      have eq: "r = None" "cs' = c # base1" using Cons.prems(2) \<open>map_of (cacheCoins c) op = None\<close> f None by auto
      show ?thesis using utxo_base [OF ih(2), of c] ih None Cons.prems(1) \<open>map_of (cacheCoins c) op = None\<close>
        unfolding eq by simp
    qed
  next
    case (Some e)
    then have "r = Some e" "cs' = c # base" using Cons.prems(2) by auto
    then show ?thesis using Some Cons.prems(1) by simp
  qed
qed

lemma SpendCoin_spec:
  assumes "cache_inv db cs" "cs \<noteq> []" "SpendCoin db op cs = (r, cs')"
  shows "cache_inv db cs'" "cs' \<noteq> []" "utxo db cs' = (utxo db cs)(op := None)" "Option.bind r unspent = utxo db cs op"
proof -
  obtain r1 cs1 where f: "FetchCoin db op cs = (r1, cs1)" by fastforce
  note s = FetchCoin_spec [OF assms(1) f]
  obtain c base where cs1: "cs1 = c # base" using s assms(2) by (cases cs1) auto
  have "cache_inv db cs' \<and> cs' \<noteq> [] \<and> utxo db cs' = (utxo db cs)(op := None) \<and> Option.bind r unspent = utxo db cs op"
  proof (cases r1)
    case None
    then have "utxo db cs op = None" using s by auto
    with None f s cs1 assms(3) show ?thesis by (auto simp: SpendCoin_def fun_eq_iff)
  next
    case (Some e)
    then have m: "map_of (cacheCoins c) op = Some e" using s cs1 by simp
    have i: "map_ok (utxo db base) (cacheCoins c)" "cache_inv db base" using s cs1 by auto
    have e: "entry_ok (utxo db base op) e" by (rule map_ok_lookup [OF i(1) m])
    have u: "utxo db cs = utxo db (c # base)" using s cs1 by simp
    have r: "Option.bind (Some (ce_coin e)) unspent = utxo db cs op" using s Some by simp
    show ?thesis
    proof (cases "has_flag FRESH e")
      case True
      then have eq: "r = Some (ce_coin e)" "cs' = c\<lparr>cacheCoins := AList.delete op (cacheCoins c)\<rparr> # base"
        using assms(3) f Some cs1 by (auto simp: SpendCoin_def)
      have "utxo db base op = None" using e True by (simp add: entry_ok_def)
      then show ?thesis unfolding eq utxo_delete u using i r u by (simp add: map_ok_delete)
    next
      case False
      define e' where "e' = \<lparr>ce_coin = Coin_Clear (ce_coin e), ce_flags = ce_flags e OR DIRTY\<rparr>"
      have eq: "r = Some (ce_coin e)" "cs' = c\<lparr>cacheCoins := AList.update op e' (cacheCoins c)\<rparr> # base"
        using False assms(3) f Some cs1 by (auto simp: SpendCoin_def e'_def)
      have "entry_ok (utxo db base op) e'" "unspent (ce_coin e') = None"
        using e False by (simp_all add: entry_ok_def e'_def)
      then show ?thesis unfolding eq utxo_update u using i r u by (simp add: map_ok_update)
    qed
  qed
  then show "cache_inv db cs'" "cs' \<noteq> []" "utxo db cs' = (utxo db cs)(op := None)" "Option.bind r unspent = utxo db cs op"
    by simp_all
qed

lemma AddCoin_spec:
  assumes "cache_inv db (c # base)" "\<not> IsSpent coin" "\<not> IsUnspendable (scriptPubKey (coin_out coin))"
    "ow \<or> utxo db (c # base) op = None"
  shows "\<exists>c'. AddCoin op coin ow c = Inr c' \<and> cache_inv db (c' # base)
    \<and> utxo db (c' # base) = (utxo db (c # base))(op \<mapsto> coin)"
proof -
  define e where
    "e = (case map_of (cacheCoins c) op of None \<Rightarrow> \<lparr>ce_coin = coinEmpty, ce_flags = 0\<rparr> | Some e \<Rightarrow> e)"
  define e' where
    "e' = \<lparr>ce_coin = coin, ce_flags = ce_flags e OR (DIRTY OR (if \<not> ow \<and> \<not> has_flag DIRTY e then FRESH else 0))\<rparr>"
  have i: "map_ok (utxo db base) (cacheCoins c)" using assms(1) by simp
  have sp: "ow \<or> IsSpent (ce_coin e)"
    using assms(4) by (auto simp: e_def unspent_eq split: option.splits)
  have "has_flag FRESH e \<Longrightarrow> utxo db base op = None"
    using map_ok_lookup [OF i] by (auto simp: e_def entry_ok_def split: option.splits)
  moreover have "utxo db base op = None" if "\<not> ow" "\<not> has_flag DIRTY e"
    using map_ok_lookup [OF i] that assms(4) by (fastforce simp: e_def entry_ok_def split: option.splits)
  ultimately have ok: "entry_ok (utxo db base op) e'"
    by (auto simp: e'_def entry_ok_def)
  have "AddCoin op coin ow c = Inr (c\<lparr>cacheCoins := AList.update op e' (cacheCoins c)\<rparr>)"
    using assms(2,3) sp by (simp add: AddCoin_def e_def [symmetric] e'_def Let_def)
  moreover have "unspent (ce_coin e') = Some coin" using assms(2) by (simp add: e'_def unspent_def)
  ultimately show ?thesis using ok i assms(1) utxo_update [where db = db and c = c and op = op and e = e' and base = base] by (simp add: map_ok_update)
qed

lemma Uncache_spec:
  assumes "cache_inv db (c # base)"
  shows "cache_inv db (Uncache op c # base)" "utxo db (Uncache op c # base) = utxo db (c # base)"
proof -
  have "cache_inv db (Uncache op c # base) \<and> utxo db (Uncache op c # base) = utxo db (c # base)"
  proof (cases "map_of (cacheCoins c) op")
    case (Some e)
    then have "entry_ok (utxo db base op) e" using map_ok_lookup assms by auto
    with Some assms show ?thesis
      by (auto simp: Uncache_def map_of_delete fun_eq_iff entry_ok_def has_flag_def intro!: map_ok_delete)
  qed (use assms in \<open>simp add: Uncache_def\<close>)
  then show "cache_inv db (Uncache op c # base)" "utxo db (Uncache op c # base) = utxo db (c # base)" by simp_all
qed


text \<open>Flushing: writing the entries of a child into its parent yields the map of the child.\<close>

definition overlay :: "CCoinsMap \<Rightarrow> (COutPoint \<Rightarrow> Coin option) \<Rightarrow> COutPoint \<Rightarrow> Coin option" where
  "overlay m below op = (case map_of m op of Some e \<Rightarrow> unspent (ce_coin e) | None \<Rightarrow> below op)"

lemma utxo_overlay: "utxo db (c # base) = overlay (cacheCoins c) (utxo db base)"
  by (simp add: fun_eq_iff overlay_def)

lemma overlay_update: "overlay (AList.update op e m) below = (overlay m below)(op := unspent (ce_coin e))"
  by (simp add: fun_eq_iff overlay_def update_conv')

lemma overlay_delete: "overlay (AList.delete op m) below = (overlay m below)(op := below op)"
  by (simp add: fun_eq_iff overlay_def map_of_delete)

lemma overlay_Nil [simp]: "overlay [] below = below"
  by (simp add: fun_eq_iff overlay_def)

lemma overlay_Cons: "distinct (map fst ((op, e) # m)) \<Longrightarrow> overlay ((op, e) # m) below = overlay m (below(op := unspent (ce_coin e)))"
  using map_of_eq_None_iff [of m op] by (simp add: fun_eq_iff overlay_def split: option.split)

lemma batch_entry_spec:
  assumes "map_ok below m" "entry_ok (overlay m below op) e"
  shows "\<exists>m'. batch_entry op e m = Inr m' \<and> map_ok below m' \<and> overlay m' below = (overlay m below)(op := unspent (ce_coin e))"
proof -
  have ok: "entry_ok (below op) us" if "map_of m op = Some us" for us by (rule map_ok_lookup [OF assms(1) that])
  consider "\<not> has_flag DIRTY e" | "has_flag DIRTY e" "map_of m op = None" | us where "has_flag DIRTY e" "map_of m op = Some us"
    by fastforce
  then show ?thesis
  proof cases
    case 1
    then show ?thesis using assms by (auto simp: batch_entry_def entry_ok_def)
  next
    case 2
    then have "overlay m below op = below op" by (simp add: overlay_def)
    then show ?thesis using 2 assms
      by (auto simp: batch_entry_def overlay_update entry_ok_def unspent_eq intro!: map_ok_update)
  next
    case 3
    have o: "overlay m below op = unspent (ce_coin us)" using 3 by (simp add: overlay_def)
    then have "\<not> (has_flag FRESH e \<and> \<not> IsSpent (ce_coin us))" using assms(2) by (auto simp: entry_ok_def unspent_eq)
    then show ?thesis using 3 assms(1) ok [OF 3(2)]
      by (auto simp: batch_entry_def overlay_update overlay_delete entry_ok_def unspent_eq intro!: map_ok_update map_ok_delete)
  qed
qed

lemma map_ok_Cons: "map_ok below ((op, e) # m) \<longleftrightarrow> op \<notin> fst ` set m \<and> entry_ok (below op) e \<and> map_ok below m"
  by (auto simp: map_ok_def)

lemma map_ok_fun_upd: "op \<notin> fst ` set m \<Longrightarrow> map_ok (below(op := x)) m = map_ok below m"
  by (induction m) (auto simp: map_ok_def)

lemma batch_loop_spec:
  assumes "map_ok below m" "map_ok (overlay m below) mapCoins"
  shows "\<exists>m'. batch_loop mapCoins m = Inr m' \<and> map_ok below m' \<and> overlay m' below = overlay mapCoins (overlay m below)"
  using assms
proof (induction mapCoins arbitrary: m)
  case (Cons x rest)
  obtain op e where x: "x = (op, e)" by fastforce
  have p: "op \<notin> fst ` set rest" "entry_ok (overlay m below op) e" "map_ok (overlay m below) rest"
    using Cons.prems(2) by (simp_all add: x map_ok_Cons)
  obtain m1 where m1: "batch_entry op e m = Inr m1" "map_ok below m1"
    "overlay m1 below = (overlay m below)(op := unspent (ce_coin e))"
    using batch_entry_spec [OF Cons.prems(1) p(2)] by blast
  have "map_ok (overlay m1 below) rest"
    using p(1,3) by (simp add: m1(3) map_ok_fun_upd)
  then obtain m2 where "batch_loop rest m1 = Inr m2" "map_ok below m2" "overlay m2 below = overlay rest (overlay m1 below)"
    using Cons.IH [OF m1(2)] by blast
  moreover have "overlay (x # rest) (overlay m below) = overlay rest (overlay m1 below)"
    using Cons.prems(2) by (simp add: x overlay_Cons map_ok_def m1(3))
  ultimately show ?case using m1(1) by (simp add: x)
qed auto

lemma db_batch_spec:
  assumes "map_ok (\<lambda>op. Option.bind (map_of m op) unspent) mapCoins"
  shows "(\<lambda>op. Option.bind (map_of (db_batch mapCoins m) op) unspent) = overlay mapCoins (\<lambda>op. Option.bind (map_of m op) unspent)"
  using assms
proof (induction mapCoins arbitrary: m)
  case (Cons x rest)
  obtain op e where x: "x = (op, e)" by fastforce
  define m1 where "m1 = (if has_flag DIRTY e then
          if IsSpent (ce_coin e) then AList.delete op m else AList.update op (ce_coin e) m else m)"
  have p: "op \<notin> fst ` set rest" "entry_ok (Option.bind (map_of m op) unspent) e" "map_ok (\<lambda>op. Option.bind (map_of m op) unspent) rest"
    using Cons.prems by (simp_all add: x map_ok_Cons)
  have m1: "(\<lambda>op. Option.bind (map_of m1 op) unspent) = (\<lambda>op. Option.bind (map_of m op) unspent)(op := unspent (ce_coin e))"
    using p(2) by (auto simp: m1_def fun_eq_iff map_of_delete update_conv' entry_ok_def unspent_eq)
  have "map_ok (\<lambda>op. Option.bind (map_of m1 op) unspent) rest"
    unfolding m1 using p(1,3) by (simp add: map_ok_fun_upd)
  from Cons.IH [OF this] show ?case
    using Cons.prems by (simp add: x m1_def [symmetric] m1 overlay_Cons map_ok_def)
qed auto


lemma Flush_spec:
  assumes "cache_inv db cs" "cs \<noteq> []"
  shows "\<exists>db' c' base'. Flush db cs = Inr (db', c' # base') \<and> cacheCoins c' = [] \<and> hashBlock c' = hashBlock (hd cs)
    \<and> cache_inv db' (c' # base') \<and> utxo db' (c' # base') = utxo db cs \<and> length base' = length (tl cs)
    \<and> utxo db' base' = utxo db cs"
proof (cases "tl cs")
  case Nil
  then obtain c where cs: "cs = [c]" using assms(2) by (cases cs) auto
  have n: "utxo db [] = (\<lambda>op. Option.bind (map_of (db_coins db) op) unspent)" for db
    by (simp add: fun_eq_iff db_GetCoin_def)
  have "map_ok (\<lambda>op. Option.bind (map_of (db_coins db) op) unspent) (cacheCoins c)"
    using assms(1) by (simp add: cs n [symmetric])
  from db_batch_spec [OF this]
  have "utxo (db_BatchWrite (cacheCoins c) h db) [] = utxo db cs" for h
    by (simp add: n db_BatchWrite_def cs utxo_overlay)
  then show ?thesis by (simp add: cs utxo_overlay map_ok_def)
next
  case (Cons p base)
  then obtain c where cs: "cs = c # p # base" using assms(2) by (cases cs) auto
  have "map_ok (utxo db base) (cacheCoins p)" "map_ok (overlay (cacheCoins p) (utxo db base)) (cacheCoins c)"
    using assms(1) by (simp_all add: cs utxo_overlay)
  then obtain m where "batch_loop (cacheCoins c) (cacheCoins p) = Inr m" "map_ok (utxo db base) m"
    "overlay m (utxo db base) = utxo db cs"
    using batch_loop_spec [of "utxo db base" "cacheCoins p" "cacheCoins c"] by (auto simp: cs utxo_overlay)
  then show ?thesis using assms(1) by (simp add: cs BatchWrite_def utxo_overlay map_ok_def)
qed


section \<open>The interface of a coins view\<close>

text \<open>
  What the callers of a coins view rely on: spending removes an output and hands out its coin, adding puts one in,
  and asking for one changes nothing that can be seen.
\<close>

locale utxo_view =
  fixes inv :: "'s \<Rightarrow> bool" and view :: "'s \<Rightarrow> COutPoint \<Rightarrow> Coin option"
    and spend :: "COutPoint \<Rightarrow> 's \<Rightarrow> Coin option \<times> 's"
    and add :: "COutPoint \<Rightarrow> Coin \<Rightarrow> bool \<Rightarrow> 's \<Rightarrow> coins_error + 's"
    and have_coin :: "COutPoint \<Rightarrow> 's \<Rightarrow> bool \<times> 's"
  assumes spend_inv: "inv s \<Longrightarrow> spend op s = (r, s') \<Longrightarrow> inv s'"
    and spend_view: "inv s \<Longrightarrow> spend op s = (r, s') \<Longrightarrow> view s' = (view s)(op := None)"
    and spend_coin: "inv s \<Longrightarrow> spend op s = (r, s') \<Longrightarrow> Option.bind r unspent = view s op"
    and add_ok: "inv s \<Longrightarrow> \<not> IsSpent coin \<Longrightarrow> \<not> IsUnspendable (scriptPubKey (coin_out coin)) \<Longrightarrow> ow \<or> view s op = None
      \<Longrightarrow> \<exists>s'. add op coin ow s = Inr s' \<and> inv s' \<and> view s' = (view s)(op \<mapsto> coin)"
    and add_unspendable: "\<not> IsSpent coin \<Longrightarrow> IsUnspendable (scriptPubKey (coin_out coin)) \<Longrightarrow> add op coin ow s = Inr s"
    and have_ok: "inv s \<Longrightarrow> have_coin op s = (b, s') \<Longrightarrow> inv s' \<and> view s' = view s \<and> b = (view s op \<noteq> None)"
begin

lemma spend_present:
  assumes "inv s" "view s op = Some coin" "spend op s = (r, s')"
  shows "r = Some coin"
  using spend_coin [OF assms(1,3)] assms(2) by (auto simp: bind_eq_Some_conv unspent_def split: if_splits)

lemma spend_then_add:
  assumes "inv s" "view s op = Some coin" "\<not> IsSpent coin" "\<not> IsUnspendable (scriptPubKey (coin_out coin))"
    "spend op s = (r, s')"
  shows "\<exists>s''. add op (the r) False s' = Inr s'' \<and> inv s'' \<and> view s'' = view s"
proof -
  have "view s' op = None" using spend_view [OF assms(1,5)] by simp
  then obtain s'' where "add op coin False s' = Inr s''" "inv s''" "view s'' = (view s')(op \<mapsto> coin)"
    using add_ok [OF spend_inv [OF assms(1,5)] assms(3,4)] by blast
  then show ?thesis
    using spend_present [OF assms(1,2,5)] spend_view [OF assms(1,5)] assms(2) by (auto simp: fun_eq_iff)
qed

lemma add_then_spend:
  assumes "inv s" "view s op = None" "\<not> IsSpent coin" "\<not> IsUnspendable (scriptPubKey (coin_out coin))"
    "add op coin ow s = Inr s'" "spend op s' = (r, s'')"
  shows "inv s'' \<and> view s'' = view s \<and> r = Some coin"
proof -
  have s': "inv s'" "view s' = (view s)(op \<mapsto> coin)" using add_ok [OF assms(1,3,4), of ow op] assms(2,5) by auto
  show ?thesis
    using spend_inv [OF s'(1) assms(6)] spend_view [OF s'(1) assms(6)] spend_present [OF s'(1) _ assms(6)] s'(2) assms(2)
    by (auto simp: fun_eq_iff)
qed

end

definition top_AddCoin :: "COutPoint \<Rightarrow> Coin \<Rightarrow> bool \<Rightarrow> CCoinsViewCache list \<Rightarrow> coins_error + CCoinsViewCache list" where
  "top_AddCoin op coin possible_overwrite cs =
     (case cs of
        [] \<Rightarrow> Inr []
      | c # base \<Rightarrow> (case AddCoin op coin possible_overwrite c of Inl err \<Rightarrow> Inl err | Inr c \<Rightarrow> Inr (c # base)))"

definition stack_inv :: "CCoinsViewDB \<Rightarrow> CCoinsViewCache list \<Rightarrow> bool" where
  "stack_inv db cs \<longleftrightarrow> cs \<noteq> [] \<and> cache_inv db cs"

lemma HaveCoin_spec:
  assumes "cache_inv db cs" "HaveCoin db op cs = (b, cs')"
  shows "cache_inv db cs' \<and> utxo db cs' = utxo db cs \<and> length cs' = length cs \<and> b = (utxo db cs op \<noteq> None)"
proof -
  obtain r cs1 where f: "FetchCoin db op cs = (r, cs1)" by fastforce
  show ?thesis using FetchCoin_spec [OF assms(1) f] f assms(2)
    by (cases r; cases "utxo db cs op") (auto simp: HaveCoin_def unspent_def split: if_splits)
qed

lemma AccessCoin_spec:
  assumes "cache_inv db cs" "AccessCoin db op cs = (coin, cs')"
  shows "cache_inv db cs' \<and> utxo db cs' = utxo db cs \<and> length cs' = length cs \<and> unspent coin = utxo db cs op"
proof -
  obtain r cs1 where f: "FetchCoin db op cs = (r, cs1)" by fastforce
  show ?thesis using FetchCoin_spec [OF assms(1) f] f assms(2) by (cases r) (auto simp: AccessCoin_def)
qed

interpretation cache: utxo_view "stack_inv db" "utxo db" "SpendCoin db" top_AddCoin "HaveCoin db" for db
proof (unfold_locales, goal_cases)
  case (4 s coin ow op)
  then obtain c base where s: "s = c # base" by (cases s) (auto simp: stack_inv_def)
  obtain c' where "AddCoin op coin ow c = Inr c' \<and> cache_inv db (c' # base)
    \<and> utxo db (c' # base) = (utxo db (c # base))(op \<mapsto> coin)"
    using AddCoin_spec [of db c base coin ow op] 4 by (auto simp: stack_inv_def s)
  then show ?case by (auto simp: top_AddCoin_def s stack_inv_def)
next
  case (6 s op b s')
  then show ?case using HaveCoin_spec [of db s op b s'] by (auto simp: stack_inv_def)
qed (auto simp: stack_inv_def top_AddCoin_def AddCoin_def split: list.split dest: SpendCoin_spec)

lemma HaveInputs_loop_spec:
  assumes "cache_inv db cs" "HaveInputs_loop db ins cs = (b, cs')"
  shows "cache_inv db cs' \<and> utxo db cs' = utxo db cs \<and> length cs' = length cs \<and>
    b = (\<forall>i \<in> set ins. utxo db cs (prevout i) \<noteq> None)"
  using assms
proof (induction ins arbitrary: cs)
  case (Cons i ins)
  obtain b1 cs1 where h: "HaveCoin db (prevout i) cs = (b1, cs1)" by fastforce
  note s = HaveCoin_spec [OF Cons.prems(1) h]
  show ?case
  proof (cases b1)
    case True
    then have "HaveInputs_loop db ins cs1 = (b, cs')" using Cons.prems(2) h by simp
    from Cons.IH [OF _ this] s True show ?thesis by simp
  next
    case False
    then show ?thesis using Cons.prems(2) h s by auto
  qed
qed auto

lemma GetValueIn_loop_spec:
  assumes "cache_inv db cs" "GetValueIn_loop db a ins cs = (v, cs')" "wf_int64 a"
    "\<forall>i \<in> set ins. utxo db cs (prevout i) \<noteq> None \<and> 0 \<le> nValue (coin_out (the (utxo db cs (prevout i))))"
    "0 \<le> a" "a + (\<Sum>i \<leftarrow> ins. nValue (coin_out (the (utxo db cs (prevout i))))) < 2 ^ 63"
  shows "cache_inv db cs' \<and> utxo db cs' = utxo db cs \<and> length cs' = length cs
    \<and> v = a + (\<Sum>i \<leftarrow> ins. nValue (coin_out (the (utxo db cs (prevout i)))))"
  using assms
proof (induction ins arbitrary: cs a)
  case (Cons i ins)
  obtain coin cs1 where h: "AccessCoin db (prevout i) cs = (coin, cs1)" by fastforce
  note s = AccessCoin_spec [OF Cons.prems(1) h]
  define x where "x = nValue (coin_out (the (utxo db cs (prevout i))))"
  define y where "y = (\<Sum>i \<leftarrow> ins. nValue (coin_out (the (utxo db cs (prevout i)))))"
  have c: "nValue (coin_out coin) = x" using s Cons.prems(4) by (auto simp: x_def unspent_def split: if_splits)
  have "0 \<le> y" unfolding y_def using Cons.prems(4) by (intro sum_list_nonneg) auto
  moreover have b: "a + x + y < 2 ^ 63" "0 \<le> x" using Cons.prems(4,6) by (simp_all add: x_def y_def)
  ultimately have w: "wf_int64 (a + x)" using Cons.prems(5) by (simp add: wf_int64_def)
  have "GetValueIn_loop db (a + x) ins cs1 = (v, cs')" using Cons.prems(2) h c wrap64_id [OF w] by simp
  from Cons.IH [OF _ this w] s b Cons.prems(4,5) show ?case by (auto simp: x_def y_def)
qed auto

section \<open>Properties\<close>

text \<open>
  C5. The coin cache implements a map of unspent outputs.  On every stack of caches that satisfies the invariant,
  \<open>SpendCoin\<close> hands out the unspent coin and removes exactly its outpoint from the map, \<open>AddCoin\<close> of a spendable
  coin never raises when overwriting is allowed or the outpoint is unused, and adds exactly that coin, \<open>Uncache\<close>
  changes nothing, and the invariant on the \<open>DIRTY\<close> and \<open>FRESH\<close> flags of every level is kept.
\<close>

theorem coin_cache_refines:
  assumes "cache_inv db (c # base)"
  shows "(let (r, cs') = SpendCoin db op (c # base)
      in cache_inv db cs' \<and> utxo db cs' = (utxo db (c # base))(op := None) \<and> Option.bind r unspent = utxo db (c # base) op)
    \<and> (\<not> IsSpent coin \<and> \<not> IsUnspendable (scriptPubKey (coin_out coin)) \<and> (ow \<or> utxo db (c # base) op = None) \<longrightarrow>
      (\<exists>c'. AddCoin op coin ow c = Inr c' \<and> cache_inv db (c' # base)
        \<and> utxo db (c' # base) = (utxo db (c # base))(op \<mapsto> coin)))
    \<and> cache_inv db (Uncache op c # base) \<and> utxo db (Uncache op c # base) = utxo db (c # base)"
proof -
  obtain r cs' where "SpendCoin db op (c # base) = (r, cs')" by fastforce
  from SpendCoin_spec [OF assms _ this] this show ?thesis
    using AddCoin_spec [OF assms] Uncache_spec [OF assms] by auto
qed

text \<open>
  C19. Flushing loses nothing.  For every stack that satisfies the invariant, \<open>Flush\<close> returns: the exception for a
  misapplied \<open>FRESH\<close> flag is never raised.  Afterwards the flushed cache is empty, the base alone represents the
  map the whole stack represented before, and the invariant holds on all levels.
\<close>

theorem Flush_preserves_utxo:
  assumes "cache_inv db (c # base)"
  shows "\<exists>db' c' base'. Flush db (c # base) = Inr (db', c' # base') \<and> cacheCoins c' = []
    \<and> utxo db' base' = utxo db (c # base) \<and> utxo db' (c' # base') = utxo db (c # base)
    \<and> cache_inv db' (c' # base')"
  using Flush_spec [OF assms] by auto

text \<open>
  Inputs of a transaction.  \<open>HaveInputs\<close> answers exactly whether every input of a non-coinbase transaction is
  unspent, and when it does and the spent amounts stay below \<open>2^63\<close>, \<open>GetValueIn\<close> returns their sum; neither changes the
  represented map, although both fill the caches.
\<close>

lemma inputs_value:
  assumes "cache_inv db cs" "\<not> IsCoinBase tx"
  shows "\<exists>cs'. HaveInputs db tx cs = (list_all (\<lambda>i. utxo db cs (prevout i) \<noteq> None) (vin tx), cs')
    \<and> cache_inv db cs' \<and> utxo db cs' = utxo db cs
    \<and> (list_all (\<lambda>i. utxo db cs (prevout i) \<noteq> None \<and> 0 \<le> nValue (coin_out (the (utxo db cs (prevout i))))) (vin tx)
       \<and> (\<Sum>i \<leftarrow> vin tx. nValue (coin_out (the (utxo db cs (prevout i))))) < 2 ^ 63
       \<longrightarrow> fst (GetValueIn db tx cs') = (\<Sum>i \<leftarrow> vin tx. nValue (coin_out (the (utxo db cs (prevout i))))))"
proof -
  obtain b cs' where h: "HaveInputs_loop db (vin tx) cs = (b, cs')" by fastforce
  note s = HaveInputs_loop_spec [OF assms(1) h]
  obtain v cs2 where g: "GetValueIn_loop db 0 (vin tx) cs' = (v, cs2)" by fastforce
  show ?thesis
    using s h g assms(2) GetValueIn_loop_spec [OF _ g]
    by (intro exI [of _ cs']) (auto simp: HaveInputs_def GetValueIn_def list_all_iff wf_int64_def)
qed


text \<open>
  A concrete stack: one output unspent in the database, one added in the upper of two caches, as in the block being
  connected.
\<close>

definition demo_coin :: "int \<Rightarrow> Coin" where
  "demo_coin v = new_Coin (new_txout v [0x51]) 7 False False"

definition demo_op :: "u32 \<Rightarrow> COutPoint" where
  "demo_op n = \<lparr>op_hash = 5, op_n = n\<rparr>"

definition demo_db :: CCoinsViewDB where
  "demo_db = \<lparr>db_coins = [(demo_op 0, demo_coin 40)], db_best_block = Some 9\<rparr>"

definition demo_stack :: "CCoinsViewCache list" where
  "demo_stack = [\<lparr>hashBlock = 0, cacheCoins = [(demo_op 1, \<lparr>ce_coin = demo_coin 2, ce_flags = DIRTY OR FRESH\<rparr>)]\<rparr>,
     \<lparr>hashBlock = 9, cacheCoins = []\<rparr>]"

lemma demo_split: "hd demo_stack # tl demo_stack = demo_stack"
  by (simp add: demo_stack_def)

lemma demo_unfold:
  "cache_inv demo_db demo_stack"
  "utxo demo_db demo_stack (demo_op 0) = Some (demo_coin 40)" "utxo demo_db demo_stack (demo_op 1) = Some (demo_coin 2)"
  "utxo demo_db demo_stack (demo_op 2) = None" "\<not> IsSpent (demo_coin v) \<longleftrightarrow> v \<noteq> - 1"
  "\<not> IsUnspendable (scriptPubKey (coin_out (demo_coin v)))"
  by (simp_all add: demo_stack_def demo_db_def demo_op_def demo_coin_def new_Coin_def new_txout_def map_ok_def
    entry_ok_def IsSpent_def CTxOut_IsNull_def unspent_def db_GetCoin_def has_flag_def DIRTY_def FRESH_def IsUnspendable_def
    MAX_SCRIPT_SIZE_def)

theorem coin_cache_refines_witness:
  "utxo demo_db (snd (SpendCoin demo_db (demo_op 0) demo_stack)) (demo_op 0) = None
   \<and> Option.bind (fst (SpendCoin demo_db (demo_op 0) demo_stack)) unspent = Some (demo_coin 40)
   \<and> (\<exists>c'. AddCoin (demo_op 2) (demo_coin 3) False (hd demo_stack) = Inr c'
        \<and> utxo demo_db (c' # tl demo_stack) (demo_op 2) = Some (demo_coin 3))"
proof -
  note s = coin_cache_refines [of demo_db "hd demo_stack" "tl demo_stack", unfolded demo_split, OF demo_unfold(1)]
  have "\<not> IsSpent (demo_coin 3)" using demo_unfold(5) [of 3] by simp
  then show ?thesis
    using s [of "demo_op 0" "demo_coin 3" False] s [of "demo_op 2" "demo_coin 3" False]
    by (auto simp: split_def Let_def demo_unfold simp del: utxo.simps)
qed

theorem Flush_preserves_utxo_witness:
  "\<exists>db' c' base'. Flush demo_db demo_stack = Inr (db', c' # base') \<and> cacheCoins c' = []
     \<and> utxo db' base' (demo_op 0) = Some (demo_coin 40) \<and> utxo db' base' (demo_op 1) = Some (demo_coin 2)"
  using Flush_preserves_utxo [of demo_db "hd demo_stack" "tl demo_stack", unfolded demo_split, OF demo_unfold(1)]
  by (auto simp: demo_unfold)

definition demo_spend :: CTransaction where
  "demo_spend = \<lparr>tx_nVersion = 1, vin = [\<lparr>prevout = demo_op 0, scriptSig = [], nSequence = 0\<rparr>,
     \<lparr>prevout = demo_op 1, scriptSig = [], nSequence = 0\<rparr>], vout = [], nLockTime = 0\<rparr>"

end
