(* ===== verification/TxVerify.thy ===== *)
theory TxVerify
  imports Standard Coins
begin

text \<open>
  Validity of a single transaction: the validation state (\<open>src/src/consensus/validation.h\<close>), the checks that need no
  context (\<open>consensus/tx_verify.cpp\<close>) and the checks against the coins it spends (\<open>Consensus::CheckTxInputs\<close> of
  \<open>main.cpp\<close>), with the proof-of-work limits of \<open>adam.cpp\<close>.  The height of the active chain, the adjusted time, the
  number of checkpointed blocks and the two hash functions are parameters.  The free text of \<open>strDebugMessage\<close> is left
  out.
\<close>

section \<open>Validation state\<close>

datatype mode_state = MODE_VALID | MODE_INVALID | MODE_ERROR

record CValidationState =
  mode :: mode_state
  nDoS :: int
  strRejectReason :: string
  chRejectCode :: u32
  corruptionPossible :: bool

definition new_CValidationState :: CValidationState where
  "new_CValidationState =
     \<lparr>mode = MODE_VALID, nDoS = 0, strRejectReason = [], chRejectCode = 0, corruptionPossible = False\<rparr>"

definition REJECT_INVALID :: u32 where "REJECT_INVALID = 0x10"

definition DoS :: "int \<Rightarrow> bool \<Rightarrow> u32 \<Rightarrow> string \<Rightarrow> bool \<Rightarrow> CValidationState \<Rightarrow> bool \<times> CValidationState" where
  "DoS level ret chRejectCodeIn strRejectReasonIn corruptionIn state =
     (let state = state\<lparr>chRejectCode := chRejectCodeIn, strRejectReason := strRejectReasonIn,
                         corruptionPossible := corruptionIn\<rparr>
      in if mode state = MODE_ERROR then (ret, state)
         else (ret, state\<lparr>nDoS := nDoS state + level, mode := MODE_INVALID\<rparr>))"

definition Invalid :: "bool \<Rightarrow> u32 \<Rightarrow> string \<Rightarrow> CValidationState \<Rightarrow> bool \<times> CValidationState" where
  "Invalid ret code reason state = DoS 0 ret code reason False state"

definition state_Error :: "string \<Rightarrow> CValidationState \<Rightarrow> bool \<times> CValidationState" where
  "state_Error strRejectReasonIn state =
     (False, (if mode state = MODE_VALID then state\<lparr>strRejectReason := strRejectReasonIn\<rparr> else state)\<lparr>mode := MODE_ERROR\<rparr>)"

definition state_IsValid :: "CValidationState \<Rightarrow> bool" where
  "state_IsValid state \<longleftrightarrow> mode state = MODE_VALID"

definition state_IsInvalid :: "CValidationState \<Rightarrow> int option" where
  "state_IsInvalid state = (if mode state = MODE_INVALID then Some (nDoS state) else None)"

section \<open>Checks without context\<close>

definition IsFinalTx :: "int \<Rightarrow> int \<Rightarrow> CTransaction \<Rightarrow> int \<Rightarrow> int \<Rightarrow> bool" where
  "IsFinalTx chainHeight adjustedTime tx nBlockHeight nBlockTime =
     (if nLockTime tx = 0 then True
      else
        let nBlockHeight = (if nBlockHeight = 0 then chainHeight else nBlockHeight);
            nBlockTime = (if nBlockTime = 0 then adjustedTime else nBlockTime)
        in if uint (nLockTime tx) < (if uint (nLockTime tx) < LOCKTIME_THRESHOLD then nBlockHeight else nBlockTime)
           then True
           else list_all CTxIn_IsFinal (vin tx))"

definition GetLegacySigOpCount :: "CTransaction \<Rightarrow> u32" where
  "GetLegacySigOpCount tx =
     foldl (\<lambda>n txout. n + of_nat (GetSigOpCount False (scriptPubKey txout)))
       (foldl (\<lambda>n txin. n + of_nat (GetSigOpCount False (scriptSig txin))) 0 (vin tx)) (vout tx)"

fun GetP2SHSigOpCount_loop :: "CCoinsViewDB \<Rightarrow> u32 \<Rightarrow> CTxIn list \<Rightarrow> CCoinsViewCache list \<Rightarrow> u32 \<times> CCoinsViewCache list" where
  "GetP2SHSigOpCount_loop db nSigOps [] cs = (nSigOps, cs)"
| "GetP2SHSigOpCount_loop db nSigOps (i # ins) cs =
     (case AccessCoin db (prevout i) cs of
        (coin, cs) \<Rightarrow>
          let spk = scriptPubKey (coin_out coin)
          in GetP2SHSigOpCount_loop db
               (if IsPayToScriptHash spk then nSigOps + of_nat (GetSigOpCount_p2sh spk (scriptSig i)) else nSigOps) ins cs)"

definition GetP2SHSigOpCount :: "CCoinsViewDB \<Rightarrow> CTransaction \<Rightarrow> CCoinsViewCache list \<Rightarrow> u32 \<times> CCoinsViewCache list" where
  "GetP2SHSigOpCount db tx cs = (if IsCoinBase tx then (0, cs) else GetP2SHSigOpCount_loop db 0 (vin tx) cs)"

definition zeroCoinSentinelHash :: uint256 where "zeroCoinSentinelHash = 1"

definition is_sentinel :: "COutPoint \<Rightarrow> bool" where
  "is_sentinel op \<longleftrightarrow> op_hash op = zeroCoinSentinelHash \<and> op_n op = 0"

definition IsZeroCoinPoWTransaction :: "(bytes \<Rightarrow> uint160) \<Rightarrow> CTransaction \<Rightarrow> bool" where
  "IsZeroCoinPoWTransaction Hash160 tx =
     (if IsCoinBase tx \<or> IsCoinStake tx then False
      else if length (vin tx) \<noteq> 1 \<or> length (vout tx) \<noteq> 1 then False
      else if \<not> is_sentinel (prevout (vin tx ! 0)) then False
      else if nValue (vout tx ! 0) \<noteq> 0 \<or> GetValueOut tx \<noteq> Inr 0 then False
      else case MatchPoWLockRegistration (scriptPubKey (vout tx ! 0)) of
        Some (nonce, challenge, pubkey, lockTime, pubkeyHash) \<Rightarrow>
          pubkey_IsValid pubkey \<and> pubkey_GetID Hash160 pubkey = pubkeyHash \<and> length nonce = 4
      | None \<Rightarrow> False)"

definition MAX_STANDARD_TX_SIZE :: nat where "MAX_STANDARD_TX_SIZE = 150000"

fun check_outputs :: "ConsensusParams \<Rightarrow> CTransaction \<Rightarrow> int \<Rightarrow> CTxOut list \<Rightarrow> string option" where
  "check_outputs consensus tx nValueOut [] = None"
| "check_outputs consensus tx nValueOut (txout # outs) =
     (if CTxOut_IsEmpty txout \<and> \<not> IsCoinBase tx \<and> \<not> IsCoinStake tx then Some ''bad-txns-vout-empty''
      else if nValue txout < 0 then Some ''bad-txns-vout-negative''
      else if nValue txout > nMaxMoneyOut consensus then Some ''bad-txns-vout-toolarge''
      else
        let nValueOut = wrap64 (nValueOut + nValue txout)
        in if \<not> MoneyRange consensus nValueOut then Some ''bad-txns-txouttotal-toolarge''
           else check_outputs consensus tx nValueOut outs)"

fun check_duplicates :: "COutPoint list \<Rightarrow> CTxIn list \<Rightarrow> bool" where
  "check_duplicates vInOutPoints [] = True"
| "check_duplicates vInOutPoints (txin # ins) =
     (if List.member vInOutPoints (prevout txin) then False
      else check_duplicates (prevout txin # vInOutPoints) ins)"

definition CheckTransaction :: "ConsensusParams \<Rightarrow> (bytes \<Rightarrow> uint160) \<Rightarrow> CTransaction \<Rightarrow> CValidationState \<Rightarrow> bool \<times> CValidationState" where
  "CheckTransaction consensus Hash160 tx state =
     (if vin tx = [] then DoS 10 False REJECT_INVALID ''bad-txns-vin-empty'' False state
      else if vout tx = [] then DoS 10 False REJECT_INVALID ''bad-txns-vout-empty'' False state
      else if GetTotalSize tx > MAX_STANDARD_TX_SIZE then DoS 100 False REJECT_INVALID ''bad-txns-oversize'' False state
      else case check_outputs consensus tx 0 (vout tx) of
        Some reason \<Rightarrow> DoS 100 False REJECT_INVALID reason False state
      | None \<Rightarrow>
          if \<not> check_duplicates [] (vin tx) then DoS 100 False REJECT_INVALID ''bad-txns-inputs-duplicate'' False state
          else if IsCoinBase tx then
            if length (scriptSig (vin tx ! 0)) < 2 \<or> length (scriptSig (vin tx ! 0)) > 150
            then DoS 100 False REJECT_INVALID ''bad-cb-length'' False state
            else (True, state)
          else if list_ex (\<lambda>txin. (COutPoint_IsNull (prevout txin) \<or> is_sentinel (prevout txin))
                             \<and> \<not> IsZeroCoinPoWTransaction Hash160 tx) (vin tx)
          then DoS 10 False REJECT_INVALID ''bad-txns-prevout-null'' False state
          else (True, state))"

section \<open>Checks against the spent coins\<close>

definition GetMinerPoWLimit :: "string \<Rightarrow> uint256" where
  "GetMinerPoWLimit networkId =
     (if networkId = ''main'' then 0x0000000fffffffffffffffffffffffffffffffffffffffffffffffffffffffff
      else if networkId = ''test'' then 0x00000fffffffffffffffffffffffffffffffffffffffffffffffffffffffffff
      else 0x00ffffffffffffffffffffffffffffffffffffffffffffffffffffffffffffff)"

definition GetZeroCoinPoWLimit :: "string \<Rightarrow> uint256" where
  "GetZeroCoinPoWLimit networkId =
     (if networkId = ''main'' then 0x000000ffffffffffffffffffffffffffffffffffffffffffffffffffffffffff
      else if networkId = ''test'' then 0x00007fffffffffffffffffffffffffffffffffffffffffffffffffffffffffff
      else 0x00ffffffffffffffffffffffffffffffffffffffffffffffffffffffffffffff)"

definition zero_coin_puzzle :: "(bytes \<Rightarrow> uint160) \<Rightarrow> (bytes \<Rightarrow> uint256) \<Rightarrow> string \<Rightarrow> bytes \<Rightarrow> bool" where
  "zero_coin_puzzle Hash160 Hash networkId script =
     (case MatchPoWLockRegistration script of
        Some (nonce, challenge, pubkey, lockTime, pubkeyHash) \<Rightarrow>
          pubkey_IsValid pubkey \<and> pubkey_GetID Hash160 pubkey = pubkeyHash \<and> length nonce = 4
          \<and> Hash (ser_writedata32 (ReadLE32 nonce) @ put_uint256 challenge @ put_pubkey pubkey) \<le> GetZeroCoinPoWLimit networkId
      | None \<Rightarrow> False)"

datatype check_exn = SpentCoinAssert | ValueOutRange

fun check_input_coins ::
  "ConsensusParams \<Rightarrow> CCoinsViewDB \<Rightarrow> int \<Rightarrow> int \<Rightarrow> CTxIn list \<Rightarrow> CValidationState \<Rightarrow> CCoinsViewCache list
     \<Rightarrow> check_exn + ((bool \<times> CValidationState) + int) \<times> CCoinsViewCache list" where
  "check_input_coins consensus db nSpendHeight nValueIn [] state cs = Inr (Inr nValueIn, cs)"
| "check_input_coins consensus db nSpendHeight nValueIn (i # ins) state cs =
     (case AccessCoin db (prevout i) cs of
        (coin, cs) \<Rightarrow>
          if IsSpent coin then Inl SpentCoinAssert
          else if (fCoinBase coin \<or> fCoinStake coin) \<and> nSpendHeight - uint (coin_nHeight coin) < nCoinbaseMaturity consensus
          then Inr (Inl (Invalid False REJECT_INVALID ''bad-txns-premature-spend-of-coinbase-coinstake'' state), cs)
          else
            let nValueIn = wrap64 (nValueIn + nValue (coin_out coin))
            in if \<not> MoneyRange consensus (nValue (coin_out coin)) \<or> \<not> MoneyRange consensus nValueIn
               then Inr (Inl (DoS 100 False REJECT_INVALID ''bad-txns-inputvalues-outofrange'' False state), cs)
               else check_input_coins consensus db nSpendHeight nValueIn ins state cs)"

definition check_fee :: "ConsensusParams \<Rightarrow> CTransaction \<Rightarrow> int \<Rightarrow> CValidationState \<Rightarrow> check_exn + bool \<times> CValidationState" where
  "check_fee consensus tx nValueIn state =
     (if IsCoinStake tx then Inr (True, state)
      else case GetValueOut tx of
        Inl _ \<Rightarrow> Inl ValueOutRange
      | Inr v \<Rightarrow>
          if nValueIn < v then Inr (DoS 100 False REJECT_INVALID ''bad-txns-in-belowout'' False state)
          else
            let nTxFee = nValueIn - v
            in if nTxFee < 0 then Inr (DoS 100 False REJECT_INVALID ''bad-txns-fee-negative'' False state)
               else if \<not> MoneyRange consensus (0 + nTxFee)
               then Inr (DoS 100 False REJECT_INVALID ''bad-txns-fee-outofrange'' False state)
               else Inr (True, state))"

definition CheckTxInputs ::
  "ConsensusParams \<Rightarrow> int \<Rightarrow> (bytes \<Rightarrow> uint160) \<Rightarrow> (bytes \<Rightarrow> uint256) \<Rightarrow> string \<Rightarrow> CCoinsViewDB
     \<Rightarrow> CTransaction \<Rightarrow> CValidationState \<Rightarrow> CCoinsViewCache list \<Rightarrow> int
     \<Rightarrow> check_exn + (bool \<times> CValidationState) \<times> CCoinsViewCache list" where
  "CheckTxInputs consensus totalBlocksEstimate Hash160 Hash networkId db tx state inputs nSpendHeight =
     (if nSpendHeight \<le> totalBlocksEstimate then Inr ((True, state), inputs)
      else if IsZeroCoinPoWTransaction Hash160 tx then
        if length (vin tx) \<noteq> 1 \<or> length (vout tx) \<noteq> 1 \<or> GetValueOut tx \<noteq> Inr 0 \<or> nValue (vout tx ! 0) \<noteq> 0
        then Inr (DoS 100 False REJECT_INVALID ''bad-txns-zerocoin-nonzero-out'' False state, inputs)
        else if \<not> zero_coin_puzzle Hash160 Hash networkId (scriptPubKey (vout tx ! 0))
        then Inr (DoS 100 False REJECT_INVALID ''bad-txns-zerocoin-pow-invalid'' False state, inputs)
        else Inr ((True, state), inputs)
      else case HaveInputs db tx inputs of
        (False, inputs) \<Rightarrow> Inr (Invalid False 0 [] state, inputs)
      | (True, inputs) \<Rightarrow>
          (case check_input_coins consensus db nSpendHeight 0 (vin tx) state inputs of
             Inl err \<Rightarrow> Inl err
           | Inr (Inl res, inputs) \<Rightarrow> Inr (res, inputs)
           | Inr (Inr nValueIn, inputs) \<Rightarrow>
               (case check_fee consensus tx nValueIn state of Inl err \<Rightarrow> Inl err | Inr res \<Rightarrow> Inr (res, inputs))))"


section \<open>Lemmas\<close>

text \<open>The amounts of the parameters leave room for one addition.\<close>

definition money_bounded :: "ConsensusParams \<Rightarrow> bool" where
  "money_bounded consensus \<longleftrightarrow> 0 \<le> nMaxMoneyOut consensus \<and> nMaxMoneyOut consensus < 2 ^ 62"

lemma DoS_result [simp]: "fst (DoS level ret code reason corr state) = ret"
  by (simp add: DoS_def Let_def)

lemma DoS_state:
  "mode state \<noteq> MODE_ERROR \<Longrightarrow> state_IsInvalid (snd (DoS level ret code reason corr state)) = Some (nDoS state + level)"
  by (simp add: DoS_def Let_def state_IsInvalid_def)

lemma check_outputs_iff:
  assumes "money_bounded consensus" "0 \<le> a" "a \<le> nMaxMoneyOut consensus"
  shows "check_outputs consensus tx a outs = None \<longleftrightarrow>
    list_all (\<lambda>out. 0 \<le> nValue out \<and> (CTxOut_IsEmpty out \<longrightarrow> IsCoinBase tx \<or> IsCoinStake tx)) outs
    \<and> a + sum_list (map nValue outs) \<le> nMaxMoneyOut consensus"
  using assms(2,3)
proof (induction outs arbitrary: a)
  case (Cons out outs)
  define M where "M = nMaxMoneyOut consensus"
  have M: "0 \<le> M" "M < 2 ^ 62" "a \<le> M" using assms(1) Cons.prems by (simp_all add: M_def money_bounded_def)
  show ?case
  proof (cases "0 \<le> nValue out \<and> nValue out \<le> M")
    case True
    then have w: "wrap64 (a + nValue out) = a + nValue out" using M Cons.prems by (intro wrap64_id) (simp add: wf_int64_def)
    have pos: "list_all (\<lambda>out. 0 \<le> nValue out) outs \<Longrightarrow> 0 \<le> sum_list (map nValue outs)"
      by (intro sum_list_nonneg) (auto simp: list_all_iff)
    show ?thesis
    proof (cases "a + nValue out \<le> M")
      case le: True
      with True Cons.prems(1) Cons.IH [of "a + nValue out"] show ?thesis
        by (simp add: w MoneyRange_def M_def [symmetric] add.assoc)
    next
      case False
      with True pos show ?thesis
        by (simp add: w MoneyRange_def M_def [symmetric]) (auto simp: list_all_iff)
    qed
  next
    case False
    have "list_all (\<lambda>out. 0 \<le> nValue out) outs \<Longrightarrow> 0 \<le> sum_list (map nValue outs)"
      by (intro sum_list_nonneg) (auto simp: list_all_iff)
    with False Cons.prems(1) show ?thesis by (auto simp: M_def [symmetric] list_all_iff)
  qed
qed auto

lemma check_duplicates_iff:
  "check_duplicates seen ins \<longleftrightarrow> distinct (map prevout ins) \<and> set (map prevout ins) \<inter> set seen = {}"
  by (induction ins arbitrary: seen) auto

lemma check_input_coins_spec:
  assumes "money_bounded consensus" "cache_inv db cs"
    "check_input_coins consensus db nSpendHeight a ins state cs = Inr (Inr v, cs')" "0 \<le> a" "a \<le> nMaxMoneyOut consensus"
  shows "cache_inv db cs' \<and> utxo db cs' = utxo db cs \<and> v \<le> nMaxMoneyOut consensus
    \<and> v = a + (\<Sum>i \<leftarrow> ins. nValue (coin_out (the (utxo db cs (prevout i)))))
    \<and> list_all (\<lambda>i. \<exists>coin. utxo db cs (prevout i) = Some coin
        \<and> (fCoinBase coin \<or> fCoinStake coin \<longrightarrow> nCoinbaseMaturity consensus \<le> nSpendHeight - uint (coin_nHeight coin))) ins"
  using assms(2-5)
proof (induction ins arbitrary: a cs)
  case (Cons i ins)
  obtain coin cs1 where h: "AccessCoin db (prevout i) cs = (coin, cs1)" by fastforce
  note s = AccessCoin_spec [OF Cons.prems(1) h]
  have c: "\<not> IsSpent coin" "MoneyRange consensus (nValue (coin_out coin))"
    "fCoinBase coin \<or> fCoinStake coin \<longrightarrow> nCoinbaseMaturity consensus \<le> nSpendHeight - uint (coin_nHeight coin)"
    "MoneyRange consensus (wrap64 (a + nValue (coin_out coin)))"
    "check_input_coins consensus db nSpendHeight (wrap64 (a + nValue (coin_out coin))) ins state cs1 = Inr (Inr v, cs')"
    using Cons.prems(2) h by (auto simp: Let_def split: if_splits)
  have "wrap64 (a + nValue (coin_out coin)) = a + nValue (coin_out coin)"
    using assms(1) c(2) Cons.prems(3,4) by (intro wrap64_id) (simp add: wf_int64_def MoneyRange_def money_bounded_def)
  note c' = c(4,5) [unfolded this]
  have u: "utxo db cs (prevout i) = Some coin" using s c(1) by (simp add: unspent_def)
  from Cons.IH [OF _ c'(2)] s c'(1) c(3) u show ?case by (simp add: MoneyRange_def)
qed auto

lemma check_input_coins_rejects:
  "check_input_coins consensus db nSpendHeight a ins state cs = Inr (Inl res, cs') \<Longrightarrow> \<not> fst res"
  by (induction ins arbitrary: a cs) (auto simp: Let_def Invalid_def split: prod.splits if_splits)

section \<open>Properties\<close>

text \<open>
  C26. Context-free validity.  \<open>CheckTransaction\<close> accepts a transaction exactly when it has inputs and outputs, is at
  most 150000 bytes long, has no negative output and no empty output (coinbase and coinstake apart), pays out at
  most \<open>nMaxMoneyOut\<close> in total (as a mathematical sum: the running total never overflows), spends no outpoint twice, and has a coinbase script of 2 to 150
  bytes or, if it is not a coinbase, only proper outpoints unless it is a zero-coin registration.  An accepted
  transaction leaves the state alone; a rejected one raises the misbehaviour score by 10 or 100.
\<close>

theorem CheckTransaction_iff:
  assumes "money_bounded consensus"
  shows "(fst (CheckTransaction consensus Hash160 tx state) \<longleftrightarrow>
      vin tx \<noteq> [] \<and> vout tx \<noteq> [] \<and> GetTotalSize tx \<le> 150000
      \<and> list_all (\<lambda>out. 0 \<le> nValue out \<and> (CTxOut_IsEmpty out \<longrightarrow> IsCoinBase tx \<or> IsCoinStake tx)) (vout tx)
      \<and> sum_list (map nValue (vout tx)) \<le> nMaxMoneyOut consensus
      \<and> distinct (map prevout (vin tx))
      \<and> (if IsCoinBase tx then 2 \<le> length (scriptSig (vin tx ! 0)) \<and> length (scriptSig (vin tx ! 0)) \<le> 150
         else IsZeroCoinPoWTransaction Hash160 tx
           \<or> list_all (\<lambda>i. \<not> COutPoint_IsNull (prevout i) \<and> \<not> is_sentinel (prevout i)) (vin tx)))
    \<and> (if fst (CheckTransaction consensus Hash160 tx state) then snd (CheckTransaction consensus Hash160 tx state) = state
       else mode state \<noteq> MODE_ERROR \<longrightarrow>
         state_IsInvalid (snd (CheckTransaction consensus Hash160 tx state)) \<in> {Some (nDoS state + 10), Some (nDoS state + 100)})"
proof -
  note o = check_outputs_iff [OF assms, of 0 tx "vout tx"]
  have m: "0 \<le> nMaxMoneyOut consensus" using assms by (simp add: money_bounded_def)
  show ?thesis
  proof (cases "check_outputs consensus tx 0 (vout tx)")
    case None
    with o m show ?thesis
      by (auto simp: CheckTransaction_def MAX_STANDARD_TX_SIZE_def check_duplicates_iff DoS_state list_all_iff list_ex_iff)
  next
    case (Some reason)
    then have "\<not> (list_all (\<lambda>out. 0 \<le> nValue out \<and> (CTxOut_IsEmpty out \<longrightarrow> IsCoinBase tx \<or> IsCoinStake tx)) (vout tx)
      \<and> sum_list (map nValue (vout tx)) \<le> nMaxMoneyOut consensus)" using o m by simp
    with Some show ?thesis
      by (auto simp: CheckTransaction_def MAX_STANDARD_TX_SIZE_def DoS_state)
  qed
qed

text \<open>
  C2. No inflation.  When \<open>CheckTxInputs\<close> accepts a transaction above the checkpointed height that is neither a
  coinbase, a coinstake nor a zero-coin registration, then every input is unspent in the coins view, coinbase and
  coinstake coins among them are mature, and the sum of its outputs is at most the sum of the coins it spends, which
  is at most \<open>nMaxMoneyOut\<close>: the difference is the fee.
\<close>

theorem CheckTxInputs_no_inflation:
  assumes "money_bounded consensus" "cache_inv db cs" "totalBlocksEstimate < nSpendHeight"
    "\<not> IsCoinBase tx" "\<not> IsCoinStake tx" "\<not> IsZeroCoinPoWTransaction Hash160 tx"
    "list_all (\<lambda>out. wf_int64 (nValue out)) (vout tx)"
    "CheckTxInputs consensus totalBlocksEstimate Hash160 Hash networkId db tx state cs nSpendHeight = Inr ((True, state'), cs')"
  shows "list_all (\<lambda>i. \<exists>coin. utxo db cs (prevout i) = Some coin
        \<and> (fCoinBase coin \<or> fCoinStake coin \<longrightarrow> nCoinbaseMaturity consensus \<le> nSpendHeight - uint (coin_nHeight coin))) (vin tx)
    \<and> list_all (\<lambda>out. 0 \<le> nValue out) (vout tx)
    \<and> sum_list (map nValue (vout tx)) \<le> (\<Sum>i \<leftarrow> vin tx. nValue (coin_out (the (utxo db cs (prevout i)))))
    \<and> (\<Sum>i \<leftarrow> vin tx. nValue (coin_out (the (utxo db cs (prevout i))))) \<le> nMaxMoneyOut consensus
    \<and> state' = state \<and> cache_inv db cs' \<and> utxo db cs' = utxo db cs"
proof -
  obtain b cs1 where h: "HaveInputs_loop db (vin tx) cs = (b, cs1)" by fastforce
  note s = HaveInputs_loop_spec [OF assms(2) h]
  have b: b using assms(3-6,8) h by (cases b) (auto simp: CheckTxInputs_def HaveInputs_def Invalid_def DoS_def Let_def split: if_splits)
  obtain v where v: "check_input_coins consensus db nSpendHeight 0 (vin tx) state cs1 = Inr (Inr v, cs')"
    "check_fee consensus tx v state = Inr (True, state')"
    using assms(3-6,8) h b
    by (auto simp: CheckTxInputs_def HaveInputs_def split: sum.splits prod.splits dest: check_input_coins_rejects)
  have m: "0 \<le> nMaxMoneyOut consensus" using assms(1) by (simp add: money_bounded_def)
  note c = check_input_coins_spec [OF assms(1) _ v(1) order.refl m]
  obtain w where w: "GetValueOut tx = Inr w" "w \<le> v" "state' = state"
    using v(2) assms(5) by (auto simp: check_fee_def Let_def split: sum.splits if_splits dest: arg_cong [of _ _ fst])
  have "list_all (\<lambda>out. 0 \<le> nValue out) (vout tx) \<and> w = sum_list (map nValue (vout tx))"
    using w(1) assms(7) GetValueOut_loop_iff [of "vout tx" 0 w] by (simp add: GetValueOut_def list_all_iff)
  then show ?thesis using c s w by simp
qed


definition demo_coinbase :: "bytes \<Rightarrow> CTransaction" where
  "demo_coinbase sig = \<lparr>tx_nVersion = 1, vin = [\<lparr>prevout = null_outpoint, scriptSig = sig, nSequence = 0\<rparr>],
     vout = [new_txout 50 [0x51]], nLockTime = 0\<rparr>"

lemma main_money_bounded: "money_bounded mainConsensus"
  by (simp add: money_bounded_def mainConsensus_def COIN_def)

theorem CheckTransaction_iff_witness:
  "fst (CheckTransaction mainConsensus (\<lambda>_. 0) (demo_coinbase [1, 2]) new_CValidationState)
   \<and> \<not> fst (CheckTransaction mainConsensus (\<lambda>_. 0) (demo_coinbase [1]) new_CValidationState)"
proof -
  have "GetTotalSize (demo_coinbase [1, 2]) = 63"
    by (simp add: GetTotalSize_def demo_coinbase_def put_tx_def put_vector_def put_txin_def put_outpoint_def put_txout_def
      put_int32_def put_int64_def put_uint256_def put_blob_def ser_writedata32_def ser_writedata64_def WriteLE32_def
      WriteLE64_def WriteCompactSize_def ser_writedata8_def new_txout_def)
  moreover have "nMaxMoneyOut mainConsensus \<ge> 50" by (simp add: mainConsensus_def COIN_def)
  ultimately show ?thesis
    using CheckTransaction_iff [OF main_money_bounded, of "\<lambda>_. 0" "demo_coinbase [1, 2]" new_CValidationState]
      CheckTransaction_iff [OF main_money_bounded, of "\<lambda>_. 0" "demo_coinbase [1]" new_CValidationState]
    by (simp add: demo_coinbase_def IsCoinBase_def COutPoint_IsNull_def null_outpoint_def CTxOut_IsEmpty_def new_txout_def)
qed

definition demo_payment :: CTransaction where
  "demo_payment = demo_spend\<lparr>vout := [new_txout 30 [0x51], new_txout 5 [0x51]]\<rparr>"

theorem CheckTxInputs_no_inflation_witness:
  "\<exists>cs'. CheckTxInputs mainConsensus 0 (\<lambda>_. 0) (\<lambda>_. 0) ''main'' demo_db demo_payment new_CValidationState demo_stack 900
      = Inr ((True, new_CValidationState), cs')
    \<and> sum_list (map nValue (vout demo_payment)) = 35
    \<and> (\<Sum>i \<leftarrow> vin demo_payment. nValue (coin_out (the (utxo demo_db demo_stack (prevout i))))) = 42
    \<and> sum_list (map nValue (vout demo_payment)) \<le> (\<Sum>i \<leftarrow> vin demo_payment. nValue (coin_out (the (utxo demo_db demo_stack (prevout i)))))"
proof -
  have "case CheckTxInputs mainConsensus 0 (\<lambda>_. 0) (\<lambda>_. 0) ''main'' demo_db demo_payment new_CValidationState demo_stack 900 of
      Inr (r, cs') \<Rightarrow> r = (True, new_CValidationState) | Inl _ \<Rightarrow> False"
    by (simp add: CheckTxInputs_def IsZeroCoinPoWTransaction_def HaveInputs_def HaveCoin_def AccessCoin_def demo_payment_def
      demo_spend_def demo_db_def demo_stack_def demo_coin_def demo_op_def new_Coin_def new_txout_def db_GetCoin_def
      IsCoinBase_def IsCoinStake_def CTxOut_IsEmpty_def IsSpent_def CTxOut_IsNull_def GetValueOut_def check_fee_def
      MoneyRange_def mainConsensus_def COIN_def wrap64_def Let_def)
  then obtain cs' where c: "CheckTxInputs mainConsensus 0 (\<lambda>_. 0) (\<lambda>_. 0) ''main'' demo_db demo_payment new_CValidationState demo_stack 900
      = Inr ((True, new_CValidationState), cs')" by (auto split: sum.splits prod.splits)
  have t: "\<not> IsCoinBase demo_payment" "\<not> IsCoinStake demo_payment" "\<not> IsZeroCoinPoWTransaction (\<lambda>_. 0) demo_payment"
    "list_all (\<lambda>out. wf_int64 (nValue out)) (vout demo_payment)"
    by (simp_all add: demo_payment_def demo_spend_def IsCoinBase_def IsCoinStake_def IsZeroCoinPoWTransaction_def
      CTxOut_IsEmpty_def new_txout_def wf_int64_def)
  have "sum_list (map nValue (vout demo_payment)) \<le> (\<Sum>i \<leftarrow> vin demo_payment. nValue (coin_out (the (utxo demo_db demo_stack (prevout i)))))"
    using CheckTxInputs_no_inflation [OF main_money_bounded demo_unfold(1) _ t c] by simp
  with c show ?thesis
    by (simp add: demo_payment_def demo_spend_def demo_unfold demo_coin_def new_Coin_def new_txout_def del: utxo.simps)
qed

end
