(* ===== verification/ChainState.thy ===== *)
theory ChainState
  imports TxVerify
begin

text \<open>
  Applying and undoing transactions on the coins view (\<open>src/src/main.cpp\<close>): \<open>UpdateCoins\<close>, \<open>ApplyTxInUndo\<close> and the
  loops of \<open>ConnectBlock\<close> and \<open>DisconnectBlock\<close> over the transactions of a block, as far as they change the coins
  view and the undo data.  The burn cache, the masternode activity maps and the undo files that \<open>DisconnectBlock\<close>
  also maintains are not modelled.  The central result is that disconnecting a block restores the set of unspent
  outputs.
\<close>

section \<open>Applying a transaction\<close>

fun spend_inputs :: "CCoinsViewDB \<Rightarrow> bool \<Rightarrow> CTxIn list \<Rightarrow> CCoinsViewCache list \<Rightarrow> Coin list \<times> CCoinsViewCache list" where
  "spend_inputs db fZeroCoinPoW [] inputs = ([], inputs)"
| "spend_inputs db fZeroCoinPoW (txin # ins) inputs =
     (if \<not> fZeroCoinPoW \<and> \<not> COutPoint_IsNull (prevout txin) then
        case SpendCoin db (prevout txin) inputs of
          (moveout, inputs) \<Rightarrow>
            (case spend_inputs db fZeroCoinPoW ins inputs of
               (vprevout, inputs) \<Rightarrow> ((case moveout of None \<Rightarrow> coinEmpty | Some coin \<Rightarrow> coin) # vprevout, inputs))
      else
        case spend_inputs db fZeroCoinPoW ins inputs of
          (vprevout, inputs) \<Rightarrow> (coinEmpty # vprevout, inputs))"

definition top_AddCoins :: "(bytes \<Rightarrow> uint256) \<Rightarrow> CTransaction \<Rightarrow> int \<Rightarrow> CCoinsViewCache list \<Rightarrow> coins_error + CCoinsViewCache list" where
  "top_AddCoins Hash tx nHeight cs =
     (case cs of
        [] \<Rightarrow> Inr []
      | c # base \<Rightarrow> (case AddCoins Hash tx nHeight c of Inl err \<Rightarrow> Inl err | Inr c \<Rightarrow> Inr (c # base)))"

definition UpdateCoins ::
  "(bytes \<Rightarrow> uint256) \<Rightarrow> (bytes \<Rightarrow> uint160) \<Rightarrow> CCoinsViewDB \<Rightarrow> CTransaction \<Rightarrow> int \<Rightarrow> CCoinsViewCache list
     \<Rightarrow> coins_error + Coin list \<times> CCoinsViewCache list" where
  "UpdateCoins Hash Hash160 db tx nHeight inputs =
     (case (if IsCoinBase tx then ([], inputs)
            else spend_inputs db (IsZeroCoinPoWTransaction Hash160 tx) (vin tx) inputs) of
        (vprevout, inputs) \<Rightarrow>
          (case top_AddCoins Hash tx nHeight inputs of
             Inl err \<Rightarrow> Inl err
           | Inr inputs \<Rightarrow> Inr (vprevout, inputs)))"

text \<open>The undo data of a block leaves out its first transaction.\<close>

fun connect_txs ::
  "(bytes \<Rightarrow> uint256) \<Rightarrow> (bytes \<Rightarrow> uint160) \<Rightarrow> CCoinsViewDB \<Rightarrow> int \<Rightarrow> CTransaction list \<Rightarrow> CCoinsViewCache list
     \<Rightarrow> coins_error + Coin list list \<times> CCoinsViewCache list" where
  "connect_txs Hash Hash160 db nHeight [] view = Inr ([], view)"
| "connect_txs Hash Hash160 db nHeight (tx # txs) view =
     (case UpdateCoins Hash Hash160 db tx nHeight view of
        Inl err \<Rightarrow> Inl err
      | Inr (undo, view) \<Rightarrow>
          (case connect_txs Hash Hash160 db nHeight txs view of
             Inl err \<Rightarrow> Inl err
           | Inr (vtxundo, view) \<Rightarrow> Inr (undo # vtxundo, view)))"

definition connect_block ::
  "(bytes \<Rightarrow> uint256) \<Rightarrow> (bytes \<Rightarrow> uint160) \<Rightarrow> CCoinsViewDB \<Rightarrow> int \<Rightarrow> CTransaction list \<Rightarrow> CCoinsViewCache list
     \<Rightarrow> coins_error + Coin list list \<times> CCoinsViewCache list" where
  "connect_block Hash Hash160 db nHeight vtx view =
     (case connect_txs Hash Hash160 db nHeight vtx view of
        Inl err \<Rightarrow> Inl err
      | Inr (vtxundo, view) \<Rightarrow> Inr (tl vtxundo, view))"

section \<open>Undoing a transaction\<close>

datatype DisconnectResult = DISCONNECT_OK | DISCONNECT_UNCLEAN | DISCONNECT_FAILED

definition ApplyTxInUndo ::
  "CCoinsViewDB \<Rightarrow> Coin \<Rightarrow> COutPoint \<Rightarrow> CCoinsViewCache list \<Rightarrow> coins_error + DisconnectResult \<times> CCoinsViewCache list" where
  "ApplyTxInUndo db undo out view =
     (case HaveCoin db out view of
        (have_out, view) \<Rightarrow>
          let fClean = (\<not> have_out) in
          case (if coin_nHeight undo = 0 then
                  case AccessByTxid db (op_hash out) view of
                    (alternate, view) \<Rightarrow>
                      if \<not> IsSpent alternate
                      then (Some (undo\<lparr>coin_nHeight := coin_nHeight alternate, fCoinBase := fCoinBase alternate,
                                       fCoinStake := fCoinStake alternate\<rparr>), view)
                      else (None, view)
                else (Some undo, view)) of
            (None, view) \<Rightarrow> Inr (DISCONNECT_FAILED, view)
          | (Some undo, view) \<Rightarrow>
              (case top_AddCoin out undo False view of
                 Inl err \<Rightarrow> Inl err
               | Inr view \<Rightarrow> Inr (if fClean then DISCONNECT_OK else DISCONNECT_UNCLEAN, view)))"

fun spend_outputs ::
  "CCoinsViewDB \<Rightarrow> uint256 \<Rightarrow> nat \<Rightarrow> CTxOut list \<Rightarrow> bool \<Rightarrow> CCoinsViewCache list \<Rightarrow> bool \<times> CCoinsViewCache list" where
  "spend_outputs db hash n [] fClean view = (fClean, view)"
| "spend_outputs db hash n (out # outs) fClean view =
     (if \<not> IsUnspendable (scriptPubKey out) then
        case SpendCoin db \<lparr>op_hash = hash, op_n = of_nat n\<rparr> view of
          (moveout, view) \<Rightarrow>
            let coin = (case moveout of None \<Rightarrow> coinEmpty | Some c \<Rightarrow> c)
            in spend_outputs db hash (Suc n) outs (if out \<noteq> coin_out coin then False else fClean) view
      else spend_outputs db hash (Suc n) outs fClean view)"

text \<open>The inputs with their undo coins, last input first.\<close>

fun restore_inputs ::
  "CCoinsViewDB \<Rightarrow> (COutPoint \<times> Coin) list \<Rightarrow> bool \<Rightarrow> CCoinsViewCache list
     \<Rightarrow> coins_error + bool option \<times> CCoinsViewCache list" where
  "restore_inputs db [] fClean view = Inr (Some fClean, view)"
| "restore_inputs db ((out, undo) # rest) fClean view =
     (if COutPoint_IsNull out then restore_inputs db rest fClean view
      else case ApplyTxInUndo db undo out view of
        Inl err \<Rightarrow> Inl err
      | Inr (res, view) \<Rightarrow>
          if res = DISCONNECT_FAILED then Inr (None, view)
          else restore_inputs db rest (fClean \<and> res \<noteq> DISCONNECT_UNCLEAN) view)"

definition disconnect_tx ::
  "(bytes \<Rightarrow> uint256) \<Rightarrow> (bytes \<Rightarrow> uint160) \<Rightarrow> CCoinsViewDB \<Rightarrow> CTransaction \<Rightarrow> Coin list \<Rightarrow> bool \<Rightarrow> CCoinsViewCache list
     \<Rightarrow> coins_error + bool option \<times> CCoinsViewCache list" where
  "disconnect_tx Hash Hash160 db tx vprevout fClean view =
     (case spend_outputs db (tx_GetHash Hash tx) 0 (vout tx) fClean view of
        (fClean, view) \<Rightarrow>
          if IsCoinBase tx \<or> IsZeroCoinPoWTransaction Hash160 tx then Inr (Some fClean, view)
          else if length vprevout \<noteq> length (vin tx) then Inr (None, view)
          else restore_inputs db (rev (zip (map prevout (vin tx)) vprevout)) fClean view)"

text \<open>
  The transactions with their undo data, last transaction first.  \<open>blockUndo.vtxundo[i - 1]\<close> is read only after the
  test for a coinbase, so the first transaction carries no undo data.
\<close>

fun disconnect_txs ::
  "(bytes \<Rightarrow> uint256) \<Rightarrow> (bytes \<Rightarrow> uint160) \<Rightarrow> CCoinsViewDB \<Rightarrow> (CTransaction \<times> Coin list) list \<Rightarrow> bool \<Rightarrow> CCoinsViewCache list
     \<Rightarrow> coins_error + DisconnectResult \<times> CCoinsViewCache list" where
  "disconnect_txs Hash Hash160 db [] fClean view =
     Inr (if fClean then DISCONNECT_OK else DISCONNECT_UNCLEAN, view)"
| "disconnect_txs Hash Hash160 db ((tx, vprevout) # rest) fClean view =
     (case disconnect_tx Hash Hash160 db tx vprevout fClean view of
        Inl err \<Rightarrow> Inl err
      | Inr (None, view) \<Rightarrow> Inr (DISCONNECT_FAILED, view)
      | Inr (Some fClean, view) \<Rightarrow> disconnect_txs Hash Hash160 db rest fClean view)"

definition disconnect_block ::
  "(bytes \<Rightarrow> uint256) \<Rightarrow> (bytes \<Rightarrow> uint160) \<Rightarrow> CCoinsViewDB \<Rightarrow> CTransaction list \<Rightarrow> Coin list list \<Rightarrow> CCoinsViewCache list
     \<Rightarrow> coins_error + DisconnectResult \<times> CCoinsViewCache list" where
  "disconnect_block Hash Hash160 db vtx vtxundo view =
     (if length vtxundo + 1 \<noteq> length vtx then Inr (DISCONNECT_FAILED, view)
      else disconnect_txs Hash Hash160 db (rev (zip vtx ([] # vtxundo))) True view)"

section \<open>Effect on the set of unspent outputs\<close>

declare utxo.simps [simp del] cache_inv.simps [simp del]

definition out_op :: "uint256 \<Rightarrow> nat \<Rightarrow> COutPoint" where
  "out_op txid n = \<lparr>op_hash = txid, op_n = of_nat n\<rparr>"

lemma out_op_inj: "m < 2 ^ 32 \<Longrightarrow> n < 2 ^ 32 \<Longrightarrow> out_op txid m = out_op txid n \<longleftrightarrow> m = n"
  by (simp add: out_op_def word_of_nat_eq_iff take_bit_eq_mod)

text \<open>The map of a view after adding the outputs of a transaction, and after removing them again.\<close>

fun add_outs :: "uint256 \<Rightarrow> (CTxOut \<Rightarrow> Coin) \<Rightarrow> nat \<Rightarrow> CTxOut list \<Rightarrow> (COutPoint \<Rightarrow> Coin option) \<Rightarrow> COutPoint \<Rightarrow> Coin option" where
  "add_outs txid mk n [] U = U"
| "add_outs txid mk n (out # outs) U =
     add_outs txid mk (Suc n) outs (if IsUnspendable (scriptPubKey out) then U else U(out_op txid n \<mapsto> mk out))"

definition out_of_range :: "uint256 \<Rightarrow> nat \<Rightarrow> CTxOut list \<Rightarrow> COutPoint \<Rightarrow> bool" where
  "out_of_range txid n outs op \<longleftrightarrow> (\<forall>k < length outs. op \<noteq> out_op txid (n + k))"

lemma out_of_range_Cons: "out_of_range txid n (out # outs) op \<longleftrightarrow> op \<noteq> out_op txid n \<and> out_of_range txid (Suc n) outs op"
  by (simp add: out_of_range_def All_less_Suc2)

lemma out_of_range_op:
  "n < m \<Longrightarrow> m + length outs \<le> 2 ^ 32 \<Longrightarrow> out_of_range txid m outs (out_op txid n)"
  by (auto simp: out_of_range_def out_op_inj)

lemma add_outs_other: "out_of_range txid n outs op \<Longrightarrow> add_outs txid mk n outs U op = U op"
  by (induction outs arbitrary: n U) (auto simp: out_of_range_Cons)

lemma add_outs_head:
  assumes "n + length (out # outs) \<le> 2 ^ 32" "\<not> IsUnspendable (scriptPubKey out)"
  shows "add_outs txid mk n (out # outs) U (out_op txid n) = Some (mk out)"
  using assms add_outs_other [OF out_of_range_op [of n "Suc n" outs txid]] by simp

definition fresh_outs :: "uint256 \<Rightarrow> nat \<Rightarrow> CTxOut list \<Rightarrow> (COutPoint \<Rightarrow> Coin option) \<Rightarrow> bool" where
  "fresh_outs txid n outs U \<longleftrightarrow> (\<forall>k < length outs. U (out_op txid (n + k)) = None)"

lemma fresh_outs_Cons: "fresh_outs txid n (out # outs) U \<longleftrightarrow> U (out_op txid n) = None \<and> fresh_outs txid (Suc n) outs U"
  by (simp add: fresh_outs_def All_less_Suc2)

lemma fresh_outs_upd:
  assumes "n + length (out # outs) \<le> 2 ^ 32" "fresh_outs txid (Suc n) outs U"
  shows "fresh_outs txid (Suc n) outs (U(out_op txid n := x))"
  using assms by (auto simp: fresh_outs_def out_op_inj)

lemma add_outs_fun_upd:
  "out_of_range txid n outs op \<Longrightarrow> add_outs txid mk n outs (U(op := x)) = (add_outs txid mk n outs U)(op := x)"
proof (induction outs arbitrary: n U)
  case (Cons out outs)
  then have "op \<noteq> out_op txid n" "out_of_range txid (Suc n) outs op" by (simp_all add: out_of_range_Cons)
  then show ?case using fun_upd_twist [OF \<open>op \<noteq> out_op txid n\<close>, of U x "Some (mk out)"]
    by (cases "IsUnspendable (scriptPubKey out)") (simp_all only: add_outs.simps if_True if_False Cons.IH)
qed simp

lemma add_outs_upd:
  assumes "n + length (out # outs) \<le> 2 ^ 32" "U (out_op txid n) = None"
  shows "(add_outs txid mk (Suc n) outs (U(out_op txid n := x)))(out_op txid n := None) = add_outs txid mk (Suc n) outs U"
  using assms add_outs_other [OF out_of_range_op [of n "Suc n" outs txid], of mk U]
    add_outs_fun_upd [OF out_of_range_op [of n "Suc n" outs txid], of mk U x] by (simp add: fun_upd_idem)

lemma AddCoins_loop_spec:
  assumes "cache_inv db (c # base)" "fresh_outs txid n outs (utxo db (c # base))" "n + length outs \<le> 2 ^ 32"
    "list_all (\<lambda>out. nValue out \<noteq> - 1) outs"
  shows "\<exists>c'. AddCoins_loop txid cb cst h n outs c = Inr c' \<and> cache_inv db (c' # base)
    \<and> utxo db (c' # base) = add_outs txid (\<lambda>out. new_Coin out h cb cst) n outs (utxo db (c # base))"
  using assms
proof (induction outs arbitrary: n c)
  case (Cons out outs)
  let ?coin = "new_Coin out h cb cst"
  have sp: "\<not> IsSpent ?coin" "scriptPubKey (coin_out ?coin) = scriptPubKey out"
    using Cons.prems(4) by (simp_all add: IsSpent_def CTxOut_IsNull_def new_Coin_def)
  have f: "utxo db (c # base) (out_op txid n) = None" "fresh_outs txid (Suc n) outs (utxo db (c # base))"
    using Cons.prems(2) by (simp_all only: fresh_outs_Cons)
  show ?case
  proof (cases "IsUnspendable (scriptPubKey out)")
    case True
    have "AddCoin (out_op txid n) ?coin False c = Inr c" using True sp by (simp add: AddCoin_def)
    then show ?thesis using Cons.IH [OF Cons.prems(1) f(2)] Cons.prems(3,4) True by (simp add: out_op_def)
  next
    case False
    obtain c1 where c1: "AddCoin (out_op txid n) ?coin False c = Inr c1" "cache_inv db (c1 # base)"
      "utxo db (c1 # base) = (utxo db (c # base))(out_op txid n \<mapsto> ?coin)"
      using AddCoin_spec [OF Cons.prems(1) sp(1)] sp(2) False f(1) by auto
    have fr: "fresh_outs txid (Suc n) outs (utxo db (c1 # base))"
      unfolding c1(3) using Cons.prems(3) f(2) by (rule fresh_outs_upd)
    then obtain c2 where "AddCoins_loop txid cb cst h (Suc n) outs c1 = Inr c2" "cache_inv db (c2 # base)"
      "utxo db (c2 # base) = add_outs txid (\<lambda>out. new_Coin out h cb cst) (Suc n) outs (utxo db (c1 # base))"
      using Cons.IH [OF c1(2) fr] Cons.prems(3,4) by auto
    then show ?thesis using c1(1) False unfolding c1(3) by (simp add: out_op_def)
  qed
qed auto

lemma spend_outputs_spec:
  assumes "stack_inv db cs" "utxo db cs = add_outs txid mk n outs U" "fresh_outs txid n outs U" "n + length outs \<le> 2 ^ 32"
    "\<And>out. coin_out (mk out) = out" "spend_outputs db txid n outs fClean cs = (fClean', cs')"
  shows "fClean' = fClean \<and> stack_inv db cs' \<and> utxo db cs' = U"
  using assms
proof (induction outs arbitrary: n cs U)
  case (Cons out outs)
  have f: "U (out_op txid n) = None" "fresh_outs txid (Suc n) outs U" using Cons.prems(3) by (simp_all only: fresh_outs_Cons)
  show ?case
  proof (cases "IsUnspendable (scriptPubKey out)")
    case True
    then show ?thesis using Cons.IH [OF Cons.prems(1) _ f(2)] Cons.prems(2,4-6) by simp
  next
    case False
    obtain r cs1 where r: "SpendCoin db (out_op txid n) cs = (r, cs1)" by fastforce
    have "utxo db cs (out_op txid n) = Some (mk out)" unfolding Cons.prems(2) using Cons.prems(4) False by (rule add_outs_head)
    from cache.spend_present [OF Cons.prems(1) this r] have rs: "r = Some (mk out)" .
    have "utxo db cs1 = (add_outs txid mk (Suc n) outs (U(out_op txid n \<mapsto> mk out)))(out_op txid n := None)"
      using cache.spend_view [OF Cons.prems(1) r] Cons.prems(2) False by simp
    also have "\<dots> = add_outs txid mk (Suc n) outs U"
      using Cons.prems(4) f(1) by (rule add_outs_upd)
    finally have u: "utxo db cs1 = add_outs txid mk (Suc n) outs U" .
    have "spend_outputs db txid (Suc n) outs fClean cs1 = (fClean', cs')"
      using Cons.prems(5,6) r rs False by (simp add: out_op_def)
    from Cons.IH [OF cache.spend_inv [OF Cons.prems(1) r] u f(2) _ Cons.prems(5) this] Cons.prems(4) show ?thesis by simp
  qed
qed auto


text \<open>The inputs of a transaction: distinct, not null, unspent in the map, and restorable from the undo data.\<close>

definition spendable_coin :: "Coin \<Rightarrow> bool" where
  "spendable_coin coin \<longleftrightarrow> \<not> IsSpent coin \<and> \<not> IsUnspendable (scriptPubKey (coin_out coin)) \<and> coin_nHeight coin \<noteq> 0"

definition inputs_ok :: "(COutPoint \<Rightarrow> Coin option) \<Rightarrow> COutPoint list \<Rightarrow> bool" where
  "inputs_ok U ops \<longleftrightarrow> distinct ops
     \<and> list_all (\<lambda>op. \<not> COutPoint_IsNull op \<and> (case U op of None \<Rightarrow> False | Some coin \<Rightarrow> spendable_coin coin)) ops"

definition remove_all :: "COutPoint list \<Rightarrow> (COutPoint \<Rightarrow> Coin option) \<Rightarrow> COutPoint \<Rightarrow> Coin option" where
  "remove_all ops U = (\<lambda>op. if op \<in> set ops then None else U op)"

lemma remove_all_simps: "remove_all [] U = U" "remove_all ops (U(op := None)) = remove_all (op # ops) U"
  by (auto simp: remove_all_def)

lemma inputs_ok_Cons:
  "inputs_ok U (op # ops) \<longleftrightarrow> (\<exists>coin. U op = Some coin \<and> spendable_coin coin) \<and> \<not> COutPoint_IsNull op
     \<and> op \<notin> set ops \<and> inputs_ok U ops"
  by (auto simp: inputs_ok_def split: option.splits)

lemma inputs_ok_upd: "op \<notin> set ops \<Longrightarrow> inputs_ok U ops \<Longrightarrow> inputs_ok (U(op := x)) ops"
  by (auto simp: inputs_ok_def list_all_iff)

lemma spend_inputs_spec:
  assumes "stack_inv db cs" "inputs_ok (utxo db cs) (map prevout ins)" "spend_inputs db False ins cs = (vprevout, cs')"
  shows "vprevout = map (\<lambda>i. the (utxo db cs (prevout i))) ins \<and> stack_inv db cs'
    \<and> utxo db cs' = remove_all (map prevout ins) (utxo db cs)"
  using assms
proof (induction ins arbitrary: cs cs' vprevout)
  case (Cons i ins)
  obtain coin where c: "utxo db cs (prevout i) = Some coin" "\<not> COutPoint_IsNull (prevout i)"
    and p: "prevout i \<notin> set (map prevout ins)" "inputs_ok (utxo db cs) (map prevout ins)"
    using Cons.prems(2) by (auto simp: inputs_ok_Cons)
  obtain r cs1 where r: "SpendCoin db (prevout i) cs = (r, cs1)" by fastforce
  note inv1 = cache.spend_inv [OF Cons.prems(1) r] and u1 = cache.spend_view [OF Cons.prems(1) r]
  have rs: "r = Some coin" by (rule cache.spend_present [OF Cons.prems(1) c(1) r])
  obtain vp cs2 where s: "spend_inputs db False ins cs1 = (vp, cs2)" by fastforce
  have ok: "inputs_ok (utxo db cs1) (map prevout ins)" unfolding u1 using p by (rule inputs_ok_upd)
  note ih = Cons.IH [OF inv1 ok s]
  have "map (\<lambda>i. the (utxo db cs1 (prevout i))) ins = map (\<lambda>i. the (utxo db cs (prevout i))) ins"
    using p(1) by (fastforce simp: u1 image_iff)
  moreover have "vprevout = coin # vp" "cs' = cs2" using Cons.prems(3) c(2) r rs s by auto
  moreover have "remove_all (map prevout ins) (utxo db cs1) = remove_all (map prevout (i # ins)) (utxo db cs)"
    unfolding u1 by (simp only: remove_all_simps list.map)
  ultimately show ?case using ih c(1) by simp
qed (auto simp: remove_all_simps)

lemma ApplyTxInUndo_spec:
  assumes "stack_inv db cs" "utxo db cs op = None" "spendable_coin undo"
  shows "\<exists>cs'. ApplyTxInUndo db undo op cs = Inr (DISCONNECT_OK, cs') \<and> stack_inv db cs' \<and> utxo db cs' = (utxo db cs)(op \<mapsto> undo)"
proof -
  obtain b cs1 where h: "HaveCoin db op cs = (b, cs1)" by fastforce
  note s = cache.have_ok [OF assms(1) h]
  then obtain cs2 where "top_AddCoin op undo False cs1 = Inr cs2" "stack_inv db cs2" "utxo db cs2 = (utxo db cs1)(op \<mapsto> undo)"
    using cache.add_ok [of db cs1 undo False op] assms(2,3) by (auto simp: spendable_coin_def)
  then show ?thesis using h s assms(2,3) by (simp add: ApplyTxInUndo_def spendable_coin_def)
qed

lemma restore_inputs_spec:
  assumes "stack_inv db cs" "distinct (map fst ps)"
    "\<forall>(op, coin) \<in> set ps. \<not> COutPoint_IsNull op \<and> spendable_coin coin \<and> utxo db cs op = None"
  shows "\<exists>cs'. restore_inputs db ps fClean cs = Inr (Some fClean, cs') \<and> stack_inv db cs'
    \<and> utxo db cs' = (\<lambda>op. case map_of ps op of Some coin \<Rightarrow> Some coin | None \<Rightarrow> utxo db cs op)"
  using assms
proof (induction ps arbitrary: cs)
  case (Cons x ps)
  obtain op coin where x: "x = (op, coin)" by fastforce
  then have p: "\<not> COutPoint_IsNull op" "spendable_coin coin" "utxo db cs op = None" using Cons.prems(3) by auto
  obtain cs1 where a: "ApplyTxInUndo db coin op cs = Inr (DISCONNECT_OK, cs1)" "stack_inv db cs1"
    "utxo db cs1 = (utxo db cs)(op \<mapsto> coin)"
    using ApplyTxInUndo_spec [OF Cons.prems(1) p(3,2)] by blast
  have n: "op \<notin> fst ` set ps" using Cons.prems(2) x by simp
  then have "\<forall>(op, coin) \<in> set ps. \<not> COutPoint_IsNull op \<and> spendable_coin coin \<and> utxo db cs1 op = None"
    using Cons.prems(3) by (force simp: a(3))
  then obtain cs2 where c: "restore_inputs db ps fClean cs1 = Inr (Some fClean, cs2)" "stack_inv db cs2"
    "utxo db cs2 = (\<lambda>op. case map_of ps op of Some coin \<Rightarrow> Some coin | None \<Rightarrow> utxo db cs1 op)"
    using Cons.IH [OF a(2)] Cons.prems(2) by auto
  have "map_of ps op = None" using n by (simp add: map_of_eq_None_iff)
  then have "utxo db cs2 = (\<lambda>op. case map_of (x # ps) op of Some coin \<Rightarrow> Some coin | None \<Rightarrow> utxo db cs op)"
    unfolding c(3) a(3) by (simp add: x fun_eq_iff split: option.split)
  then show ?case using a(1) c(1,2) p(1) by (simp add: x)
qed simp


text \<open>
  A transaction that can be applied to a map of unspent outputs, its effect and its undo data; then the same for the
  transactions of a block in order.
\<close>

definition skips_inputs :: "(bytes \<Rightarrow> uint160) \<Rightarrow> CTransaction \<Rightarrow> bool" where
  "skips_inputs Hash160 tx \<longleftrightarrow> IsCoinBase tx \<or> IsZeroCoinPoWTransaction Hash160 tx"

definition tx_ok :: "(bytes \<Rightarrow> uint256) \<Rightarrow> (bytes \<Rightarrow> uint160) \<Rightarrow> (COutPoint \<Rightarrow> Coin option) \<Rightarrow> CTransaction \<Rightarrow> bool" where
  "tx_ok Hash Hash160 U tx \<longleftrightarrow> fresh_outs (tx_GetHash Hash tx) 0 (vout tx) U \<and> length (vout tx) \<le> 2 ^ 32
     \<and> list_all (\<lambda>out. nValue out \<noteq> - 1) (vout tx) \<and> (skips_inputs Hash160 tx \<or> inputs_ok U (map prevout (vin tx)))"

definition spent_map :: "(bytes \<Rightarrow> uint160) \<Rightarrow> CTransaction \<Rightarrow> (COutPoint \<Rightarrow> Coin option) \<Rightarrow> COutPoint \<Rightarrow> Coin option" where
  "spent_map Hash160 tx U = (if skips_inputs Hash160 tx then U else remove_all (map prevout (vin tx)) U)"

definition apply_tx ::
  "(bytes \<Rightarrow> uint256) \<Rightarrow> (bytes \<Rightarrow> uint160) \<Rightarrow> int \<Rightarrow> (COutPoint \<Rightarrow> Coin option) \<Rightarrow> CTransaction \<Rightarrow> COutPoint \<Rightarrow> Coin option" where
  "apply_tx Hash Hash160 nHeight U tx =
     add_outs (tx_GetHash Hash tx) (\<lambda>out. new_Coin out nHeight (IsCoinBase tx) (IsCoinStake tx)) 0 (vout tx)
       (spent_map Hash160 tx U)"

definition undo_of :: "(bytes \<Rightarrow> uint160) \<Rightarrow> (COutPoint \<Rightarrow> Coin option) \<Rightarrow> CTransaction \<Rightarrow> Coin list" where
  "undo_of Hash160 U tx =
     (if IsCoinBase tx then [] else if IsZeroCoinPoWTransaction Hash160 tx then map (\<lambda>_. coinEmpty) (vin tx)
      else map (\<lambda>i. the (U (prevout i))) (vin tx))"

fun block_ok :: "(bytes \<Rightarrow> uint256) \<Rightarrow> (bytes \<Rightarrow> uint160) \<Rightarrow> int \<Rightarrow> (COutPoint \<Rightarrow> Coin option) \<Rightarrow> CTransaction list \<Rightarrow> bool" where
  "block_ok Hash Hash160 nHeight U [] \<longleftrightarrow> True"
| "block_ok Hash Hash160 nHeight U (tx # txs) \<longleftrightarrow>
     tx_ok Hash Hash160 U tx \<and> block_ok Hash Hash160 nHeight (apply_tx Hash Hash160 nHeight U tx) txs"

fun undos_of :: "(bytes \<Rightarrow> uint256) \<Rightarrow> (bytes \<Rightarrow> uint160) \<Rightarrow> int \<Rightarrow> (COutPoint \<Rightarrow> Coin option) \<Rightarrow> CTransaction list \<Rightarrow> Coin list list" where
  "undos_of Hash Hash160 nHeight U [] = []"
| "undos_of Hash Hash160 nHeight U (tx # txs) =
     undo_of Hash160 U tx # undos_of Hash Hash160 nHeight (apply_tx Hash Hash160 nHeight U tx) txs"

lemma spend_inputs_zero: "spend_inputs db True ins cs = (map (\<lambda>_. coinEmpty) ins, cs)"
  by (induction ins) auto

lemma fresh_outs_spent_map: "fresh_outs txid n outs U \<Longrightarrow> fresh_outs txid n outs (spent_map Hash160 tx U)"
  by (simp add: fresh_outs_def spent_map_def remove_all_def)

lemma UpdateCoins_spec:
  assumes "stack_inv db cs" "tx_ok Hash Hash160 (utxo db cs) tx"
  shows "\<exists>cs'. UpdateCoins Hash Hash160 db tx nHeight cs = Inr (undo_of Hash160 (utxo db cs) tx, cs')
    \<and> stack_inv db cs' \<and> utxo db cs' = apply_tx Hash Hash160 nHeight (utxo db cs) tx"
proof -
  let ?spend = "if IsCoinBase tx then ([], cs) else spend_inputs db (IsZeroCoinPoWTransaction Hash160 tx) (vin tx) cs"
  obtain vp cs1 where s: "?spend = (vp, cs1)" by fastforce
  have p: "vp = undo_of Hash160 (utxo db cs) tx \<and> stack_inv db cs1 \<and> utxo db cs1 = spent_map Hash160 tx (utxo db cs)"
  proof (cases "skips_inputs Hash160 tx")
    case True
    with s assms(1) show ?thesis
      by (auto simp: skips_inputs_def undo_of_def spent_map_def spend_inputs_zero split: if_splits)
  next
    case False
    with assms(2) have "inputs_ok (utxo db cs) (map prevout (vin tx))" by (simp add: tx_ok_def)
    with False s show ?thesis using spend_inputs_spec [OF assms(1), of "vin tx" vp cs1]
      by (auto simp: skips_inputs_def undo_of_def spent_map_def)
  qed
  then obtain c base where cs1: "cs1 = c # base" by (cases cs1) (auto simp: stack_inv_def)
  have "fresh_outs (tx_GetHash Hash tx) 0 (vout tx) (utxo db (c # base))"
    using p assms(2) unfolding cs1 tx_ok_def by (simp add: fresh_outs_spent_map)
  then obtain c' where "AddCoins Hash tx nHeight c = Inr c'" "cache_inv db (c' # base)"
    "utxo db (c' # base) = apply_tx Hash Hash160 nHeight (utxo db cs) tx"
    using AddCoins_loop_spec [of db c base "tx_GetHash Hash tx" 0 "vout tx" "IsCoinBase tx" "IsCoinStake tx" nHeight]
      p assms(2) by (auto simp: cs1 AddCoins_def apply_tx_def tx_ok_def stack_inv_def)
  then show ?thesis using s p by (simp add: UpdateCoins_def cs1 top_AddCoins_def stack_inv_def)
qed

lemma map_of_rev_zip:
  assumes "distinct ops"
  shows "map_of (rev (zip ops (map f ops))) op = (if op \<in> set ops then Some (f op) else None)"
proof -
  have eq: "rev (zip ops (map f ops)) = map (\<lambda>x. (x, f x)) (rev ops)" by (simp add: zip_map2 zip_same_conv_map rev_map)
  show ?thesis unfolding eq by (induction "rev ops") (auto simp: map_of_map_restrict restrict_map_def)
qed

lemma disconnect_tx_spec:
  assumes "stack_inv db cs" "tx_ok Hash Hash160 U tx" "utxo db cs = apply_tx Hash Hash160 nHeight U tx"
  shows "\<exists>cs'. disconnect_tx Hash Hash160 db tx (undo_of Hash160 U tx) fClean cs = Inr (Some fClean, cs')
    \<and> stack_inv db cs' \<and> utxo db cs' = U"
proof -
  obtain fClean1 cs1 where s: "spend_outputs db (tx_GetHash Hash tx) 0 (vout tx) fClean cs = (fClean1, cs1)" by fastforce
  have f: "fresh_outs (tx_GetHash Hash tx) 0 (vout tx) (spent_map Hash160 tx U)"
    using assms(2) by (simp add: tx_ok_def fresh_outs_spent_map)
  have p: "fClean1 = fClean" "stack_inv db cs1" "utxo db cs1 = spent_map Hash160 tx U"
    using spend_outputs_spec [OF assms(1) assms(3) [unfolded apply_tx_def] f _ _ s] assms(2)
    by (auto simp: tx_ok_def new_Coin_def)
  show ?thesis
  proof (cases "skips_inputs Hash160 tx")
    case True
    then show ?thesis using s p by (simp add: disconnect_tx_def skips_inputs_def spent_map_def)
  next
    case False
    define ops where "ops = map prevout (vin tx)"
    have ok: "inputs_ok U ops" using assms(2) False by (simp add: tx_ok_def ops_def)
    have u: "undo_of Hash160 U tx = map (\<lambda>op. the (U op)) ops" using False by (simp add: undo_of_def skips_inputs_def ops_def)
    define ps where "ps = rev (zip ops (map (\<lambda>op. the (U op)) ops))"
    have m: "map_of ps op = (if op \<in> set ops then Some (the (U op)) else None)" for op
      unfolding ps_def using ok by (intro map_of_rev_zip) (simp add: inputs_ok_def)
    have d: "distinct (map fst ps)" using ok by (simp add: ps_def rev_map [symmetric] inputs_ok_def)
    have "\<forall>(op, coin) \<in> set ps. \<not> COutPoint_IsNull op \<and> spendable_coin coin \<and> utxo db cs1 op = None"
      using ok False by (fastforce simp: ps_def zip_map2 zip_same_conv_map inputs_ok_def list_all_iff p(3) spent_map_def remove_all_def
        ops_def [symmetric] split: option.splits)
    then obtain cs2 where r: "restore_inputs db ps fClean cs1 = Inr (Some fClean, cs2)" "stack_inv db cs2"
      "utxo db cs2 = (\<lambda>op. case map_of ps op of Some coin \<Rightarrow> Some coin | None \<Rightarrow> utxo db cs1 op)"
      using restore_inputs_spec [OF p(2) d] by blast
    have "utxo db cs2 = U"
      unfolding r(3) m p(3) using ok False
      by (auto simp: fun_eq_iff spent_map_def remove_all_def ops_def [symmetric] inputs_ok_def list_all_iff split: option.splits)
    moreover have "disconnect_tx Hash Hash160 db tx (undo_of Hash160 U tx) fClean cs = restore_inputs db ps fClean cs1"
      using s p(1) False by (simp add: disconnect_tx_def skips_inputs_def u ps_def ops_def)
    ultimately show ?thesis using r by simp
  qed
qed


lemma connect_txs_spec:
  assumes "stack_inv db cs" "block_ok Hash Hash160 nHeight (utxo db cs) txs"
  shows "\<exists>cs'. connect_txs Hash Hash160 db nHeight txs cs = Inr (undos_of Hash Hash160 nHeight (utxo db cs) txs, cs')
    \<and> stack_inv db cs' \<and> utxo db cs' = foldl (apply_tx Hash Hash160 nHeight) (utxo db cs) txs"
  using assms
proof (induction txs arbitrary: cs)
  case (Cons tx txs)
  obtain cs1 where c: "UpdateCoins Hash Hash160 db tx nHeight cs = Inr (undo_of Hash160 (utxo db cs) tx, cs1)"
    "stack_inv db cs1" "utxo db cs1 = apply_tx Hash Hash160 nHeight (utxo db cs) tx"
    using UpdateCoins_spec [OF Cons.prems(1)] Cons.prems(2) by fastforce
  from Cons.IH [OF c(2)] Cons.prems(2) c show ?case by auto
qed auto

lemma disconnect_txs_append:
  "disconnect_txs Hash Hash160 db xs fClean cs = Inr (DISCONNECT_OK, cs1) \<Longrightarrow>
   disconnect_txs Hash Hash160 db (xs @ ys) fClean cs = disconnect_txs Hash Hash160 db ys True cs1"
proof (induction xs arbitrary: fClean cs)
  case (Cons x xs)
  then show ?case by (cases x) (auto split: sum.splits prod.splits option.splits)
qed (auto split: if_splits)

lemma disconnect_txs_spec:
  assumes "stack_inv db cs" "block_ok Hash Hash160 nHeight U txs" "utxo db cs = foldl (apply_tx Hash Hash160 nHeight) U txs"
  shows "\<exists>cs'. disconnect_txs Hash Hash160 db (rev (zip txs (undos_of Hash Hash160 nHeight U txs))) True cs
      = Inr (DISCONNECT_OK, cs') \<and> stack_inv db cs' \<and> utxo db cs' = U"
  using assms
proof (induction txs arbitrary: U)
  case (Cons tx txs)
  let ?U = "apply_tx Hash Hash160 nHeight U tx"
  obtain cs1 where c: "disconnect_txs Hash Hash160 db (rev (zip txs (undos_of Hash Hash160 nHeight ?U txs))) True cs
      = Inr (DISCONNECT_OK, cs1)" "stack_inv db cs1" "utxo db cs1 = ?U"
    using Cons.IH [of ?U] Cons.prems by auto
  obtain cs2 where "disconnect_tx Hash Hash160 db tx (undo_of Hash160 U tx) True cs1 = Inr (Some True, cs2)"
    "stack_inv db cs2" "utxo db cs2 = U"
    using disconnect_tx_spec [OF c(2) _ c(3)] Cons.prems(2) by auto
  then show ?case using disconnect_txs_append [OF c(1)] by simp
qed auto

lemma length_undos_of [simp]: "length (undos_of Hash Hash160 nHeight U txs) = length txs"
  by (induction txs arbitrary: U) auto

section \<open>Properties\<close>

text \<open>
  C1. Disconnecting a block undoes it.  Take any coins view that satisfies the cache invariant and a block that starts
  with a coinbase and whose transactions can be applied one after the other (inputs unspent, distinct and spendable, output
  slots unused, no output with the null value).  Connecting its transactions succeeds and yields undo data, and
  disconnecting the block with that data, transactions and inputs in reverse order, returns \<open>DISCONNECT_OK\<close> and
  restores exactly the previous map of unspent outputs.
\<close>

theorem disconnect_restores:
  assumes "stack_inv db view" "vtx \<noteq> []" "IsCoinBase (hd vtx)" "block_ok Hash Hash160 nHeight (utxo db view) vtx"
  shows "\<exists>vtxundo view' view''. connect_block Hash Hash160 db nHeight vtx view = Inr (vtxundo, view')
    \<and> utxo db view' = foldl (apply_tx Hash Hash160 nHeight) (utxo db view) vtx
    \<and> disconnect_block Hash Hash160 db vtx vtxundo view' = Inr (DISCONNECT_OK, view'')
    \<and> stack_inv db view'' \<and> utxo db view'' = utxo db view"
proof -
  let ?us = "undos_of Hash Hash160 nHeight (utxo db view) vtx"
  obtain view' where c: "connect_txs Hash Hash160 db nHeight vtx view = Inr (?us, view')" "stack_inv db view'"
    "utxo db view' = foldl (apply_tx Hash Hash160 nHeight) (utxo db view) vtx"
    using connect_txs_spec [OF assms(1,4)] by blast
  obtain view'' where d: "disconnect_txs Hash Hash160 db (rev (zip vtx ?us)) True view' = Inr (DISCONNECT_OK, view'')"
    "stack_inv db view''" "utxo db view'' = utxo db view"
    using disconnect_txs_spec [OF c(2) assms(4) c(3)] by blast
  have "hd ?us = []" using assms(2,3) by (cases vtx) (auto simp: undo_of_def)
  then have "[] # tl ?us = ?us" using assms(2) by (cases ?us) (auto dest: arg_cong [of _ _ length])
  then have "disconnect_block Hash Hash160 db vtx (tl ?us) view' = Inr (DISCONNECT_OK, view'')"
    using d(1) assms(2) by (simp add: disconnect_block_def)
  then show ?thesis using c d by (simp add: connect_block_def)
qed

text \<open>
  Undoing over an existing coin raises.  \<open>DisconnectResult\<close> documents \<open>DISCONNECT_UNCLEAN\<close> for a view that is
  inconsistent with the block, and \<open>ApplyTxInUndo\<close> computes it when the outpoint to restore is still unspent.  But it calls
  \<open>AddCoin\<close> without permission to overwrite, so in that case the exception for replacing an unspent coin is raised
  and the result is never returned.
\<close>

lemma ApplyTxInUndo_unclean_raises:
  assumes "stack_inv db view" "utxo db view out = Some coin" "spendable_coin undo"
  shows "ApplyTxInUndo db undo out view = Inl ReplacesNonPruned"
proof -
  obtain r view1 where f: "FetchCoin db out view = (r, view1)" by fastforce
  have inv: "cache_inv db view" "view \<noteq> []" using assms(1) by (simp_all add: stack_inv_def)
  note s = FetchCoin_spec [OF inv(1) f]
  obtain c base where v1: "view1 = c # base" using s inv(2) by (cases view1) auto
  obtain e where e: "r = Some e" "\<not> IsSpent (ce_coin e)" using s assms(2) by (cases r) (auto simp: unspent_def split: if_splits)
  then have "map_of (cacheCoins c) out = Some e" using s v1 by simp
  then have "top_AddCoin out undo False view1 = Inl ReplacesNonPruned"
    using e assms(3) by (simp add: top_AddCoin_def v1 AddCoin_def spendable_coin_def)
  then show ?thesis using f e assms(3) by (simp add: ApplyTxInUndo_def HaveCoin_def spendable_coin_def)
qed


text \<open>
  C36. A replayed registration breaks the flush.  A zero-coin registration spends no output, so nothing in block
  validation makes its identifier unique (the memory pool does check).  If such a transaction is applied again while its output is still
  unspent in the cache below, \<open>UpdateCoins\<close> accepts it and marks the new entry \<open>FRESH\<close>, and flushing the
  block's view raises the exception for a misapplied \<open>FRESH\<close> flag.
\<close>

theorem replayed_registration_raises:
  assumes "IsZeroCoinPoWTransaction Hash160 tx" "\<not> IsUnspendable (scriptPubKey (vout tx ! 0))"
    "map_of (cacheCoins tip) (out_op (tx_GetHash Hash tx) 0) = Some e" "\<not> IsSpent (ce_coin e)"
  shows "\<exists>view. UpdateCoins Hash Hash160 db tx nHeight (\<lparr>hashBlock = h, cacheCoins = []\<rparr> # tip # base) = Inr ([coinEmpty], view)
    \<and> Flush db view = Inl FreshMisapplied"
proof -
  obtain i out where t: "vin tx = [i]" "vout tx = [out]" "nValue out = 0" "\<not> IsCoinBase tx" "\<not> IsCoinStake tx"
    using assms(1) by (cases "vin tx"; cases "vout tx") (auto simp: IsZeroCoinPoWTransaction_def split: if_splits)
  have "\<not> IsSpent (new_Coin out nHeight False False)" using t(3) by (simp add: IsSpent_def CTxOut_IsNull_def new_Coin_def)
  then show ?thesis using assms t
    by (simp add: UpdateCoins_def spend_inputs_zero top_AddCoins_def AddCoins_def AddCoin_def Let_def BatchWrite_def
      batch_entry_def out_op_def new_Coin_def)
qed

section \<open>Concrete runs\<close>

definition demo_hash :: "bytes \<Rightarrow> uint256" where "demo_hash b = of_nat (length b)"

lemma demo_sizes: "tx_GetHash demo_hash (demo_coinbase [1, 2]) = 63" "tx_GetHash demo_hash demo_payment = 112"
  by (simp_all add: tx_GetHash_def demo_hash_def demo_coinbase_def demo_payment_def demo_spend_def put_tx_def put_vector_def
    put_txin_def put_outpoint_def put_txout_def put_int32_def put_int64_def put_uint256_def put_blob_def ser_writedata32_def
    ser_writedata64_def WriteLE32_def WriteLE64_def WriteCompactSize_def ser_writedata8_def new_txout_def)

lemma demo_stack_inv: "stack_inv demo_db demo_stack"
  by (simp add: stack_inv_def demo_unfold) (simp add: demo_stack_def)

lemma demo_kinds: "IsCoinBase (demo_coinbase sig)" "\<not> IsCoinStake (demo_coinbase sig)" "\<not> IsCoinBase demo_payment"
  "\<not> IsCoinStake demo_payment" "\<not> IsZeroCoinPoWTransaction Hash160 demo_payment"
  by (simp_all add: demo_coinbase_def demo_payment_def demo_spend_def IsCoinBase_def IsCoinStake_def null_outpoint_def
    COutPoint_IsNull_def IsZeroCoinPoWTransaction_def CTxOut_IsEmpty_def new_txout_def demo_op_def)

lemma demo_utxo: "utxo demo_db demo_stack op =
    (if op = demo_op 0 then Some (demo_coin 40) else if op = demo_op 1 then Some (demo_coin 2) else None)"
  using demo_unfold(5) [of 40] demo_unfold(5) [of 2]
  by (auto simp: demo_stack_def demo_db_def utxo.simps db_GetCoin_def unspent_def demo_op_def)

lemma demo_parts: "vout (demo_coinbase sig) = [new_txout 50 [0x51]]"
  "vout demo_payment = [new_txout 30 [0x51], new_txout 5 [0x51]]"
  "map prevout (vin demo_payment) = [demo_op 0, demo_op 1]"
  by (simp_all add: demo_coinbase_def demo_payment_def demo_spend_def)

lemma demo_block_ok: "block_ok demo_hash (\<lambda>_. 0) 8 (utxo demo_db demo_stack) [demo_coinbase [1, 2], demo_payment]"
proof -
  have "tx_ok demo_hash (\<lambda>_. 0) (utxo demo_db demo_stack) (demo_coinbase [1, 2])"
    by (simp add: tx_ok_def demo_sizes demo_kinds skips_inputs_def fresh_outs_def demo_utxo demo_parts demo_op_def
      out_op_def new_txout_def)
  moreover have "spendable_coin (demo_coin 40)" "spendable_coin (demo_coin 2)"
    by (simp_all add: spendable_coin_def demo_unfold(5,6) [simplified] demo_unfold) (simp_all add: demo_coin_def new_Coin_def)
  moreover have "\<not> IsUnspendable [0x51]" using demo_unfold(6) by (simp add: demo_coin_def new_Coin_def new_txout_def)
  ultimately show ?thesis
    by (simp add: tx_ok_def apply_tx_def spent_map_def demo_sizes demo_kinds skips_inputs_def fresh_outs_def inputs_ok_def
      demo_utxo demo_parts new_txout_def demo_op_def out_op_def COutPoint_IsNull_def less_Suc_eq)
qed

theorem disconnect_restores_witness:
  "\<exists>vtxundo view' view''. connect_block demo_hash (\<lambda>_. 0) demo_db 8 [demo_coinbase [1, 2], demo_payment] demo_stack = Inr (vtxundo, view')
    \<and> disconnect_block demo_hash (\<lambda>_. 0) demo_db [demo_coinbase [1, 2], demo_payment] vtxundo view' = Inr (DISCONNECT_OK, view'')
    \<and> utxo demo_db view'' (demo_op 0) = Some (demo_coin 40)"
  using disconnect_restores [OF demo_stack_inv _ _ demo_block_ok] by (auto simp: demo_kinds demo_unfold)

definition demo_registration :: CTransaction where
  "demo_registration = \<lparr>tx_nVersion = 1, vin = [\<lparr>prevout = \<lparr>op_hash = 1, op_n = 0\<rparr>, scriptSig = [], nSequence = 0\<rparr>],
     vout = [new_txout 0 (pow_lock_script (replicate 4 7) (replicate 32 9) (3 # replicate 32 1) 12000 (replicate 20 4))],
     nLockTime = 0\<rparr>"

definition demo_tip :: CCoinsViewCache where
  "demo_tip = \<lparr>hashBlock = 9, cacheCoins = [(out_op (tx_GetHash demo_hash demo_registration) 0,
     \<lparr>ce_coin = new_Coin (vout demo_registration ! 0) 7 False False, ce_flags = 0\<rparr>)]\<rparr>"

theorem replayed_registration_raises_witness:
  "\<exists>view. UpdateCoins demo_hash (\<lambda>_. uint160_of (replicate 20 4)) demo_db demo_registration 8
      [\<lparr>hashBlock = 0, cacheCoins = []\<rparr>, demo_tip] = Inr ([coinEmpty], view) \<and> Flush demo_db view = Inl FreshMisapplied"
proof -
  have v: "ValidSize (3 # replicate 32 1)" by (simp add: ValidSize_def GetLen_def COMPRESSED_PUBLIC_KEY_SIZE_def)
  have n: "length (CScriptNum_serialize 12000) \<le> 4" by (simp add: CScriptNum_serialize_def scriptnum_bytes.simps)
  have k: "pubkey_IsValid (pubkey_Set (3 # replicate 32 1))"
    using v by (simp add: pubkey_IsValid_def pubkey_Set_def pubkey_size_def ValidSize_def GetLen_def COMPRESSED_PUBLIC_KEY_SIZE_def)
  have "MatchPoWLockRegistration (pow_lock_script (replicate 4 7) (replicate 32 9) (3 # replicate 32 1) 12000 (replicate 20 4))
    = Some (replicate 4 7, uint256_of (replicate 32 9), pubkey_Set (3 # replicate 32 1), 12000, uint160_of (replicate 20 4))"
    using v n by (intro MatchPoWLock_built) simp_all
  then have z: "IsZeroCoinPoWTransaction (\<lambda>_. uint160_of (replicate 20 4)) demo_registration"
    using k by (simp add: IsZeroCoinPoWTransaction_def demo_registration_def IsCoinBase_def IsCoinStake_def COutPoint_IsNull_def
      is_sentinel_def zeroCoinSentinelHash_def new_txout_def GetValueOut_def wrap64_def pubkey_GetID_def)
  have s: "\<not> IsUnspendable (scriptPubKey (vout demo_registration ! 0))"
    by (simp add: IsUnspendable_def demo_registration_def new_txout_def pow_lock_script_def script_push_data_def MAX_SCRIPT_SIZE_def
      CScriptNum_serialize_def scriptnum_bytes.simps push_scriptnum_def)
  have "map_of (cacheCoins demo_tip) (out_op (tx_GetHash demo_hash demo_registration) 0)
      = Some \<lparr>ce_coin = new_Coin (vout demo_registration ! 0) 7 False False, ce_flags = 0\<rparr>"
    by (simp add: demo_tip_def)
  from replayed_registration_raises [OF z s this] show ?thesis
    by (simp add: IsSpent_def CTxOut_IsNull_def new_Coin_def demo_registration_def new_txout_def)
qed

end
