(* ===== verification/Compressor.thy ===== *)
theory Compressor
  imports Coins
begin

text \<open>
  The compact serialization of unspent outputs and undo data (\<open>src/src/compressor.h\<close> and \<open>.cpp\<close>, the serializers of
  \<open>coins.h\<close> and \<open>undo.h\<close>): amounts lose their trailing zeros, common scripts are replaced by the hash or key in
  them.  Validation and decompression of public keys are \<open>secp256k1\<close> calls and are parameters; \<open>decompress_ok\<close> states
  that decompressing the compressed form of a valid key gives the key.  The readers write into fresh objects, so the
  script they fill is empty before.
\<close>

section \<open>Amounts\<close>

function strip_zeros :: "u64 \<Rightarrow> nat \<Rightarrow> u64 \<times> nat" where
  "strip_zeros n e = (if n mod 10 = 0 \<and> e < 9 then strip_zeros (n div 10) (e + 1) else (n, e))"
  by auto
termination
  by (relation "measure (\<lambda>(n, e). 9 - e)") auto

definition CompressAmount :: "u64 \<Rightarrow> u64" where
  "CompressAmount n =
     (if n = 0 then 0
      else case strip_zeros n 0 of
        (n, e) \<Rightarrow>
          if e < 9 then
            let d = n mod 10; n = n div 10
            in 1 + (n * 9 + d - 1) * 10 + of_nat e
          else 1 + (n - 1) * 10 + 9)"

fun mult_10 :: "u64 \<Rightarrow> nat \<Rightarrow> u64" where
  "mult_10 n 0 = n"
| "mult_10 n (Suc e) = mult_10 (n * 10) e"

definition DecompressAmount :: "u64 \<Rightarrow> u64" where
  "DecompressAmount x =
     (if x = 0 then 0
      else
        let x = x - 1;
            e = unat (x mod 10);
            x = x div 10
        in if e < 9 then
             let d = x mod 9 + 1; x = x div 9
             in mult_10 (x * 10 + d) e
           else mult_10 (x + 1) e)"

section \<open>Scripts\<close>

definition IsToKeyID :: "bytes \<Rightarrow> bytes option" where
  "IsToKeyID script =
     (if length script = 25 \<and> script ! 0 = OP_DUP \<and> script ! 1 = OP_HASH160 \<and> script ! 2 = 20
         \<and> script ! 23 = OP_EQUALVERIFY \<and> script ! 24 = OP_CHECKSIG
      then Some (take 20 (drop 3 script)) else None)"

definition IsToScriptID :: "bytes \<Rightarrow> bytes option" where
  "IsToScriptID script =
     (if length script = 23 \<and> script ! 0 = OP_HASH160 \<and> script ! 1 = 20 \<and> script ! 22 = OP_EQUAL
      then Some (take 20 (drop 2 script)) else None)"

definition IsToPubKey :: "(cpubkey \<Rightarrow> bool) \<Rightarrow> bytes \<Rightarrow> cpubkey option" where
  "IsToPubKey IsFullyValid script =
     (if length script = 35 \<and> script ! 0 = 33 \<and> script ! 34 = OP_CHECKSIG \<and> (script ! 1 = 0x02 \<or> script ! 1 = 0x03)
      then Some (pubkey_Set (take 33 (drop 1 script)))
      else if length script = 67 \<and> script ! 0 = 65 \<and> script ! 66 = OP_CHECKSIG \<and> script ! 1 = 0x04
      then
        let pubkey = pubkey_Set (take 65 (drop 1 script))
        in if IsFullyValid pubkey then Some pubkey else None
      else None)"

definition Compress :: "(cpubkey \<Rightarrow> bool) \<Rightarrow> bytes \<Rightarrow> bytes option" where
  "Compress IsFullyValid script =
     (case IsToKeyID script of
        Some keyID \<Rightarrow> Some (0x00 # keyID)
      | None \<Rightarrow>
     (case IsToScriptID script of
        Some scriptID \<Rightarrow> Some (0x01 # scriptID)
      | None \<Rightarrow>
     (case IsToPubKey IsFullyValid script of
        Some pubkey \<Rightarrow>
          let k = key_vch pubkey; rest = take 32 (drop 1 k)
          in if k ! 0 = 0x02 \<or> k ! 0 = 0x03 then Some (k ! 0 # rest)
             else if k ! 0 = 0x04 then Some ((0x04 OR (k ! 64 AND 0x01)) # rest)
             else None
      | None \<Rightarrow> None)))"

definition GetSpecialSize :: "u32 \<Rightarrow> nat" where
  "GetSpecialSize nSize =
     (if nSize = 0 \<or> nSize = 1 then 20
      else if nSize = 2 \<or> nSize = 3 \<or> nSize = 4 \<or> nSize = 5 then 32
      else 0)"

definition Decompress :: "(cpubkey \<Rightarrow> cpubkey option) \<Rightarrow> u32 \<Rightarrow> bytes \<Rightarrow> bytes option" where
  "Decompress key_Decompress nSize inp =
     (if nSize = 0 then Some ([OP_DUP, OP_HASH160, 20] @ take 20 inp @ [OP_EQUALVERIFY, OP_CHECKSIG])
      else if nSize = 1 then Some ([OP_HASH160, 20] @ take 20 inp @ [OP_EQUAL])
      else if nSize = 2 \<or> nSize = 3 then Some ([33, ucast nSize] @ take 32 inp @ [OP_CHECKSIG])
      else if nSize = 4 \<or> nSize = 5 then
        (case key_Decompress (pubkey_Set (ucast (nSize - 2) # take 32 inp)) of
           None \<Rightarrow> None
         | Some pubkey \<Rightarrow> Some ([65] @ take 65 (key_vch pubkey) @ [OP_CHECKSIG]))
      else None)"

definition nSpecialScripts :: u32 where "nSpecialScripts = 6"

definition put_script :: "(cpubkey \<Rightarrow> bool) \<Rightarrow> bytes \<Rightarrow> bytes" where
  "put_script IsFullyValid script =
     (case Compress IsFullyValid script of
        Some compr \<Rightarrow> compr
      | None \<Rightarrow> WriteVarInt (of_nat (length script) + nSpecialScripts) @ script)"

definition get_script :: "(cpubkey \<Rightarrow> cpubkey option) \<Rightarrow> bytes reader" where
  "get_script key_Decompress s = do {
     (nSize, s) \<leftarrow> ReadVarInt s;
     if nSize < nSpecialScripts then do {
       (vch, s) \<leftarrow> read_bytes (GetSpecialSize nSize) s;
       Some (case Decompress key_Decompress nSize vch of None \<Rightarrow> [] | Some script \<Rightarrow> script, s) }
     else if unat (nSize - nSpecialScripts) > MAX_SCRIPT_SIZE then do {
       (_, s) \<leftarrow> read_bytes (unat (nSize - nSpecialScripts)) s;
       Some ([OP_RETURN], s) }
     else read_bytes (unat (nSize - nSpecialScripts)) s }"

section \<open>Outputs, coins and undo records\<close>

definition put_ctxout :: "(cpubkey \<Rightarrow> bool) \<Rightarrow> CTxOut \<Rightarrow> bytes" where
  "put_ctxout IsFullyValid out =
     WriteVarInt (CompressAmount (word_of_int (nValue out))) @ put_script IsFullyValid (scriptPubKey out)"

definition get_ctxout :: "(cpubkey \<Rightarrow> cpubkey option) \<Rightarrow> CTxOut reader" where
  "get_ctxout key_Decompress s = do {
     (nVal, s) \<leftarrow> ReadVarInt s;
     (script, s) \<leftarrow> get_script key_Decompress s;
     Some (CTxOut_SetNull\<lparr>nValue := sint (DecompressAmount nVal), scriptPubKey := script\<rparr>, s) }"

definition coin_code :: "Coin \<Rightarrow> u32" where
  "coin_code c = coin_nHeight c * 4 + (if fCoinBase c then 2 else 0) + (if fCoinStake c then 1 else 0)"

definition put_coin :: "(cpubkey \<Rightarrow> bool) \<Rightarrow> Coin \<Rightarrow> bytes option" where
  "put_coin IsFullyValid c =
     (if IsSpent c then None else Some (WriteVarInt (coin_code c) @ put_ctxout IsFullyValid (coin_out c)))"

definition get_coin :: "(cpubkey \<Rightarrow> cpubkey option) \<Rightarrow> Coin reader" where
  "get_coin key_Decompress s = do {
     (code, s) \<leftarrow> ReadVarInt s;
     (out, s) \<leftarrow> get_ctxout key_Decompress s;
     Some (\<lparr>fCoinBase = (code AND 2 \<noteq> 0), fCoinStake = (code AND 1 \<noteq> 0), coin_out = out, coin_nHeight = drop_bit 2 code\<rparr>, s) }"

definition put_undo :: "(cpubkey \<Rightarrow> bool) \<Rightarrow> Coin \<Rightarrow> bytes" where
  "put_undo IsFullyValid c =
     WriteVarInt (coin_code c) @ (if coin_nHeight c > 0 then ser_writedata8 0 else []) @ put_ctxout IsFullyValid (coin_out c)"

definition get_undo :: "(cpubkey \<Rightarrow> cpubkey option) \<Rightarrow> Coin reader" where
  "get_undo key_Decompress s = do {
     (nCode, s) \<leftarrow> ReadVarInt s;
     s \<leftarrow> (if drop_bit 2 nCode > (0 :: u32) then do { (nVersionDummy :: u32, s) \<leftarrow> ReadVarInt s; Some s } else Some s);
     (out, s) \<leftarrow> get_ctxout key_Decompress s;
     Some (\<lparr>fCoinBase = (nCode AND 2 \<noteq> 0), fCoinStake = (nCode AND 1 \<noteq> 0), coin_out = out, coin_nHeight = drop_bit 2 nCode\<rparr>, s) }"

text \<open>An empty input takes 41 bytes.\<close>

definition MAX_INPUTS_PER_BLOCK :: u64 where
  "MAX_INPUTS_PER_BLOCK = 8000000 div 41"

definition put_txundo :: "(cpubkey \<Rightarrow> bool) \<Rightarrow> Coin list \<Rightarrow> bytes" where
  "put_txundo IsFullyValid vprevout =
     WriteCompactSize (of_nat (length vprevout)) @ concat (map (put_undo IsFullyValid) vprevout)"

definition get_txundo :: "(cpubkey \<Rightarrow> cpubkey option) \<Rightarrow> Coin list reader" where
  "get_txundo key_Decompress s = do {
     (count, s) \<leftarrow> ReadCompactSize s;
     if count > MAX_INPUTS_PER_BLOCK then None
     else read_items (get_undo key_Decompress) (unat count) s }"

definition put_blockundo :: "(cpubkey \<Rightarrow> bool) \<Rightarrow> Coin list list \<Rightarrow> bytes" where
  "put_blockundo IsFullyValid vtxundo = put_vector (put_txundo IsFullyValid) vtxundo"

definition get_blockundo :: "(cpubkey \<Rightarrow> cpubkey option) \<Rightarrow> Coin list list reader" where
  "get_blockundo key_Decompress s = get_vector (get_txundo key_Decompress) s"

declare strip_zeros.simps [simp del]

section \<open>Amount round trip\<close>

lemma unat_div_mod_10: "unat (n div 10 :: u64) = unat n div 10" "unat (n mod 10 :: u64) = unat n mod 10"
  by (simp_all add: unat_div unat_mod)

lemma strip_zeros_spec:
  "strip_zeros n e = (m, e') \<Longrightarrow> e \<le> 9 \<Longrightarrow>
   e \<le> e' \<and> e' \<le> 9 \<and> unat n = unat m * 10 ^ (e' - e) \<and> (e' < 9 \<longrightarrow> unat m mod 10 \<noteq> 0)"
proof (induction n e rule: strip_zeros.induct)
  case (1 n e)
  show ?case
  proof (cases "n mod 10 = 0 \<and> e < 9")
    case True
    then have s: "strip_zeros (n div 10) (e + 1) = (m, e')" using "1.prems"(1) by (subst (asm) strip_zeros.simps) simp
    from "1.IH" [OF True s] True have ih: "e + 1 \<le> e'" "e' \<le> 9" "unat n div 10 = unat m * 10 ^ (e' - (e + 1))"
      "e' < 9 \<longrightarrow> unat m mod 10 \<noteq> 0" by (auto simp: unat_div_mod_10)
    have "unat n mod 10 = 0" using True unat_div_mod_10(2) [of n] by simp
    then have "unat n = 10 * (unat n div 10)" by presburger
    also have "\<dots> = unat m * 10 ^ (e' - e)" using ih(1,3) by (simp add: Suc_diff_Suc flip: power_Suc)
    finally show ?thesis using ih by simp
  next
    case False
    then have "m = n" "e' = e" using "1.prems"(1) False by (simp_all only: strip_zeros.simps [of n e] if_False prod.inject)
    moreover have "e < 9 \<Longrightarrow> unat n mod 10 \<noteq> 0" using False unat_div_mod_10(2) [of n] by (metis unsigned_0 word_unat_eq_iff)
    ultimately show ?thesis using "1.prems"(2) by simp
  qed
qed

lemma mult_10_unat: "unat n * 10 ^ e < 2 ^ 64 \<Longrightarrow> unat (mult_10 n e) = unat n * 10 ^ e"
proof (induction e arbitrary: n)
  case (Suc e)
  have "unat n * 10 \<le> unat n * 10 ^ Suc e" by simp
  then have "unat n * 10 < 2 ^ 64" using Suc.prems by (rule le_less_trans)
  then have "unat (n * 10) = unat n * 10" by (intro trans [OF unat_mult_u64]) simp_all
  with Suc show ?case by (simp add: mult.assoc)
qed simp


lemma of_nat_u64: "X < 2 ^ 64 \<Longrightarrow> unat (of_nat X :: u64) = X"
  by (simp add: unat_of_nat)

lemma of_nat_div_mod_u64:
  assumes "X < 2 ^ 64" "k < 2 ^ 64"
  shows "(of_nat X :: u64) div of_nat k = of_nat (X div k)" "(of_nat X :: u64) mod of_nat k = of_nat (X mod k)"
proof -
  have "X div k \<le> X" "X mod k \<le> X" by simp_all
  then have b: "X div k < 2 ^ 64" "X mod k < 2 ^ 64" using assms(1) by linarith+
  show "(of_nat X :: u64) div of_nat k = of_nat (X div k)" "(of_nat X :: u64) mod of_nat k = of_nat (X mod k)"
    unfolding word_unat_eq_iff unat_div unat_mod using assms b by (simp_all only: of_nat_u64)
qed

text \<open>The two encodings, as numbers.\<close>

lemma DecompressAmount_digit:
  assumes "1 \<le> d" "d \<le> 9" "e < 9" "(q * 9 + (d - 1)) * 10 + e + 1 < 2 ^ 64" "(q * 10 + d) * 10 ^ e < 2 ^ 64"
  shows "unat (DecompressAmount (of_nat ((q * 9 + (d - 1)) * 10 + e + 1))) = (q * 10 + d) * 10 ^ e"
proof -
  define Y where "Y = q * 9 + (d - 1)"
  define X where "X = Y * 10 + e"
  have X: "X + 1 < 2 ^ 64" using assms(4) by (simp add: X_def Y_def)
  have nz: "(of_nat (X + 1) :: u64) \<noteq> 0" using of_nat_u64 [OF X] by (metis add_is_0 one_neq_zero unat_0)
  have x1: "(of_nat (X + 1) :: u64) - 1 = of_nat X" by simp
  have em: "X mod 10 = e" "X div 10 = Y" using assms(3) by (simp_all add: X_def)
  have "d - 1 < 9" using assms(2) by simp
  then have dm: "Y mod 9 = d - 1" "Y div 9 = q" by (simp_all only: Y_def mod_mult_self3 div_mult_self3 mod_less div_less)
  have Yb: "Y < 2 ^ 64" using X by (simp add: X_def)
  have e: "unat ((of_nat X :: u64) mod 10) = e"
    using of_nat_div_mod_u64(2) [of X 10] X em(1) assms(3) by (simp add: of_nat_u64 unat_of_nat)
  have y: "(of_nat X :: u64) div 10 = of_nat Y" using of_nat_div_mod_u64(1) [of X 10] X em by simp
  have d: "(of_nat Y :: u64) mod 9 + 1 = of_nat d"
    using of_nat_div_mod_u64(2) [of Y 9] Yb dm(1) assms(1) by (simp add: of_nat_diff)
  have q: "(of_nat Y :: u64) div 9 = of_nat q" using of_nat_div_mod_u64(1) [of Y 9] Yb dm by simp
  have "DecompressAmount (of_nat (X + 1)) = mult_10 (of_nat (q * 10 + d)) e"
    unfolding DecompressAmount_def Let_def x1 e y d q using nz assms(3) by simp
  moreover have "q * 10 + d < 2 ^ 64"
    using assms(5) le_less_trans [of "q * 10 + d" "(q * 10 + d) * 10 ^ e" "2 ^ 64"] by simp
  ultimately show ?thesis using assms(5) mult_10_unat [of "of_nat (q * 10 + d)" e]
    by (simp add: X_def Y_def of_nat_u64 del: of_nat_add of_nat_mult)
qed

lemma DecompressAmount_tail:
  assumes "0 < m" "(m - 1) * 10 + 10 < 2 ^ 64" "m * 10 ^ 9 < 2 ^ 64"
  shows "unat (DecompressAmount (of_nat ((m - 1) * 10 + 10))) = m * 10 ^ 9"
proof -
  define X where "X = (m - 1) * 10 + 9"
  have X: "X + 1 < 2 ^ 64" using assms(2) by (simp add: X_def)
  have nz: "(of_nat (X + 1) :: u64) \<noteq> 0" using of_nat_u64 [OF X] by (metis add_is_0 one_neq_zero unat_0)
  have x1: "(of_nat (X + 1) :: u64) - 1 = of_nat X" by simp
  have em: "X mod 10 = 9" "X div 10 = m - 1" by (simp_all add: X_def)
  have e: "unat ((of_nat X :: u64) mod 10) = 9"
    using of_nat_div_mod_u64(2) [of X 10] X em(1) by (simp add: of_nat_u64 unat_of_nat)
  have y: "(of_nat X :: u64) div 10 + 1 = of_nat m"
    using of_nat_div_mod_u64(1) [of X 10] X em(2) assms(1) by (simp add: of_nat_diff)
  have "DecompressAmount (of_nat (X + 1)) = mult_10 (of_nat m) 9"
    unfolding DecompressAmount_def Let_def x1 e y using nz by simp
  moreover have "m < 2 ^ 64" using assms(3) by simp
  ultimately show ?thesis using assms(3) mult_10_unat [of "of_nat m" 9] by (simp add: X_def of_nat_u64 add.commute del: mult_10.simps)
qed

lemma CompressAmount_roundtrip:
  assumes "9 * unat n + 10 < 2 ^ 64"
  shows "DecompressAmount (CompressAmount n) = n"
proof (cases "n = 0")
  case False
  obtain m e where s: "strip_zeros n 0 = (m, e)" by fastforce
  have p: "e \<le> 9" "unat n = unat m * 10 ^ e" "e < 9 \<longrightarrow> unat m mod 10 \<noteq> 0" using strip_zeros_spec [OF s] by auto
  have m0: "0 < unat m" using p(2) False by (metis mult_is_0 neq0_conv unat_eq_zero)
  have le: "unat m \<le> unat n" using p(2) by simp
  show ?thesis
  proof (cases "e < 9")
    case True
    define d where "d = unat m mod 10"
    define q where "q = unat m div 10"
    have dq: "unat m = q * 10 + d" "1 \<le> d" "d \<le> 9" using p(3) True by (auto simp: d_def q_def)
    have w: "m mod 10 = of_nat d" "m div 10 = of_nat q"
      by (simp_all add: d_def q_def flip: unat_div_mod_10)
    have "CompressAmount n = 1 + (of_nat q * 9 + of_nat d - 1) * 10 + of_nat e"
      using False True by (simp add: CompressAmount_def s w Let_def)
    also have "\<dots> = of_nat ((q * 9 + (d - 1)) * 10 + e + 1)" using dq(2) by (simp add: of_nat_diff)
    finally have c: "CompressAmount n = of_nat ((q * 9 + (d - 1)) * 10 + e + 1)" .
    have "(q * 9 + (d - 1)) * 10 + e + 1 \<le> 9 * unat m + 10" using dq True by simp
    then have b: "(q * 9 + (d - 1)) * 10 + e + 1 < 2 ^ 64" using assms le by linarith
    have "(q * 10 + d) * 10 ^ e < 2 ^ 64" using p(2) dq(1) unat_lt2p64 [of n] by simp
    from DecompressAmount_digit [OF dq(2,3) True b this] show ?thesis
      unfolding c word_unat_eq_iff using p(2) dq(1) by simp
  next
    case e9: False
    then have e: "e = 9" using p(1) by simp
    have "m = of_nat (unat m)" by simp
    then have "CompressAmount n = 1 + (of_nat (unat m) - 1) * 10 + 9" using False e by (simp add: CompressAmount_def s)
    also have "\<dots> = of_nat ((unat m - 1) * 10 + 10)" using m0 by (simp add: of_nat_diff)
    finally have c: "CompressAmount n = of_nat ((unat m - 1) * 10 + 10)" .
    have "(unat m - 1) * 10 + 10 < 2 ^ 64" using p(2) e assms by simp
    from DecompressAmount_tail [OF m0 this] show ?thesis
      unfolding c word_unat_eq_iff using p(2) e unat_lt2p64 [of n] by simp
  qed
qed (simp add: CompressAmount_def DecompressAmount_def)


section \<open>Script round trip\<close>

definition decompress_ok :: "(cpubkey \<Rightarrow> bool) \<Rightarrow> (cpubkey \<Rightarrow> cpubkey option) \<Rightarrow> bool" where
  "decompress_ok IsFullyValid key_Decompress \<longleftrightarrow>
     (\<forall>k. length k = 65 \<and> k ! 0 = 4 \<and> IsFullyValid (CPubKey k) \<longrightarrow>
        key_Decompress (CPubKey ((2 OR (k ! 64 AND 1)) # take 32 (drop 1 k))) = Some (CPubKey k))"

lemma list_parts:
  assumes "length s = a + n + b"
  shows "s = take a s @ take n (drop a s) @ drop (a + n) s"
  by (metis append_take_drop_id drop_drop add.commute)

lemma take_drop_nth:
  "length s = 25 \<Longrightarrow> take 3 s = [s ! 0, s ! 1, s ! 2] \<and> drop 23 s = [s ! 23, s ! 24]"
  "length s = 23 \<Longrightarrow> take 2 s = [s ! 0, s ! 1] \<and> drop 22 s = [s ! 22]"
  "length s = 35 \<Longrightarrow> take 2 s = [s ! 0, s ! 1] \<and> drop 34 s = [s ! 34]"
  "length s = 67 \<Longrightarrow> take 1 s = [s ! 0] \<and> drop 66 s = [s ! 66]"
  by (simp_all add: Cons_nth_drop_Suc [symmetric] numeral_3_eq_3 numeral_2_eq_2 take_Suc_conv_app_nth)

lemma read_small: "h < 6 \<Longrightarrow> ReadVarInt ((h :: u8) # s) = Some (ucast h :: u32, s)"
proof -
  assume "h < 6"
  then have "unat h < 6" by (simp add: word_less_nat_alt)
  then have "h = 0 \<or> h = 1 \<or> h = 2 \<or> h = 3 \<or> h = 4 \<or> h = 5" unfolding word_unat_eq_iff by simp linarith
  then show ?thesis by (elim disjE) (simp_all add: ReadVarInt_def)
qed

lemma IsToKeyID_Decompress:
  assumes "IsToKeyID script = Some h"
  shows "length h = 20 \<and> Decompress g 0 h = Some script"
proof -
  have l: "length script = 3 + 20 + 2" using assms by (auto simp: IsToKeyID_def split: if_splits)
  show ?thesis using assms list_parts [OF l] take_drop_nth(1) [of script] l
    by (auto simp: IsToKeyID_def Decompress_def split: if_splits)
qed

lemma IsToScriptID_Decompress:
  assumes "IsToScriptID script = Some h"
  shows "length h = 20 \<and> Decompress g 1 h = Some script"
proof -
  have l: "length script = 2 + 20 + 1" using assms by (auto simp: IsToScriptID_def split: if_splits)
  show ?thesis using assms list_parts [OF l] take_drop_nth(2) [of script] l
    by (auto simp: IsToScriptID_def Decompress_def split: if_splits)
qed


lemma pubkey_Set_len: "vch \<noteq> [] \<Longrightarrow> GetLen (vch ! 0) = length vch \<Longrightarrow> length vch \<noteq> 0 \<Longrightarrow> pubkey_Set vch = CPubKey vch"
  by (simp add: pubkey_Set_def)

lemma IsToPubKey_Decompress:
  assumes "IsToPubKey f script = Some pubkey" "decompress_ok f g"
    "k = key_vch pubkey" "rest = take 32 (drop 1 k)"
  shows "(k ! 0 = 2 \<or> k ! 0 = 3 \<or> k ! 0 = 4) \<and> length rest = 32
    \<and> (k ! 0 \<noteq> 4 \<longrightarrow> Decompress g (ucast (k ! 0)) rest = Some script)
    \<and> (k ! 0 = 4 \<longrightarrow> Decompress g (ucast (4 OR (k ! 64 AND 1))) rest = Some script)"
proof (cases "length script = 35")
  case True
  then have p: "script ! 0 = 33" "script ! 34 = OP_CHECKSIG" "script ! 1 = 2 \<or> script ! 1 = 3"
    "pubkey = pubkey_Set (take 33 (drop 1 script))"
    using assms(1) by (auto simp: IsToPubKey_def split: if_splits)
  have "pubkey_Set (take 33 (drop 1 script)) = CPubKey (take 33 (drop 1 script))"
    using p(3) True by (intro pubkey_Set_len) (auto simp: GetLen_def COMPRESSED_PUBLIC_KEY_SIZE_def)
  then have k: "k = take 33 (drop 1 script)" using assms(3) p(4) by simp
  then have r: "rest = take 32 (drop 2 script)" "length rest = 32" using assms(4) True by (simp_all add: drop_take numeral_2_eq_2)
  have "[33, script ! 1] @ rest @ [OP_CHECKSIG] = script"
    using list_parts [of script 2 32 1] take_drop_nth(3) [OF True] True p(1,2) r(1) by simp
  then have "Decompress g 2 rest = Some script \<or> script ! 1 \<noteq> 2" "Decompress g 3 rest = Some script \<or> script ! 1 \<noteq> 3"
    using r(2) by (auto simp: Decompress_def)
  moreover have "k ! 0 = script ! 1" using k True by simp
  ultimately show ?thesis using p(3) r(2) by auto
next
  case False
  then have p: "length script = 67" "script ! 0 = 65" "script ! 66 = OP_CHECKSIG" "script ! 1 = 4"
    "pubkey = pubkey_Set (take 65 (drop 1 script))" "f pubkey"
    using assms(1) by (auto simp: IsToPubKey_def Let_def split: if_splits)
  have "pubkey_Set (take 65 (drop 1 script)) = CPubKey (take 65 (drop 1 script))"
    using p by (intro pubkey_Set_len) (auto simp: GetLen_def PUBLIC_KEY_SIZE_def)
  then have pk: "pubkey = CPubKey k" "k = take 65 (drop 1 script)" using assms(3) p(5) by simp_all
  have k: "length k = 65" "k ! 0 = 4" using pk(2) p by simp_all
  have d: "g (CPubKey ((2 OR (k ! 64 AND 1)) # rest)) = Some (CPubKey k)"
    using assms(2,4) k p(6) pk(1) by (simp add: decompress_ok_def)
  have bit: "k ! 64 AND 1 = 0 \<or> k ! 64 AND 1 = 1" by (cases "even (k ! 64)") (simp_all add: and_one_eq mod_2_eq_odd)
  have s: "[65] @ k @ [OP_CHECKSIG] = script"
    using list_parts [of script 1 65 1] take_drop_nth(4) [OF p(1)] p(1-3) pk(2) by simp
  have r: "length rest = 32" using assms(4) k by simp
  have set: "pubkey_Set (h # rest) = CPubKey (h # rest)" if "h = 2 \<or> h = 3" for h
    using that r by (intro pubkey_Set_len) (auto simp: GetLen_def COMPRESSED_PUBLIC_KEY_SIZE_def)
  have "Decompress g (ucast (4 OR (k ! 64 AND 1))) rest = Some script"
    using bit
  proof
    assume b: "k ! 64 AND 1 = 0"
    show ?thesis using d [unfolded b] r k(1) set [of 2] s unfolding b by (simp add: Decompress_def)
  next
    assume b: "k ! 64 AND 1 = 1"
    show ?thesis using d [unfolded b] r k(1) set [of 3] s unfolding b by (simp add: Decompress_def)
  qed
  then show ?thesis using k r by simp
qed

lemma Compress_Decompress:
  assumes "Compress f script = Some out" "decompress_ok f g"
  shows "out \<noteq> [] \<and> hd out < 6 \<and> length (tl out) = GetSpecialSize (ucast (hd out))
    \<and> Decompress g (ucast (hd out)) (tl out) = Some script"
proof (cases "IsToKeyID script")
  case (Some h)
  then show ?thesis using assms(1) IsToKeyID_Decompress [OF Some] by (auto simp: Compress_def GetSpecialSize_def)
next
  case kid: None
  show ?thesis
  proof (cases "IsToScriptID script")
    case (Some h)
    then show ?thesis using assms(1) kid IsToScriptID_Decompress [OF Some] by (auto simp: Compress_def GetSpecialSize_def)
  next
    case None
    then obtain pubkey where p: "IsToPubKey f script = Some pubkey" using assms(1) kid by (auto simp: Compress_def split: option.splits)
    define k where "k = key_vch pubkey"
    define rest where "rest = take 32 (drop 1 k)"
    note d = IsToPubKey_Decompress [OF p assms(2) k_def rest_def]
    have out: "out = (if k ! 0 = 2 \<or> k ! 0 = 3 then k ! 0 # rest else (4 OR (k ! 64 AND 1)) # rest)"
      using assms(1) kid None p d by (auto simp: Compress_def Let_def k_def [symmetric] rest_def split: if_splits)
    show ?thesis
    proof (cases "k ! 0 = 4")
      case True
      then have "out = (4 OR (k ! 64 AND 1)) # rest" using out by simp
      moreover have "k ! 64 AND 1 = 0 \<or> k ! 64 AND 1 = 1" by (cases "even (k ! 64)") (simp_all add: and_one_eq mod_2_eq_odd)
      ultimately show ?thesis using d True by (elim disjE) (simp_all add: GetSpecialSize_def)
    next
      case False
      then have "out = k ! 0 # rest" using out d by auto
      then show ?thesis using d False by (elim conjE disjE) (simp_all add: GetSpecialSize_def)
    qed
  qed
qed

lemma get_put_script:
  assumes "decompress_ok f g" "length script \<le> MAX_SCRIPT_SIZE"
  shows "get_script g (put_script f script @ rest) = Some (script, rest)"
proof (cases "Compress f script")
  case (Some out)
  then obtain h t where o: "out = h # t" "h < 6" "length t = GetSpecialSize (ucast h)" "Decompress g (ucast h) t = Some script"
    using Compress_Decompress [OF Some assms(1)] by (cases out) auto
  have "(ucast h :: u32) < nSpecialScripts" 
    using o(2) unat_u8_less [of h] by (simp add: nSpecialScripts_def word_less_nat_alt unat_ucast_mod)
  then show ?thesis using Some o by (simp add: put_script_def get_script_def read_small read_bytes_def)
next
  case None
  have l: "length script < 2 ^ 31" using assms(2) by (simp add: MAX_SCRIPT_SIZE_def)
  define n :: u32 where "n = of_nat (length script)"
  have n: "unat n = length script" using l by (simp add: n_def unat_of_nat)
  have "unat (n + 6) = length script + 6" using n l by (simp add: unat_word_ariths)
  then have "\<not> n + nSpecialScripts < nSpecialScripts" by (simp add: nSpecialScripts_def word_less_nat_alt)
  then show ?thesis using None assms(2) n
    by (simp add: put_script_def get_script_def varint32.get_put n_def [symmetric] read_bytes_def)
qed


section \<open>Coins and undo data\<close>

definition wf_ctxout :: "CTxOut \<Rightarrow> bool" where
  "wf_ctxout out \<longleftrightarrow> 0 \<le> nValue out \<and> nValue out < 2 ^ 60 \<and> length (scriptPubKey out) \<le> MAX_SCRIPT_SIZE \<and> nRounds out = - 10"

definition wf_coin :: "Coin \<Rightarrow> bool" where
  "wf_coin c \<longleftrightarrow> wf_ctxout (coin_out c) \<and> unat (coin_nHeight c) < 2 ^ 30"

lemma get_put_ctxout:
  assumes "decompress_ok f g" "wf_ctxout out"
  shows "get_ctxout g (put_ctxout f out @ rest) = Some (out, rest)"
proof -
  have v: "0 \<le> nValue out" "nValue out < 2 ^ 60" using assms(2) by (simp_all add: wf_ctxout_def)
  define w :: u64 where "w = word_of_int (nValue out)"
  have "uint w = nValue out" using v by (simp add: w_def uint_word_of_int)
  then have "unat w < 2 ^ 60" using v by (simp add: unat_eq_nat_uint nat_less_iff)
  then have "DecompressAmount (CompressAmount w) = w" by (intro CompressAmount_roundtrip) simp
  moreover have "sint w = nValue out" using v by (simp add: w_def sint_word_of_int wf_int64_def)
  ultimately show ?thesis using assms
    by (simp add: get_ctxout_def put_ctxout_def varint64.get_put w_def [symmetric] get_put_script wf_ctxout_def CTxOut_SetNull_def)
qed

lemma code_bits:
  assumes "unat (code :: u32) = h * 4 + (if cb then 2 else 0) + (if cst then 1 else 0)"
  shows "unat (drop_bit 2 code) = h" "code AND 2 \<noteq> 0 \<longleftrightarrow> cb" "code AND 1 \<noteq> 0 \<longleftrightarrow> cst"
proof -
  have "unat code div 4 = h" unfolding assms by (cases cb; cases cst; simp; presburger)
  then show "unat (drop_bit 2 code) = h" unfolding unat_drop_bit_eq by (simp add: drop_bit_eq_div)
  have "code AND 2 \<noteq> 0 \<longleftrightarrow> bit (unat code) 1" using and_exp_eq_0_iff_not_bit [of code 1] by (simp add: bit_unsigned_iff)
  also have "\<dots> \<longleftrightarrow> odd (unat code div 2)" by (simp add: bit_iff_odd)
  also have "\<dots> \<longleftrightarrow> cb" unfolding assms by (cases cb; cases cst; simp; presburger)
  finally show "code AND 2 \<noteq> 0 \<longleftrightarrow> cb" .
  have "code AND 1 \<noteq> 0 \<longleftrightarrow> bit (unat code) 0" using and_exp_eq_0_iff_not_bit [of code 0] by (simp add: bit_unsigned_iff)
  also have "\<dots> \<longleftrightarrow> odd (unat code)" by (simp add: bit_0)
  also have "\<dots> \<longleftrightarrow> cst" unfolding assms by (cases cb; cases cst; simp)
  finally show "code AND 1 \<noteq> 0 \<longleftrightarrow> cst" .
qed

lemma coin_code_bits:
  assumes "unat (coin_nHeight c) < 2 ^ 30"
  shows "drop_bit 2 (coin_code c) = coin_nHeight c" "coin_code c AND 2 \<noteq> 0 \<longleftrightarrow> fCoinBase c"
    "coin_code c AND 1 \<noteq> 0 \<longleftrightarrow> fCoinStake c"
proof -
  have "unat (coin_code c) = unat (coin_nHeight c) * 4 + (if fCoinBase c then 2 else 0) + (if fCoinStake c then 1 else 0)"
    using assms by (auto simp: coin_code_def unat_word_ariths)
  note b = code_bits [OF this]
  show "drop_bit 2 (coin_code c) = coin_nHeight c" using b(1) by (simp add: word_unat_eq_iff)
  show "coin_code c AND 2 \<noteq> 0 \<longleftrightarrow> fCoinBase c" "coin_code c AND 1 \<noteq> 0 \<longleftrightarrow> fCoinStake c" by (fact b)+
qed

lemma get_put_coin:
  assumes "decompress_ok f g" "wf_coin c" "put_coin f c = Some b"
  shows "get_coin g (b @ rest) = Some (c, rest)"
proof -
  have h: "unat (coin_nHeight c) < 2 ^ 30" using assms(2) by (simp add: wf_coin_def)
  show ?thesis using assms
    by (auto simp: get_coin_def put_coin_def varint32.get_put get_put_ctxout wf_coin_def coin_code_bits [OF h] split: if_splits)
qed

lemma get_put_undo:
  assumes "decompress_ok f g" "wf_coin c"
  shows "get_undo g (put_undo f c @ rest) = Some (c, rest)"
proof -
  have h: "unat (coin_nHeight c) < 2 ^ 30" using assms(2) by (simp add: wf_coin_def)
  have z: "(ReadVarInt (0 # s) :: (u32 \<times> bytes) option) = Some (0, s)" for s using read_small [of 0 s] by simp
  show ?thesis using assms
    by (auto simp: get_undo_def put_undo_def varint32.get_put get_put_ctxout wf_coin_def coin_code_bits [OF h] ser_writedata8_def z)
qed

lemma read_undo_items:
  assumes "decompress_ok f g" "list_all wf_coin cs"
  shows "read_items (get_undo g) (length cs) (concat (map (put_undo f) cs) @ rest) = Some (cs, rest)"
  using assms(2) by (induction cs) (simp_all add: get_put_undo [OF assms(1)])

definition wf_txundo :: "Coin list \<Rightarrow> bool" where
  "wf_txundo vprevout \<longleftrightarrow> list_all wf_coin vprevout \<and> length vprevout \<le> unat MAX_INPUTS_PER_BLOCK"

lemma get_put_txundo:
  assumes "decompress_ok f g" "wf_txundo vprevout"
  shows "get_txundo g (put_txundo f vprevout @ rest) = Some (vprevout, rest)"
proof -
  have l: "length vprevout \<le> 195121" using assms(2) by (simp add: wf_txundo_def MAX_INPUTS_PER_BLOCK_def)
  then have n: "unat (of_nat (length vprevout) :: u64) = length vprevout" by (simp add: unat_of_nat)
  then have "(of_nat (length vprevout) :: u64) \<le> MAX_SIZE" "\<not> (of_nat (length vprevout) :: u64) > MAX_INPUTS_PER_BLOCK"
    using l by (simp_all add: word_le_nat_alt word_less_nat_alt MAX_SIZE_def MAX_INPUTS_PER_BLOCK_def)
  then show ?thesis using assms n
    by (simp add: get_txundo_def put_txundo_def ReadCompactSize_Write read_undo_items wf_txundo_def)
qed


lemma txundo_codec: "decompress_ok f g \<Longrightarrow> codec wf_txundo (put_txundo f) (get_txundo g)"
  by unfold_locales (rule get_put_txundo)

section \<open>Properties\<close>

text \<open>
  Amount compression.  Decompressing a compressed amount gives the amount back whenever nine times the amount
  plus ten fits 64 bits, which covers every amount of money; the null value \<open>-1\<close> of a spent output is not preserved,
  because the multiplication by nine wraps around.
\<close>

lemma amount_roundtrip:
  "(9 * unat n + 10 < 2 ^ 64 \<longrightarrow> DecompressAmount (CompressAmount n) = n)
   \<and> DecompressAmount (CompressAmount (- 1)) \<noteq> - 1"
proof -
  have mult_10_2: "mult_10 m 2 = m * 10 * 10" for m by (simp add: numeral_2_eq_2)
  have "DecompressAmount (CompressAmount (- 1)) \<noteq> - 1"
    by (simp add: CompressAmount_def strip_zeros.simps DecompressAmount_def Let_def mult_10_2)
  then show ?thesis by (simp add: CompressAmount_roundtrip)
qed

text \<open>
  Coins in the database.  For keys with the documented behaviour of key decompression, every coin with an amount
  in \<open>[0, 2^60)\<close>, a script of at most 10000 bytes and a height below \<open>2^30\<close> is read back unchanged from its compact
  serialization, whatever follows it in the stream: pay-to-key, pay-to-key-hash and pay-to-script-hash scripts are
  rebuilt from their compressed form.
\<close>

lemma coin_roundtrip:
  assumes "decompress_ok IsFullyValid key_Decompress" "wf_coin c" "put_coin IsFullyValid c = Some b"
  shows "get_coin key_Decompress (b @ rest) = Some (c, rest)"
  using assms by (rule get_put_coin)

definition demo_key_coin :: Coin where
  "demo_key_coin = \<lparr>fCoinBase = True, fCoinStake = False,
     coin_out = new_txout 5000000000 ([OP_DUP, OP_HASH160, 20] @ replicate 20 7 @ [OP_EQUALVERIFY, OP_CHECKSIG]), coin_nHeight = 300\<rparr>"

text \<open>
  Undo files.  The undo data of a block, one list of spent coins per transaction, is read back unchanged from its
  serialization, for blocks of at most \<open>MAX_SIZE\<close> transactions with at most \<open>MAX_INPUTS_PER_BLOCK\<close> inputs each.
\<close>

lemma blockundo_roundtrip:
  assumes "decompress_ok IsFullyValid key_Decompress" "list_all wf_txundo vtxundo" "length vtxundo \<le> unat MAX_SIZE"
  shows "get_blockundo key_Decompress (put_blockundo IsFullyValid vtxundo @ rest) = Some (vtxundo, rest)"
  using codec.get_put [OF codec.vector_codec [OF txundo_codec [OF assms(1)]]] assms(2,3)
  by (simp add: get_blockundo_def put_blockundo_def list_all_iff)

end
