(* ===== verification/Interpreter.thy ===== *)
theory Interpreter
  imports Standard
begin

text \<open>
  The script interpreter (\<open>src/src/script/interpreter.h\<close>, \<open>interpreter.cpp\<close>, \<open>script_error.h\<close>): encoding checks of
  keys and signatures and the stack machine \<open>EvalScript\<close> with one definition per group of opcodes.  A stack is a list with the top first, so \<open>stacktop(-i)\<close> is
  element \<open>i - 1\<close>; an exception of the source inside the loop is caught there and is \<open>SCRIPT_ERR_UNKNOWN_ERROR\<close> here.
  The hash functions, the elliptic curve operations and the checker an evaluation calls are parameters.
\<close>

section \<open>Errors, flags and parameters\<close>

datatype ScriptError =
    SCRIPT_ERR_OK | SCRIPT_ERR_UNKNOWN_ERROR | SCRIPT_ERR_EVAL_FALSE | SCRIPT_ERR_OP_RETURN
  | SCRIPT_ERR_SCRIPT_SIZE | SCRIPT_ERR_PUSH_SIZE | SCRIPT_ERR_OP_COUNT | SCRIPT_ERR_STACK_SIZE | SCRIPT_ERR_SIG_COUNT
  | SCRIPT_ERR_PUBKEY_COUNT | SCRIPT_ERR_VERIFY | SCRIPT_ERR_EQUALVERIFY | SCRIPT_ERR_CHECKMULTISIGVERIFY
  | SCRIPT_ERR_CHECKSIGVERIFY | SCRIPT_ERR_NUMEQUALVERIFY | SCRIPT_ERR_BAD_OPCODE | SCRIPT_ERR_DISABLED_OPCODE
  | SCRIPT_ERR_INVALID_STACK_OPERATION | SCRIPT_ERR_INVALID_ALTSTACK_OPERATION | SCRIPT_ERR_UNBALANCED_CONDITIONAL
  | SCRIPT_ERR_NEGATIVE_LOCKTIME | SCRIPT_ERR_UNSATISFIED_LOCKTIME | SCRIPT_ERR_SIG_HASHTYPE | SCRIPT_ERR_SIG_DER
  | SCRIPT_ERR_MINIMALDATA | SCRIPT_ERR_SIG_PUSHONLY | SCRIPT_ERR_SIG_HIGH_S | SCRIPT_ERR_SIG_NULLDUMMY
  | SCRIPT_ERR_PUBKEYTYPE | SCRIPT_ERR_CLEANSTACK | SCRIPT_ERR_SIG_NULLFAIL | SCRIPT_ERR_DISCOURAGE_UPGRADABLE_NOPS

text \<open>A verification flag is named by its bit; \<open>vflag\<close> is \<open>flags & FLAG\<close> as a condition.\<close>

abbreviation (input) SCRIPT_VERIFY_P2SH :: nat where "SCRIPT_VERIFY_P2SH \<equiv> 0"
abbreviation (input) SCRIPT_VERIFY_STRICTENC :: nat where "SCRIPT_VERIFY_STRICTENC \<equiv> 1"
abbreviation (input) SCRIPT_VERIFY_DERSIG :: nat where "SCRIPT_VERIFY_DERSIG \<equiv> 2"
abbreviation (input) SCRIPT_VERIFY_LOW_S :: nat where "SCRIPT_VERIFY_LOW_S \<equiv> 3"
abbreviation (input) SCRIPT_VERIFY_NULLDUMMY :: nat where "SCRIPT_VERIFY_NULLDUMMY \<equiv> 4"
abbreviation (input) SCRIPT_VERIFY_SIGPUSHONLY :: nat where "SCRIPT_VERIFY_SIGPUSHONLY \<equiv> 5"
abbreviation (input) SCRIPT_VERIFY_MINIMALDATA :: nat where "SCRIPT_VERIFY_MINIMALDATA \<equiv> 6"
abbreviation (input) SCRIPT_VERIFY_DISCOURAGE_UPGRADABLE_NOPS :: nat where "SCRIPT_VERIFY_DISCOURAGE_UPGRADABLE_NOPS \<equiv> 7"
abbreviation (input) SCRIPT_VERIFY_CLEANSTACK :: nat where "SCRIPT_VERIFY_CLEANSTACK \<equiv> 8"
abbreviation (input) SCRIPT_VERIFY_CHECKLOCKTIMEVERIFY :: nat where "SCRIPT_VERIFY_CHECKLOCKTIMEVERIFY \<equiv> 9"
abbreviation (input) SCRIPT_VERIFY_CHECKSEQUENCEVERIFY :: nat where "SCRIPT_VERIFY_CHECKSEQUENCEVERIFY \<equiv> 10"
abbreviation (input) SCRIPT_VERIFY_NULLFAIL :: nat where "SCRIPT_VERIFY_NULLFAIL \<equiv> 14"
abbreviation (input) SCRIPT_VERIFY_TAPROOT :: nat where "SCRIPT_VERIFY_TAPROOT \<equiv> 15"

definition vflag :: "u32 \<Rightarrow> nat \<Rightarrow> bool" where
  "vflag flags k \<longleftrightarrow> flags AND push_bit k 1 \<noteq> 0"

datatype SigVersion = SIGVERSION_BASE | SIGVERSION_WITNESS_V0 | SIGVERSION_TAPROOT | SIGVERSION_TAPSCRIPT

record script_hashes =
  h_ripemd160 :: "bytes \<Rightarrow> bytes"
  h_sha1 :: "bytes \<Rightarrow> bytes"
  h_sha256 :: "bytes \<Rightarrow> bytes"
  h_hash160 :: "bytes \<Rightarrow> bytes"
  h_hash256 :: "bytes \<Rightarrow> bytes"

record sig_checker =
  chk_CheckSig :: "bytes \<Rightarrow> bytes \<Rightarrow> bytes \<Rightarrow> SigVersion \<Rightarrow> bool"
  chk_CheckLockTime :: "int \<Rightarrow> bool"
  chk_CheckSequence :: "int \<Rightarrow> bool"

section \<open>Encodings\<close>

fun CastToBool :: "bytes \<Rightarrow> bool" where
  "CastToBool [] = False"
| "CastToBool (x # vch) = (if x \<noteq> 0 then \<not> (vch = [] \<and> x = 0x80) else CastToBool vch)"

definition IsCompressedOrUncompressedPubKey :: "bytes \<Rightarrow> bool" where
  "IsCompressedOrUncompressedPubKey vchPubKey =
     (if length vchPubKey < COMPRESSED_PUBLIC_KEY_SIZE then False
      else if vchPubKey ! 0 = 0x04 then length vchPubKey = PUBLIC_KEY_SIZE
      else if vchPubKey ! 0 = 0x02 \<or> vchPubKey ! 0 = 0x03 then length vchPubKey = COMPRESSED_PUBLIC_KEY_SIZE
      else False)"

definition IsValidSignatureEncoding :: "bytes \<Rightarrow> bool" where
  "IsValidSignatureEncoding sig =
     (if length sig < 9 then False
      else if length sig > 73 then False
      else if sig ! 0 \<noteq> 0x30 then False
      else if unat (sig ! 1) \<noteq> length sig - 3 then False
      else let lenR = unat (sig ! 3)
        in if 5 + lenR \<ge> length sig then False
           else let lenS = unat (sig ! (5 + lenR))
             in if lenR + lenS + 7 \<noteq> length sig then False
                else if sig ! 2 \<noteq> 0x02 then False
                else if lenR = 0 then False
                else if sig ! 4 AND 0x80 \<noteq> 0 then False
                else if lenR > 1 \<and> sig ! 4 = 0x00 \<and> sig ! 5 AND 0x80 = 0 then False
                else if sig ! (lenR + 4) \<noteq> 0x02 then False
                else if lenS = 0 then False
                else if sig ! (lenR + 6) AND 0x80 \<noteq> 0 then False
                else if lenS > 1 \<and> sig ! (lenR + 6) = 0x00 \<and> sig ! (lenR + 7) AND 0x80 = 0 then False
                else True)"

text \<open>\<open>CPubKey::CheckLowS\<close> is a parameter; \<open>None\<close> is \<open>true\<close>.\<close>

definition IsLowDERSignature :: "(bytes \<Rightarrow> bool) \<Rightarrow> bytes \<Rightarrow> ScriptError option" where
  "IsLowDERSignature CheckLowS vchSig =
     (if \<not> IsValidSignatureEncoding vchSig then Some SCRIPT_ERR_SIG_DER
      else if \<not> CheckLowS (butlast vchSig) then Some SCRIPT_ERR_SIG_HIGH_S
      else None)"

definition IsDefinedHashtypeSignature :: "bytes \<Rightarrow> bool" where
  "IsDefinedHashtypeSignature vchSig =
     (if vchSig = [] then False
      else let nHashType = last vchSig AND NOT 0x80 in 1 \<le> nHashType \<and> nHashType \<le> 3)"

definition CheckSignatureEncoding :: "(bytes \<Rightarrow> bool) \<Rightarrow> bytes \<Rightarrow> u32 \<Rightarrow> ScriptError option" where
  "CheckSignatureEncoding CheckLowS vchSig flags =
     (if vchSig = [] then None
      else if (vflag flags SCRIPT_VERIFY_DERSIG \<or> vflag flags SCRIPT_VERIFY_LOW_S \<or> vflag flags SCRIPT_VERIFY_STRICTENC)
              \<and> \<not> IsValidSignatureEncoding vchSig
      then Some SCRIPT_ERR_SIG_DER
      else if vflag flags SCRIPT_VERIFY_LOW_S \<and> IsLowDERSignature CheckLowS vchSig \<noteq> None
      then IsLowDERSignature CheckLowS vchSig
      else if vflag flags SCRIPT_VERIFY_STRICTENC \<and> \<not> IsDefinedHashtypeSignature vchSig
      then Some SCRIPT_ERR_SIG_HASHTYPE
      else None)"

definition CheckPubKeyEncoding :: "bytes \<Rightarrow> u32 \<Rightarrow> ScriptError option" where
  "CheckPubKeyEncoding vchPubKey flags =
     (if vflag flags SCRIPT_VERIFY_STRICTENC \<and> \<not> IsCompressedOrUncompressedPubKey vchPubKey
      then Some SCRIPT_ERR_PUBKEYTYPE else None)"

definition CheckMinimalPush :: "bytes \<Rightarrow> u8 \<Rightarrow> bool" where
  "CheckMinimalPush data opcode =
     (if data = [] then opcode = OP_0
      else if length data = 1 \<and> 1 \<le> data ! 0 \<and> data ! 0 \<le> 16 then opcode = OP_1 + (data ! 0 - 1)
      else if length data = 1 \<and> data ! 0 = 0x81 then opcode = OP_1NEGATE
      else if length data \<le> 75 then unat opcode = length data
      else if length data \<le> 255 then opcode = OP_PUSHDATA1
      else if length data \<le> 65535 then opcode = OP_PUSHDATA2
      else True)"

section \<open>Evaluation state\<close>

record eval_state =
  stk :: "bytes list"
  altstack :: "bytes list"
  vfExec :: "bool list"
  nOpCount :: nat
  pbegincodehash :: bytes

record eval_env =
  ev_flags :: u32
  ev_sigversion :: SigVersion
  ev_checker :: sig_checker
  ev_hashes :: script_hashes
  ev_CheckLowS :: "bytes \<Rightarrow> bool"

definition fRequireMinimal :: "eval_env \<Rightarrow> bool" where
  "fRequireMinimal env = vflag (ev_flags env) SCRIPT_VERIFY_MINIMALDATA"

definition vchFalse :: bytes where "vchFalse = []"
definition vchTrue :: bytes where "vchTrue = [1]"

definition vch_of_bool :: "bool \<Rightarrow> bytes" where
  "vch_of_bool b = (if b then vchTrue else vchFalse)"

text \<open>Reading an operand as a number; the exception of \<open>CScriptNum\<close> ends the evaluation.\<close>

definition to_num :: "eval_env \<Rightarrow> nat \<Rightarrow> bytes \<Rightarrow> ScriptError + int" where
  "to_num env nMaxNumSize vch =
     (case CScriptNum_of_vch vch (fRequireMinimal env) nMaxNumSize of Inl _ \<Rightarrow> Inl SCRIPT_ERR_UNKNOWN_ERROR | Inr n \<Rightarrow> Inr n)"

abbreviation bad_stack :: "ScriptError + 'a" where "bad_stack \<equiv> Inl SCRIPT_ERR_INVALID_STACK_OPERATION"

section \<open>Opcodes\<close>

definition eval_cltv :: "eval_env \<Rightarrow> eval_state \<Rightarrow> ScriptError + eval_state" where
  "eval_cltv env s =
     (if \<not> vflag (ev_flags env) SCRIPT_VERIFY_CHECKLOCKTIMEVERIFY then
        if vflag (ev_flags env) SCRIPT_VERIFY_DISCOURAGE_UPGRADABLE_NOPS then Inl SCRIPT_ERR_DISCOURAGE_UPGRADABLE_NOPS
        else Inr s
      else case stk s of
        [] \<Rightarrow> bad_stack
      | vch # _ \<Rightarrow>
          (case to_num env 5 vch of
             Inl err \<Rightarrow> Inl err
           | Inr nLockTime \<Rightarrow>
               if nLockTime < 0 then Inl SCRIPT_ERR_NEGATIVE_LOCKTIME
               else if \<not> chk_CheckLockTime (ev_checker env) nLockTime then Inl SCRIPT_ERR_UNSATISFIED_LOCKTIME
               else Inr s))"

definition eval_csv :: "eval_env \<Rightarrow> eval_state \<Rightarrow> ScriptError + eval_state" where
  "eval_csv env s =
     (if \<not> vflag (ev_flags env) SCRIPT_VERIFY_CHECKSEQUENCEVERIFY then Inr s
      else case stk s of
        [] \<Rightarrow> bad_stack
      | vch # _ \<Rightarrow>
          (case to_num env 5 vch of
             Inl err \<Rightarrow> Inl err
           | Inr nSequence \<Rightarrow>
               if nSequence < 0 then Inl SCRIPT_ERR_NEGATIVE_LOCKTIME
               else if nSequence AND 2 ^ 31 \<noteq> 0 then Inr s
               else if \<not> chk_CheckSequence (ev_checker env) nSequence then Inl SCRIPT_ERR_UNSATISFIED_LOCKTIME
               else Inr s))"

text \<open>The control opcodes \<open>OP_IF\<close> to \<open>OP_RETURN\<close>.\<close>

definition eval_if :: "bool \<Rightarrow> u8 \<Rightarrow> eval_state \<Rightarrow> ScriptError + eval_state" where
  "eval_if fExec opcode s =
     (if fExec then
        (case stk s of
           [] \<Rightarrow> Inl SCRIPT_ERR_UNBALANCED_CONDITIONAL
         | vch # st \<Rightarrow>
             let fValue = CastToBool vch; fValue = (if opcode = OP_NOTIF then \<not> fValue else fValue)
             in Inr (s\<lparr>stk := st, vfExec := fValue # vfExec s\<rparr>))
      else Inr (s\<lparr>vfExec := False # vfExec s\<rparr>))"

definition eval_else :: "eval_state \<Rightarrow> ScriptError + eval_state" where
  "eval_else s =
     (case vfExec s of [] \<Rightarrow> Inl SCRIPT_ERR_UNBALANCED_CONDITIONAL | b # bs \<Rightarrow> Inr (s\<lparr>vfExec := (\<not> b) # bs\<rparr>))"

definition eval_endif :: "eval_state \<Rightarrow> ScriptError + eval_state" where
  "eval_endif s =
     (case vfExec s of [] \<Rightarrow> Inl SCRIPT_ERR_UNBALANCED_CONDITIONAL | b # bs \<Rightarrow> Inr (s\<lparr>vfExec := bs\<rparr>))"

definition eval_verify :: "eval_state \<Rightarrow> ScriptError + eval_state" where
  "eval_verify s =
     (case stk s of
        [] \<Rightarrow> bad_stack
      | vch # st \<Rightarrow> if CastToBool vch then Inr (s\<lparr>stk := st\<rparr>) else Inl SCRIPT_ERR_VERIFY)"

definition eval_pick_roll :: "eval_env \<Rightarrow> u8 \<Rightarrow> bytes list \<Rightarrow> ScriptError + bytes list" where
  "eval_pick_roll env opcode st =
     (case st of
        x # y # r \<Rightarrow>
          (case to_num env 4 x of
             Inl err \<Rightarrow> Inl err
           | Inr num \<Rightarrow>
               let n = CScriptNum_getint num; st = y # r
               in if n < 0 \<or> n \<ge> int (length st) then bad_stack
                  else
                    let vch = st ! nat n;
                        st = (if opcode = OP_ROLL then take (nat n) st @ drop (nat n + 1) st else st)
                    in Inr (vch # st))
      | _ \<Rightarrow> bad_stack)"

text \<open>Opcodes that only rearrange the main stack.\<close>

definition eval_stack_op :: "eval_env \<Rightarrow> u8 \<Rightarrow> bytes list \<Rightarrow> ScriptError + bytes list" where
  "eval_stack_op env opcode st =
     (if opcode = OP_2DROP then (case st of _ # _ # r \<Rightarrow> Inr r | _ \<Rightarrow> bad_stack)
      else if opcode = OP_2DUP then (case st of b # a # r \<Rightarrow> Inr (b # a # b # a # r) | _ \<Rightarrow> bad_stack)
      else if opcode = OP_3DUP then (case st of c # b # a # r \<Rightarrow> Inr (c # b # a # c # b # a # r) | _ \<Rightarrow> bad_stack)
      else if opcode = OP_2OVER then (case st of d # c # b # a # r \<Rightarrow> Inr (b # a # d # c # b # a # r) | _ \<Rightarrow> bad_stack)
      else if opcode = OP_2ROT
      then (case st of f # e # d # c # b # a # r \<Rightarrow> Inr (b # a # f # e # d # c # r) | _ \<Rightarrow> bad_stack)
      else if opcode = OP_2SWAP then (case st of d # c # b # a # r \<Rightarrow> Inr (b # a # d # c # r) | _ \<Rightarrow> bad_stack)
      else if opcode = OP_IFDUP
      then (case st of a # r \<Rightarrow> Inr (if CastToBool a then a # a # r else a # r) | _ \<Rightarrow> bad_stack)
      else if opcode = OP_DEPTH then Inr (CScriptNum_serialize (int (length st)) # st)
      else if opcode = OP_DROP then (case st of _ # r \<Rightarrow> Inr r | _ \<Rightarrow> bad_stack)
      else if opcode = OP_DUP then (case st of a # r \<Rightarrow> Inr (a # a # r) | _ \<Rightarrow> bad_stack)
      else if opcode = OP_NIP then (case st of b # a # r \<Rightarrow> Inr (b # r) | _ \<Rightarrow> bad_stack)
      else if opcode = OP_OVER then (case st of b # a # r \<Rightarrow> Inr (a # b # a # r) | _ \<Rightarrow> bad_stack)
      else if opcode = OP_PICK \<or> opcode = OP_ROLL then eval_pick_roll env opcode st
      else if opcode = OP_ROT then (case st of c # b # a # r \<Rightarrow> Inr (a # c # b # r) | _ \<Rightarrow> bad_stack)
      else if opcode = OP_SWAP then (case st of b # a # r \<Rightarrow> Inr (a # b # r) | _ \<Rightarrow> bad_stack)
      else if opcode = OP_TUCK then (case st of b # a # r \<Rightarrow> Inr (b # a # b # r) | _ \<Rightarrow> bad_stack)
      else (case st of a # r \<Rightarrow> Inr (CScriptNum_serialize (int (length a)) # a # r) | _ \<Rightarrow> bad_stack))"

definition eval_equal :: "u8 \<Rightarrow> bytes list \<Rightarrow> ScriptError + bytes list" where
  "eval_equal opcode st =
     (case st of
        vch2 # vch1 # r \<Rightarrow>
          let fEqual = (vch1 = vch2)
          in if opcode = OP_EQUALVERIFY then if fEqual then Inr r else Inl SCRIPT_ERR_EQUALVERIFY
             else Inr (vch_of_bool fEqual # r)
      | _ \<Rightarrow> bad_stack)"

definition unary_value :: "u8 \<Rightarrow> int \<Rightarrow> int" where
  "unary_value opcode bn =
     (if opcode = OP_1ADD then bn + 1
      else if opcode = OP_1SUB then bn - 1
      else if opcode = OP_NEGATE then - bn
      else if opcode = OP_ABS then (if bn < 0 then - bn else bn)
      else if opcode = OP_NOT then of_bool (bn = 0)
      else of_bool (bn \<noteq> 0))"

definition eval_unary :: "eval_env \<Rightarrow> u8 \<Rightarrow> bytes list \<Rightarrow> ScriptError + bytes list" where
  "eval_unary env opcode st =
     (case st of
        a # r \<Rightarrow>
          (case to_num env 4 a of
             Inl err \<Rightarrow> Inl err
           | Inr bn \<Rightarrow> Inr (CScriptNum_serialize (unary_value opcode bn) # r))
      | _ \<Rightarrow> bad_stack)"

definition binary_value :: "u8 \<Rightarrow> int \<Rightarrow> int \<Rightarrow> int" where
  "binary_value opcode bn1 bn2 =
     (if opcode = OP_ADD then bn1 + bn2
      else if opcode = OP_SUB then bn1 - bn2
      else if opcode = OP_BOOLAND then of_bool (bn1 \<noteq> 0 \<and> bn2 \<noteq> 0)
      else if opcode = OP_BOOLOR then of_bool (bn1 \<noteq> 0 \<or> bn2 \<noteq> 0)
      else if opcode = OP_NUMEQUAL \<or> opcode = OP_NUMEQUALVERIFY then of_bool (bn1 = bn2)
      else if opcode = OP_NUMNOTEQUAL then of_bool (bn1 \<noteq> bn2)
      else if opcode = OP_LESSTHAN then of_bool (bn1 < bn2)
      else if opcode = OP_GREATERTHAN then of_bool (bn1 > bn2)
      else if opcode = OP_LESSTHANOREQUAL then of_bool (bn1 \<le> bn2)
      else if opcode = OP_GREATERTHANOREQUAL then of_bool (bn1 \<ge> bn2)
      else if opcode = OP_MIN then (if bn1 < bn2 then bn1 else bn2)
      else (if bn1 > bn2 then bn1 else bn2))"

definition eval_binary :: "eval_env \<Rightarrow> u8 \<Rightarrow> bytes list \<Rightarrow> ScriptError + bytes list" where
  "eval_binary env opcode st =
     (case st of
        b # a # r \<Rightarrow>
          (case to_num env 4 a of
             Inl err \<Rightarrow> Inl err
           | Inr bn1 \<Rightarrow>
             (case to_num env 4 b of
                Inl err \<Rightarrow> Inl err
              | Inr bn2 \<Rightarrow>
                  let vch = CScriptNum_serialize (binary_value opcode bn1 bn2)
                  in if opcode = OP_NUMEQUALVERIFY then if CastToBool vch then Inr r else Inl SCRIPT_ERR_NUMEQUALVERIFY
                     else Inr (vch # r)))
      | _ \<Rightarrow> bad_stack)"

definition eval_within :: "eval_env \<Rightarrow> bytes list \<Rightarrow> ScriptError + bytes list" where
  "eval_within env st =
     (case st of
        c # b # a # r \<Rightarrow>
          (case to_num env 4 a of
             Inl err \<Rightarrow> Inl err
           | Inr bn1 \<Rightarrow>
             (case to_num env 4 b of
                Inl err \<Rightarrow> Inl err
              | Inr bn2 \<Rightarrow>
                (case to_num env 4 c of
                   Inl err \<Rightarrow> Inl err
                 | Inr bn3 \<Rightarrow> Inr (vch_of_bool (bn2 \<le> bn1 \<and> bn1 < bn3) # r))))
      | _ \<Rightarrow> bad_stack)"

definition eval_hash :: "eval_env \<Rightarrow> u8 \<Rightarrow> bytes list \<Rightarrow> ScriptError + bytes list" where
  "eval_hash env opcode st =
     (case st of
        vch # r \<Rightarrow>
          Inr ((if opcode = OP_RIPEMD160 then h_ripemd160 (ev_hashes env)
                else if opcode = OP_SHA1 then h_sha1 (ev_hashes env)
                else if opcode = OP_SHA256 then h_sha256 (ev_hashes env)
                else if opcode = OP_HASH160 then h_hash160 (ev_hashes env)
                else h_hash256 (ev_hashes env)) vch # r)
      | _ \<Rightarrow> bad_stack)"


text \<open>Signature opcodes.  The script code is what follows the last code separator.\<close>

definition check_encodings :: "eval_env \<Rightarrow> bytes \<Rightarrow> bytes \<Rightarrow> ScriptError option" where
  "check_encodings env vchSig vchPubKey =
     (if ev_sigversion env \<noteq> SIGVERSION_TAPSCRIPT \<or> length vchPubKey \<noteq> 32 then
        (case CheckSignatureEncoding (ev_CheckLowS env) vchSig (ev_flags env) of
           Some err \<Rightarrow> Some err
         | None \<Rightarrow> CheckPubKeyEncoding vchPubKey (ev_flags env))
      else None)"

definition drop_signature :: "eval_env \<Rightarrow> bytes \<Rightarrow> bytes \<Rightarrow> bytes" where
  "drop_signature env vchSig scriptCode =
     (if ev_sigversion env = SIGVERSION_BASE then snd (FindAndDelete scriptCode (script_push_data vchSig)) else scriptCode)"

definition eval_checksig :: "eval_env \<Rightarrow> u8 \<Rightarrow> bytes \<Rightarrow> bytes list \<Rightarrow> ScriptError + bytes list" where
  "eval_checksig env opcode codehash st =
     (case st of
        vchPubKey # vchSig # r \<Rightarrow>
          let scriptCode = drop_signature env vchSig codehash
          in (case check_encodings env vchSig vchPubKey of
                Some err \<Rightarrow> Inl err
              | None \<Rightarrow>
                  let fSuccess = chk_CheckSig (ev_checker env) vchSig vchPubKey scriptCode (ev_sigversion env)
                  in if opcode = OP_CHECKSIGVERIFY then if fSuccess then Inr r else Inl SCRIPT_ERR_CHECKSIGVERIFY
                     else Inr (vch_of_bool fSuccess # r))
      | _ \<Rightarrow> bad_stack)"

definition eval_checksigadd :: "eval_env \<Rightarrow> bytes \<Rightarrow> bytes list \<Rightarrow> ScriptError + bytes list" where
  "eval_checksigadd env codehash st =
     (if ev_sigversion env \<noteq> SIGVERSION_TAPSCRIPT then Inl SCRIPT_ERR_BAD_OPCODE
      else case st of
        vchPubKey # num # vchSig # r \<Rightarrow>
          (case to_num env 4 num of
             Inl err \<Rightarrow> Inl err
           | Inr nNum \<Rightarrow>
               let fSuccess = chk_CheckSig (ev_checker env) vchSig vchPubKey codehash (ev_sigversion env)
               in Inr (CScriptNum_serialize (nNum + (if fSuccess then 1 else 0)) # r))
      | _ \<Rightarrow> bad_stack)"

text \<open>The matching loop of \<open>OP_CHECKMULTISIG\<close> on the signatures and keys that are left, top of the stack first.\<close>

fun multisig_loop :: "eval_env \<Rightarrow> bytes \<Rightarrow> bytes list \<Rightarrow> bytes list \<Rightarrow> ScriptError + bool" where
  "multisig_loop env scriptCode [] keys = Inr True"
| "multisig_loop env scriptCode (vchSig # sigs) [] = Inr False"
| "multisig_loop env scriptCode (vchSig # sigs) (vchPubKey # keys) =
     (case check_encodings env vchSig vchPubKey of
        Some err \<Rightarrow> Inl err
      | None \<Rightarrow>
          let fOk = chk_CheckSig (ev_checker env) vchSig vchPubKey scriptCode (ev_sigversion env);
              sigs' = (if fOk then sigs else vchSig # sigs)
          in if length sigs' > length keys then Inr False else multisig_loop env scriptCode sigs' keys)"

text \<open>\<open>while (i-- > 1)\<close>: \<open>n\<close> is the number of items to pop, \<open>failed\<close> is \<open>!fSuccess && NULLFAIL\<close>.\<close>

fun multisig_cleanup :: "bool \<Rightarrow> nat \<Rightarrow> nat \<Rightarrow> bytes list \<Rightarrow> ScriptError + bytes list" where
  "multisig_cleanup failed ikey2 0 st = Inr st"
| "multisig_cleanup failed ikey2 (Suc n) [] = Inl SCRIPT_ERR_UNKNOWN_ERROR"
| "multisig_cleanup failed ikey2 (Suc n) (x # st) =
     (if failed \<and> ikey2 = 0 \<and> x \<noteq> [] then Inl SCRIPT_ERR_SIG_NULLFAIL else multisig_cleanup failed (ikey2 - 1) n st)"

definition multisig_finish :: "eval_env \<Rightarrow> u8 \<Rightarrow> bool \<Rightarrow> nat \<Rightarrow> nat \<Rightarrow> bytes list \<Rightarrow> ScriptError + bytes list" where
  "multisig_finish env opcode fSuccess nKeys nSigs st =
     (case multisig_cleanup (\<not> fSuccess \<and> vflag (ev_flags env) SCRIPT_VERIFY_NULLFAIL) (nKeys + 2) (nKeys + 2 + nSigs) st of
        Inl err \<Rightarrow> Inl err
      | Inr [] \<Rightarrow> bad_stack
      | Inr (dummy # r) \<Rightarrow>
          if vflag (ev_flags env) SCRIPT_VERIFY_NULLDUMMY \<and> dummy \<noteq> [] then Inl SCRIPT_ERR_SIG_NULLDUMMY
          else if opcode = OP_CHECKMULTISIGVERIFY then if fSuccess then Inr r else Inl SCRIPT_ERR_CHECKMULTISIGVERIFY
          else Inr (vch_of_bool fSuccess # r))"

definition eval_multisig :: "eval_env \<Rightarrow> u8 \<Rightarrow> eval_state \<Rightarrow> ScriptError + eval_state" where
  "eval_multisig env opcode s =
     (let st = stk s in
      if length st < 1 then bad_stack
      else case to_num env 4 (st ! 0) of
        Inl err \<Rightarrow> Inl err
      | Inr num \<Rightarrow>
          let nKeysCount = CScriptNum_getint num in
          if nKeysCount < 0 \<or> nKeysCount > int MAX_PUBKEYS_PER_MULTISIG then Inl SCRIPT_ERR_PUBKEY_COUNT
          else if nOpCount s + nat nKeysCount > MAX_OPS_PER_SCRIPT then Inl SCRIPT_ERR_OP_COUNT
          else let nKeys = nat nKeysCount in
          if length st < nKeys + 2 then bad_stack
          else case to_num env 4 (st ! (nKeys + 1)) of
            Inl err \<Rightarrow> Inl err
          | Inr num \<Rightarrow>
              let nSigsCount = CScriptNum_getint num in
              if nSigsCount < 0 \<or> nSigsCount > nKeysCount then Inl SCRIPT_ERR_SIG_COUNT
              else let nSigs = nat nSigsCount in
              if length st < nKeys + 3 + nSigs then bad_stack
              else
                let sigs = take nSigs (drop (nKeys + 2) st);
                    scriptCode = fold (drop_signature env) sigs (pbegincodehash s)
                in case multisig_loop env scriptCode sigs (take nKeys (drop 1 st)) of
                     Inl err \<Rightarrow> Inl err
                   | Inr fSuccess \<Rightarrow>
                       (case multisig_finish env opcode fSuccess nKeys nSigs st of
                          Inl err \<Rightarrow> Inl err
                        | Inr st \<Rightarrow> Inr (s\<lparr>stk := st, nOpCount := nOpCount s + nKeys\<rparr>)))"

section \<open>The evaluation loop\<close>

definition on_stack :: "(bytes list \<Rightarrow> ScriptError + bytes list) \<Rightarrow> eval_state \<Rightarrow> ScriptError + eval_state" where
  "on_stack f s = (case f (stk s) of Inl err \<Rightarrow> Inl err | Inr st \<Rightarrow> Inr (s\<lparr>stk := st\<rparr>))"

definition eval_control :: "eval_env \<Rightarrow> bool \<Rightarrow> u8 \<Rightarrow> eval_state \<Rightarrow> ScriptError + eval_state" where
  "eval_control env fExec opcode s =
     (if opcode = OP_NOP then Inr s
      else if opcode = OP_IF \<or> opcode = OP_NOTIF then eval_if fExec opcode s
      else if opcode = OP_ELSE then eval_else s
      else if opcode = OP_ENDIF then eval_endif s
      else if opcode = OP_VERIFY then eval_verify s
      else if opcode = OP_RETURN then Inl SCRIPT_ERR_OP_RETURN
      else if opcode = OP_TOALTSTACK then
        (case stk s of [] \<Rightarrow> bad_stack | vch # st \<Rightarrow> Inr (s\<lparr>stk := st, altstack := vch # altstack s\<rparr>))
      else if opcode = OP_FROMALTSTACK then
        (case altstack s of
           [] \<Rightarrow> Inl SCRIPT_ERR_INVALID_ALTSTACK_OPERATION
         | vch # al \<Rightarrow> Inr (s\<lparr>stk := vch # stk s, altstack := al\<rparr>))
      else Inl SCRIPT_ERR_BAD_OPCODE)"

text \<open>\<open>pc\<close> is the rest of the script after the instruction; opcodes without a case are \<open>SCRIPT_ERR_BAD_OPCODE\<close>.\<close>

definition eval_op :: "eval_env \<Rightarrow> bool \<Rightarrow> u8 \<Rightarrow> bytes \<Rightarrow> eval_state \<Rightarrow> ScriptError + eval_state" where
  "eval_op env fExec opcode pc s =
     (if opcode = OP_1NEGATE \<or> (OP_1 \<le> opcode \<and> opcode \<le> OP_16)
      then Inr (s\<lparr>stk := CScriptNum_serialize (uint opcode - 0x50) # stk s\<rparr>)
      else if opcode = OP_CHECKLOCKTIMEVERIFY then eval_cltv env s
      else if opcode = OP_CHECKSEQUENCEVERIFY then eval_csv env s
      else if opcode = OP_NOP1 \<or> (OP_NOP4 \<le> opcode \<and> opcode \<le> OP_NOP10) then
        if vflag (ev_flags env) SCRIPT_VERIFY_DISCOURAGE_UPGRADABLE_NOPS then Inl SCRIPT_ERR_DISCOURAGE_UPGRADABLE_NOPS
        else Inr s
      else if OP_NOP \<le> opcode \<and> opcode \<le> OP_FROMALTSTACK then eval_control env fExec opcode s
      else if (OP_2DROP \<le> opcode \<and> opcode \<le> OP_TUCK) \<or> opcode = OP_SIZE then on_stack (eval_stack_op env opcode) s
      else if opcode = OP_EQUAL \<or> opcode = OP_EQUALVERIFY then on_stack (eval_equal opcode) s
      else if opcode = OP_1ADD \<or> opcode = OP_1SUB \<or> (OP_NEGATE \<le> opcode \<and> opcode \<le> OP_0NOTEQUAL)
      then on_stack (eval_unary env opcode) s
      else if opcode = OP_ADD \<or> opcode = OP_SUB \<or> (OP_BOOLAND \<le> opcode \<and> opcode \<le> OP_MAX)
      then on_stack (eval_binary env opcode) s
      else if opcode = OP_WITHIN then on_stack (eval_within env) s
      else if OP_RIPEMD160 \<le> opcode \<and> opcode \<le> OP_HASH256 then on_stack (eval_hash env opcode) s
      else if opcode = OP_CODESEPARATOR then Inr (s\<lparr>pbegincodehash := pc\<rparr>)
      else if opcode = OP_CHECKSIG \<or> opcode = OP_CHECKSIGVERIFY then on_stack (eval_checksig env opcode (pbegincodehash s)) s
      else if opcode = OP_CHECKSIGADD then on_stack (eval_checksigadd env (pbegincodehash s)) s
      else if opcode = OP_CHECKMULTISIG \<or> opcode = OP_CHECKMULTISIGVERIFY then eval_multisig env opcode s
      else Inl SCRIPT_ERR_BAD_OPCODE)"

definition disabled_opcode :: "u8 \<Rightarrow> bool" where
  "disabled_opcode opcode \<longleftrightarrow>
     List.member [OP_CAT, OP_SUBSTR, OP_LEFT, OP_RIGHT, OP_INVERT, OP_AND, OP_OR, OP_XOR, OP_2MUL, OP_2DIV, OP_MUL, OP_DIV,
       OP_MOD, OP_LSHIFT, OP_RSHIFT, OP_MLOAD, OP_MSTORE, OP_SLOAD, OP_SSTORE, OP_PUBLISH, OP_RUN, OP_UPDATE_STATUS] opcode"

definition eval_step :: "eval_env \<Rightarrow> u8 \<Rightarrow> bytes \<Rightarrow> bytes \<Rightarrow> eval_state \<Rightarrow> ScriptError + eval_state" where
  "eval_step env opcode vchPushValue pc s =
     (let fExec = list_all id (vfExec s) in
      if length vchPushValue > MAX_SCRIPT_ELEMENT_SIZE then Inl SCRIPT_ERR_PUSH_SIZE
      else let s = (if opcode > OP_16 then s\<lparr>nOpCount := nOpCount s + 1\<rparr> else s) in
      if opcode > OP_16 \<and> nOpCount s > 201 then Inl SCRIPT_ERR_OP_COUNT
      else if disabled_opcode opcode then Inl SCRIPT_ERR_DISABLED_OPCODE
      else
        case (if fExec \<and> opcode \<le> OP_PUSHDATA4 then
                if fRequireMinimal env \<and> \<not> CheckMinimalPush vchPushValue opcode then Inl SCRIPT_ERR_MINIMALDATA
                else Inr (s\<lparr>stk := vchPushValue # stk s\<rparr>)
              else if fExec \<or> (OP_IF \<le> opcode \<and> opcode \<le> OP_ENDIF) then eval_op env fExec opcode pc s
              else Inr s) of
          Inl err \<Rightarrow> Inl err
        | Inr s \<Rightarrow> if length (stk s) + length (altstack s) > 1000 then Inl SCRIPT_ERR_STACK_SIZE else Inr s)"

function eval_loop :: "eval_env \<Rightarrow> bytes \<Rightarrow> eval_state \<Rightarrow> ScriptError + eval_state" where
  "eval_loop env pc s =
     (if pc = [] then Inr s
      else case GetOp pc of
        None \<Rightarrow> Inl SCRIPT_ERR_BAD_OPCODE
      | Some (opcode, vchPushValue, pc') \<Rightarrow>
          (case eval_step env opcode vchPushValue pc' s of
             Inl err \<Rightarrow> Inl err
           | Inr s' \<Rightarrow> eval_loop env pc' s'))"
  by auto
termination
  by (relation "measure (\<lambda>(env, pc, s). length pc)") (auto dest: GetOp_shorter)

declare eval_loop.simps [simp del]

definition EvalScript :: "eval_env \<Rightarrow> bytes \<Rightarrow> bytes list \<Rightarrow> ScriptError + bytes list" where
  "EvalScript env script stack =
     (if length script > MAX_SCRIPT_SIZE then Inl SCRIPT_ERR_SCRIPT_SIZE
      else case eval_loop env script
          \<lparr>stk = stack, altstack = [], vfExec = [], nOpCount = 0, pbegincodehash = script\<rparr> of
        Inl err \<Rightarrow> Inl err
      | Inr s \<Rightarrow> if vfExec s \<noteq> [] then Inl SCRIPT_ERR_UNBALANCED_CONDITIONAL else Inr (stk s))"

section \<open>Resource limits\<close>

definition small :: "bytes list \<Rightarrow> bool" where
  "small st \<longleftrightarrow> list_all (\<lambda>x. length x \<le> MAX_SCRIPT_ELEMENT_SIZE) st"

definition hash_sizes :: "script_hashes \<Rightarrow> bool" where
  "hash_sizes hs \<longleftrightarrow> (\<forall>x. length (h_ripemd160 hs x) = 20 \<and> length (h_sha1 hs x) = 20 \<and> length (h_sha256 hs x) = 32
     \<and> length (h_hash160 hs x) = 20 \<and> length (h_hash256 hs x) = 32)"

definition op_limits :: "eval_state \<Rightarrow> bool" where
  "op_limits s \<longleftrightarrow> small (stk s) \<and> small (altstack s) \<and> nOpCount s \<le> MAX_OPS_PER_SCRIPT"

definition limits :: "eval_state \<Rightarrow> bool" where
  "limits s \<longleftrightarrow> op_limits s \<and> length (stk s) + length (altstack s) \<le> 1000"

lemma small_simps [simp]:
  "small []" "small (x # st) \<longleftrightarrow> length x \<le> MAX_SCRIPT_ELEMENT_SIZE \<and> small st" "small (st @ st') \<longleftrightarrow> small st \<and> small st'"
  by (simp_all add: small_def)

lemma small_nth [intro]: "small st \<Longrightarrow> i < length st \<Longrightarrow> length (st ! i) \<le> MAX_SCRIPT_ELEMENT_SIZE"
  by (simp add: small_def list_all_length)

lemma small_take_drop [simp, intro]: "small st \<Longrightarrow> small (take n st)" "small st \<Longrightarrow> small (drop n st)"
  by (auto simp: small_def list_all_iff dest: in_set_takeD in_set_dropD)

lemma serialize_length:
  assumes "\<bar>v\<bar> < 128 * 256 ^ n"
  shows "length (CScriptNum_serialize v) \<le> Suc n"
proof (cases "v = 0")
  case False
  then show ?thesis
  proof (rule serialize_cases)
    fix xs and b :: u8
    assume ser: "CScriptNum_serialize v = xs @ [b]"
      and val: "le_val xs + 256 ^ length xs * (unat b mod 128) = nat \<bar>v\<bar>"
      and nz: "unat b mod 128 \<noteq> 0 \<or> (xs \<noteq> [] \<and> 128 \<le> unat (last xs))"
    have v: "nat \<bar>v\<bar> < 128 * 256 ^ n" using assms by (simp add: nat_less_iff)
    have "length xs \<le> n"
    proof (cases "unat b mod 128 = 0")
      case False
      then have "256 ^ length xs * 1 \<le> 256 ^ length xs * (unat b mod 128)" by (intro mult_left_mono) simp_all
      moreover have "128 * (256 :: nat) ^ n \<le> 256 ^ Suc n" by simp
      ultimately have "(256 :: nat) ^ length xs < 256 ^ Suc n" using val v by linarith
      then show ?thesis using power_less_imp_less_exp [of "256 :: nat" "length xs" "Suc n"] by simp
    next
      case True
      with nz have ne: "xs \<noteq> []" "128 \<le> unat (last xs)" by simp_all
      then obtain ys y where xs: "xs = ys @ [y]" by (metis rev_exhaust)
      have "256 ^ length ys * 128 \<le> 256 ^ length ys * unat y" using ne(2) by (simp add: xs)
      then have "128 * 256 ^ length ys \<le> le_val xs" unfolding xs le_val_snoc by linarith
      then have "(256 :: nat) ^ length ys < 256 ^ n" using val v by linarith
      then show ?thesis by (simp add: xs)
    qed
    then show ?thesis by (simp add: ser)
  qed
qed (simp add: CScriptNum_serialize_def)

lemma to_num_bound: "to_num env 4 vch = Inr n \<Longrightarrow> \<bar>n\<bar> < 2 ^ 31"
  using CScriptNum_set_vch_bound [of vch 3]
  by (auto simp: to_num_def CScriptNum_of_vch_def split: sum.splits if_splits)

lemma serialize_small: "\<bar>v\<bar> < 2 ^ 39 \<Longrightarrow> length (CScriptNum_serialize v) \<le> MAX_SCRIPT_ELEMENT_SIZE"
  using serialize_length [of v 4] by (simp add: MAX_SCRIPT_ELEMENT_SIZE_def)

lemma vch_of_bool_small [simp]: "length (vch_of_bool b) \<le> MAX_SCRIPT_ELEMENT_SIZE"
  by (simp add: vch_of_bool_def vchTrue_def vchFalse_def MAX_SCRIPT_ELEMENT_SIZE_def)

lemma unary_value_bound: "\<bar>n\<bar> < 2 ^ 31 \<Longrightarrow> \<bar>unary_value opcode n\<bar> < 2 ^ 39"
  by (auto simp: unary_value_def)

lemma binary_value_bound: "\<bar>m\<bar> < 2 ^ 31 \<Longrightarrow> \<bar>n\<bar> < 2 ^ 31 \<Longrightarrow> \<bar>binary_value opcode m n\<bar> < 2 ^ 39"
  by (auto simp: binary_value_def)

lemma pick_roll_small:
  assumes "eval_pick_roll env opcode st = Inr st'" "small st"
  shows "small st'"
proof -
  have nth: "length ((x # r) ! nat n) \<le> MAX_SCRIPT_ELEMENT_SIZE"
    if "length x \<le> MAX_SCRIPT_ELEMENT_SIZE" "small r" "\<not> n < 0" "\<not> 1 + int (length r) \<le> n" for x r n
    using that by (intro small_nth) (simp_all add: nat_less_iff)
  have drop: "small (drop k (x # r))" "small (take k (x # r))"
    if "length x \<le> MAX_SCRIPT_ELEMENT_SIZE" "small r" for x r k
    using that by (intro small_take_drop; simp)+
  show ?thesis
    using assms
    by (auto simp: eval_pick_roll_def Let_def intro: nth drop split: list.splits sum.splits if_splits simp del: drop_Suc_Cons)
qed

text \<open>A result that is an error or satisfies a predicate, without a case split on how it was chosen.\<close>

definition res_ok :: "('a \<Rightarrow> bool) \<Rightarrow> 'e + 'a \<Rightarrow> bool" where
  "res_ok P r \<longleftrightarrow> (case r of Inl _ \<Rightarrow> True | Inr x \<Rightarrow> P x)"

lemma res_ok_simps [simp]: "res_ok P (Inl e)" "res_ok P (Inr x) \<longleftrightarrow> P x"
  by (simp_all add: res_ok_def)

lemma res_okI: "(\<And>x. r = Inr x \<Longrightarrow> P x) \<Longrightarrow> res_ok P r"
  by (cases r) simp_all

lemma res_if: "res_ok P x \<Longrightarrow> res_ok P y \<Longrightarrow> res_ok P (if b then x else y)"
  by simp

lemma stack_op_small:
  assumes "small st" "length st \<le> 1000"
  shows "res_ok small (eval_stack_op env opcode st)"
proof -
  have len: "length (CScriptNum_serialize (int n)) \<le> MAX_SCRIPT_ELEMENT_SIZE" if "n \<le> 1000" for n :: nat
    using that by (intro serialize_small) simp
  have el: "length a \<le> MAX_SCRIPT_ELEMENT_SIZE \<Longrightarrow> length a \<le> 1000" for a :: bytes
    by (simp add: MAX_SCRIPT_ELEMENT_SIZE_def)
  have pick: "res_ok small (eval_pick_roll env opcode st)" using assms(1) by (blast intro: res_okI pick_roll_small)
  show ?thesis
    unfolding eval_stack_op_def using assms(1)
    by (intro res_if pick) (auto simp: assms(2) len el split: list.split)
qed

lemma value_ops_small:
  assumes "small st"
  shows "eval_equal opcode st = Inr st' \<Longrightarrow> small st'"
    "eval_unary env opcode st = Inr st' \<Longrightarrow> small st'"
    "eval_binary env opcode st = Inr st' \<Longrightarrow> small st'"
    "eval_within env st = Inr st' \<Longrightarrow> small st'"
    "eval_checksig env opcode code st = Inr st' \<Longrightarrow> small st'"
    "eval_checksigadd env code st = Inr st' \<Longrightarrow> small st'"
proof -
  note nums = to_num_bound serialize_small unary_value_bound binary_value_bound
  show "eval_equal opcode st = Inr st' \<Longrightarrow> small st'"
    using assms by (auto simp: eval_equal_def Let_def split: list.splits if_splits)
  show "eval_unary env opcode st = Inr st' \<Longrightarrow> small st'"
    using assms by (auto simp: eval_unary_def intro!: nums split: list.splits sum.splits if_splits)
  show "eval_binary env opcode st = Inr st' \<Longrightarrow> small st'"
    using assms by (auto simp: eval_binary_def Let_def intro!: nums split: list.splits sum.splits if_splits)
  show "eval_within env st = Inr st' \<Longrightarrow> small st'"
    using assms by (auto simp: eval_within_def split: list.splits sum.splits if_splits)
  show "eval_checksig env opcode code st = Inr st' \<Longrightarrow> small st'"
    using assms by (auto simp: eval_checksig_def Let_def split: list.splits option.splits if_splits)
  show "eval_checksigadd env code st = Inr st' \<Longrightarrow> small st'"
    using assms by (auto simp: eval_checksigadd_def Let_def intro!: serialize_small dest!: to_num_bound
      split: list.splits sum.splits if_splits)
qed

lemma hash_small: "hash_sizes (ev_hashes env) \<Longrightarrow> small st \<Longrightarrow> eval_hash env opcode st = Inr st' \<Longrightarrow> small st'"
  by (auto simp: eval_hash_def hash_sizes_def MAX_SCRIPT_ELEMENT_SIZE_def split: list.splits if_splits)

lemma multisig_cleanup_small: "multisig_cleanup failed k n st = Inr st' \<Longrightarrow> small st \<Longrightarrow> small st'"
  by (induction failed k n st rule: multisig_cleanup.induct) (auto split: if_splits)

lemma multisig_finish_small: "multisig_finish env opcode ok nk ns st = Inr st' \<Longrightarrow> small st \<Longrightarrow> small st'"
  by (auto simp: multisig_finish_def dest!: multisig_cleanup_small split: sum.splits list.splits if_splits)

lemma multisig_limits:
  assumes "eval_multisig env opcode s = Inr s'" "op_limits s"
  shows "op_limits s'"
  using assms multisig_finish_small
  by (auto simp: eval_multisig_def Let_def op_limits_def split: sum.splits if_splits)

lemma control_limits: "eval_control env fExec opcode s = Inr s' \<Longrightarrow> op_limits s \<Longrightarrow> op_limits s'"
  by (auto simp: eval_control_def eval_if_def eval_else_def eval_endif_def eval_verify_def op_limits_def Let_def
      split: list.splits if_splits)

lemma on_stack_limits:
  assumes "op_limits s" "small (stk s) \<Longrightarrow> res_ok small (f (stk s))"
  shows "res_ok op_limits (on_stack f s)"
  using assms by (cases "f (stk s)") (simp_all add: on_stack_def op_limits_def)

lemma lock_ops_same:
  "eval_cltv env s = Inr s' \<Longrightarrow> s' = s" "eval_csv env s = Inr s' \<Longrightarrow> s' = s"
  by (auto simp: eval_cltv_def eval_csv_def split: list.splits sum.splits if_splits)

lemma uint_opcode_bound: "\<bar>uint (opcode :: u8) - 0x50\<bar> < 2 ^ 39"
proof -
  have "0 \<le> uint opcode" "uint opcode < 256" using uint_lt2p [of opcode] by simp_all
  then have "\<bar>uint opcode - 80\<bar> < 256" by linarith
  then show ?thesis by simp
qed

lemma eval_op_limits:
  assumes "limits s" "hash_sizes (ev_hashes env)"
  shows "res_ok op_limits (eval_op env fExec opcode pc s)"
proof -
  have lim: "op_limits s" "length (stk s) \<le> 1000" using assms(1) by (simp_all add: limits_def)
  have push: "op_limits (s\<lparr>stk := CScriptNum_serialize (uint opcode - 0x50) # stk s\<rparr>)"
    using lim(1) serialize_small [OF uint_opcode_bound [of opcode]] by (simp add: op_limits_def)
  have code: "op_limits (s\<lparr>pbegincodehash := pc\<rparr>)" using lim(1) by (simp add: op_limits_def)
  have same: "res_ok op_limits (eval_cltv env s)" "res_ok op_limits (eval_csv env s)"
    "res_ok op_limits (eval_control env fExec opcode s)" "res_ok op_limits (eval_multisig env opcode s)"
    using lim(1) by (blast intro: res_okI dest: lock_ops_same control_limits multisig_limits)+
  have vals: "res_ok small (eval_equal opcode (stk s))" "res_ok small (eval_unary env opcode (stk s))"
    "res_ok small (eval_binary env opcode (stk s))" "res_ok small (eval_within env (stk s))"
    "res_ok small (eval_hash env opcode (stk s))" "res_ok small (eval_checksig env opcode code (stk s))"
    "res_ok small (eval_checksigadd env code (stk s))" if "small (stk s)" for code
    using that by (blast intro: res_okI value_ops_small hash_small [OF assms(2)])+
  show ?thesis unfolding eval_op_def
    by (intro res_if same on_stack_limits vals stack_op_small) (simp_all add: push code lim)
qed

lemma eval_step_limits:
  assumes "eval_step env opcode vch pc s = Inr s'" "limits s" "hash_sizes (ev_hashes env)"
  shows "limits s'"
proof -
  define s0 where "s0 = (if opcode > OP_16 then s\<lparr>nOpCount := nOpCount s + 1\<rparr> else s)"
  define r where "r = (if list_all id (vfExec s) \<and> opcode \<le> OP_PUSHDATA4 then
                if fRequireMinimal env \<and> \<not> CheckMinimalPush vch opcode then Inl SCRIPT_ERR_MINIMALDATA
                else Inr (s0\<lparr>stk := vch # stk s0\<rparr>)
              else if list_all id (vfExec s) \<or> (OP_IF \<le> opcode \<and> opcode \<le> OP_ENDIF) then eval_op env (list_all id (vfExec s)) opcode pc s0
              else Inr s0)"
  have step: "r = Inr s'" "length (stk s') + length (altstack s') \<le> 1000" "length vch \<le> MAX_SCRIPT_ELEMENT_SIZE"
    "\<not> (opcode > OP_16 \<and> nOpCount s0 > 201)"
    using assms(1) by (auto simp: eval_step_def Let_def s0_def [symmetric] r_def [symmetric] split: sum.splits if_splits)
  have s0: "limits s0" using assms(2) step(4) by (auto simp: limits_def op_limits_def s0_def MAX_OPS_PER_SCRIPT_def)
  have "op_limits s0" "op_limits (s0\<lparr>stk := vch # stk s0\<rparr>)" using s0 step(3) by (simp_all add: limits_def op_limits_def)
  then have "res_ok op_limits r"
    unfolding r_def by (intro res_if eval_op_limits [OF s0 assms(3)]) simp_all
  then have "op_limits s'" by (simp add: step(1))
  with step(2) show ?thesis by (simp add: limits_def)
qed

lemma eval_loop_limits:
  assumes "eval_loop env pc s = Inr s'" "limits s" "hash_sizes (ev_hashes env)"
  shows "limits s'"
  using assms
proof (induction env pc s rule: eval_loop.induct)
  case (1 env pc s)
  show ?case
  proof (cases "pc = []")
    case True
    with 1 show ?thesis by (simp add: eval_loop.simps)
  next
    case False
    with 1(2) obtain opcode vch pc' s1 where op: "GetOp pc = Some (opcode, vch, pc')"
      "eval_step env opcode vch pc' s = Inr s1" "eval_loop env pc' s1 = Inr s'"
      by (subst (asm) eval_loop.simps) (auto split: option.splits sum.splits)
    show ?thesis using 1(1) [OF False op(1) _ _ op(2,3)] eval_step_limits [OF op(2) 1(3,4)] 1(4) by simp
  qed
qed

text \<open>The states an evaluation passes through: the rest of the script and the state of the machine.\<close>

inductive eval_reach :: "eval_env \<Rightarrow> bytes \<Rightarrow> bytes list \<Rightarrow> bytes \<Rightarrow> eval_state \<Rightarrow> bool" for env script stack where
  start: "eval_reach env script stack script
    \<lparr>stk = stack, altstack = [], vfExec = [], nOpCount = 0, pbegincodehash = script\<rparr>"
| step: "eval_reach env script stack pc s \<Longrightarrow> GetOp pc = Some (opcode, vch, pc') \<Longrightarrow>
    eval_step env opcode vch pc' s = Inr s' \<Longrightarrow> eval_reach env script stack pc' s'"

lemma reach_limits:
  assumes "eval_reach env script stack pc s" "hash_sizes (ev_hashes env)" "small stack" "length stack \<le> 1000"
  shows "limits s"
  using assms(1)
proof induction
  case start
  show ?case using assms by (simp add: limits_def op_limits_def)
next
  case (step pc s opcode vch pc' s')
  then show ?case using eval_step_limits assms(2) by blast
qed

lemma eval_loop_op:
  assumes "GetOp pc = Some (opcode, vch, pc')"
  shows "eval_loop env pc s = sum_bind (eval_step env opcode vch pc' s) (eval_loop env pc')"
  using assms by (subst eval_loop.simps) (auto simp: sum_bind_def GetOp_def GetOp2_def split: sum.splits)

lemma eval_loop_reach:
  assumes "eval_loop env pc s = Inr s'" "eval_reach env script stack pc s"
  shows "eval_reach env script stack [] s'"
  using assms
proof (induction env pc s rule: eval_loop.induct)
  case (1 env pc s)
  show ?case
  proof (cases "pc = []")
    case True
    with 1 show ?thesis by (simp add: eval_loop.simps)
  next
    case False
    with 1(2) obtain opcode vch pc' s1 where op: "GetOp pc = Some (opcode, vch, pc')"
      "eval_step env opcode vch pc' s = Inr s1" "eval_loop env pc' s1 = Inr s'"
      by (subst (asm) eval_loop.simps) (auto split: option.splits sum.splits)
    show ?thesis by (rule 1(1) [OF False op(1) _ _ op(2,3) eval_reach.step [OF 1(3) op(1,2)]]) simp_all
  qed
qed

lemma EvalScript_reach:
  assumes "EvalScript env script stack = Inr stack'"
  shows "\<exists>s. eval_reach env script stack [] s \<and> stack' = stk s"
  using assms by (auto simp: EvalScript_def split: if_splits sum.splits dest!: eval_loop_reach [OF _ eval_reach.start])


section \<open>Executing single instructions\<close>

text \<open>Outside conditionals; the successor states of the opcodes that the output templates use.\<close>

lemma GetOp_direct:
  "1 \<le> length b \<Longrightarrow> length b \<le> 75 \<Longrightarrow> GetOp (script_push_data b @ r) = Some (of_nat (length b), b, r)"
  by (simp add: script_push_data_def GetOp_def GetOp2_def GetOp2_data_def word_le_nat_alt word_less_nat_alt unat_of_nat)

lemma step_push:
  assumes "opcode \<le> OP_PUSHDATA4" "vfExec s = []"
  shows "eval_step env opcode vch pc s =
    (if length vch > MAX_SCRIPT_ELEMENT_SIZE then Inl SCRIPT_ERR_PUSH_SIZE
     else if fRequireMinimal env \<and> \<not> CheckMinimalPush vch opcode then Inl SCRIPT_ERR_MINIMALDATA
     else if Suc (length (stk s)) + length (altstack s) > 1000 then Inl SCRIPT_ERR_STACK_SIZE
     else Inr (s\<lparr>stk := vch # stk s\<rparr>))"
proof -
  have "\<not> opcode > OP_16" "\<not> disabled_opcode opcode" using assms(1)
    by (auto simp: disabled_opcode_def word_le_nat_alt word_less_nat_alt)
  then show ?thesis using assms by (simp add: eval_step_def)
qed

lemma step_op:
  assumes "opcode > OP_16" "\<not> disabled_opcode opcode" "vfExec s = []" "nOpCount s < 201"
  shows "eval_step env opcode [] pc s =
    sum_bind (eval_op env True opcode pc (s\<lparr>nOpCount := Suc (nOpCount s)\<rparr>))
      (\<lambda>s. if length (stk s) + length (altstack s) > 1000 then Inl SCRIPT_ERR_STACK_SIZE else Inr s)"
proof -
  have "\<not> opcode \<le> OP_PUSHDATA4" using assms(1) by (simp add: word_le_nat_alt word_less_nat_alt)
  then show ?thesis using assms by (simp add: eval_step_def sum_bind_def)
qed

lemma step_opD:
  assumes "eval_step env opcode [] pc s = Inr s'" "opcode > OP_16" "vfExec s = []"
  shows "eval_op env True opcode pc (s\<lparr>nOpCount := Suc (nOpCount s)\<rparr>) = Inr s'"
proof -
  have "\<not> opcode \<le> OP_PUSHDATA4" using assms(2) by (simp add: word_le_nat_alt word_less_nat_alt)
  then show ?thesis using assms by (auto simp: eval_step_def Let_def split: if_splits sum.splits)
qed

lemma not_disabled [simp]:
  "\<not> disabled_opcode OP_DUP" "\<not> disabled_opcode OP_DROP" "\<not> disabled_opcode OP_HASH160" "\<not> disabled_opcode OP_EQUAL"
  "\<not> disabled_opcode OP_EQUALVERIFY" "\<not> disabled_opcode OP_CHECKSIG" "\<not> disabled_opcode OP_CHECKLOCKTIMEVERIFY"
  by (simp_all add: disabled_opcode_def)

lemma op_simps:
  "eval_op env f OP_DUP pc s = on_stack (eval_stack_op env OP_DUP) s"
  "eval_op env f OP_DROP pc s = on_stack (eval_stack_op env OP_DROP) s"
  "eval_op env f OP_HASH160 pc s = on_stack (eval_hash env OP_HASH160) s"
  "eval_op env f OP_EQUAL pc s = on_stack (eval_equal OP_EQUAL) s"
  "eval_op env f OP_EQUALVERIFY pc s = on_stack (eval_equal OP_EQUALVERIFY) s"
  "eval_op env f OP_CHECKSIG pc s = on_stack (eval_checksig env OP_CHECKSIG (pbegincodehash s)) s"
  "eval_op env f OP_CHECKLOCKTIMEVERIFY pc s = eval_cltv env s"
  by (simp_all add: eval_op_def)

lemma eval_loop_Nil [simp]: "eval_loop env [] s = Inr s"
  by (simp add: eval_loop.simps)

lemma minimal_direct: "2 \<le> length b \<Longrightarrow> length b \<le> 75 \<Longrightarrow> CheckMinimalPush b (of_nat (length b))"
  by (auto simp: CheckMinimalPush_def unat_of_nat)

definition plain_checker :: sig_checker where
  "plain_checker = \<lparr>chk_CheckSig = (\<lambda>sig pk code v. sig \<noteq> []), chk_CheckLockTime = (\<lambda>n. n < 100), chk_CheckSequence = (\<lambda>n. False)\<rparr>"

definition plain_hashes :: script_hashes where
  "plain_hashes = \<lparr>h_ripemd160 = (\<lambda>b. replicate 20 1), h_sha1 = (\<lambda>b. replicate 20 2), h_sha256 = (\<lambda>b. replicate 32 3),
     h_hash160 = (\<lambda>b. replicate 20 (of_nat (length b))), h_hash256 = (\<lambda>b. replicate 32 5)\<rparr>"

definition plain_env :: "u32 \<Rightarrow> eval_env" where
  "plain_env flags = \<lparr>ev_flags = flags, ev_sigversion = SIGVERSION_BASE, ev_checker = plain_checker, ev_hashes = plain_hashes,
     ev_CheckLowS = (\<lambda>_. True)\<rparr>"

lemma plain_hash_sizes: "hash_sizes (ev_hashes (plain_env flags))"
  by (simp add: hash_sizes_def plain_env_def plain_hashes_def)

text \<open>C11. Resource limits of the interpreter (invariant): in every state an evaluation passes through, the two stacks together
  hold at most 1000 elements, no element is longer than 520 bytes and at most 201 operations have been counted, whatever the
  script is; and the stack a successful evaluation returns is within the same limits.\<close>

theorem EvalScript_limits:
  assumes "hash_sizes (ev_hashes env)" "small stack" "length stack \<le> 1000"
  shows "(eval_reach env script stack pc s \<longrightarrow>
      length (stk s) + length (altstack s) \<le> 1000 \<and> small (stk s) \<and> small (altstack s) \<and> nOpCount s \<le> 201)
    \<and> (EvalScript env script stack = Inr stack' \<longrightarrow> length stack' \<le> 1000 \<and> small stack')"
  using reach_limits [OF _ assms] EvalScript_reach [of env script stack stack']
  by (fastforce simp: limits_def op_limits_def MAX_OPS_PER_SCRIPT_def)

lemma demo_eval: "EvalScript (plain_env 0) [OP_1, OP_DUP, OP_HASH160] [] = Inr [replicate 20 1, [1]]"
  by code_simp

theorem EvalScript_limits_witness:
  "EvalScript (plain_env 0) [OP_1, OP_DUP, OP_HASH160] [] = Inr [replicate 20 1, [1]] \<and> small [replicate 20 1, [1]]"
  using EvalScript_limits [OF plain_hash_sizes, of "[]" 0 "[OP_1, OP_DUP, OP_HASH160]"] demo_eval small_simps(1)
  by (metis list.size(3) zero_le)

end
