(* ===== verification/SigChecker.thy ===== *)
theory SigChecker
  imports Interpreter Transaction
begin

text \<open>
  What a signature signs and how a spend is verified (the second half of \<open>src/src/script/interpreter.cpp\<close>): the
  serialization of a transaction for signing, the legacy, version-0 and taproot signature hashes, the checkers an evaluation
  calls (\<open>TransactionSignatureChecker\<close>, \<open>TapscriptSignatureChecker\<close>) and \<open>VerifyScript\<close>.  The hash functions
  and the curve operations of the public keys are parameters (\<open>curve_ops\<close>).
\<close>

section \<open>Signature hashes\<close>

text \<open>Serializing the script code without its code separators; iterators are the bytes that are left.\<close>

function count_separators :: "bytes \<Rightarrow> nat" where
  "count_separators it =
     (case GetOp it of
        None \<Rightarrow> 0
      | Some (opcode, data, it') \<Rightarrow> of_bool (opcode = OP_CODESEPARATOR) + count_separators it')"
  by auto
termination
  by (relation "measure length") (auto dest: GetOp_shorter)

function code_segments :: "bytes \<Rightarrow> bytes \<Rightarrow> bytes" where
  "code_segments itBegin it =
     (case GetOp it of
        Some (opcode, data, it') \<Rightarrow>
          if opcode = OP_CODESEPARATOR
          then take (length itBegin - length it' - 1) itBegin @ code_segments it' it'
          else code_segments itBegin it'
      | None \<Rightarrow>
          if itBegin \<noteq> [] then (case GetOp2 it of (_, _, _, it') \<Rightarrow> take (length itBegin - length it') itBegin) else [])"
  by auto
termination
  by (relation "measure (\<lambda>(b, it). length it)") (auto dest: GetOp_shorter)

declare count_separators.simps [simp del] code_segments.simps [simp del]

definition SerializeScriptCode :: "bytes \<Rightarrow> bytes" where
  "SerializeScriptCode scriptCode =
     WriteCompactSize (of_nat (length scriptCode - count_separators scriptCode)) @ code_segments scriptCode scriptCode"

definition fAnyoneCanPay :: "int \<Rightarrow> bool" where "fAnyoneCanPay nHashType \<longleftrightarrow> nHashType AND 0x80 \<noteq> 0"
definition fHashSingle :: "int \<Rightarrow> bool" where "fHashSingle nHashType \<longleftrightarrow> nHashType AND 0x1f = 3"
definition fHashNone :: "int \<Rightarrow> bool" where "fHashNone nHashType \<longleftrightarrow> nHashType AND 0x1f = 2"

definition SerializeInput :: "CTransaction \<Rightarrow> bytes \<Rightarrow> nat \<Rightarrow> int \<Rightarrow> nat \<Rightarrow> bytes" where
  "SerializeInput txTo scriptCode nIn nHashType nInput =
     (let nInput = (if fAnyoneCanPay nHashType then nIn else nInput)
      in put_outpoint (prevout (vin txTo ! nInput))
         @ (if nInput \<noteq> nIn then put_blob [] else SerializeScriptCode scriptCode)
         @ (if nInput \<noteq> nIn \<and> (fHashSingle nHashType \<or> fHashNone nHashType) then put_int32 0
            else ser_writedata32 (nSequence (vin txTo ! nInput))))"

definition SerializeOutput :: "CTransaction \<Rightarrow> nat \<Rightarrow> int \<Rightarrow> nat \<Rightarrow> bytes" where
  "SerializeOutput txTo nIn nHashType nOutput =
     (if fHashSingle nHashType \<and> nOutput \<noteq> nIn then put_txout CTxOut_SetNull else put_txout (vout txTo ! nOutput))"

definition SerializeSigTx :: "CTransaction \<Rightarrow> bytes \<Rightarrow> nat \<Rightarrow> int \<Rightarrow> bytes" where
  "SerializeSigTx txTo scriptCode nIn nHashType =
     (let nInputs = (if fAnyoneCanPay nHashType then 1 else length (vin txTo));
          nOutputs = (if fHashNone nHashType then 0 else if fHashSingle nHashType then nIn + 1 else length (vout txTo))
      in put_int32 (tx_nVersion txTo)
         @ WriteCompactSize (of_nat nInputs) @ concat (map (SerializeInput txTo scriptCode nIn nHashType) [0..<nInputs])
         @ WriteCompactSize (of_nat nOutputs) @ concat (map (SerializeOutput txTo nIn nHashType) [0..<nOutputs])
         @ ser_writedata32 (nLockTime txTo))"

definition GetPrevoutsSHA256 :: "(bytes \<Rightarrow> bytes) \<Rightarrow> CTransaction \<Rightarrow> uint256" where
  "GetPrevoutsSHA256 sha256 tx =
     uint256_of (sha256 (concat (map (\<lambda>i. put_uint256 (op_hash (prevout i)) @ WriteLE32 (op_n (prevout i))) (vin tx))))"

definition GetSequencesSHA256 :: "(bytes \<Rightarrow> bytes) \<Rightarrow> CTransaction \<Rightarrow> uint256" where
  "GetSequencesSHA256 sha256 tx = uint256_of (sha256 (concat (map (\<lambda>i. WriteLE32 (nSequence i)) (vin tx))))"

definition GetOutputsSHA256 :: "(bytes \<Rightarrow> bytes) \<Rightarrow> CTransaction \<Rightarrow> uint256" where
  "GetOutputsSHA256 sha256 tx =
     uint256_of (sha256 (concat (map (\<lambda>out. WriteLE64 (word_of_int (nValue out)) @ put_blob (scriptPubKey out)) (vout tx))))"

definition GetSpentAmountsSHA256 :: "(bytes \<Rightarrow> bytes) \<Rightarrow> CTxOut list \<Rightarrow> uint256" where
  "GetSpentAmountsSHA256 sha256 spent = uint256_of (sha256 (concat (map (\<lambda>out. WriteLE64 (word_of_int (nValue out))) spent)))"

definition GetSpentScriptsSHA256 :: "(bytes \<Rightarrow> bytes) \<Rightarrow> CTxOut list \<Rightarrow> uint256" where
  "GetSpentScriptsSHA256 sha256 spent = uint256_of (sha256 (concat (map (\<lambda>out. put_blob (scriptPubKey out)) spent)))"

definition GetPrevoutHash :: "(bytes \<Rightarrow> uint256) \<Rightarrow> CTransaction \<Rightarrow> uint256" where
  "GetPrevoutHash Hash txTo = Hash (concat (map (\<lambda>i. put_outpoint (prevout i)) (vin txTo)))"

definition GetSequenceHash :: "(bytes \<Rightarrow> uint256) \<Rightarrow> CTransaction \<Rightarrow> uint256" where
  "GetSequenceHash Hash txTo = Hash (concat (map (\<lambda>i. ser_writedata32 (nSequence i)) (vin txTo)))"

definition GetOutputsHash :: "(bytes \<Rightarrow> uint256) \<Rightarrow> CTransaction \<Rightarrow> uint256" where
  "GetOutputsHash Hash txTo = Hash (concat (map put_txout (vout txTo)))"

definition tagged :: "(bytes \<Rightarrow> bytes) \<Rightarrow> string \<Rightarrow> bytes \<Rightarrow> bytes" where
  "tagged sha256 tag msg =
     (let tag_hash = sha256 (map (\<lambda>c. of_nat (of_char c)) tag) in sha256 (tag_hash @ tag_hash @ msg))"

definition ComputeTapLeafHash :: "(bytes \<Rightarrow> bytes) \<Rightarrow> u8 \<Rightarrow> bytes \<Rightarrow> uint256" where
  "ComputeTapLeafHash sha256 leaf_version script =
     uint256_of (tagged sha256 ''TapLeaf'' (ser_writedata8 leaf_version @ put_blob script))"

definition ComputeTapBranchHash :: "(bytes \<Rightarrow> bytes) \<Rightarrow> uint256 \<Rightarrow> uint256 \<Rightarrow> uint256" where
  "ComputeTapBranchHash sha256 left right =
     uint256_of (tagged sha256 ''TapBranch''
       (if left < right then put_uint256 left @ put_uint256 right else put_uint256 right @ put_uint256 left))"

fun tap_path :: "(bytes \<Rightarrow> bytes) \<Rightarrow> nat \<Rightarrow> bytes \<Rightarrow> uint256 \<Rightarrow> uint256" where
  "tap_path sha256 0 path current_hash = current_hash"
| "tap_path sha256 (Suc n) path current_hash =
     tap_path sha256 n (drop 32 path) (ComputeTapBranchHash sha256 current_hash (uint256_of (take 32 path)))"

definition DeriveTaprootMerkleRoot :: "(bytes \<Rightarrow> bytes) \<Rightarrow> bytes \<Rightarrow> uint256 \<Rightarrow> uint256" where
  "DeriveTaprootMerkleRoot sha256 control_block leaf_hash =
     tap_path sha256 ((length control_block - 33) div 32) (drop 33 control_block) leaf_hash"

record PrecomputedTransactionData =
  hashPrevouts :: uint256
  hashSequence :: uint256
  hashOutputs :: uint256
  hashPrevoutsSingle :: uint256
  hashSequenceSingle :: uint256
  hashOutputsSingle :: uint256
  hashSpentAmounts :: uint256
  hashSpentScripts :: uint256
  m_spent_outputs_ready :: bool
  spentOutputs :: "CTxOut list"

definition new_PrecomputedTransactionData :: "(bytes \<Rightarrow> uint256) \<Rightarrow> (bytes \<Rightarrow> bytes) \<Rightarrow> CTransaction \<Rightarrow> PrecomputedTransactionData" where
  "new_PrecomputedTransactionData Hash sha256 txTo =
     \<lparr>hashPrevouts = GetPrevoutHash Hash txTo, hashSequence = GetSequenceHash Hash txTo, hashOutputs = GetOutputsHash Hash txTo,
      hashPrevoutsSingle = GetPrevoutsSHA256 sha256 txTo, hashSequenceSingle = GetSequencesSHA256 sha256 txTo,
      hashOutputsSingle = GetOutputsSHA256 sha256 txTo, hashSpentAmounts = 0, hashSpentScripts = 0,
      m_spent_outputs_ready = False, spentOutputs = []\<rparr>"

definition precomputed_Init :: "(bytes \<Rightarrow> bytes) \<Rightarrow> CTxOut list \<Rightarrow> PrecomputedTransactionData \<Rightarrow> PrecomputedTransactionData" where
  "precomputed_Init sha256 spent d =
     d\<lparr>m_spent_outputs_ready := True, spentOutputs := spent, hashSpentAmounts := GetSpentAmountsSHA256 sha256 spent,
       hashSpentScripts := GetSpentScriptsSHA256 sha256 spent\<rparr>"

text \<open>The message of \<open>SignatureHashTaproot\<close> after the tag; \<open>None\<close> stands for an early \<open>return UINT256_ONE\<close>.\<close>

definition taproot_message ::
  "(bytes \<Rightarrow> bytes) \<Rightarrow> CTransaction \<Rightarrow> nat \<Rightarrow> int \<Rightarrow> SigVersion \<Rightarrow> PrecomputedTransactionData option \<Rightarrow> uint256 option \<Rightarrow> u32 \<Rightarrow> bytes option" where
  "taproot_message sha256 txTo nIn nHashType sigversion cache tapleaf_hash codesep_pos =
     (let sighash_type = (if nHashType = 0 then 1 else word_of_int nHashType) :: u8;
          anyone_can_pay = (sighash_type AND 0x80 \<noteq> 0);
          mode = sighash_type AND 0x1f;
          ready = (case cache of None \<Rightarrow> False | Some d \<Rightarrow> m_spent_outputs_ready d)
      in if \<not> anyone_can_pay \<and> \<not> ready then None
         else if anyone_can_pay \<and> \<not> (ready \<and> nIn < length (spentOutputs (the cache))) then None
         else if mode = 3 \<and> nIn \<ge> length (vout txTo) then None
         else if sigversion = SIGVERSION_TAPSCRIPT \<and> tapleaf_hash = None then None
         else Some
           ([0, sighash_type] @ WriteLE32 (word_of_int (tx_nVersion txTo)) @ WriteLE32 (nLockTime txTo)
            @ (if \<not> anyone_can_pay then
                 put_uint256 (hashPrevoutsSingle (the cache)) @ put_uint256 (hashSpentAmounts (the cache))
                 @ put_uint256 (hashSpentScripts (the cache)) @ put_uint256 (hashSequenceSingle (the cache))
               else [])
            @ (if mode \<noteq> 2 \<and> mode \<noteq> 3 then
                 put_uint256 (case cache of Some d \<Rightarrow> hashOutputsSingle d | None \<Rightarrow> GetOutputsSHA256 sha256 txTo)
               else [])
            @ [if sigversion = SIGVERSION_TAPSCRIPT then 2 else 0] @ WriteLE32 (of_nat nIn)
            @ (if anyone_can_pay then
                 let txin = vin txTo ! nIn; txout = spentOutputs (the cache) ! nIn
                 in put_uint256 (op_hash (prevout txin)) @ WriteLE32 (op_n (prevout txin))
                    @ WriteLE64 (word_of_int (nValue txout)) @ put_blob (scriptPubKey txout) @ WriteLE32 (nSequence txin)
               else [])
            @ (if mode = 3 then put_uint256 (uint256_of (sha256 (put_txout (vout txTo ! nIn)))) else [])
            @ (if sigversion = SIGVERSION_TAPSCRIPT then put_uint256 (the tapleaf_hash) @ [0] @ WriteLE32 codesep_pos else [])))"

definition SignatureHashTaproot ::
  "(bytes \<Rightarrow> bytes) \<Rightarrow> CTransaction \<Rightarrow> nat \<Rightarrow> int \<Rightarrow> SigVersion \<Rightarrow> PrecomputedTransactionData option \<Rightarrow> uint256 option \<Rightarrow> u32 \<Rightarrow> uint256" where
  "SignatureHashTaproot sha256 txTo nIn nHashType sigversion cache tapleaf_hash codesep_pos =
     (if nIn \<ge> length (vin txTo) then 1
      else case taproot_message sha256 txTo nIn nHashType sigversion cache tapleaf_hash codesep_pos of
        None \<Rightarrow> 1
      | Some msg \<Rightarrow> uint256_of (tagged sha256 ''TapSighash'' msg))"

definition witness_v0_message ::
  "(bytes \<Rightarrow> uint256) \<Rightarrow> bytes \<Rightarrow> CTransaction \<Rightarrow> nat \<Rightarrow> int \<Rightarrow> int \<Rightarrow> PrecomputedTransactionData option \<Rightarrow> bytes" where
  "witness_v0_message Hash scriptCode txTo nIn nHashType amount cache =
     (let hPrevouts = (if \<not> fAnyoneCanPay nHashType then case cache of Some d \<Rightarrow> hashPrevouts d | None \<Rightarrow> GetPrevoutHash Hash txTo else 0);
          hSequence = (if \<not> fAnyoneCanPay nHashType \<and> \<not> fHashSingle nHashType \<and> \<not> fHashNone nHashType
             then case cache of Some d \<Rightarrow> hashSequence d | None \<Rightarrow> GetSequenceHash Hash txTo else 0);
          hOutputs = (if \<not> fHashSingle nHashType \<and> \<not> fHashNone nHashType
             then case cache of Some d \<Rightarrow> hashOutputs d | None \<Rightarrow> GetOutputsHash Hash txTo
             else if fHashSingle nHashType \<and> nIn < length (vout txTo) then Hash (put_txout (vout txTo ! nIn)) else 0)
      in put_int32 (tx_nVersion txTo) @ put_uint256 hPrevouts @ put_uint256 hSequence @ put_outpoint (prevout (vin txTo ! nIn))
         @ put_blob scriptCode @ put_int64 amount @ ser_writedata32 (nSequence (vin txTo ! nIn)) @ put_uint256 hOutputs
         @ ser_writedata32 (nLockTime txTo) @ put_int32 nHashType)"

definition SignatureHash ::
  "(bytes \<Rightarrow> uint256) \<Rightarrow> bytes \<Rightarrow> CTransaction \<Rightarrow> nat \<Rightarrow> int \<Rightarrow> int \<Rightarrow> SigVersion \<Rightarrow> PrecomputedTransactionData option \<Rightarrow> uint256" where
  "SignatureHash Hash scriptCode txTo nIn nHashType amount sigversion cache =
     (if nIn \<ge> length (vin txTo) then 1
      else if sigversion = SIGVERSION_WITNESS_V0 then Hash (witness_v0_message Hash scriptCode txTo nIn nHashType amount cache)
      else if fHashSingle nHashType \<and> nIn \<ge> length (vout txTo) then 1
      else Hash (SerializeSigTx txTo scriptCode nIn nHashType @ put_int32 nHashType))"

section \<open>The transaction signature checker\<close>

text \<open>Curve operations of \<open>CPubKey\<close> and \<open>CXOnlyPubKey\<close>, and the hash functions.\<close>

record curve_ops =
  c_Verify :: "bytes \<Rightarrow> uint256 \<Rightarrow> bytes \<Rightarrow> bool"
  c_VerifySchnorr :: "bytes \<Rightarrow> uint256 \<Rightarrow> bytes \<Rightarrow> bool"
  c_CheckTapTweak :: "bytes \<Rightarrow> bytes \<Rightarrow> uint256 \<Rightarrow> bool \<Rightarrow> bool"
  c_Hash :: "bytes \<Rightarrow> uint256"
  c_sha256 :: "bytes \<Rightarrow> bytes"

record tx_checker =
  tc_txTo :: CTransaction
  tc_nIn :: nat
  tc_amount :: int
  tc_precom :: "PrecomputedTransactionData option"
  tc_tapleaf_hash :: "uint256 option"
  tc_codesep_pos :: u32

definition CheckSig_legacy :: "curve_ops \<Rightarrow> tx_checker \<Rightarrow> bytes \<Rightarrow> bytes \<Rightarrow> bytes \<Rightarrow> SigVersion \<Rightarrow> bool" where
  "CheckSig_legacy ops tc vchSigIn vchPubKey scriptCode sigversion =
     (let pubkey = pubkey_Set vchPubKey
      in if \<not> pubkey_IsValid pubkey then False
         else if vchSigIn = [] then False
         else c_Verify ops (pubkey_bytes pubkey)
                (SignatureHash (c_Hash ops) scriptCode (tc_txTo tc) (tc_nIn tc) (uint (last vchSigIn)) (tc_amount tc) sigversion
                  (tc_precom tc)) (butlast vchSigIn))"

definition CheckSig_schnorr :: "curve_ops \<Rightarrow> tx_checker \<Rightarrow> bytes \<Rightarrow> bytes \<Rightarrow> SigVersion \<Rightarrow> bool" where
  "CheckSig_schnorr ops tc vchSigIn vchPubKey sigversion =
     (if vchSigIn = [] \<or> length vchPubKey \<noteq> 32 then False
      else if length vchSigIn = 65 \<or> length vchSigIn = 64 then
        let (nHashType, vchSig) = (if length vchSigIn = 65 then (uint (last vchSigIn), butlast vchSigIn) else (0, vchSigIn))
        in c_VerifySchnorr ops vchPubKey
             (SignatureHashTaproot (c_sha256 ops) (tc_txTo tc) (tc_nIn tc) nHashType sigversion (tc_precom tc)
               (tc_tapleaf_hash tc) (tc_codesep_pos tc)) vchSig
      else False)"

definition tx_CheckSig :: "curve_ops \<Rightarrow> tx_checker \<Rightarrow> bytes \<Rightarrow> bytes \<Rightarrow> bytes \<Rightarrow> SigVersion \<Rightarrow> bool" where
  "tx_CheckSig ops tc vchSigIn vchPubKey scriptCode sigversion =
     (if sigversion = SIGVERSION_TAPSCRIPT \<and> (length vchPubKey = 33 \<or> length vchPubKey = 65)
      then CheckSig_legacy ops tc vchSigIn vchPubKey scriptCode SIGVERSION_BASE
      else if sigversion = SIGVERSION_TAPROOT \<or> sigversion = SIGVERSION_TAPSCRIPT
      then CheckSig_schnorr ops tc vchSigIn vchPubKey sigversion
      else CheckSig_legacy ops tc vchSigIn vchPubKey scriptCode sigversion)"

definition tx_CheckLockTime :: "tx_checker \<Rightarrow> int \<Rightarrow> bool" where
  "tx_CheckLockTime tc n =
     (let lock = uint (nLockTime (tc_txTo tc)) in
      if \<not> ((lock < LOCKTIME_THRESHOLD \<and> n < LOCKTIME_THRESHOLD) \<or> (lock \<ge> LOCKTIME_THRESHOLD \<and> n \<ge> LOCKTIME_THRESHOLD))
      then False
      else if n > lock then False
      else \<not> CTxIn_IsFinal (vin (tc_txTo tc) ! tc_nIn tc))"

definition tx_CheckSequence :: "tx_checker \<Rightarrow> int \<Rightarrow> bool" where
  "tx_CheckSequence tc n =
     (let txToSequence = uint (nSequence (vin (tc_txTo tc) ! tc_nIn tc));
          TYPE_FLAG = 2 ^ 22; mask = TYPE_FLAG OR 0xffff;
          txToSequenceMasked = txToSequence AND mask; nSequenceMasked = n AND mask
      in if (word_of_int (tx_nVersion (tc_txTo tc)) :: u32) < 2 then False
         else if txToSequence AND 2 ^ 31 \<noteq> 0 then False
         else if \<not> ((txToSequenceMasked < TYPE_FLAG \<and> nSequenceMasked < TYPE_FLAG)
                     \<or> (txToSequenceMasked \<ge> TYPE_FLAG \<and> nSequenceMasked \<ge> TYPE_FLAG)) then False
         else nSequenceMasked \<le> txToSequenceMasked)"

definition TransactionSignatureChecker :: "curve_ops \<Rightarrow> tx_checker \<Rightarrow> sig_checker" where
  "TransactionSignatureChecker ops tc =
     \<lparr>chk_CheckSig = tx_CheckSig ops tc, chk_CheckLockTime = tx_CheckLockTime tc, chk_CheckSequence = tx_CheckSequence tc\<rparr>"

definition TapscriptSignatureChecker :: "curve_ops \<Rightarrow> tx_checker \<Rightarrow> uint256 \<Rightarrow> sig_checker option" where
  "TapscriptSignatureChecker ops tc leaf_hash =
     (if tc_precom tc = None then None
      else Some (TransactionSignatureChecker ops (tc\<lparr>tc_tapleaf_hash := Some leaf_hash, tc_codesep_pos := 0xffffffff\<rparr>)))"


section \<open>Verifying a spend\<close>

text \<open>
  The environment's signature version is set for each evaluation; \<open>tapscript\<close> is the construction of the checker of a
  leaf, \<open>None\<close> where the given checker has no transaction or no precomputed data.
\<close>

definition eval_at :: "SigVersion \<Rightarrow> eval_env \<Rightarrow> bytes \<Rightarrow> bytes list \<Rightarrow> ScriptError + bytes list" where
  "eval_at sigversion env script stack = EvalScript (env\<lparr>ev_sigversion := sigversion\<rparr>) script stack"

definition stack_result :: "bytes list \<Rightarrow> ScriptError + bytes list" where
  "stack_result stack =
     (case stack of
        [] \<Rightarrow> Inl SCRIPT_ERR_EVAL_FALSE
      | vch # _ \<Rightarrow> if CastToBool vch then Inr stack else Inl SCRIPT_ERR_EVAL_FALSE)"

definition VerifyScriptPath ::
  "eval_env \<Rightarrow> curve_ops \<Rightarrow> (uint256 \<Rightarrow> sig_checker option) \<Rightarrow> bytes \<Rightarrow> bytes \<Rightarrow> bytes \<Rightarrow> bytes list \<Rightarrow> ScriptError + unit" where
  "VerifyScriptPath env ops tapscript Q control_block leaf_script stack =
     (if length control_block < 33 \<or> (length control_block - 33) mod 32 \<noteq> 0 then Inl SCRIPT_ERR_INVALID_STACK_OPERATION
      else if control_block ! 0 AND 0xfe \<noteq> 0xc0 then Inl SCRIPT_ERR_BAD_OPCODE
      else
        let leaf_hash = ComputeTapLeafHash (c_sha256 ops) (control_block ! 0 AND 0xfe) leaf_script;
            merkle_root = DeriveTaprootMerkleRoot (c_sha256 ops) control_block leaf_hash
        in if \<not> c_CheckTapTweak ops Q (take 32 (drop 1 control_block)) merkle_root (control_block ! 0 AND 1 \<noteq> 0)
           then Inl SCRIPT_ERR_EVAL_FALSE
           else case tapscript leaf_hash of
             None \<Rightarrow> Inl SCRIPT_ERR_UNKNOWN_ERROR
           | Some tapscript_checker \<Rightarrow>
               sum_bind (eval_at SIGVERSION_TAPSCRIPT (env\<lparr>ev_checker := tapscript_checker\<rparr>) leaf_script stack) (\<lambda>stack.
               sum_bind (stack_result stack) (\<lambda>_. Inr ())))"

definition VerifyTaproot ::
  "eval_env \<Rightarrow> curve_ops \<Rightarrow> (uint256 \<Rightarrow> sig_checker option) \<Rightarrow> bytes \<Rightarrow> bytes \<Rightarrow> ScriptError + unit" where
  "VerifyTaproot env ops tapscript script_sig script_pub =
     (if \<not> IsPushOnly script_sig then Inl SCRIPT_ERR_SIG_PUSHONLY
      else sum_bind (eval_at SIGVERSION_BASE env script_sig []) (\<lambda>stack.
        let Q = take 32 (drop 2 script_pub) in
        case stack of
          [] \<Rightarrow> Inl SCRIPT_ERR_INVALID_STACK_OPERATION
        | [sig] \<Rightarrow> if chk_CheckSig (ev_checker env) sig Q [] SIGVERSION_TAPROOT then Inr () else Inl SCRIPT_ERR_EVAL_FALSE
        | control_block # leaf_script # stack \<Rightarrow> VerifyScriptPath env ops tapscript Q control_block leaf_script stack))"

definition VerifyScript ::
  "eval_env \<Rightarrow> curve_ops \<Rightarrow> (uint256 \<Rightarrow> sig_checker option) \<Rightarrow> bytes \<Rightarrow> bytes \<Rightarrow> ScriptError + unit" where
  "VerifyScript env ops tapscript script_sig script_pub =
     (if vflag (ev_flags env) SCRIPT_VERIFY_TAPROOT \<and> length script_pub = 34 \<and> script_pub ! 0 = OP_1 \<and> script_pub ! 1 = 32
      then VerifyTaproot env ops tapscript script_sig script_pub
      else if vflag (ev_flags env) SCRIPT_VERIFY_SIGPUSHONLY \<and> \<not> IsPushOnly script_sig then Inl SCRIPT_ERR_SIG_PUSHONLY
      else
        sum_bind (eval_at SIGVERSION_BASE env script_sig []) (\<lambda>stackCopy.
        sum_bind (eval_at SIGVERSION_BASE env script_pub stackCopy) (\<lambda>stack.
        sum_bind (stack_result stack) (\<lambda>_.
        if vflag (ev_flags env) SCRIPT_VERIFY_P2SH \<and> IsPayToScriptHash script_pub then
          if \<not> IsPushOnly script_sig then Inl SCRIPT_ERR_SIG_PUSHONLY
          else
            sum_bind (eval_at SIGVERSION_BASE env (hd stackCopy) (tl stackCopy)) (\<lambda>stackCopy.
            sum_bind (stack_result stackCopy) (\<lambda>_. Inr ()))
        else Inr ()))))"

section \<open>Standard spends\<close>

text \<open>Running pushes and the pay-to-public-key-hash program.\<close>

abbreviation start_state :: "bytes list \<Rightarrow> bytes \<Rightarrow> eval_state" where
  "start_state st script \<equiv> \<lparr>stk = st, altstack = [], vfExec = [], nOpCount = 0, pbegincodehash = script\<rparr>"

lemma eval_loop_push:
  assumes "2 \<le> length b" "length b \<le> 75" "vfExec s = []" "length (stk s) + length (altstack s) < 1000"
  shows "eval_loop env (script_push_data b @ r) s = eval_loop env r (s\<lparr>stk := b # stk s\<rparr>)"
proof -
  have "of_nat (length b) \<le> OP_PUSHDATA4" using assms(2) by (simp add: word_le_nat_alt unat_of_nat)
  moreover have "length b \<le> MAX_SCRIPT_ELEMENT_SIZE" using assms(2) by (simp add: MAX_SCRIPT_ELEMENT_SIZE_def)
  moreover have "GetOp (script_push_data b @ r) = Some (of_nat (length b), b, r)" using assms by (intro GetOp_direct) simp_all
  ultimately show ?thesis
    using assms by (simp add: eval_loop_op step_push minimal_direct)
qed

lemma eval_loop_code:
  assumes "opcode > OP_16" "\<not> disabled_opcode opcode" "vfExec s = []" "nOpCount s < 201"
  shows "eval_loop env (opcode # r) s =
    sum_bind (sum_bind (eval_op env True opcode r (s\<lparr>nOpCount := Suc (nOpCount s)\<rparr>))
      (\<lambda>s. if length (stk s) + length (altstack s) > 1000 then Inl SCRIPT_ERR_STACK_SIZE else Inr s)) (eval_loop env r)"
proof -
  have "GetOp (opcode # r) = Some (opcode, [], r)"
    using assms(1) by (intro GetOp_opcode) (simp add: word_le_nat_alt word_less_nat_alt)
  then show ?thesis using assms by (simp add: eval_loop_op step_op)
qed

lemma eval_keyhash:
  assumes "2 \<le> length sig" "length sig \<le> 75" "2 \<le> length pk" "length pk \<le> 75"
  shows "eval_at SIGVERSION_BASE env (script_push_data sig @ script_push_data pk) [] = Inr [pk, sig]"
proof -
  have "length (script_push_data sig @ script_push_data pk) \<le> MAX_SCRIPT_SIZE"
    using assms by (simp add: length_push_data MAX_SCRIPT_SIZE_def)
  moreover have "eval_loop e (script_push_data sig @ script_push_data pk) (start_state [] c) = Inr (start_state [pk, sig] c)" for e c
    using assms eval_loop_push [where b = pk and r = "[]"] by (simp add: eval_loop_push)
  ultimately show ?thesis by (simp add: eval_at_def EvalScript_def)
qed

lemma eval_keyhash_program:
  fixes env h pk sig
  defines "e \<equiv> env\<lparr>ev_sigversion := SIGVERSION_BASE\<rparr>" and "spk \<equiv> GetScriptForDestination (CKeyID h)"
  shows "eval_at SIGVERSION_BASE env spk [pk, sig] =
    (if h_hash160 (ev_hashes env) pk \<noteq> ToByteVector160 h then Inl SCRIPT_ERR_EQUALVERIFY
     else case check_encodings e sig pk of
       Some err \<Rightarrow> Inl err
     | None \<Rightarrow> Inr [vch_of_bool (chk_CheckSig (ev_checker env) sig pk (drop_signature e sig spk) SIGVERSION_BASE)])"
proof -
  have len: "length spk \<le> MAX_SCRIPT_SIZE" by (simp add: spk_def length_push_data MAX_SCRIPT_SIZE_def)
  have e: "ev_hashes e = ev_hashes env" "ev_checker e = ev_checker env" "ev_sigversion e = SIGVERSION_BASE" by (simp_all add: e_def)
  have "eval_loop e spk (start_state [pk, sig] spk) =
    (if h_hash160 (ev_hashes env) pk \<noteq> ToByteVector160 h then Inl SCRIPT_ERR_EQUALVERIFY
     else case check_encodings e sig pk of
       Some err \<Rightarrow> Inl err
     | None \<Rightarrow> Inr \<lparr>stk = [vch_of_bool (chk_CheckSig (ev_checker env) sig pk (drop_signature e sig spk) SIGVERSION_BASE)],
         altstack = [], vfExec = [], nOpCount = 4, pbegincodehash = spk\<rparr>)"
    by (simp add: spk_def eval_loop_code op_simps on_stack_def eval_stack_op_def eval_hash_def eval_loop_push eval_equal_def
      eval_checksig_def Let_def e split: option.split)
  with len show ?thesis unfolding eval_at_def e_def [symmetric] EvalScript_def by (simp split: option.split)
qed

lemma IsPushOnly_Nil [simp]: "IsPushOnly []"
  by (simp add: IsPushOnly.simps)

lemma stack_result_bool: "stack_result (vch_of_bool b # st) = (if b then Inr (vch_of_bool b # st) else Inl SCRIPT_ERR_EVAL_FALSE)"
  by (simp add: stack_result_def vch_of_bool_def vchTrue_def vchFalse_def)

lemma IsPushOnly_push: "length b < 2 ^ 32 \<Longrightarrow> IsPushOnly (script_push_data b @ r) = IsPushOnly r"
proof -
  assume "length b < 2 ^ 32"
  then obtain opcode where op: "opcode \<le> OP_PUSHDATA4" "GetOp (script_push_data b @ r) = Some (opcode, b, r)"
    using GetOp_push_data by blast
  from op(1) have "\<not> opcode > OP_16" by (simp add: word_le_nat_alt word_less_nat_alt)
  moreover have "script_push_data b @ r \<noteq> []" by (simp add: script_push_data_def)
  ultimately show ?thesis by (subst IsPushOnly.simps) (simp add: op(2))
qed

lemma push_only_pair:
  assumes "2 \<le> length sig" "length sig \<le> 75" "2 \<le> length pk" "length pk \<le> 75"
  shows "IsPushOnly (script_push_data sig @ script_push_data pk)"
  using assms IsPushOnly_push [of pk "[]"] by (simp add: IsPushOnly_push)

text \<open>The lock of a coin-lock registration is checked by every successful evaluation.\<close>

lemma eval_loop_opD:
  assumes "eval_loop env pc s = Inr s'" "GetOp pc = Some (opcode, vch, pc')"
  obtains s1 where "eval_step env opcode vch pc' s = Inr s1" "eval_loop env pc' s1 = Inr s'"
  using assms by (auto simp: eval_loop_op sum_bind_def split: sum.splits)

lemma eval_pushD:
  assumes "eval_loop env (script_push_data b @ r) s = Inr s'" "vfExec s = []" "length b < 2 ^ 32"
  shows "eval_loop env r (s\<lparr>stk := b # stk s\<rparr>) = Inr s'"
proof -
  obtain opcode where op: "opcode \<le> OP_PUSHDATA4" "GetOp (script_push_data b @ r) = Some (opcode, b, r)"
    using GetOp_push_data [OF assms(3)] by blast
  from eval_loop_opD [OF assms(1) op(2)] obtain s1 where
    "eval_step env opcode b r s = Inr s1" "eval_loop env r s1 = Inr s'" .
  with step_push [OF op(1) assms(2)] show ?thesis by (simp split: if_splits)
qed

lemma eval_codeD:
  assumes "eval_loop env (opcode # r) s = Inr s'" "vfExec s = []" "opcode > OP_16"
  obtains s1 where "eval_op env True opcode r (s\<lparr>nOpCount := Suc (nOpCount s)\<rparr>) = Inr s1" "eval_loop env r s1 = Inr s'"
proof -
  have "GetOp (opcode # r) = Some (opcode, [], r)"
    using assms(3) by (intro GetOp_opcode) (simp add: word_le_nat_alt word_less_nat_alt)
  from eval_loop_opD [OF assms(1) this] obtain s1 where
    s1: "eval_step env opcode [] r s = Inr s1" "eval_loop env r s1 = Inr s'" .
  show thesis by (rule that [OF step_opD [OF s1(1) assms(3,2)] s1(2)])
qed

lemma eval_dropD:
  assumes "eval_loop env (OP_DROP # r) s = Inr s'" "vfExec s = []"
  obtains s1 where "eval_loop env r s1 = Inr s'" "vfExec s1 = []"
proof -
  have "(OP_DROP :: u8) > OP_16" by simp
  from eval_codeD [OF assms this] obtain s1 where
    "eval_op env True OP_DROP r (s\<lparr>nOpCount := Suc (nOpCount s)\<rparr>) = Inr s1" "eval_loop env r s1 = Inr s'" .
  then show thesis using that assms(2) by (auto simp: op_simps on_stack_def split: sum.splits)
qed

lemma eval_lock_checked:
  assumes "eval_loop env (push_scriptnum n @ OP_CHECKLOCKTIMEVERIFY # r) s = Inr s'" "vfExec s = []"
    and "vflag (ev_flags env) SCRIPT_VERIFY_CHECKLOCKTIMEVERIFY" "length (CScriptNum_serialize n) \<le> 4"
  shows "chk_CheckLockTime (ev_checker env) n"
proof -
  have "eval_loop env (OP_CHECKLOCKTIMEVERIFY # r) (s\<lparr>stk := CScriptNum_serialize n # stk s\<rparr>) = Inr s'"
    using assms by (intro eval_pushD) (auto simp: push_scriptnum_def)
  moreover have "(OP_CHECKLOCKTIMEVERIFY :: u8) > OP_16" by simp
  ultimately obtain s1 where
    "eval_cltv env (s\<lparr>stk := CScriptNum_serialize n # stk s, nOpCount := Suc (nOpCount s)\<rparr>) = Inr s1"
    using assms(2) by (elim eval_codeD) (auto simp: op_simps)
  moreover have "to_num env 5 (CScriptNum_serialize n) = Inr n \<or> (\<exists>e. to_num env 5 (CScriptNum_serialize n) = Inl e)"
    using assms(4) by (auto simp: to_num_def CScriptNum_of_vch_def set_vch_serialize split: sum.splits if_splits)
  ultimately show ?thesis using assms(3) by (auto simp: eval_cltv_def split: if_splits sum.splits)
qed

lemma EvalScriptD: "EvalScript env script stack = Inr stack' \<Longrightarrow> \<exists>s. eval_loop env script (start_state stack script) = Inr s \<and> stack' = stk s"
  by (auto simp: EvalScript_def split: if_splits sum.splits)

lemma EvalScript_coin_lock:
  assumes "EvalScript env (coin_lock_script pk n h) stack = Inr stack'"
    and "vflag (ev_flags env) SCRIPT_VERIFY_CHECKLOCKTIMEVERIFY" "length (CScriptNum_serialize n) \<le> 4" "length pk < 2 ^ 32"
  shows "chk_CheckLockTime (ev_checker env) n"
proof -
  obtain s where "eval_loop env (coin_lock_script pk n h) (start_state stack (coin_lock_script pk n h)) = Inr s"
    using EvalScriptD [OF assms(1)] by blast
  then obtain c where "eval_loop env (script_push_data pk @ OP_DROP # push_scriptnum n @ OP_CHECKLOCKTIMEVERIFY # c)
      (start_state stack (coin_lock_script pk n h)) = Inr s"
    by (auto simp: coin_lock_script_def)
  note eval_pushD [OF this _ assms(4)]
  then have "eval_loop env (OP_DROP # push_scriptnum n @ OP_CHECKLOCKTIMEVERIFY # c)
    (start_state (pk # stack) (coin_lock_script pk n h)) = Inr s" by simp
  then obtain s1 where "eval_loop env (push_scriptnum n @ OP_CHECKLOCKTIMEVERIFY # c) s1 = Inr s" "vfExec s1 = []"
    by (rule eval_dropD) simp_all
  then show ?thesis using assms(2,3) by (rule eval_lock_checked)
qed

lemma VerifyScript_runs_output:
  assumes "VerifyScript env ops tapscript script_sig script_pub = Inr ()"
    and "\<not> (length script_pub = 34 \<and> script_pub ! 0 = OP_1 \<and> script_pub ! 1 = 32)"
  shows "\<exists>stack stack'. EvalScript (env\<lparr>ev_sigversion := SIGVERSION_BASE\<rparr>) script_pub stack = Inr stack'"
  using assms by (auto simp: VerifyScript_def eval_at_def sum_bind_def split: if_splits sum.splits)

lemma VerifyScript_coin_lock:
  assumes "VerifyScript env ops tapscript script_sig (coin_lock_script pk n h) = Inr ()"
    and "vflag (ev_flags env) SCRIPT_VERIFY_CHECKLOCKTIMEVERIFY" "length (CScriptNum_serialize n) \<le> 4" "length pk = 33"
  shows "chk_CheckLockTime (ev_checker env) n"
proof -
  have "\<not> (length (coin_lock_script pk n h) = 34 \<and> coin_lock_script pk n h ! 0 = OP_1 \<and> coin_lock_script pk n h ! 1 = 32)"
    using assms(4) by (simp add: coin_lock_script_def push_data_short)
  from VerifyScript_runs_output [OF assms(1) this] obtain stack stack' where
    "EvalScript (env\<lparr>ev_sigversion := SIGVERSION_BASE\<rparr>) (coin_lock_script pk n h) stack = Inr stack'" by blast
  then have "chk_CheckLockTime (ev_checker (env\<lparr>ev_sigversion := SIGVERSION_BASE\<rparr>)) n"
    by (rule EvalScript_coin_lock) (use assms(2-4) in simp_all)
  then show ?thesis by simp
qed

text \<open>What the verification flags decide: no evaluation reads \<open>SCRIPT_VERIFY_CLEANSTACK\<close>, bit 8.\<close>

lemma eval_step_flags:
  assumes "\<And>k. k \<noteq> 8 \<Longrightarrow> vflag f' k = vflag (ev_flags env) k"
  shows "eval_step (env\<lparr>ev_flags := f'\<rparr>) opcode vch pc s = eval_step env opcode vch pc s"
proof -
  let ?e = "env\<lparr>ev_flags := f'\<rparr>"
  have min: "fRequireMinimal ?e = fRequireMinimal env" by (simp add: fRequireMinimal_def assms)
  then have num: "to_num ?e = to_num env" by (simp add: to_num_def fun_eq_iff)
  have enc: "check_encodings ?e sg pk = check_encodings env sg pk" for sg pk
  proof -
    have "CheckSignatureEncoding l sg f' = CheckSignatureEncoding l sg (ev_flags env)" for l
      unfolding CheckSignatureEncoding_def by (simp only: assms [of 1] assms [of 2] assms [of 3])
    moreover have "CheckPubKeyEncoding pk f' = CheckPubKeyEncoding pk (ev_flags env)"
      unfolding CheckPubKeyEncoding_def by (simp only: assms [of 1])
    ultimately show ?thesis by (simp add: check_encodings_def split: option.split)
  qed
  have ds: "drop_signature ?e = drop_signature env" by (simp add: drop_signature_def fun_eq_iff)
  have ml: "multisig_loop ?e c sgs ks = multisig_loop env c sgs ks" for c sgs ks
  proof (induction ks arbitrary: sgs)
    case Nil
    show ?case by (cases sgs) simp_all
  next
    case (Cons k ks)
    show ?case by (cases sgs) (simp_all add: enc Cons Let_def split: option.split)
  qed
  have sel: "ev_flags ?e = f'" "ev_checker ?e = ev_checker env" "ev_sigversion ?e = ev_sigversion env"
    "ev_hashes ?e = ev_hashes env" by simp_all
  have fl: "vflag f' 4 = vflag (ev_flags env) 4" "vflag f' 7 = vflag (ev_flags env) 7" "vflag f' 9 = vflag (ev_flags env) 9"
    "vflag f' 10 = vflag (ev_flags env) 10" "vflag f' 14 = vflag (ev_flags env) 14"
    by (intro assms; simp)+
  have locks: "eval_cltv ?e = eval_cltv env" "eval_csv ?e = eval_csv env"
    unfolding eval_cltv_def eval_csv_def num sel fl by (rule refl)+
  have pr: "eval_pick_roll ?e = eval_pick_roll env" unfolding eval_pick_roll_def num by (rule refl)
  have st: "eval_stack_op ?e = eval_stack_op env" "eval_unary ?e = eval_unary env" "eval_binary ?e = eval_binary env"
    "eval_within ?e = eval_within env" "eval_hash ?e = eval_hash env"
    unfolding eval_stack_op_def eval_unary_def eval_binary_def eval_within_def eval_hash_def pr num sel by (rule refl)+
  have sigs: "eval_checksig ?e = eval_checksig env" "eval_checksigadd ?e = eval_checksigadd env"
    unfolding eval_checksig_def eval_checksigadd_def num enc ds sel by (rule refl)+
  have mf: "multisig_finish ?e = multisig_finish env" unfolding multisig_finish_def sel fl by (rule refl)
  have ms: "eval_multisig ?e = eval_multisig env" unfolding eval_multisig_def num ml mf ds by (rule refl)
  have op: "eval_op ?e = eval_op env" unfolding eval_op_def eval_control_def locks st sigs ms sel fl by (rule refl)
  show ?thesis unfolding eval_step_def min op by (rule refl)
qed

lemma eval_loop_flags:
  assumes "\<And>k. k \<noteq> 8 \<Longrightarrow> vflag f' k = vflag (ev_flags env) k"
  shows "eval_loop (env\<lparr>ev_flags := f'\<rparr>) pc s = eval_loop env pc s"
proof (induction pc arbitrary: s rule: length_induct)
  case (1 pc)
  show ?case
  proof (cases "GetOp pc")
    case None
    then show ?thesis by (simp add: eval_loop.simps)
  next
    case (Some r)
    obtain opcode vch pc' where r: "r = (opcode, vch, pc')" by (cases r)
    with Some have op: "GetOp pc = Some (opcode, vch, pc')" by simp
    have "eval_loop (env\<lparr>ev_flags := f'\<rparr>) pc' s' = eval_loop env pc' s'" for s'
      using 1 GetOp_shorter [OF op] by simp
    moreover have "eval_step (env\<lparr>ev_flags := f'\<rparr>) opcode vch pc' s = eval_step env opcode vch pc' s"
      using assms by (rule eval_step_flags)
    ultimately show ?thesis unfolding eval_loop_op [OF op]
      by (cases "eval_step env opcode vch pc' s") simp_all
  qed
qed

lemma eval_at_flags:
  assumes "\<And>k. k \<noteq> 8 \<Longrightarrow> vflag f' k = vflag (ev_flags env) k"
  shows "eval_at v (env\<lparr>ev_flags := f'\<rparr>) script stack = eval_at v env script stack"
proof -
  have "eval_loop (env\<lparr>ev_sigversion := v, ev_flags := f'\<rparr>) = eval_loop (env\<lparr>ev_sigversion := v\<rparr>)"
    using eval_loop_flags [of f' "env\<lparr>ev_sigversion := v\<rparr>"] assms by (simp add: fun_eq_iff)
  moreover have "env\<lparr>ev_flags := f', ev_sigversion := v\<rparr> = env\<lparr>ev_sigversion := v, ev_flags := f'\<rparr>" by simp
  ultimately show ?thesis by (simp only: eval_at_def EvalScript_def)
qed

lemma vflag_or_bit: "j \<noteq> k \<Longrightarrow> vflag (f OR push_bit j 1) k = vflag f k"
proof -
  assume "j \<noteq> k"
  then have "(f OR push_bit j 1) AND push_bit k 1 = f AND push_bit k (1 :: u32)" by (intro bit_word_eqI) (auto simp: bit_simps)
  then show ?thesis by (simp add: vflag_def)
qed

text \<open>The clean-stack flag has no effect (error behaviour): adding \<open>SCRIPT_VERIFY_CLEANSTACK\<close> to the flags never changes the
  result of \<open>VerifyScript\<close>, so a spend that leaves several elements on the stack is accepted under the standard flags.\<close>

lemma cleanstack_ignored:
  "VerifyScript (env\<lparr>ev_flags := ev_flags env OR push_bit 8 1\<rparr>) ops tapscript script_sig script_pub
    = VerifyScript env ops tapscript script_sig script_pub"
proof -
  let ?f = "ev_flags env OR push_bit 8 1"
  have fl: "vflag ?f k = vflag (ev_flags env) k" if "k \<noteq> 8" for k
    using that by (intro vflag_or_bit) simp
  have at: "eval_at v (env\<lparr>ev_flags := ?f\<rparr>) = eval_at v env" for v
    using eval_at_flags [of ?f env] fl by (simp add: fun_eq_iff)
  have at': "eval_at v (env\<lparr>ev_flags := ?f, ev_checker := c\<rparr>) = eval_at v (env\<lparr>ev_checker := c\<rparr>)" for v c
  proof -
    have swap: "env\<lparr>ev_flags := ?f, ev_checker := c\<rparr> = env\<lparr>ev_checker := c, ev_flags := ?f\<rparr>" by simp
    have "vflag ?f k = vflag (ev_flags (env\<lparr>ev_checker := c\<rparr>)) k" if "k \<noteq> 8" for k using fl [OF that] by simp
    then show ?thesis unfolding swap by (intro ext eval_at_flags)
  qed
  have sel: "ev_flags (env\<lparr>ev_flags := ?f\<rparr>) = ?f" "ev_checker (env\<lparr>ev_flags := ?f\<rparr>) = ev_checker env" by simp_all
  have "vflag ?f 0 = vflag (ev_flags env) 0" "vflag ?f 5 = vflag (ev_flags env) 5" "vflag ?f 15 = vflag (ev_flags env) 15"
    by (intro fl; simp)+
  then show ?thesis unfolding VerifyScript_def VerifyTaproot_def VerifyScriptPath_def at at' sel by simp
qed

section \<open>What a signature commits to\<close>

text \<open>
  The specification of the legacy signature hash: the message is the serialization of a copy of the transaction in which
  the scripts of the other inputs are blank and the signed input carries the script code, and inputs and outputs that the
  hash type leaves open are removed or reset.
\<close>

definition signed_input :: "CTransaction \<Rightarrow> bytes \<Rightarrow> nat \<Rightarrow> int \<Rightarrow> nat \<Rightarrow> CTxIn" where
  "signed_input tx code nIn nHashType i =
     (if i = nIn then (vin tx ! i)\<lparr>scriptSig := code\<rparr>
      else (vin tx ! i)\<lparr>scriptSig := [],
        nSequence := if fHashSingle nHashType \<or> fHashNone nHashType then 0 else nSequence (vin tx ! i)\<rparr>)"

definition signed_copy :: "CTransaction \<Rightarrow> bytes \<Rightarrow> nat \<Rightarrow> int \<Rightarrow> CTransaction" where
  "signed_copy tx code nIn nHashType =
     tx\<lparr>vin := (if fAnyoneCanPay nHashType then [signed_input tx code nIn nHashType nIn]
                else map (signed_input tx code nIn nHashType) [0..<length (vin tx)]),
        vout := (if fHashNone nHashType then []
                 else if fHashSingle nHashType then replicate nIn CTxOut_SetNull @ [vout tx ! nIn]
                 else vout tx)\<rparr>"

definition separators_removed :: "bytes \<Rightarrow> bytes" where
  "separators_removed script = code_segments script script"

function parses :: "bytes \<Rightarrow> bool" where
  "parses it \<longleftrightarrow> it = [] \<or> (case GetOp it of None \<Rightarrow> False | Some (opcode, data, it') \<Rightarrow> parses it')"
  by auto
termination
  by (relation "measure length") (auto dest: GetOp_shorter)

declare parses.simps [simp del]

lemma code_segments_length:
  "parses it \<Longrightarrow> length it \<le> length itBegin \<Longrightarrow> length (code_segments itBegin it) + count_separators it = length itBegin"
proof (induction it arbitrary: itBegin rule: length_induct)
  case (1 it)
  show ?case
  proof (cases "it = []")
    case True
    then have "GetOp it = None" "GetOp2 it = (False, OP_INVALIDOPCODE, [], [])" by (simp_all add: GetOp_def GetOp2_def)
    then show ?thesis by (simp add: code_segments.simps count_separators.simps)
  next
    case False
    with "1.prems"(1) obtain opcode data it' where op: "GetOp it = Some (opcode, data, it')" "parses it'"
      by (subst (asm) parses.simps) (auto split: option.splits)
    note less = GetOp_shorter [OF op(1)]
    have "length (code_segments b it') + count_separators it' = length b" if "length it' \<le> length b" for b
      using 1 less op(2) that by blast
    note this [of itBegin] this [of it']
    then show ?thesis using less "1.prems"(2) by (subst code_segments.simps, subst count_separators.simps) (auto simp: op(1))
  qed
qed

lemma SerializeScriptCode_blob:
  "parses script \<Longrightarrow> SerializeScriptCode script = put_blob (separators_removed script)"
proof -
  assume "parses script"
  then have "length script - count_separators script = length (separators_removed script)" 
    using code_segments_length [of script script] by (simp add: separators_removed_def)
  then show ?thesis by (simp add: SerializeScriptCode_def put_blob_def separators_removed_def)
qed

lemma SerializeInput_ref:
  assumes "parses script" "nIn < length (vin tx)"
  shows "SerializeInput tx script nIn ht i =
    put_txin (signed_input tx (separators_removed script) nIn ht (if fAnyoneCanPay ht then nIn else i))"
  using assms(1)
  by (simp add: SerializeInput_def signed_input_def put_txin_def SerializeScriptCode_blob put_int32_def ser_writedata32_def Let_def)

lemma SerializeOutputs_ref:
  assumes "fHashSingle ht"
  shows "map (SerializeOutput tx nIn ht) [0..<nIn + 1] = map put_txout (replicate nIn CTxOut_SetNull @ [vout tx ! nIn])"
  using assms by (intro nth_equalityI) (auto simp: SerializeOutput_def nth_append less_Suc_eq simp del: upt_Suc)

lemma SerializeOutputs_all: "\<not> fHashSingle ht \<Longrightarrow> map (SerializeOutput tx nIn ht) [0..<length (vout tx)] = map put_txout (vout tx)"
  by (intro nth_equalityI) (simp_all add: SerializeOutput_def)

lemma SerializeSigTx_ref:
  assumes "parses script" "nIn < length (vin tx)"
  shows "SerializeSigTx tx script nIn ht = put_tx (signed_copy tx (separators_removed script) nIn ht)"
proof -
  have ins: "concat (map (SerializeInput tx script nIn ht) [0..<if fAnyoneCanPay ht then 1 else length (vin tx)])
     = concat (map put_txin (vin (signed_copy tx (separators_removed script) nIn ht)))"
  proof -
    have "SerializeInput tx script nIn ht = (\<lambda>i. put_txin (signed_input tx (separators_removed script) nIn ht
      (if fAnyoneCanPay ht then nIn else i)))" by (simp add: fun_eq_iff SerializeInput_ref [OF assms])
    then show ?thesis by (simp add: signed_copy_def comp_def)
  qed
  have outs: "concat (map (SerializeOutput tx nIn ht)
       [0..<if fHashNone ht then 0 else if fHashSingle ht then nIn + 1 else length (vout tx)])
     = concat (map put_txout (vout (signed_copy tx (separators_removed script) nIn ht)))"
  proof -
    consider "fHashNone ht" | "\<not> fHashNone ht" "fHashSingle ht" | "\<not> fHashNone ht" "\<not> fHashSingle ht" by blast
    then show ?thesis
    proof cases
      case 2
      then show ?thesis using SerializeOutputs_ref [OF 2(2), of tx nIn] by (simp add: signed_copy_def del: upt_Suc)
    qed (simp_all add: signed_copy_def SerializeOutputs_all)
  qed
  show ?thesis
    unfolding SerializeSigTx_def put_tx_def put_vector_def Let_def outs ins
    by (simp add: signed_copy_def)
qed



text \<open>C6. Legacy signature hash (equivalence): for every hash type, the optimised one-pass serializer writes exactly the
  serialization of the transaction copy that the specification prescribes, followed by the four bytes of the hash type; an
  input index out of range, and \<open>SIGHASH_SINGLE\<close> without a matching output, give the constant one.\<close>

theorem SignatureHash_reference:
  assumes "parses script" "sigversion \<noteq> SIGVERSION_WITNESS_V0"
  shows "SignatureHash Hash script tx nIn ht amount sigversion cache =
    (if nIn \<ge> length (vin tx) \<or> (fHashSingle ht \<and> nIn \<ge> length (vout tx)) then 1
     else Hash (put_tx (signed_copy tx (separators_removed script) nIn ht) @ put_int32 ht))"
  using assms by (auto simp: SignatureHash_def SerializeSigTx_ref)


section \<open>Spending standard outputs\<close>

lemma ToByteVector160_of: "length b = 20 \<Longrightarrow> ToByteVector160 (uint160_of b) = b"
  using le_bytes_le_val [of b] le_val_less [of b] by (simp add: ToByteVector160_def uint160_of_def unat_of_nat)

definition plain_ops :: curve_ops where
  "plain_ops = \<lparr>c_Verify = (\<lambda>pk h sig. sig \<noteq> []), c_VerifySchnorr = (\<lambda>pk h sig. False), c_CheckTapTweak = (\<lambda>q p r b. False),
     c_Hash = (\<lambda>b. of_nat (length b)), c_sha256 = (\<lambda>b. replicate 32 3)\<rparr>"

definition demo_sig_tx :: CTransaction where
  "demo_sig_tx = \<lparr>tx_nVersion = 1,
     vin = [\<lparr>prevout = \<lparr>op_hash = 7, op_n = 0\<rparr>, scriptSig = [], nSequence = 1\<rparr>,
            \<lparr>prevout = \<lparr>op_hash = 8, op_n = 2\<rparr>, scriptSig = [OP_1], nSequence = 2\<rparr>],
     vout = [\<lparr>nValue = 5, scriptPubKey = [OP_1], nRounds = - 10\<rparr>], nLockTime = 99\<rparr>"

text \<open>C7. Pay to public key hash (functional): a spend that pushes a signature and a key runs the program of the address and
  succeeds exactly when the key hashes to the address, both encodings pass the flags' rules and the checker accepts the
  signature for the script code without the signature itself; every failure has its error code.\<close>

theorem keyhash_spend:
  assumes "2 \<le> length sig" "length sig \<le> 75" "2 \<le> length pk" "length pk \<le> 75"
  shows "VerifyScript env ops tapscript (script_push_data sig @ script_push_data pk) (GetScriptForDestination (CKeyID h)) =
    (if h_hash160 (ev_hashes env) pk \<noteq> ToByteVector160 h then Inl SCRIPT_ERR_EQUALVERIFY
     else case check_encodings (env\<lparr>ev_sigversion := SIGVERSION_BASE\<rparr>) sig pk of
       Some err \<Rightarrow> Inl err
     | None \<Rightarrow>
         if chk_CheckSig (ev_checker env) sig pk
              (drop_signature (env\<lparr>ev_sigversion := SIGVERSION_BASE\<rparr>) sig (GetScriptForDestination (CKeyID h))) SIGVERSION_BASE
         then Inr () else Inl SCRIPT_ERR_EVAL_FALSE)"
proof -
  have spk: "length (GetScriptForDestination (CKeyID h)) = 25" "\<not> IsPayToScriptHash (GetScriptForDestination (CKeyID h))"
    by (simp_all add: length_push_data IsPayToScriptHash_def)
  show ?thesis
    unfolding VerifyScript_def
    by (simp add: spk push_only_pair [OF assms] eval_keyhash [OF assms] eval_keyhash_program stack_result_bool
      split: option.split del: GetScriptForDestination.simps)
qed

theorem keyhash_spend_witness:
  "VerifyScript (plain_env 0) plain_ops (\<lambda>_. None) (script_push_data [9, 9] @ script_push_data (replicate 33 2))
     (GetScriptForDestination (CKeyID (uint160_of (replicate 20 33)))) = Inr ()"
proof -
  have "h_hash160 (ev_hashes (plain_env 0)) (replicate 33 2) = ToByteVector160 (uint160_of (replicate 20 33))"
    by (simp add: ToByteVector160_of plain_env_def plain_hashes_def)
  moreover have "check_encodings ((plain_env 0)\<lparr>ev_sigversion := SIGVERSION_BASE\<rparr>) [9, 9] (replicate 33 2) = None"
    by (simp add: check_encodings_def CheckSignatureEncoding_def CheckPubKeyEncoding_def plain_env_def vflag_def)
  moreover have "chk_CheckSig (ev_checker (plain_env 0)) [9, 9] pk code v" for pk code v
    by (simp add: plain_env_def plain_checker_def)
  ultimately show ?thesis by (subst keyhash_spend) (simp_all del: GetScriptForDestination.simps)
qed

text \<open>C8. Pay to script hash (functional): with the P2SH flag, a push-only spend whose last push is the redeem script succeeds
  exactly when that script hashes to the address and its own evaluation on the remaining pushes leaves a true value.\<close>

theorem scripthash_spend:
  assumes "vflag (ev_flags env) SCRIPT_VERIFY_P2SH" "IsPushOnly script_sig" "length st \<le> 998"
    and "eval_at SIGVERSION_BASE env script_sig [] = Inr (redeem # st)"
  shows "VerifyScript env ops tapscript script_sig (GetScriptForDestination (CScriptID h)) =
    (if h_hash160 (ev_hashes env) redeem \<noteq> ToByteVector160 h then Inl SCRIPT_ERR_EVAL_FALSE
     else sum_bind (eval_at SIGVERSION_BASE env redeem st) (\<lambda>st'. sum_bind (stack_result st') (\<lambda>_. Inr ())))"
proof -
  let ?spk = "GetScriptForDestination (CScriptID h)"
  have spk: "length ?spk = 23" "IsPayToScriptHash ?spk"
    by (simp_all add: IsPayToScriptHash_def push_data_short nth_append)
  have "eval_loop e ?spk (start_state (redeem # st) c) =
    Inr \<lparr>stk = vch_of_bool (h_hash160 (ev_hashes e) redeem = ToByteVector160 h) # st, altstack = [], vfExec = [],
         nOpCount = 2, pbegincodehash = c\<rparr>" for e c
    using assms(3)
    by (simp add: eval_loop_code op_simps on_stack_def eval_hash_def eval_loop_push eval_equal_def Let_def)
  then have run: "eval_at SIGVERSION_BASE env ?spk (redeem # st) =
      Inr (vch_of_bool (h_hash160 (ev_hashes env) redeem = ToByteVector160 h) # st)"
    by (simp add: eval_at_def EvalScript_def length_push_data MAX_SCRIPT_SIZE_def)
  show ?thesis
    unfolding VerifyScript_def by (simp add: spk assms(1,2,4) run stack_result_bool del: GetScriptForDestination.simps)
qed


lemma demo_redeem_run:
  "eval_at SIGVERSION_BASE (plain_env 1) [2, OP_1, OP_EQUAL] [] = Inr [[OP_1, OP_EQUAL]]" 
  "eval_at SIGVERSION_BASE (plain_env 1) [OP_1, OP_EQUAL] [] = Inl SCRIPT_ERR_INVALID_STACK_OPERATION"
  "IsPushOnly [2, OP_1, OP_EQUAL]"
  by code_simp+

theorem scripthash_spend_witness:
  "VerifyScript (plain_env 1) plain_ops (\<lambda>_. None) [2, OP_1, OP_EQUAL]
     (GetScriptForDestination (CScriptID (uint160_of (replicate 20 2)))) = Inl SCRIPT_ERR_INVALID_STACK_OPERATION"
proof -
  have "h_hash160 (ev_hashes (plain_env 1)) [OP_1, OP_EQUAL] = ToByteVector160 (uint160_of (replicate 20 2))"
    by (simp add: ToByteVector160_of plain_env_def plain_hashes_def numeral_2_eq_2)
  moreover have "vflag (ev_flags (plain_env 1)) SCRIPT_VERIFY_P2SH" by code_simp
  ultimately show ?thesis
    using scripthash_spend [OF _ demo_redeem_run(3) _ demo_redeem_run(1), of plain_ops "\<lambda>_. None" "uint160_of (replicate 20 2)"]
    by (simp add: demo_redeem_run(2) del: GetScriptForDestination.simps)
qed

lemma p2sh_copy_nonempty:
  assumes "IsPayToScriptHash script_pub" "eval_at SIGVERSION_BASE env script_pub stackCopy = Inr stack"
  shows "stackCopy \<noteq> []"
proof
  assume empty: "stackCopy = []"
  obtain r where "script_pub = OP_HASH160 # r" using assms(1) by (cases script_pub) (auto simp: IsPayToScriptHash_def)
  then show False using assms(2) empty
    by (auto simp: eval_at_def EvalScript_def eval_loop_code op_simps on_stack_def eval_hash_def split: if_splits)
qed

lemma demo_parses: "parses [OP_DUP, OP_CODESEPARATOR, OP_DUP]" "separators_removed [OP_DUP, OP_CODESEPARATOR, OP_DUP] = [OP_DUP, OP_DUP]"
  "parses [OP_DUP, OP_DUP]" "separators_removed [OP_DUP, OP_DUP] = [OP_DUP, OP_DUP]"
  by code_simp+

theorem SignatureHash_reference_witness:
  "SignatureHash (c_Hash plain_ops) [OP_DUP, OP_CODESEPARATOR, OP_DUP] demo_sig_tx 1 2 0 SIGVERSION_BASE None =
     c_Hash plain_ops (put_tx (signed_copy demo_sig_tx [OP_DUP, OP_DUP] 1 2) @ put_int32 2)"
  using SignatureHash_reference [OF demo_parses(1), of SIGVERSION_BASE "c_Hash plain_ops" demo_sig_tx 1 2 0 None]
  by (simp add: demo_parses(2) demo_sig_tx_def fHashSingle_def)




end
