(* ===== verification/HashStream.thy ===== *)
theory HashStream
  imports Serialize
begin

text \<open>
  The buffering shared by the four hash classes of src/crypto (CSHA256, CSHA1,
  CRIPEMD160, CSHA512). An object holds the chaining words s, a buffer buf of one
  block and the number of bytes seen; Write moves data through the buffer and calls
  the class's Transform on every full block. The block length and Transform are
  arguments here, and the classes instantiate them in the theory Crypto.

  The locale \<open>md_hash\<close> states what the buffering needs of the two and proves, once
  for all classes, that an object that has been fed a message in any number of pieces
  holds exactly the blocks of the whole message.
\<close>

record 'w hasher =
  hs_s :: "'w list"
  hs_buf :: bytes
  hs_bytes :: u64

definition memcpy_at :: "bytes \<Rightarrow> nat \<Rightarrow> bytes \<Rightarrow> bytes" where
  "memcpy_at buf off src = take off buf @ src @ drop (off + length src) buf"

function hasher_loop ::
  "nat \<Rightarrow> ('w list \<Rightarrow> bytes \<Rightarrow> 'w list) \<Rightarrow> 'w list \<Rightarrow> u64 \<Rightarrow> bytes \<Rightarrow> 'w list \<times> u64 \<times> bytes" where
  "hasher_loop B tf s n data =
    (if 0 < B \<and> B \<le> length data
     then hasher_loop B tf (tf s (take B data)) (n + of_nat B) (drop B data)
     else (s, n, data))"
  by pat_completeness auto
termination
  by (relation "measure (\<lambda>(B, tf, s, n, data). length data)") auto

declare hasher_loop.simps [simp del]

definition hasher_Write ::
  "nat \<Rightarrow> ('w list \<Rightarrow> bytes \<Rightarrow> 'w list) \<Rightarrow> bytes \<Rightarrow> 'w hasher \<Rightarrow> 'w hasher" where
  "hasher_Write B tf data h =
    (let bufsize = unat (hs_bytes h) mod B;
         (h, data, bufsize) =
           (if bufsize \<noteq> 0 \<and> B \<le> bufsize + length data
            then (let buf = memcpy_at (hs_buf h) bufsize (take (B - bufsize) data)
                  in (h\<lparr>hs_buf := buf, hs_bytes := hs_bytes h + of_nat (B - bufsize),
                        hs_s := tf (hs_s h) buf\<rparr>,
                      drop (B - bufsize) data, 0))
            else (h, data, bufsize));
         (s, n, data) = hasher_loop B tf (hs_s h) (hs_bytes h) data;
         h = h\<lparr>hs_s := s, hs_bytes := n\<rparr>
     in if data \<noteq> []
        then h\<lparr>hs_buf := memcpy_at (hs_buf h) bufsize data,
               hs_bytes := hs_bytes h + of_nat (length data)\<rparr>
        else h)"

subsection \<open>The blocks of a message\<close>

definition chunks :: "nat \<Rightarrow> 'a list \<Rightarrow> 'a list list" where
  "chunks B m = map (\<lambda>i. take B (drop (i * B) m)) [0..<length m div B]"

definition full_len :: "nat \<Rightarrow> nat \<Rightarrow> nat" where
  "full_len B n = n - n mod B"

lemma chunks_short: "length m < B \<Longrightarrow> chunks B m = []"
  by (simp add: chunks_def)

lemma chunks_step:
  assumes "0 < B" "length a = B"
  shows "chunks B (a @ b) = a # chunks B b"
proof -
  have len: "length (a @ b) div B = Suc (length b div B)"
    using assms by (simp add: div_add_self1)
  have "take B (drop (Suc i * B) (a @ b)) = take B (drop (i * B) b)" for i
    using assms by simp
  then show ?thesis
    using assms unfolding chunks_def len
    by (simp add: upt_conv_Cons map_Suc_upt [symmetric] del: upt_Suc map_map)
       (simp add: comp_def add.commute)
qed

lemma chunks_append:
  assumes "0 < B" "B dvd length a"
  shows "chunks B (a @ b) = chunks B a @ chunks B b"
proof -
  obtain k where "length a = B * k" using assms(2) by (auto elim: dvdE)
  then show ?thesis
  proof (induction k arbitrary: a)
    case 0 then show ?case using assms(1) by (simp add: chunks_short)
  next
    case (Suc k)
    have 1: "length (take B a) = B" "length (drop B a) = B * k" using Suc.prems by auto
    have "chunks B (a @ b) = take B a # chunks B (drop B a @ b)"
      using chunks_step [OF assms(1) 1(1), of "drop B a @ b"] by (metis append_assoc append_take_drop_id)
    moreover have "chunks B a = take B a # chunks B (drop B a)"
      using chunks_step [OF assms(1) 1(1), of "drop B a"] by simp
    ultimately show ?case using Suc.IH [OF 1(2)] by simp
  qed
qed

lemma chunks_lengths: "0 < B \<Longrightarrow> c \<in> set (chunks B m) \<Longrightarrow> length c = B"
proof -
  assume B: "0 < B" and "c \<in> set (chunks B m)"
  then obtain i where i: "i < length m div B" "c = take B (drop (i * B) m)"
    by (auto simp: chunks_def)
  have "Suc i * B \<le> length m div B * B" using i(1) by (intro mult_le_mono1) simp
  also have "\<dots> \<le> length m" by simp
  finally show "length c = B" using i(2) by simp
qed

lemma full_len_le [simp]: "full_len B n \<le> n"
  by (simp add: full_len_def)

lemma full_len_dvd: "B dvd full_len B n"
  unfolding full_len_def by (metis dvd_minus_mod)

lemma full_len_rest: "n - full_len B n = n mod B"
  by (simp add: full_len_def)

lemma full_len_add: "B dvd k \<Longrightarrow> full_len B (k + n) = k + full_len B n"
  by (auto simp: full_len_def elim!: dvdE)

lemma hasher_loop_chunks:
  assumes "0 < B"
  shows "hasher_loop B tf s n d =
    (foldl tf s (chunks B d), n + of_nat (full_len B (length d)), drop (full_len B (length d)) d)"
  using assms
proof (induction B tf s n d rule: hasher_loop.induct)
  case (1 B tf s n d)
  show ?case
  proof (cases "B \<le> length d")
    case True
    have ch: "chunks B d = take B d # chunks B (drop B d)"
      using chunks_step [of B "take B d" "drop B d"] 1(2) True by simp
    have fl: "full_len B (length d) = B + full_len B (length d - B)"
      using full_len_add [of B B "length d - B"] True by simp
    show ?thesis
      using 1 True by (subst hasher_loop.simps) (simp add: ch fl add.assoc add.commute)
  next
    case False
    then show ?thesis by (subst hasher_loop.simps) (simp add: chunks_short full_len_def)
  qed
qed

lemma take_memcpy_at:
  "off \<le> length buf \<Longrightarrow> take (off + length src) (memcpy_at buf off src) = take off buf @ src"
  by (simp add: memcpy_at_def)

lemma length_memcpy_at:
  "off + length src \<le> length buf \<Longrightarrow> length (memcpy_at buf off src) = length buf"
  by (simp add: memcpy_at_def)

subsection \<open>The contract of the buffering\<close>

text \<open>The object h has been fed exactly the bytes m since its chaining words were s0.\<close>

definition hs_rep :: "nat \<Rightarrow> ('w list \<Rightarrow> bytes \<Rightarrow> 'w list) \<Rightarrow> 'w list \<Rightarrow> 'w hasher \<Rightarrow> bytes \<Rightarrow> bool" where
  "hs_rep B tf s0 h m \<longleftrightarrow>
    hs_bytes h = of_nat (length m) \<and> length (hs_buf h) = B \<and>
    hs_s h = foldl tf s0 (chunks B m) \<and>
    take (length m mod B) (hs_buf h) = drop (full_len B (length m)) m"

locale md_hash =
  fixes B :: nat and tf :: "'w list \<Rightarrow> bytes \<Rightarrow> 'w list"
  assumes block_pos: "0 < B"
    and block_dvd: "B dvd 2 ^ 64"
begin

lemma bufsize_eq: "unat (of_nat n :: u64) mod B = n mod B"
  using mod_mod_cancel [OF block_dvd, of n] by (simp add: unat_of_nat)

lemma rep_tail:
  assumes "B dvd length body" "length t < B" "hs_bytes h = of_nat (length (body @ t))"
    "length (hs_buf h) = B" "hs_s h = foldl tf s0 (chunks B body)" "take (length t) (hs_buf h) = t"
  shows "hs_rep B tf s0 h (body @ t)"
proof -
  have "full_len B (length body + length t) = length body"
    using full_len_add [OF assms(1)] assms(2) by (simp add: full_len_def)
  moreover have "(length body + length t) mod B = length t"
    using assms(1,2) by (auto elim!: dvdE)
  ultimately show ?thesis
    using assms chunks_append [OF block_pos assms(1)] by (simp add: hs_rep_def chunks_short)
qed

lemma Write_zero:
  assumes "unat (hs_bytes h) mod B = 0"
  shows "hasher_Write B tf d h =
    h\<lparr>hs_s := foldl tf (hs_s h) (chunks B d), hs_bytes := hs_bytes h + of_nat (length d),
      hs_buf := (if drop (full_len B (length d)) d = [] then hs_buf h
                 else memcpy_at (hs_buf h) 0 (drop (full_len B (length d)) d))\<rparr>"
proof -
  have "of_nat (full_len B (length d)) + of_nat (length d - full_len B (length d)) =
      (of_nat (length d) :: u64)"
    by (simp flip: of_nat_add)
  moreover have "hs_bytes h + of_nat (full_len B (length d)) = hs_bytes h + of_nat (length d)"
    if "length d \<le> full_len B (length d)"
    using that full_len_le [of B "length d"] by (simp add: le_antisym)
  ultimately show ?thesis
    by (simp add: hasher_Write_def assms hasher_loop_chunks [OF block_pos] add.assoc)
qed

lemma Write_aligned:
  assumes "B dvd length body" "hs_bytes h = of_nat (length body)"
    "length (hs_buf h) = B" "hs_s h = foldl tf s0 (chunks B body)"
  shows "hs_rep B tf s0 (hasher_Write B tf d h) (body @ d)"
proof -
  let ?f = "full_len B (length d)"
  let ?body = "body @ take ?f d" and ?t = "drop ?f d"
  have bs: "unat (hs_bytes h) mod B = 0" using assms(1,2) by (simp add: bufsize_eq)
  note W = Write_zero [OF bs, of d]
  have d1: "B dvd length ?body" using assms(1) full_len_dvd [of B "length d"] by (simp add: min_absorb2)
  have tl: "length ?t < B" using block_pos by (simp add: full_len_rest)
  have "chunks B (take ?f d @ ?t) = chunks B (take ?f d)"
    using chunks_append [OF block_pos, of "take ?f d" ?t] full_len_dvd [of B "length d"] tl
    by (simp add: chunks_short min_absorb2 del: append_take_drop_id)
  then have ch: "chunks B ?body = chunks B body @ chunks B d"
    using chunks_append [OF block_pos assms(1)] by simp
  have "hs_rep B tf s0 (hasher_Write B tf d h) (?body @ ?t)"
  proof (rule rep_tail [OF d1 tl])
    show "length (hs_buf (hasher_Write B tf d h)) = B"
      using assms(3) tl by (simp add: W length_memcpy_at)
    show "take (length ?t) (hs_buf (hasher_Write B tf d h)) = ?t"
      using take_memcpy_at [of 0 "hs_buf h" ?t] by (simp add: W)
  qed (simp_all add: W assms(2,4) ch)
  then show ?thesis by simp
qed

lemma Write_rep:
  assumes "hs_rep B tf s0 h m"
  shows "hs_rep B tf s0 (hasher_Write B tf d h) (m @ d)"
proof -
  let ?f = "full_len B (length m)"
  let ?body = "take ?f m" and ?t = "drop ?f m" and ?bs = "length m mod B"
  have dv: "B dvd length ?body" using full_len_dvd [of B "length m"] by (simp add: min_absorb2)
  have lt: "length ?t = ?bs" by (simp add: full_len_rest)
  have bs: "unat (hs_bytes h) mod B = ?bs" using assms by (simp add: hs_rep_def bufsize_eq)
  have buf: "length (hs_buf h) = B" "take ?bs (hs_buf h) = ?t" using assms by (auto simp: hs_rep_def)
  have s: "hs_s h = foldl tf s0 (chunks B ?body)"
    using assms chunks_append [OF block_pos dv, of ?t] lt block_pos by (simp add: hs_rep_def chunks_short)
  have n: "hs_bytes h = of_nat (length m)" using assms by (simp add: hs_rep_def)
  consider (zero) "?bs = 0" | (short) "?bs \<noteq> 0" "?bs + length d < B" | (full) "?bs \<noteq> 0" "B \<le> ?bs + length d"
    by linarith
  then show ?thesis
  proof cases
    case zero
    then have "?t = []" using lt by simp
    then have "?body = m" by (metis append.right_neutral append_take_drop_id)
    then show ?thesis using Write_aligned [of ?body h s0 d] dv buf s n by simp
  next
    case short
    have W: "hasher_Write B tf d h = (if d \<noteq> [] then h\<lparr>hs_buf := memcpy_at (hs_buf h) ?bs d,
        hs_bytes := hs_bytes h + of_nat (length d)\<rparr> else h)"
      using short by (simp add: hasher_Write_def bs hasher_loop.simps)
    have "hs_rep B tf s0 (hasher_Write B tf d h) (?body @ (?t @ d))"
    proof (rule rep_tail [OF dv])
      have "length (?body @ ?t @ d) = length m + length d"
        by (metis append_assoc append_take_drop_id length_append)
      then show "hs_bytes (hasher_Write B tf d h) = of_nat (length (?body @ ?t @ d))"
        using n by (simp only: W) simp
      show "take (length (?t @ d)) (hs_buf (hasher_Write B tf d h)) = ?t @ d"
        using take_memcpy_at [of ?bs "hs_buf h" d] buf lt short by (simp add: W)
    qed (use short lt buf s in \<open>auto simp: W length_memcpy_at\<close>)
    then show ?thesis by (metis append_assoc append_take_drop_id)
  next
    case full
    let ?h = "h\<lparr>hs_buf := memcpy_at (hs_buf h) ?bs (take (B - ?bs) d),
      hs_bytes := hs_bytes h + of_nat (B - ?bs), hs_s := tf (hs_s h) (?t @ take (B - ?bs) d)\<rparr>"
    let ?b2 = "?body @ ?t @ take (B - ?bs) d"
    have blk: "length (?t @ take (B - ?bs) d) = B" using full lt block_pos
      by (simp add: min_absorb2 less_imp_le)
    have cp: "memcpy_at (hs_buf h) ?bs (take (B - ?bs) d) = ?t @ take (B - ?bs) d"
      using buf full blk lt by (simp add: memcpy_at_def)
    have b2: "length ?b2 = length m + (B - ?bs)" using full by (simp add: min_absorb2 trans_le_add1)
    have dv2: "B dvd length ?b2" using dv blk by (metis dvd_add_right_iff dvd_refl length_append)
    have nz: "unat (hs_bytes ?h) mod B = 0" using dv2 b2 n bufsize_eq [of "length ?b2"] by simp
    have W: "hasher_Write B tf d h = hasher_Write B tf (drop (B - ?bs) d) ?h"
      unfolding hasher_Write_def nz bs using full nz by (simp add: cp Let_def)
    have "hs_rep B tf s0 (hasher_Write B tf (drop (B - ?bs) d) ?h) (?b2 @ drop (B - ?bs) d)"
    proof (rule Write_aligned [OF dv2])
      show "hs_s ?h = foldl tf s0 (chunks B ?b2)"
        using chunks_append [OF block_pos dv] chunks_step [OF block_pos blk, of "[]"] s block_pos
        by (simp add: chunks_short)
    qed (use n b2 cp blk in \<open>auto\<close>)
    moreover have "?b2 @ drop (B - ?bs) d = m @ d" by (metis append_assoc append_take_drop_id)
    ultimately show ?thesis by (simp only: W)
  qed
qed

end

end
