(* ===== verification/Crypto.thy ===== *)
theory Crypto
  imports HashStream
begin

text \<open>
  The hash functions of src/crypto: SHA-256, SHA-512, SHA-1, RIPEMD-160, the HMACs over
  the two SHA-2 functions and the double hashes CHash256, CHash512 and CHash160 of hash.h.

  The Transform functions are unrolled in the source: the eight (five) working variables
  stay in place and every line names them rotated by one position, and the sixteen message
  words are updated in place. The definitions keep both: round i finds the variable of an
  argument position with \<open>rot_var\<close> and updates the list of variables at it. The lemmas compare
  this with the textbook form, in which the variables are shifted and the message schedule
  is a recurrence, and with the textbook padding of the whole message.
\<close>

unbundle bit_operations_syntax

text \<open>The index of the working variable in argument position q of round i, of n variables.\<close>

definition rot_var :: "nat \<Rightarrow> nat \<Rightarrow> nat \<Rightarrow> nat" where
  "rot_var n i q = (q + (n - i mod n)) mod n"

subsection \<open>SHA-256\<close>

definition sha256_Ch :: "u32 \<Rightarrow> u32 \<Rightarrow> u32 \<Rightarrow> u32" where
  "sha256_Ch x y z = z XOR (x AND (y XOR z))"

definition sha256_Maj :: "u32 \<Rightarrow> u32 \<Rightarrow> u32 \<Rightarrow> u32" where
  "sha256_Maj x y z = (x AND y) OR (z AND (x OR y))"

definition sha256_Sigma0 :: "u32 \<Rightarrow> u32" where
  "sha256_Sigma0 x = (drop_bit 2 x OR push_bit 30 x) XOR (drop_bit 13 x OR push_bit 19 x) XOR
    (drop_bit 22 x OR push_bit 10 x)"

definition sha256_Sigma1 :: "u32 \<Rightarrow> u32" where
  "sha256_Sigma1 x = (drop_bit 6 x OR push_bit 26 x) XOR (drop_bit 11 x OR push_bit 21 x) XOR
    (drop_bit 25 x OR push_bit 7 x)"

definition sha256_sigma0 :: "u32 \<Rightarrow> u32" where
  "sha256_sigma0 x = (drop_bit 7 x OR push_bit 25 x) XOR (drop_bit 18 x OR push_bit 14 x) XOR
    drop_bit 3 x"

definition sha256_sigma1 :: "u32 \<Rightarrow> u32" where
  "sha256_sigma1 x = (drop_bit 17 x OR push_bit 15 x) XOR (drop_bit 19 x OR push_bit 13 x) XOR
    drop_bit 10 x"

text \<open>A round returns the new values of its two reference parameters d and h.\<close>

definition sha256_Round ::
  "u32 \<Rightarrow> u32 \<Rightarrow> u32 \<Rightarrow> u32 \<Rightarrow> u32 \<Rightarrow> u32 \<Rightarrow> u32 \<Rightarrow> u32 \<Rightarrow> u32 \<Rightarrow> u32 \<Rightarrow> u32 \<times> u32" where
  "sha256_Round a b c d e f g h k w =
    (let t1 = h + sha256_Sigma1 e + sha256_Ch e f g + k + w;
         t2 = sha256_Sigma0 a + sha256_Maj a b c
     in (d + t1, t1 + t2))"

definition sha256_Initialize :: "u32 list" where
  "sha256_Initialize = [0x6a09e667, 0xbb67ae85, 0x3c6ef372, 0xa54ff53a,
    0x510e527f, 0x9b05688c, 0x1f83d9ab, 0x5be0cd19]"

text \<open>The round constants; the argument order of the lines repeats after eight of them.\<close>

definition sha256_K :: "u32 list" where
  "sha256_K = concat [
      [0x428a2f98, 0x71374491, 0xb5c0fbcf, 0xe9b5dba5, 0x3956c25b, 0x59f111f1, 0x923f82a4, 0xab1c5ed5],
      [0xd807aa98, 0x12835b01, 0x243185be, 0x550c7dc3, 0x72be5d74, 0x80deb1fe, 0x9bdc06a7, 0xc19bf174],
      [0xe49b69c1, 0xefbe4786, 0x0fc19dc6, 0x240ca1cc, 0x2de92c6f, 0x4a7484aa, 0x5cb0a9dc, 0x76f988da],
      [0x983e5152, 0xa831c66d, 0xb00327c8, 0xbf597fc7, 0xc6e00bf3, 0xd5a79147, 0x06ca6351, 0x14292967],
      [0x27b70a85, 0x2e1b2138, 0x4d2c6dfc, 0x53380d13, 0x650a7354, 0x766a0abb, 0x81c2c92e, 0x92722c85],
      [0xa2bfe8a1, 0xa81a664b, 0xc24b8b70, 0xc76c51a3, 0xd192e819, 0xd6990624, 0xf40e3585, 0x106aa070],
      [0x19a4c116, 0x1e376c08, 0x2748774c, 0x34b0bcb5, 0x391c0cb3, 0x4ed8aa4a, 0x5b9cca4f, 0x682e6ff3],
      [0x748f82ee, 0x78a5636f, 0x84c87814, 0x8cc70208, 0x90befffa, 0xa4506ceb, 0xbef9a3f7, 0xc67178f2]]"

text \<open>
  One line of an unrolled SHA-2 Transform: the message word of round i is read from the
  chunk in the first sixteen rounds and updated in place afterwards.
\<close>

definition sha2_line ::
  "('w \<Rightarrow> 'w \<Rightarrow> 'w \<Rightarrow> 'w \<Rightarrow> 'w \<Rightarrow> 'w \<Rightarrow> 'w \<Rightarrow> 'w \<Rightarrow> 'w \<Rightarrow> 'w \<Rightarrow> 'w \<times> 'w) \<Rightarrow> ('w \<Rightarrow> 'w) \<Rightarrow> ('w \<Rightarrow> 'w) \<Rightarrow>
    'w list \<Rightarrow> (nat \<Rightarrow> 'w) \<Rightarrow> 'w list \<times> 'w list \<Rightarrow> nat \<Rightarrow> 'w list \<times> ('w :: plus) list" where
  "sha2_line Round sigma0 sigma1 K rd st i =
    (let (v, w) = st; j = i mod 16;
         wi = (if i < 16 then rd i
               else w ! j + (sigma1 (w ! ((j + 14) mod 16)) + w ! ((j + 9) mod 16) +
                    sigma0 (w ! ((j + 1) mod 16))));
         x = rot_var 8 i;
         (d, h) = Round (v ! x 0) (v ! x 1) (v ! x 2) (v ! x 3) (v ! x 4) (v ! x 5) (v ! x 6) (v ! x 7)
                    (K ! i) wi
     in (v[x 3 := d, x 7 := h], w[j := wi]))"

definition sha256_Transform :: "u32 list \<Rightarrow> bytes \<Rightarrow> u32 list" where
  "sha256_Transform s chunk =
    (let (v, _) = foldl (sha2_line sha256_Round sha256_sigma0 sha256_sigma1 sha256_K
                          (\<lambda>i. ReadBE32 (take 4 (drop (4 * i) chunk)))) (s, replicate 16 0) [0..<64]
     in map2 (+) s v)"

type_synonym CSHA256 = "u32 hasher"

definition CSHA256_new :: CSHA256 where
  "CSHA256_new = \<lparr>hs_s = sha256_Initialize, hs_buf = replicate 64 0, hs_bytes = 0\<rparr>"

definition CSHA256_Write :: "bytes \<Rightarrow> CSHA256 \<Rightarrow> CSHA256" where
  "CSHA256_Write = hasher_Write 64 sha256_Transform"

definition CSHA256_FinalizeNoPadding :: "bool \<Rightarrow> CSHA256 \<Rightarrow> bytes option" where
  "CSHA256_FinalizeNoPadding enforce_compression h =
    (if enforce_compression \<and> hs_bytes h \<noteq> 64 then None
     else Some (concat (map WriteBE32 (hs_s h))))"

definition CSHA256_Finalize :: "CSHA256 \<Rightarrow> bytes" where
  "CSHA256_Finalize h =
    (let pad = 0x80 # replicate 63 0;
         sizedesc = WriteBE64 (push_bit 3 (hs_bytes h));
         h' = CSHA256_Write (take (1 + (119 - unat (hs_bytes h) mod 64) mod 64) pad) h;
         h'' = CSHA256_Write sizedesc h'
     in the (CSHA256_FinalizeNoPadding False h''))"

definition CSHA256_Reset :: "CSHA256 \<Rightarrow> CSHA256" where
  "CSHA256_Reset h = h\<lparr>hs_bytes := 0, hs_s := sha256_Initialize\<rparr>"

subsection \<open>SHA-512\<close>

definition sha512_Ch :: "u64 \<Rightarrow> u64 \<Rightarrow> u64 \<Rightarrow> u64" where
  "sha512_Ch x y z = z XOR (x AND (y XOR z))"

definition sha512_Maj :: "u64 \<Rightarrow> u64 \<Rightarrow> u64 \<Rightarrow> u64" where
  "sha512_Maj x y z = (x AND y) OR (z AND (x OR y))"

definition sha512_Sigma0 :: "u64 \<Rightarrow> u64" where
  "sha512_Sigma0 x = (drop_bit 28 x OR push_bit 36 x) XOR (drop_bit 34 x OR push_bit 30 x) XOR
    (drop_bit 39 x OR push_bit 25 x)"

definition sha512_Sigma1 :: "u64 \<Rightarrow> u64" where
  "sha512_Sigma1 x = (drop_bit 14 x OR push_bit 50 x) XOR (drop_bit 18 x OR push_bit 46 x) XOR
    (drop_bit 41 x OR push_bit 23 x)"

definition sha512_sigma0 :: "u64 \<Rightarrow> u64" where
  "sha512_sigma0 x = (drop_bit 1 x OR push_bit 63 x) XOR (drop_bit 8 x OR push_bit 56 x) XOR
    drop_bit 7 x"

definition sha512_sigma1 :: "u64 \<Rightarrow> u64" where
  "sha512_sigma1 x = (drop_bit 19 x OR push_bit 45 x) XOR (drop_bit 61 x OR push_bit 3 x) XOR
    drop_bit 6 x"

definition sha512_Round ::
  "u64 \<Rightarrow> u64 \<Rightarrow> u64 \<Rightarrow> u64 \<Rightarrow> u64 \<Rightarrow> u64 \<Rightarrow> u64 \<Rightarrow> u64 \<Rightarrow> u64 \<Rightarrow> u64 \<Rightarrow> u64 \<times> u64" where
  "sha512_Round a b c d e f g h k w =
    (let t1 = h + sha512_Sigma1 e + sha512_Ch e f g + k + w;
         t2 = sha512_Sigma0 a + sha512_Maj a b c
     in (d + t1, t1 + t2))"

definition sha512_Initialize :: "u64 list" where
  "sha512_Initialize = [0x6a09e667f3bcc908, 0xbb67ae8584caa73b, 0x3c6ef372fe94f82b,
    0xa54ff53a5f1d36f1, 0x510e527fade682d1, 0x9b05688c2b3e6c1f, 0x1f83d9abfb41bd6b,
    0x5be0cd19137e2179]"

definition sha512_K :: "u64 list" where
  "sha512_K = concat [
      [0x428a2f98d728ae22, 0x7137449123ef65cd, 0xb5c0fbcfec4d3b2f, 0xe9b5dba58189dbbc,
       0x3956c25bf348b538, 0x59f111f1b605d019, 0x923f82a4af194f9b, 0xab1c5ed5da6d8118],
      [0xd807aa98a3030242, 0x12835b0145706fbe, 0x243185be4ee4b28c, 0x550c7dc3d5ffb4e2,
       0x72be5d74f27b896f, 0x80deb1fe3b1696b1, 0x9bdc06a725c71235, 0xc19bf174cf692694],
      [0xe49b69c19ef14ad2, 0xefbe4786384f25e3, 0x0fc19dc68b8cd5b5, 0x240ca1cc77ac9c65,
       0x2de92c6f592b0275, 0x4a7484aa6ea6e483, 0x5cb0a9dcbd41fbd4, 0x76f988da831153b5],
      [0x983e5152ee66dfab, 0xa831c66d2db43210, 0xb00327c898fb213f, 0xbf597fc7beef0ee4,
       0xc6e00bf33da88fc2, 0xd5a79147930aa725, 0x06ca6351e003826f, 0x142929670a0e6e70],
      [0x27b70a8546d22ffc, 0x2e1b21385c26c926, 0x4d2c6dfc5ac42aed, 0x53380d139d95b3df,
       0x650a73548baf63de, 0x766a0abb3c77b2a8, 0x81c2c92e47edaee6, 0x92722c851482353b],
      [0xa2bfe8a14cf10364, 0xa81a664bbc423001, 0xc24b8b70d0f89791, 0xc76c51a30654be30,
       0xd192e819d6ef5218, 0xd69906245565a910, 0xf40e35855771202a, 0x106aa07032bbd1b8],
      [0x19a4c116b8d2d0c8, 0x1e376c085141ab53, 0x2748774cdf8eeb99, 0x34b0bcb5e19b48a8,
       0x391c0cb3c5c95a63, 0x4ed8aa4ae3418acb, 0x5b9cca4f7763e373, 0x682e6ff3d6b2b8a3],
      [0x748f82ee5defb2fc, 0x78a5636f43172f60, 0x84c87814a1f0ab72, 0x8cc702081a6439ec,
       0x90befffa23631e28, 0xa4506cebde82bde9, 0xbef9a3f7b2c67915, 0xc67178f2e372532b],
      [0xca273eceea26619c, 0xd186b8c721c0c207, 0xeada7dd6cde0eb1e, 0xf57d4f7fee6ed178,
       0x06f067aa72176fba, 0x0a637dc5a2c898a6, 0x113f9804bef90dae, 0x1b710b35131c471b],
      [0x28db77f523047d84, 0x32caab7b40c72493, 0x3c9ebe0a15c9bebc, 0x431d67c49c100d4c,
       0x4cc5d4becb3e42b6, 0x597f299cfc657e2a, 0x5fcb6fab3ad6faec, 0x6c44198c4a475817]]"

definition sha512_Transform :: "u64 list \<Rightarrow> bytes \<Rightarrow> u64 list" where
  "sha512_Transform s chunk =
    (let (v, _) = foldl (sha2_line sha512_Round sha512_sigma0 sha512_sigma1 sha512_K
                          (\<lambda>i. ReadBE64 (take 8 (drop (8 * i) chunk)))) (s, replicate 16 0) [0..<80]
     in map2 (+) s v)"

type_synonym CSHA512 = "u64 hasher"

definition CSHA512_new :: CSHA512 where
  "CSHA512_new = \<lparr>hs_s = sha512_Initialize, hs_buf = replicate 128 0, hs_bytes = 0\<rparr>"

definition CSHA512_Write :: "bytes \<Rightarrow> CSHA512 \<Rightarrow> CSHA512" where
  "CSHA512_Write = hasher_Write 128 sha512_Transform"

definition CSHA512_Finalize :: "CSHA512 \<Rightarrow> bytes" where
  "CSHA512_Finalize h =
    (let pad = 0x80 # replicate 127 0;
         sizedesc = replicate 8 0 @ WriteBE64 (push_bit 3 (hs_bytes h));
         h' = CSHA512_Write (take (1 + (239 - unat (hs_bytes h) mod 128) mod 128) pad) h;
         h'' = CSHA512_Write sizedesc h'
     in concat (map WriteBE64 (hs_s h'')))"

definition CSHA512_Reset :: "CSHA512 \<Rightarrow> CSHA512" where
  "CSHA512_Reset h = h\<lparr>hs_bytes := 0, hs_s := sha512_Initialize\<rparr>"

subsection \<open>SHA-1\<close>

text \<open>A round returns the new values of its reference parameters b and e.\<close>

definition sha1_Round :: "u32 \<Rightarrow> u32 \<Rightarrow> u32 \<Rightarrow> u32 \<Rightarrow> u32 \<Rightarrow> u32 \<Rightarrow> u32 \<Rightarrow> u32 \<Rightarrow> u32 \<times> u32" where
  "sha1_Round a b c d e f k w =
    (push_bit 30 b OR drop_bit 2 b, e + ((push_bit 5 a OR drop_bit 27 a) + f + k + w))"

definition sha1_f1 :: "u32 \<Rightarrow> u32 \<Rightarrow> u32 \<Rightarrow> u32" where
  "sha1_f1 b c d = d XOR (b AND (c XOR d))"

definition sha1_f2 :: "u32 \<Rightarrow> u32 \<Rightarrow> u32 \<Rightarrow> u32" where
  "sha1_f2 b c d = b XOR c XOR d"

definition sha1_f3 :: "u32 \<Rightarrow> u32 \<Rightarrow> u32 \<Rightarrow> u32" where
  "sha1_f3 b c d = (b AND c) OR (d AND (b OR c))"

definition sha1_left :: "u32 \<Rightarrow> u32" where
  "sha1_left x = push_bit 1 x OR drop_bit 31 x"

definition sha1_Initialize :: "u32 list" where
  "sha1_Initialize = [0x67452301, 0xEFCDAB89, 0x98BADCFE, 0x10325476, 0xC3D2E1F0]"

text \<open>The constants k1 to k4 and the function of each group of twenty rounds.\<close>

definition sha1_k :: "nat \<Rightarrow> u32" where
  "sha1_k i = (if i < 20 then 0x5A827999 else if i < 40 then 0x6ED9EBA1
    else if i < 60 then 0x8F1BBCDC else 0xCA62C1D6)"

definition sha1_f :: "nat \<Rightarrow> u32 \<Rightarrow> u32 \<Rightarrow> u32 \<Rightarrow> u32" where
  "sha1_f i = (if i < 20 then sha1_f1 else if i < 40 then sha1_f2
    else if i < 60 then sha1_f3 else sha1_f2)"

definition sha1_line :: "(nat \<Rightarrow> u32) \<Rightarrow> u32 list \<times> u32 list \<Rightarrow> nat \<Rightarrow> u32 list \<times> u32 list" where
  "sha1_line rd st i =
    (let (v, w) = st; j = i mod 16;
         wi = (if i < 16 then rd i
               else sha1_left (w ! j XOR w ! ((j + 13) mod 16) XOR w ! ((j + 8) mod 16) XOR
                      w ! ((j + 2) mod 16)));
         x = rot_var 5 i;
         (b, e) = sha1_Round (v ! x 0) (v ! x 1) (v ! x 2) (v ! x 3) (v ! x 4)
                    (sha1_f i (v ! x 1) (v ! x 2) (v ! x 3)) (sha1_k i) wi
     in (v[x 1 := b, x 4 := e], w[j := wi]))"

definition sha1_Transform :: "u32 list \<Rightarrow> bytes \<Rightarrow> u32 list" where
  "sha1_Transform s chunk =
    (let (v, _) = foldl (sha1_line (\<lambda>i. ReadBE32 (take 4 (drop (4 * i) chunk))))
                    (s, replicate 16 0) [0..<80]
     in map2 (+) s v)"

type_synonym CSHA1 = "u32 hasher"

definition CSHA1_new :: CSHA1 where
  "CSHA1_new = \<lparr>hs_s = sha1_Initialize, hs_buf = replicate 64 0, hs_bytes = 0\<rparr>"

definition CSHA1_Write :: "bytes \<Rightarrow> CSHA1 \<Rightarrow> CSHA1" where
  "CSHA1_Write = hasher_Write 64 sha1_Transform"

definition CSHA1_Finalize :: "CSHA1 \<Rightarrow> bytes" where
  "CSHA1_Finalize h =
    (let pad = 0x80 # replicate 63 0;
         sizedesc = WriteBE64 (push_bit 3 (hs_bytes h));
         h' = CSHA1_Write (take (1 + (119 - unat (hs_bytes h) mod 64) mod 64) pad) h;
         h'' = CSHA1_Write sizedesc h'
     in concat (map WriteBE32 (hs_s h'')))"

definition CSHA1_Reset :: "CSHA1 \<Rightarrow> CSHA1" where
  "CSHA1_Reset h = h\<lparr>hs_bytes := 0, hs_s := sha1_Initialize\<rparr>"

subsection \<open>RIPEMD-160\<close>

definition ripemd160_f1 :: "u32 \<Rightarrow> u32 \<Rightarrow> u32 \<Rightarrow> u32" where
  "ripemd160_f1 x y z = x XOR y XOR z"

definition ripemd160_f2 :: "u32 \<Rightarrow> u32 \<Rightarrow> u32 \<Rightarrow> u32" where
  "ripemd160_f2 x y z = (x AND y) OR (NOT x AND z)"

definition ripemd160_f3 :: "u32 \<Rightarrow> u32 \<Rightarrow> u32 \<Rightarrow> u32" where
  "ripemd160_f3 x y z = (x OR NOT y) XOR z"

definition ripemd160_f4 :: "u32 \<Rightarrow> u32 \<Rightarrow> u32 \<Rightarrow> u32" where
  "ripemd160_f4 x y z = (x AND z) OR (y AND NOT z)"

definition ripemd160_f5 :: "u32 \<Rightarrow> u32 \<Rightarrow> u32 \<Rightarrow> u32" where
  "ripemd160_f5 x y z = x XOR (y OR NOT z)"

definition ripemd160_Initialize :: "u32 list" where
  "ripemd160_Initialize = [0x67452301, 0xEFCDAB89, 0x98BADCFE, 0x10325476, 0xC3D2E1F0]"

definition ripemd160_rol :: "u32 \<Rightarrow> nat \<Rightarrow> u32" where
  "ripemd160_rol x i = push_bit i x OR drop_bit (32 - i) x"

text \<open>A round returns the new values of its reference parameters a and c.\<close>

definition ripemd160_Round ::
  "u32 \<Rightarrow> u32 \<Rightarrow> u32 \<Rightarrow> u32 \<Rightarrow> u32 \<Rightarrow> u32 \<Rightarrow> u32 \<Rightarrow> u32 \<Rightarrow> nat \<Rightarrow> u32 \<times> u32" where
  "ripemd160_Round a b c d e f x k r =
    (ripemd160_rol (a + f + x + k) r + e, ripemd160_rol c 10)"

text \<open>
  The functions R11 to R51 of the left line and R12 to R52 of the right line, by the number
  of their group of sixteen rounds.
\<close>

definition ripemd160_R1 ::
  "nat \<Rightarrow> u32 \<Rightarrow> u32 \<Rightarrow> u32 \<Rightarrow> u32 \<Rightarrow> u32 \<Rightarrow> u32 \<Rightarrow> nat \<Rightarrow> u32 \<times> u32" where
  "ripemd160_R1 g a b c d e x r =
    (if g = 0 then ripemd160_Round a b c d e (ripemd160_f1 b c d) x 0 r
     else if g = 1 then ripemd160_Round a b c d e (ripemd160_f2 b c d) x 0x5A827999 r
     else if g = 2 then ripemd160_Round a b c d e (ripemd160_f3 b c d) x 0x6ED9EBA1 r
     else if g = 3 then ripemd160_Round a b c d e (ripemd160_f4 b c d) x 0x8F1BBCDC r
     else ripemd160_Round a b c d e (ripemd160_f5 b c d) x 0xA953FD4E r)"

definition ripemd160_R2 ::
  "nat \<Rightarrow> u32 \<Rightarrow> u32 \<Rightarrow> u32 \<Rightarrow> u32 \<Rightarrow> u32 \<Rightarrow> u32 \<Rightarrow> nat \<Rightarrow> u32 \<times> u32" where
  "ripemd160_R2 g a b c d e x r =
    (if g = 0 then ripemd160_Round a b c d e (ripemd160_f5 b c d) x 0x50A28BE6 r
     else if g = 1 then ripemd160_Round a b c d e (ripemd160_f4 b c d) x 0x5C4DD124 r
     else if g = 2 then ripemd160_Round a b c d e (ripemd160_f3 b c d) x 0x6D703EF3 r
     else if g = 3 then ripemd160_Round a b c d e (ripemd160_f2 b c d) x 0x7A6D76E9 r
     else ripemd160_Round a b c d e (ripemd160_f1 b c d) x 0 r)"

text \<open>Message word and rotation of each round, of the left and of the right line.\<close>

definition ripemd160_left :: "(nat \<times> nat) list" where
  "ripemd160_left = [
      (0, 11), (1, 14), (2, 15), (3, 12), (4, 5), (5, 8), (6, 7), (7, 9),
      (8, 11), (9, 13), (10, 14), (11, 15), (12, 6), (13, 7), (14, 9), (15, 8),
      (7, 7), (4, 6), (13, 8), (1, 13), (10, 11), (6, 9), (15, 7), (3, 15),
      (12, 7), (0, 12), (9, 15), (5, 9), (2, 11), (14, 7), (11, 13), (8, 12),
      (3, 11), (10, 13), (14, 6), (4, 7), (9, 14), (15, 9), (8, 13), (1, 15),
      (2, 14), (7, 8), (0, 13), (6, 6), (13, 5), (11, 12), (5, 7), (12, 5),
      (1, 11), (9, 12), (11, 14), (10, 15), (0, 14), (8, 15), (12, 9), (4, 8),
      (13, 9), (3, 14), (7, 5), (15, 6), (14, 8), (5, 6), (6, 5), (2, 12),
      (4, 9), (0, 15), (5, 5), (9, 11), (7, 6), (12, 8), (2, 13), (10, 12),
      (14, 5), (1, 12), (3, 13), (8, 14), (11, 11), (6, 8), (15, 5), (13, 6)]"

definition ripemd160_right :: "(nat \<times> nat) list" where
  "ripemd160_right = [
      (5, 8), (14, 9), (7, 9), (0, 11), (9, 13), (2, 15), (11, 15), (4, 5),
      (13, 7), (6, 7), (15, 8), (8, 11), (1, 14), (10, 14), (3, 12), (12, 6),
      (6, 9), (11, 13), (3, 15), (7, 7), (0, 12), (13, 8), (5, 9), (10, 11),
      (14, 7), (15, 7), (8, 12), (12, 7), (4, 6), (9, 15), (1, 13), (2, 11),
      (15, 9), (5, 7), (1, 15), (3, 11), (7, 8), (14, 6), (6, 6), (9, 14),
      (11, 12), (8, 13), (12, 5), (2, 14), (10, 13), (0, 13), (4, 7), (13, 5),
      (8, 15), (6, 5), (4, 8), (1, 11), (3, 14), (11, 14), (15, 6), (0, 14),
      (5, 6), (12, 9), (2, 12), (13, 9), (9, 12), (7, 5), (10, 15), (14, 8),
      (12, 8), (15, 5), (10, 12), (4, 9), (1, 12), (5, 5), (8, 14), (7, 6),
      (6, 8), (2, 13), (13, 6), (14, 5), (0, 15), (3, 13), (9, 11), (11, 11)]"

definition ripemd160_line ::
  "(nat \<Rightarrow> u32 \<Rightarrow> u32 \<Rightarrow> u32 \<Rightarrow> u32 \<Rightarrow> u32 \<Rightarrow> u32 \<Rightarrow> nat \<Rightarrow> u32 \<times> u32) \<Rightarrow> (nat \<times> nat) list \<Rightarrow> (nat \<Rightarrow> u32) \<Rightarrow>
    u32 list \<Rightarrow> nat \<Rightarrow> u32 list" where
  "ripemd160_line R tab w v i =
    (let x = rot_var 5 i; (j, r) = tab ! i;
         (a, c) = R (i div 16) (v ! x 0) (v ! x 1) (v ! x 2) (v ! x 3) (v ! x 4) (w j) r
     in v[x 0 := a, x 2 := c])"

definition ripemd160_Transform :: "u32 list \<Rightarrow> bytes \<Rightarrow> u32 list" where
  "ripemd160_Transform s chunk =
    (let w = (\<lambda>j. ReadLE32 (take 4 (drop (4 * j) chunk)));
         v1 = foldl (ripemd160_line ripemd160_R1 ripemd160_left w) s [0..<80];
         v2 = foldl (ripemd160_line ripemd160_R2 ripemd160_right w) s [0..<80]
     in [s ! 1 + v1 ! 2 + v2 ! 3, s ! 2 + v1 ! 3 + v2 ! 4, s ! 3 + v1 ! 4 + v2 ! 0,
         s ! 4 + v1 ! 0 + v2 ! 1, s ! 0 + v1 ! 1 + v2 ! 2])"

type_synonym CRIPEMD160 = "u32 hasher"

definition CRIPEMD160_new :: CRIPEMD160 where
  "CRIPEMD160_new = \<lparr>hs_s = ripemd160_Initialize, hs_buf = replicate 64 0, hs_bytes = 0\<rparr>"

definition CRIPEMD160_Write :: "bytes \<Rightarrow> CRIPEMD160 \<Rightarrow> CRIPEMD160" where
  "CRIPEMD160_Write = hasher_Write 64 ripemd160_Transform"

definition CRIPEMD160_Finalize :: "CRIPEMD160 \<Rightarrow> bytes" where
  "CRIPEMD160_Finalize h =
    (let pad = 0x80 # replicate 63 0;
         sizedesc = WriteLE64 (push_bit 3 (hs_bytes h));
         h' = CRIPEMD160_Write (take (1 + (119 - unat (hs_bytes h) mod 64) mod 64) pad) h;
         h'' = CRIPEMD160_Write sizedesc h'
     in concat (map WriteLE32 (hs_s h'')))"

definition CRIPEMD160_Reset :: "CRIPEMD160 \<Rightarrow> CRIPEMD160" where
  "CRIPEMD160_Reset h = h\<lparr>hs_bytes := 0, hs_s := ripemd160_Initialize\<rparr>"

subsection \<open>HMAC\<close>

record 'h chmac =
  hm_outer :: 'h
  hm_inner :: 'h

text \<open>
  The constructors differ in the hash class only: the key block rkey has B bytes, and behind
  a hashed key the bytes from offset z on are cleared. The array is not initialized, its
  content before the constructor runs is the argument rkey.
\<close>

definition chmac_rkey :: "nat \<Rightarrow> nat \<Rightarrow> bytes \<Rightarrow> bytes \<Rightarrow> bytes \<Rightarrow> bytes" where
  "chmac_rkey B z rkey key hkey =
    (if length key \<le> B
     then memcpy_at (memcpy_at rkey 0 key) (length key) (replicate (B - length key) 0)
     else memcpy_at (memcpy_at rkey 0 hkey) z (replicate (B - z) 0))"

definition chmac_new ::
  "nat \<Rightarrow> nat \<Rightarrow> 'h \<Rightarrow> (bytes \<Rightarrow> 'h \<Rightarrow> 'h) \<Rightarrow> ('h \<Rightarrow> bytes) \<Rightarrow> bytes \<Rightarrow> bytes \<Rightarrow> 'h chmac" where
  "chmac_new B z new wr fin rkey key =
    (let rkey = chmac_rkey B z rkey key (fin (wr key new));
         rkey = map (\<lambda>b. b XOR 0x5c) rkey;
         outr = wr rkey new;
         rkey = map (\<lambda>b. b XOR (0x5c XOR 0x36)) rkey;
         innr = wr rkey new
     in \<lparr>hm_outer = outr, hm_inner = innr\<rparr>)"

definition chmac_Write :: "(bytes \<Rightarrow> 'h \<Rightarrow> 'h) \<Rightarrow> bytes \<Rightarrow> 'h chmac \<Rightarrow> 'h chmac" where
  "chmac_Write wr data h = h\<lparr>hm_inner := wr data (hm_inner h)\<rparr>"

definition chmac_Finalize :: "(bytes \<Rightarrow> 'h \<Rightarrow> 'h) \<Rightarrow> ('h \<Rightarrow> bytes) \<Rightarrow> 'h chmac \<Rightarrow> bytes" where
  "chmac_Finalize wr fin h = (let temp = fin (hm_inner h) in fin (wr temp (hm_outer h)))"

definition CHMAC_SHA256_new :: "bytes \<Rightarrow> bytes \<Rightarrow> CSHA256 chmac" where
  "CHMAC_SHA256_new = chmac_new 64 32 CSHA256_new CSHA256_Write CSHA256_Finalize"

definition CHMAC_SHA256_Write :: "bytes \<Rightarrow> CSHA256 chmac \<Rightarrow> CSHA256 chmac" where
  "CHMAC_SHA256_Write = chmac_Write CSHA256_Write"

definition CHMAC_SHA256_Finalize :: "CSHA256 chmac \<Rightarrow> bytes" where
  "CHMAC_SHA256_Finalize = chmac_Finalize CSHA256_Write CSHA256_Finalize"

definition CHMAC_SHA512_new :: "bytes \<Rightarrow> bytes \<Rightarrow> CSHA512 chmac" where
  "CHMAC_SHA512_new = chmac_new 128 64 CSHA512_new CSHA512_Write CSHA512_Finalize"

definition CHMAC_SHA512_Write :: "bytes \<Rightarrow> CSHA512 chmac \<Rightarrow> CSHA512 chmac" where
  "CHMAC_SHA512_Write = chmac_Write CSHA512_Write"

definition CHMAC_SHA512_Finalize :: "CSHA512 chmac \<Rightarrow> bytes" where
  "CHMAC_SHA512_Finalize = chmac_Finalize CSHA512_Write CSHA512_Finalize"

definition CHMAC_SHA1_new :: "bytes \<Rightarrow> bytes \<Rightarrow> CSHA1 chmac" where
  "CHMAC_SHA1_new = chmac_new 64 32 CSHA1_new CSHA1_Write CSHA1_Finalize"

definition CHMAC_SHA1_Write :: "bytes \<Rightarrow> CSHA1 chmac \<Rightarrow> CSHA1 chmac" where
  "CHMAC_SHA1_Write = chmac_Write CSHA1_Write"

definition CHMAC_SHA1_Finalize :: "CSHA1 chmac \<Rightarrow> bytes" where
  "CHMAC_SHA1_Finalize = chmac_Finalize CSHA1_Write CSHA1_Finalize"

subsection \<open>Double hashes\<close>

definition CHash256_Finalize :: "CSHA256 \<Rightarrow> bytes" where
  "CHash256_Finalize sha =
    (let buf = CSHA256_Finalize sha
     in CSHA256_Finalize (CSHA256_Write buf (CSHA256_Reset sha)))"

definition CHash512_Finalize :: "CSHA512 \<Rightarrow> bytes" where
  "CHash512_Finalize sha =
    (let buf = CSHA512_Finalize sha
     in CSHA512_Finalize (CSHA512_Write buf (CSHA512_Reset sha)))"

definition CHash160_Finalize :: "CSHA256 \<Rightarrow> bytes" where
  "CHash160_Finalize sha =
    (let buf = CSHA256_Finalize sha
     in CRIPEMD160_Finalize (CRIPEMD160_Write buf CRIPEMD160_new))"

subsection \<open>The textbook form of the compression functions\<close>

text \<open>The variables in the order in which round i names them.\<close>

definition rot_view :: "nat \<Rightarrow> nat \<Rightarrow> 'w list \<Rightarrow> 'w list" where
  "rot_view n i v = map (\<lambda>q. v ! rot_var n i q) [0..<n]"

lemma rotl_shifts:
  fixes x :: "'a :: len word"
  assumes "n < LENGTH('a)" "k = LENGTH('a) - n"
  shows "push_bit n x OR drop_bit k x = word_rotl n x"
proof (rule bit_word_eqI)
  fix i assume i: "i < LENGTH('a)"
  have "(i + (LENGTH('a) - n mod LENGTH('a))) mod LENGTH('a) = (if n \<le> i then i - n else i + LENGTH('a) - n)"
    using assms i by (auto simp: mod_if)
  then show "bit (push_bit n x OR drop_bit k x) i = bit (word_rotl n x) i"
    using assms i by (auto simp: bit_simps add.commute dest: bit_imp_le_length)
qed

lemma rotr_shifts:
  fixes x :: "'a :: len word"
  assumes "n < LENGTH('a)" "k = LENGTH('a) - n"
  shows "drop_bit n x OR push_bit k x = word_rotr n x"
proof (rule bit_word_eqI)
  fix i assume i: "i < LENGTH('a)"
  have "(i + n) mod LENGTH('a) = (if i + n < LENGTH('a) then i + n else i + n - LENGTH('a))"
    using assms i by (auto simp: mod_if)
  then show "bit (drop_bit n x OR push_bit k x) i = bit (word_rotr n x) i"
    using assms i by (auto simp: bit_simps add.commute dest: bit_imp_le_length)
qed

lemma rot_view_start: "length v = n \<Longrightarrow> rot_view n 0 v = v"
  by (intro nth_equalityI) (auto simp: rot_view_def rot_var_def)

lemma rot_view_end: "length v = n \<Longrightarrow> n dvd i \<Longrightarrow> rot_view n i v = v"
  by (intro nth_equalityI) (auto simp: rot_view_def rot_var_def)

text \<open>An index of the circular buffer of sixteen message words.\<close>

lemma ring16_index:
  assumes "16 \<le> i" "k \<le> 16"
  shows "(i mod 16 + k) mod 16 = (i - (16 - k)) mod (16 :: nat)"
proof -
  have "(i mod 16 + k) mod 16 = (i + k) mod 16" by (simp add: mod_simps)
  also have "\<dots> = (i + k - 16) mod 16" using assms by (intro le_mod_geq) simp
  also have "i + k - 16 = i - (16 - k)" using assms by simp
  finally show ?thesis .
qed

definition ring16 :: "(nat \<Rightarrow> 'w) \<Rightarrow> nat \<Rightarrow> 'w list \<Rightarrow> bool" where
  "ring16 W i w \<longleftrightarrow> length w = 16 \<and> (\<forall>t < i. i \<le> t + 16 \<longrightarrow> w ! (t mod 16) = W t)"

lemma ring16_read:
  assumes "ring16 W i w" "16 \<le> i" "k < 16"
  shows "w ! ((i mod 16 + k) mod 16) = W (i - (16 - k))"
  using assms ring16_index [of i k] unfolding ring16_def by auto

lemma ring16_step:
  assumes "ring16 W i w"
  shows "ring16 W (Suc i) (w[i mod 16 := W i])"
  unfolding ring16_def
proof (intro conjI allI impI)
  fix t assume t: "t < Suc i" "Suc i \<le> t + 16"
  show "w[i mod 16 := W i] ! (t mod 16) = W t"
  proof (cases "t = i")
    case False
    then have "t mod 16 \<noteq> i mod 16" using t
      by (metis Suc_leI add.commute le_neq_implies_less less_Suc_eq_le mod_eq_dvd_iff_nat nat_dvd_not_less
            less_diff_conv2 not_less zero_less_diff)
    then show ?thesis using False t assms by (simp add: ring16_def)
  qed (use assms in \<open>simp add: ring16_def\<close>)
qed (use assms in \<open>simp add: ring16_def\<close>)

fun sha2_W :: "('w \<Rightarrow> 'w) \<Rightarrow> ('w \<Rightarrow> 'w) \<Rightarrow> (nat \<Rightarrow> 'w) \<Rightarrow> nat \<Rightarrow> 'w :: plus" where
  "sha2_W s0 s1 M t =
    (if t < 16 then M t
     else sha2_W s0 s1 M (t - 16) + (s1 (sha2_W s0 s1 M (t - 2)) + sha2_W s0 s1 M (t - 7) +
          s0 (sha2_W s0 s1 M (t - 15))))"

declare sha2_W.simps [simp del]

definition sha2_shift ::
  "('w \<Rightarrow> 'w \<Rightarrow> 'w \<Rightarrow> 'w \<Rightarrow> 'w) \<Rightarrow> ('w \<Rightarrow> 'w \<Rightarrow> 'w \<Rightarrow> 'w) \<Rightarrow> (nat \<Rightarrow> 'w) \<Rightarrow> 'w list \<Rightarrow> nat \<Rightarrow> 'w :: plus list" where
  "sha2_shift T1 T2 kw v t =
    (let t1 = T1 (v ! 4) (v ! 5) (v ! 6) (v ! 7) + kw t; t2 = T2 (v ! 0) (v ! 1) (v ! 2)
     in [t1 + t2, v ! 0, v ! 1, v ! 2, v ! 3 + t1, v ! 4, v ! 5, v ! 6])"

lemma mod8_cases:
  fixes i :: nat
  obtains "i mod 8 = 0" | "i mod 8 = 1" | "i mod 8 = 2" | "i mod 8 = 3"
    | "i mod 8 = 4" | "i mod 8 = 5" | "i mod 8 = 6" | "i mod 8 = 7"
proof -
  have "i mod 8 < 8" by simp
  then show thesis using that by linarith
qed

lemma upt8: "[0..<8] = [0, 1, 2, 3, 4, 5, 6, 7 :: nat]"
  by (simp add: upt_rec)

lemma rot_view_8:
  assumes "length v = 8"
  shows "rot_view 8 (Suc i) (v[rot_var 8 i 3 := d, rot_var 8 i 7 := h]) =
    (let u = rot_view 8 i v in [h, u ! 0, u ! 1, u ! 2, d, u ! 4, u ! 5, u ! 6])"
proof -
  have S: "Suc i mod 8 = (if i mod 8 = 7 then 0 else i mod 8 + 1)" by (simp add: mod_Suc)
  show ?thesis
    by (rule mod8_cases [of i])
       (simp_all add: rot_view_def rot_var_def upt8 S assms nth_list_update Let_def flip: numeral_2_eq_2)
qed

lemma sha2_line_inv:
  assumes R: "\<And>a b c d e f g h k w. Round a b c d e f g h k w =
      (d + (T1 e f g h + (k + w)), T1 e f g h + (k + w) + T2 a b c)"
    and len: "length v = 8" and W: "ring16 (sha2_W s0 s1 rd) i w"
    and st: "sha2_line Round s0 s1 K rd (v, w) i = (v', w')"
  shows "length v' = 8" "ring16 (sha2_W s0 s1 rd) (Suc i) w'"
    "rot_view 8 (Suc i) v' =
      sha2_shift T1 T2 (\<lambda>t. K ! t + sha2_W s0 s1 rd t) (rot_view 8 i v) i"
proof -
  have wi: "(if i < 16 then rd i
      else w ! (i mod 16) + (s1 (w ! ((i mod 16 + 14) mod 16)) + w ! ((i mod 16 + 9) mod 16) +
                    s0 (w ! ((i mod 16 + 1) mod 16)))) = sha2_W s0 s1 rd i"
    using ring16_read [OF W, of 0] ring16_read [OF W, of 14] ring16_read [OF W, of 9]
      ring16_read [OF W, of 1]
    by (subst sha2_W.simps) simp
  have eqs: "w' = w[i mod 16 := sha2_W s0 s1 rd i]"
    "v' = (let x = rot_var 8 i; t1 = T1 (v ! x 4) (v ! x 5) (v ! x 6) (v ! x 7) + (K ! i + sha2_W s0 s1 rd i)
           in v[x 3 := v ! x 3 + t1, x 7 := t1 + T2 (v ! x 0) (v ! x 1) (v ! x 2)])"
    using st unfolding sha2_line_def Let_def prod.case wi R by simp_all
  show "length v' = 8" using len by (simp add: eqs Let_def)
  show "ring16 (sha2_W s0 s1 rd) (Suc i) w'" unfolding eqs by (rule ring16_step [OF W])
  show "rot_view 8 (Suc i) v' = sha2_shift T1 T2 (\<lambda>t. K ! t + sha2_W s0 s1 rd t) (rot_view 8 i v) i"
    unfolding eqs Let_def rot_view_8 [OF len] sha2_shift_def
    by (simp add: rot_view_def upt8)
qed

lemma sha2_lines:
  assumes R: "\<And>a b c d e f g h k w. Round a b c d e f g h k w =
      (d + (T1 e f g h + (k + w)), T1 e f g h + (k + w) + T2 a b c)"
    and len: "length v = 8" "length w = 16"
    and st: "foldl (sha2_line Round s0 s1 K rd) (v, w) [0..<n] = (v', w')"
  shows "length v' = 8 \<and> ring16 (sha2_W s0 s1 rd) n w' \<and>
    rot_view 8 n v' = foldl (sha2_shift T1 T2 (\<lambda>t. K ! t + sha2_W s0 s1 rd t)) v [0..<n]"
  using st
proof (induction n arbitrary: v' w')
  case 0
  then show ?case using len by (simp add: rot_view_start ring16_def)
next
  case (Suc n)
  obtain u x where ux: "foldl (sha2_line Round s0 s1 K rd) (v, w) [0..<n] = (u, x)" by fastforce
  have "sha2_line Round s0 s1 K rd (u, x) n = (v', w')" using Suc.prems ux by simp
  from sha2_line_inv [OF R _ _ this] Suc.IH [OF ux] show ?case by simp
qed

fun sha1_W :: "(nat \<Rightarrow> u32) \<Rightarrow> nat \<Rightarrow> u32" where
  "sha1_W M t =
    (if t < 16 then M t
     else word_rotl 1 (sha1_W M (t - 3) XOR sha1_W M (t - 8) XOR sha1_W M (t - 14) XOR sha1_W M (t - 16)))"

declare sha1_W.simps [simp del]

definition sha1_shift :: "(nat \<Rightarrow> u32) \<Rightarrow> u32 list \<Rightarrow> nat \<Rightarrow> u32 list" where
  "sha1_shift W v t =
    [word_rotl 5 (v ! 0) + sha1_f t (v ! 1) (v ! 2) (v ! 3) + v ! 4 + sha1_k t + W t,
     v ! 0, word_rotl 30 (v ! 1), v ! 2, v ! 3]"

definition ripemd160_shift ::
  "(nat \<Rightarrow> u32 \<Rightarrow> u32 \<Rightarrow> u32 \<Rightarrow> u32) \<Rightarrow> (nat \<Rightarrow> u32) \<Rightarrow> (nat \<times> nat) list \<Rightarrow> (nat \<Rightarrow> u32) \<Rightarrow> u32 list \<Rightarrow> nat \<Rightarrow> u32 list" where
  "ripemd160_shift F k tab w v t =
    [v ! 4,
     word_rotl (snd (tab ! t)) (v ! 0 + F (t div 16) (v ! 1) (v ! 2) (v ! 3) + w (fst (tab ! t)) + k (t div 16)) + v ! 4,
     v ! 1, word_rotl 10 (v ! 2), v ! 3]"

lemma sha1_left_rot: "sha1_left x = word_rotl 1 x"
  unfolding sha1_left_def by (rule rotl_shifts) simp_all

lemma sha1_Round_rot:
  "sha1_Round a b c d e f k w = (word_rotl 30 b, e + (word_rotl 5 a + f + k + w))"
proof -
  have "push_bit 30 b OR drop_bit 2 b = word_rotl 30 b" by (rule rotl_shifts) simp_all
  moreover have "push_bit 5 a OR drop_bit 27 a = word_rotl 5 a" by (rule rotl_shifts) simp_all
  ultimately show ?thesis by (simp add: sha1_Round_def)
qed

lemma ripemd160_Round_rot:
  assumes "r < 32"
  shows "ripemd160_Round a b c d e f x k r = (word_rotl r (a + f + x + k) + e, word_rotl 10 c)"
proof -
  have "ripemd160_rol y n = word_rotl n y" if "n < 32" for y n
    unfolding ripemd160_rol_def by (rule rotl_shifts) (use that in simp_all)
  then show ?thesis using assms by (simp add: ripemd160_Round_def)
qed

lemma mod5_cases:
  fixes i :: nat
  obtains "i mod 5 = 0" | "i mod 5 = 1" | "i mod 5 = 2" | "i mod 5 = 3" | "i mod 5 = 4"
proof -
  have "i mod 5 < 5" by simp
  then show thesis using that by linarith
qed

lemma upt5: "[0..<5] = [0, 1, 2, 3, 4 :: nat]"
  by (simp add: upt_rec)

lemma Suc_mod5: "Suc i mod 5 = (if i mod 5 = 4 then 0 else i mod 5 + 1)"
  by (simp add: mod_Suc)

lemma rot_view_5_sha1:
  assumes "length v = 5"
  shows "rot_view 5 (Suc i) (v[rot_var 5 i 1 := b, rot_var 5 i 4 := e]) =
      (let u = rot_view 5 i v in [e, u ! 0, b, u ! 2, u ! 3])"
  by (rule mod5_cases [of i])
     (simp_all add: rot_view_def rot_var_def upt5 Suc_mod5 [of i] assms nth_list_update Let_def
        flip: numeral_2_eq_2)

lemma rot_view_5_ripemd160:
  assumes "length v = 5"
  shows "rot_view 5 (Suc i) (v[rot_var 5 i 0 := a, rot_var 5 i 2 := c]) =
      (let u = rot_view 5 i v in [u ! 4, a, u ! 1, c, u ! 3])"
  by (rule mod5_cases [of i])
     (simp_all add: rot_view_def rot_var_def upt5 Suc_mod5 [of i] assms nth_list_update Let_def
        flip: numeral_2_eq_2)

lemma sha1_line_inv:
  assumes len: "length v = 5" and W: "ring16 (sha1_W rd) i w"
    and st: "sha1_line rd (v, w) i = (v', w')"
  shows "length v' = 5" "ring16 (sha1_W rd) (Suc i) w'"
    "rot_view 5 (Suc i) v' = sha1_shift (sha1_W rd) (rot_view 5 i v) i"
proof -
  have wi: "(if i < 16 then rd i
      else sha1_left (w ! (i mod 16) XOR w ! ((i mod 16 + 13) mod 16) XOR w ! ((i mod 16 + 8) mod 16) XOR
                      w ! ((i mod 16 + 2) mod 16))) = sha1_W rd i"
    using ring16_read [OF W, of 0] ring16_read [OF W, of 13] ring16_read [OF W, of 8]
      ring16_read [OF W, of 2]
    by (subst sha1_W.simps) (simp add: sha1_left_rot ac_simps)
  have eqs: "w' = w[i mod 16 := sha1_W rd i]"
    "v' = v[rot_var 5 i 1 := word_rotl 30 (v ! rot_var 5 i 1),
            rot_var 5 i 4 := sha1_shift (sha1_W rd) (rot_view 5 i v) i ! 0]"
    using st unfolding sha1_line_def Let_def prod.case wi sha1_Round_rot
    by (simp_all add: sha1_shift_def rot_view_def upt5 ac_simps)
  show "length v' = 5" using len by (simp add: eqs)
  show "ring16 (sha1_W rd) (Suc i) w'" unfolding eqs by (rule ring16_step [OF W])
  show "rot_view 5 (Suc i) v' = sha1_shift (sha1_W rd) (rot_view 5 i v) i"
    unfolding eqs rot_view_5_sha1 [OF len] by (simp add: sha1_shift_def rot_view_def upt5 Let_def)
qed

lemma sha1_lines:
  assumes "length v = 5" "length w = 16" "foldl (sha1_line rd) (v, w) [0..<n] = (v', w')"
  shows "length v' = 5 \<and> ring16 (sha1_W rd) n w' \<and>
    rot_view 5 n v' = foldl (sha1_shift (sha1_W rd)) v [0..<n]"
  using assms(3)
proof (induction n arbitrary: v' w')
  case 0 then show ?case using assms by (simp add: rot_view_start ring16_def)
next
  case (Suc n)
  obtain u x where ux: "foldl (sha1_line rd) (v, w) [0..<n] = (u, x)" by fastforce
  have "sha1_line rd (u, x) n = (v', w')" using Suc.prems ux by simp
  from sha1_line_inv [OF _ _ this] Suc.IH [OF ux] show ?case by simp
qed

lemma ripemd160_line_inv:
  assumes len: "length v = 5" and r: "snd (tab ! i) < 32"
    and R: "\<And>g a b c d e x r. R g a b c d e x r = ripemd160_Round a b c d e (F g b c d) x (k g) r"
  shows "length (ripemd160_line R tab w v i) = 5"
    "rot_view 5 (Suc i) (ripemd160_line R tab w v i) = ripemd160_shift F k tab w (rot_view 5 i v) i"
proof -
  obtain j n where t: "tab ! i = (j, n)" by fastforce
  have eq: "ripemd160_line R tab w v i =
    v[rot_var 5 i 0 := ripemd160_shift F k tab w (rot_view 5 i v) i ! 1,
      rot_var 5 i 2 := word_rotl 10 (v ! rot_var 5 i 2)]"
    using r t by (simp add: ripemd160_line_def R ripemd160_Round_rot ripemd160_shift_def rot_view_def upt5 Let_def)
  show "length (ripemd160_line R tab w v i) = 5" using len by (simp add: eq)
  show "rot_view 5 (Suc i) (ripemd160_line R tab w v i) = ripemd160_shift F k tab w (rot_view 5 i v) i"
    unfolding eq rot_view_5_ripemd160 [OF len] by (simp add: ripemd160_shift_def rot_view_def upt5 Let_def)
qed

lemma ripemd160_lines:
  assumes len: "length v = 5" and r: "\<forall>i < n. snd (tab ! i) < 32"
    and R: "\<And>g a b c d e x r. R g a b c d e x r = ripemd160_Round a b c d e (F g b c d) x (k g) r"
  shows "length (foldl (ripemd160_line R tab w) v [0..<n]) = 5 \<and>
    rot_view 5 n (foldl (ripemd160_line R tab w) v [0..<n]) = foldl (ripemd160_shift F k tab w) v [0..<n]"
  using r
proof (induction n)
  case 0 then show ?case using len by (simp add: rot_view_start)
next
  case (Suc n)
  then show ?case
    using ripemd160_line_inv [where R = R and F = F and k = k, OF _ _ R] by simp
qed

subsection \<open>The reference functions\<close>

definition fips_Ch :: "'a :: len word \<Rightarrow> 'a word \<Rightarrow> 'a word \<Rightarrow> 'a word" where
  "fips_Ch x y z = (x AND y) XOR (NOT x AND z)"

definition fips_Maj :: "'a :: len word \<Rightarrow> 'a word \<Rightarrow> 'a word \<Rightarrow> 'a word" where
  "fips_Maj x y z = (x AND y) XOR (x AND z) XOR (y AND z)"

definition sha256_compress :: "u32 list \<Rightarrow> bytes \<Rightarrow> u32 list" where
  "sha256_compress s chunk =
    (let M = (\<lambda>i. ReadBE32 (take 4 (drop (4 * i) chunk)));
         W = sha2_W (\<lambda>x. word_rotr 7 x XOR word_rotr 18 x XOR drop_bit 3 x)
                    (\<lambda>x. word_rotr 17 x XOR word_rotr 19 x XOR drop_bit 10 x) M;
         T1 = (\<lambda>e f g h. h + (word_rotr 6 e XOR word_rotr 11 e XOR word_rotr 25 e) + fips_Ch e f g);
         T2 = (\<lambda>a b c. (word_rotr 2 a XOR word_rotr 13 a XOR word_rotr 22 a) + fips_Maj a b c)
     in map2 (+) s (foldl (sha2_shift T1 T2 (\<lambda>t. sha256_K ! t + W t)) s [0..<64]))"

definition sha512_compress :: "u64 list \<Rightarrow> bytes \<Rightarrow> u64 list" where
  "sha512_compress s chunk =
    (let M = (\<lambda>i. ReadBE64 (take 8 (drop (8 * i) chunk)));
         W = sha2_W (\<lambda>x. word_rotr 1 x XOR word_rotr 8 x XOR drop_bit 7 x)
                    (\<lambda>x. word_rotr 19 x XOR word_rotr 61 x XOR drop_bit 6 x) M;
         T1 = (\<lambda>e f g h. h + (word_rotr 14 e XOR word_rotr 18 e XOR word_rotr 41 e) + fips_Ch e f g);
         T2 = (\<lambda>a b c. (word_rotr 28 a XOR word_rotr 34 a XOR word_rotr 39 a) + fips_Maj a b c)
     in map2 (+) s (foldl (sha2_shift T1 T2 (\<lambda>t. sha512_K ! t + W t)) s [0..<80]))"

definition sha1_compress :: "u32 list \<Rightarrow> bytes \<Rightarrow> u32 list" where
  "sha1_compress s chunk =
    map2 (+) s (foldl (sha1_shift (sha1_W (\<lambda>i. ReadBE32 (take 4 (drop (4 * i) chunk))))) s [0..<80])"

text \<open>The functions and constants of the five groups of rounds of each RIPEMD-160 line.\<close>

definition ripemd160_F :: "nat \<Rightarrow> u32 \<Rightarrow> u32 \<Rightarrow> u32 \<Rightarrow> u32" where
  "ripemd160_F g = (if g = 0 then ripemd160_f1 else if g = 1 then ripemd160_f2
    else if g = 2 then ripemd160_f3 else if g = 3 then ripemd160_f4 else ripemd160_f5)"

definition ripemd160_F' :: "nat \<Rightarrow> u32 \<Rightarrow> u32 \<Rightarrow> u32 \<Rightarrow> u32" where
  "ripemd160_F' g = (if g = 0 then ripemd160_f5 else if g = 1 then ripemd160_f4
    else if g = 2 then ripemd160_f3 else if g = 3 then ripemd160_f2 else ripemd160_f1)"

definition ripemd160_k :: "nat \<Rightarrow> u32" where
  "ripemd160_k g = (if g = 0 then 0 else if g = 1 then 0x5A827999
    else if g = 2 then 0x6ED9EBA1 else if g = 3 then 0x8F1BBCDC else 0xA953FD4E)"

definition ripemd160_k' :: "nat \<Rightarrow> u32" where
  "ripemd160_k' g = (if g = 0 then 0x50A28BE6 else if g = 1 then 0x5C4DD124
    else if g = 2 then 0x6D703EF3 else if g = 3 then 0x7A6D76E9 else 0)"

definition ripemd160_compress :: "u32 list \<Rightarrow> bytes \<Rightarrow> u32 list" where
  "ripemd160_compress s chunk =
    (let w = (\<lambda>j. ReadLE32 (take 4 (drop (4 * j) chunk)));
         u = foldl (ripemd160_shift ripemd160_F ripemd160_k ripemd160_left w) s [0..<80];
         v = foldl (ripemd160_shift ripemd160_F' ripemd160_k' ripemd160_right w) s [0..<80]
     in map (\<lambda>i. s ! ((i + 1) mod 5) + u ! ((i + 2) mod 5) + v ! ((i + 3) mod 5)) [0..<5])"

lemma fips_Ch_eq: "z XOR (x AND (y XOR z)) = fips_Ch x y z"
  by (rule bit_word_eqI) (auto simp: fips_Ch_def bit_simps)

lemma fips_Maj_eq: "(x AND y) OR (z AND (x OR y)) = fips_Maj x y z"
  by (rule bit_word_eqI) (auto simp: fips_Maj_def bit_simps)

lemma sha256_sigmas:
  "sha256_Sigma0 x = word_rotr 2 x XOR word_rotr 13 x XOR word_rotr 22 x"
  "sha256_Sigma1 x = word_rotr 6 x XOR word_rotr 11 x XOR word_rotr 25 x"
  "sha256_sigma0 x = word_rotr 7 x XOR word_rotr 18 x XOR drop_bit 3 x"
  "sha256_sigma1 x = word_rotr 17 x XOR word_rotr 19 x XOR drop_bit 10 x"
  unfolding sha256_Sigma0_def sha256_Sigma1_def sha256_sigma0_def sha256_sigma1_def
  by (intro arg_cong2 [where f = "(XOR)"] rotr_shifts refl, simp_all)+

lemma sha512_sigmas:
  "sha512_Sigma0 x = word_rotr 28 x XOR word_rotr 34 x XOR word_rotr 39 x"
  "sha512_Sigma1 x = word_rotr 14 x XOR word_rotr 18 x XOR word_rotr 41 x"
  "sha512_sigma0 x = word_rotr 1 x XOR word_rotr 8 x XOR drop_bit 7 x"
  "sha512_sigma1 x = word_rotr 19 x XOR word_rotr 61 x XOR drop_bit 6 x"
  unfolding sha512_Sigma0_def sha512_Sigma1_def sha512_sigma0_def sha512_sigma1_def
  by (intro arg_cong2 [where f = "(XOR)"] rotr_shifts refl, simp_all)+

lemma sha256_Round_ref:
  "sha256_Round a b c d e f g h k w =
    (let t1 = h + (word_rotr 6 e XOR word_rotr 11 e XOR word_rotr 25 e) + fips_Ch e f g;
         t2 = (word_rotr 2 a XOR word_rotr 13 a XOR word_rotr 22 a) + fips_Maj a b c
     in (d + (t1 + (k + w)), t1 + (k + w) + t2))"
  by (simp add: sha256_Round_def sha256_Ch_def sha256_Maj_def fips_Ch_eq fips_Maj_eq sha256_sigmas
      Let_def add.assoc)

lemma sha512_Round_ref:
  "sha512_Round a b c d e f g h k w =
    (let t1 = h + (word_rotr 14 e XOR word_rotr 18 e XOR word_rotr 41 e) + fips_Ch e f g;
         t2 = (word_rotr 28 a XOR word_rotr 34 a XOR word_rotr 39 a) + fips_Maj a b c
     in (d + (t1 + (k + w)), t1 + (k + w) + t2))"
  by (simp add: sha512_Round_def sha512_Ch_def sha512_Maj_def fips_Ch_eq fips_Maj_eq sha512_sigmas
      Let_def add.assoc)

lemma sha256_Transform_compress:
  assumes "length s = 8"
  shows "sha256_Transform s chunk = sha256_compress s chunk"
proof -
  let ?rd = "\<lambda>i. ReadBE32 (take 4 (drop (4 * i) chunk))"
  obtain v w where f: "foldl (sha2_line sha256_Round sha256_sigma0 sha256_sigma1 sha256_K ?rd)
      (s, replicate 16 0) [0..<64] = (v, w)" by fastforce
  have sg: "sha256_sigma0 = (\<lambda>x. word_rotr 7 x XOR word_rotr 18 x XOR drop_bit 3 x)"
    "sha256_sigma1 = (\<lambda>x. word_rotr 17 x XOR word_rotr 19 x XOR drop_bit 10 x)"
    by (simp_all add: fun_eq_iff sha256_sigmas)
  from sha2_lines [OF sha256_Round_ref [unfolded Let_def] assms _ f]
  have "length v = 8" "rot_view 8 64 v = foldl (sha2_shift
      (\<lambda>e f g h. h + (word_rotr 6 e XOR word_rotr 11 e XOR word_rotr 25 e) + fips_Ch e f g)
      (\<lambda>a b c. (word_rotr 2 a XOR word_rotr 13 a XOR word_rotr 22 a) + fips_Maj a b c)
      (\<lambda>t. sha256_K ! t + sha2_W sha256_sigma0 sha256_sigma1 ?rd t)) s [0..<64]" by simp_all
  with rot_view_end [of v 8 64] show ?thesis
    by (simp only: sha256_Transform_def sha256_compress_def f [unfolded sg] Let_def prod.case sg) simp
qed

lemma sha512_Transform_compress:
  assumes "length s = 8"
  shows "sha512_Transform s chunk = sha512_compress s chunk"
proof -
  let ?rd = "\<lambda>i. ReadBE64 (take 8 (drop (8 * i) chunk))"
  obtain v w where f: "foldl (sha2_line sha512_Round sha512_sigma0 sha512_sigma1 sha512_K ?rd)
      (s, replicate 16 0) [0..<80] = (v, w)" by fastforce
  have sg: "sha512_sigma0 = (\<lambda>x. word_rotr 1 x XOR word_rotr 8 x XOR drop_bit 7 x)"
    "sha512_sigma1 = (\<lambda>x. word_rotr 19 x XOR word_rotr 61 x XOR drop_bit 6 x)"
    by (simp_all add: fun_eq_iff sha512_sigmas)
  from sha2_lines [OF sha512_Round_ref [unfolded Let_def] assms _ f]
  have "length v = 8" "rot_view 8 80 v = foldl (sha2_shift
      (\<lambda>e f g h. h + (word_rotr 14 e XOR word_rotr 18 e XOR word_rotr 41 e) + fips_Ch e f g)
      (\<lambda>a b c. (word_rotr 28 a XOR word_rotr 34 a XOR word_rotr 39 a) + fips_Maj a b c)
      (\<lambda>t. sha512_K ! t + sha2_W sha512_sigma0 sha512_sigma1 ?rd t)) s [0..<80]" by simp_all
  with rot_view_end [of v 8 80] show ?thesis
    by (simp only: sha512_Transform_def sha512_compress_def f [unfolded sg] Let_def prod.case sg) simp
qed

lemma sha1_Transform_compress:
  assumes "length s = 5"
  shows "sha1_Transform s chunk = sha1_compress s chunk"
proof -
  obtain v w where f: "foldl (sha1_line (\<lambda>i. ReadBE32 (take 4 (drop (4 * i) chunk))))
      (s, replicate 16 0) [0..<80] = (v, w)" by fastforce
  from sha1_lines [OF assms _ f] rot_view_end [of v 5 80] show ?thesis
    by (simp add: sha1_Transform_def sha1_compress_def f)
qed

lemma ripemd160_tables:
  "\<forall>i < 80. snd (ripemd160_left ! i) < 32" "\<forall>i < 80. snd (ripemd160_right ! i) < 32"
  by (simp_all add: ripemd160_left_def ripemd160_right_def All_less_Suc2 numeral_eq_Suc)

lemma ripemd160_R_ref:
  "ripemd160_R1 g a b c d e x r = ripemd160_Round a b c d e (ripemd160_F g b c d) x (ripemd160_k g) r"
  "ripemd160_R2 g a b c d e x r = ripemd160_Round a b c d e (ripemd160_F' g b c d) x (ripemd160_k' g) r"
  by (simp_all add: ripemd160_R1_def ripemd160_R2_def ripemd160_F_def ripemd160_F'_def
      ripemd160_k_def ripemd160_k'_def)

lemma ripemd160_Transform_compress:
  assumes "length s = 5"
  shows "ripemd160_Transform s chunk = ripemd160_compress s chunk"
proof -
  let ?w = "\<lambda>j. ReadLE32 (take 4 (drop (4 * j) chunk))"
  let ?u = "foldl (ripemd160_line ripemd160_R1 ripemd160_left ?w) s [0..<80]"
  let ?v = "foldl (ripemd160_line ripemd160_R2 ripemd160_right ?w) s [0..<80]"
  have 1: "?u = foldl (ripemd160_shift ripemd160_F ripemd160_k ripemd160_left ?w) s [0..<80]"
    using ripemd160_lines [OF assms ripemd160_tables(1) ripemd160_R_ref(1), where w = ?w]
      rot_view_end [of ?u 5 80] by simp
  have 2: "?v = foldl (ripemd160_shift ripemd160_F' ripemd160_k' ripemd160_right ?w) s [0..<80]"
    using ripemd160_lines [OF assms ripemd160_tables(2) ripemd160_R_ref(2), where w = ?w]
      rot_view_end [of ?v 5 80] by simp
  show ?thesis
    unfolding ripemd160_Transform_def ripemd160_compress_def Let_def 1 2 upt5
    by (simp flip: numeral_2_eq_2)
qed

subsection \<open>Padding\<close>

text \<open>A message, the byte 0x80, the least number of zeros, and the encoded bit length.\<close>

definition md_pad :: "nat \<Rightarrow> bytes \<Rightarrow> bytes \<Rightarrow> bytes" where
  "md_pad B sz m = m @ 0x80 # replicate (LEAST k. B dvd length m + 1 + k + length sz) 0 @ sz"

definition sha256_ref :: "bytes \<Rightarrow> bytes" where
  "sha256_ref m = concat (map WriteBE32 (foldl sha256_compress sha256_Initialize
    (chunks 64 (md_pad 64 (WriteBE64 (of_nat (8 * length m))) m))))"

definition sha512_ref :: "bytes \<Rightarrow> bytes" where
  "sha512_ref m = concat (map WriteBE64 (foldl sha512_compress sha512_Initialize
    (chunks 128 (md_pad 128 (replicate 8 0 @ WriteBE64 (of_nat (8 * length m))) m))))"

definition sha1_ref :: "bytes \<Rightarrow> bytes" where
  "sha1_ref m = concat (map WriteBE32 (foldl sha1_compress sha1_Initialize
    (chunks 64 (md_pad 64 (WriteBE64 (of_nat (8 * length m))) m))))"

definition ripemd160_ref :: "bytes \<Rightarrow> bytes" where
  "ripemd160_ref m = concat (map WriteLE32 (foldl ripemd160_compress ripemd160_Initialize
    (chunks 64 (md_pad 64 (WriteLE64 (of_nat (8 * length m))) m))))"

lemma least_fill:
  assumes "0 < B"
  shows "(LEAST k. B dvd n + k) = (B - n mod B) mod (B :: nat)"
proof (rule Least_equality)
  show "B dvd n + (B - n mod B) mod B"
  proof (cases "n mod B = 0")
    case False
    then have "(B - n mod B) mod B = B - n mod B" using assms by simp
    moreover have "n + (B - n mod B) = (n - n mod B) + B"
      using assms mod_le_divisor [of B n] mod_less_eq_dividend [of n B] by linarith
    ultimately show ?thesis by (simp add: dvd_add dvd_minus_mod del: Nat.add_diff_assoc2)
  qed auto
next
  fix k assume k: "B dvd n + k"
  show "(B - n mod B) mod B \<le> k"
  proof (cases "n mod B = 0")
    case False
    have "B dvd n mod B + k" using k by (metis mod_add_left_eq dvd_eq_mod_eq_0)
    then have "B \<le> n mod B + k" using False by (intro dvd_imp_le) auto
    then show ?thesis using mod_less_eq_dividend [of "B - n mod B" B] by linarith
  qed simp
qed

lemma fill_formula:
  assumes "c \<le> B" "0 < B"
  shows "(B - (n + c) mod B) mod B = (2 * B - c - n mod B) mod (B :: nat)"
proof -
  let ?r = "n mod B"
  have r: "?r < B" using assms by simp
  have "(n + c) mod B = (?r + c) mod B" by (simp add: mod_simps)
  also have "\<dots> = (if ?r + c < B then ?r + c else ?r + c - B)" using assms r by (simp add: le_mod_geq)
  finally have m: "(n + c) mod B = (if ?r + c < B then ?r + c else ?r + c - B)" .
  show ?thesis
  proof (cases "?r + c < B")
    case True
    then have "2 * B - c - ?r = (B - (?r + c)) + B" using assms r by linarith
    then show ?thesis unfolding m using True by (simp only: if_True mod_add_self2)
  next
    case False
    then have "2 * B - c - ?r = B - (?r + c - B)" using assms r by linarith
    then show ?thesis unfolding m using False by simp
  qed
qed

lemma pad_64:
  assumes "length sz = 8"
  shows "md_pad 64 sz m = m @ take (1 + (119 - length m mod 64) mod 64) (0x80 # replicate 63 0) @ sz"
proof -
  have "(LEAST k. 64 dvd length m + 1 + k + 8) = (LEAST k. 64 dvd (length m + 9) + k)"
    by (simp add: ac_simps)
  also have "\<dots> = (64 - (length m + 9) mod 64) mod 64" by (rule least_fill) simp
  also have "\<dots> = (119 - length m mod 64) mod 64" by (subst fill_formula) simp_all
  finally show ?thesis
    using assms mod_less_divisor [of 64 "119 - length m mod 64"]
    by (simp add: md_pad_def min_absorb2 del: mod_less_divisor)
qed

lemma pad_128:
  assumes "length sz = 16"
  shows "md_pad 128 sz m = m @ take (1 + (239 - length m mod 128) mod 128) (0x80 # replicate 127 0) @ sz"
proof -
  have "(LEAST k. 128 dvd length m + 1 + k + 16) = (LEAST k. 128 dvd (length m + 17) + k)"
    by (simp add: ac_simps)
  also have "\<dots> = (128 - (length m + 17) mod 128) mod 128" by (rule least_fill) simp
  also have "\<dots> = (239 - length m mod 128) mod 128" by (subst fill_formula) simp_all
  finally show ?thesis
    using assms mod_less_divisor [of 128 "239 - length m mod 128"]
    by (simp add: md_pad_def min_absorb2 del: mod_less_divisor)
qed

lemma foldl_inv_cong:
  assumes "P s" "\<And>s x. P s \<Longrightarrow> f s x = g s x" "\<And>s x. P s \<Longrightarrow> P (g s x)"
  shows "foldl f s xs = foldl g s xs"
  using assms(1) by (induction xs arbitrary: s) (simp_all add: assms(2,3))

lemma length_shifts:
  "length s = 8 \<Longrightarrow> length (foldl (sha2_shift T1 T2 kw) s ts) = 8"
  "length v = 5 \<Longrightarrow> length (foldl (sha1_shift W) v ts) = 5"
  by (induction ts arbitrary: s v) (simp_all add: sha2_shift_def sha1_shift_def Let_def)

lemma length_compress:
  "length s = 8 \<Longrightarrow> length (sha256_compress s chunk) = 8"
  "length t = 8 \<Longrightarrow> length (sha512_compress t chunk) = 8"
  "length u = 5 \<Longrightarrow> length (sha1_compress u chunk) = 5"
  "length (ripemd160_compress v chunk) = 5"
  by (simp_all add: sha256_compress_def sha512_compress_def sha1_compress_def ripemd160_compress_def
      Let_def length_shifts del: upt_Suc)

lemma foldl_compress:
  "foldl sha256_Transform sha256_Initialize cs = foldl sha256_compress sha256_Initialize cs"
  "foldl sha512_Transform sha512_Initialize cs = foldl sha512_compress sha512_Initialize cs"
  "foldl sha1_Transform sha1_Initialize cs = foldl sha1_compress sha1_Initialize cs"
  "foldl ripemd160_Transform ripemd160_Initialize cs = foldl ripemd160_compress ripemd160_Initialize cs"
proof -
  show "foldl sha256_Transform sha256_Initialize cs = foldl sha256_compress sha256_Initialize cs"
    by (rule foldl_inv_cong [where P = "\<lambda>s. length s = 8"])
       (simp_all add: sha256_Transform_compress length_compress sha256_Initialize_def)
  show "foldl sha512_Transform sha512_Initialize cs = foldl sha512_compress sha512_Initialize cs"
    by (rule foldl_inv_cong [where P = "\<lambda>s. length s = 8"])
       (simp_all add: sha512_Transform_compress length_compress sha512_Initialize_def)
  show "foldl sha1_Transform sha1_Initialize cs = foldl sha1_compress sha1_Initialize cs"
    by (rule foldl_inv_cong [where P = "\<lambda>s. length s = 5"])
       (simp_all add: sha1_Transform_compress length_compress sha1_Initialize_def)
  show "foldl ripemd160_Transform ripemd160_Initialize cs = foldl ripemd160_compress ripemd160_Initialize cs"
    by (rule foldl_inv_cong [where P = "\<lambda>s. length s = 5"])
       (simp_all add: ripemd160_Transform_compress length_compress ripemd160_Initialize_def)
qed

subsection \<open>The contract of a hash class\<close>

text \<open>
  What a client relies on: a fresh object has seen nothing, Write appends to what has been
  seen, and Finalize is a function H of it. The HMAC classes are clients.
\<close>

definition hmac_block :: "(bytes \<Rightarrow> bytes) \<Rightarrow> bytes \<Rightarrow> bytes \<Rightarrow> bytes" where
  "hmac_block H kb m = H (map (\<lambda>b. b XOR 0x5c) kb @ H (map (\<lambda>b. b XOR 0x36) kb @ m))"

definition hmac_ref :: "(bytes \<Rightarrow> bytes) \<Rightarrow> nat \<Rightarrow> bytes \<Rightarrow> bytes \<Rightarrow> bytes" where
  "hmac_ref H B key m =
    (let k = (if length key \<le> B then key else H key)
     in hmac_block H (k @ replicate (B - length k) 0) m)"

lemma xor_pads: "(b XOR p) XOR (p XOR q) = b XOR (q :: u8)"
  by (rule bit_word_eqI) (auto simp: bit_simps)

lemma chmac_rkey_short:
  "length rkey = B \<Longrightarrow> length key \<le> B \<Longrightarrow>
    chmac_rkey B z rkey key hkey = key @ replicate (B - length key) 0"
  by (simp add: chmac_rkey_def memcpy_at_def)

lemma chmac_rkey_long:
  "length rkey = B \<Longrightarrow> B < length key \<Longrightarrow> length hkey \<le> z \<Longrightarrow> z \<le> B \<Longrightarrow>
    chmac_rkey B z rkey key hkey =
      hkey @ take (z - length hkey) (drop (length hkey) rkey) @ replicate (B - z) 0"
  by (simp add: chmac_rkey_def memcpy_at_def)

locale hash_class =
  fixes new :: 'h and wr :: "bytes \<Rightarrow> 'h \<Rightarrow> 'h" and fin :: "'h \<Rightarrow> bytes"
    and fed :: "'h \<Rightarrow> bytes \<Rightarrow> bool" and H :: "bytes \<Rightarrow> bytes"
  assumes fed_new: "fed new []"
    and fed_Write: "fed h m \<Longrightarrow> fed (wr d h) (m @ d)"
    and fed_Finalize: "fed h m \<Longrightarrow> fin h = H m"
begin

lemma fed_pieces: "fed h m \<Longrightarrow> fed (foldl (\<lambda>h d. wr d h) h ds) (m @ concat ds)"
proof (induction ds arbitrary: h m)
  case (Cons d ds)
  show ?case using Cons.IH [OF fed_Write [OF Cons.prems], of d] by simp
qed simp

lemma pieces: "fin (foldl (\<lambda>h d. wr d h) new ds) = H (concat ds)"
  using fed_Finalize [OF fed_pieces [OF fed_new]] by simp

lemma single: "fin (wr d new) = H d"
  using pieces [of "[d]"] by simp

lemma chmac_fed:
  fixes B z rkey key
  defines "kb \<equiv> chmac_rkey B z rkey key (H key)"
  shows "fed (hm_outer (chmac_new B z new wr fin rkey key)) (map (\<lambda>b. b XOR 0x5c) kb)"
    "fed (hm_inner (chmac_new B z new wr fin rkey key)) (map (\<lambda>b. b XOR 0x36) kb)"
proof -
  show "fed (hm_outer (chmac_new B z new wr fin rkey key)) (map (\<lambda>b. b XOR 0x5c) kb)"
    using fed_Write [OF fed_new, of "map (\<lambda>b. b XOR 0x5c) kb"]
    by (simp only: chmac_new_def Let_def single kb_def chmac.simps append_Nil)
  show "fed (hm_inner (chmac_new B z new wr fin rkey key)) (map (\<lambda>b. b XOR 0x36) kb)"
    using fed_Write [OF fed_new, of "map (\<lambda>b. b XOR 0x36) kb"]
    by (simp only: chmac_new_def Let_def single kb_def chmac.simps map_map comp_def xor_pads append_Nil)
qed

lemma chmac_Write_inner:
  "hm_inner (foldl (\<lambda>h d. chmac_Write wr d h) h ds) = foldl (\<lambda>h d. wr d h) (hm_inner h) ds"
  "hm_outer (foldl (\<lambda>h d. chmac_Write wr d h) h ds) = hm_outer h"
  by (induction ds arbitrary: h) (simp_all add: chmac_Write_def)

lemma chmac_block:
  "chmac_Finalize wr fin (foldl (\<lambda>h d. chmac_Write wr d h) (chmac_new B z new wr fin rkey key) ds) =
    hmac_block H (chmac_rkey B z rkey key (H key)) (concat ds)"
  unfolding chmac_Finalize_def chmac_Write_inner Let_def
    fed_Finalize [OF fed_pieces [OF chmac_fed(2)]] fed_Finalize [OF fed_Write [OF chmac_fed(1)]]
    hmac_block_def ..

lemma chmac_correct:
  assumes "length rkey = B" "length key \<le> B \<or> length (H key) = z" "z \<le> B"
  shows "chmac_Finalize wr fin (foldl (\<lambda>h d. chmac_Write wr d h) (chmac_new B z new wr fin rkey key) ds) =
    hmac_ref H B key (concat ds)"
proof (cases "length key \<le> B")
  case True
  then show ?thesis using assms by (simp add: chmac_block chmac_rkey_short hmac_ref_def)
next
  case False
  then show ?thesis using assms by (simp add: chmac_block chmac_rkey_long hmac_ref_def)
qed

end

subsection \<open>The classes compute the reference functions\<close>

interpretation sha256s: md_hash 64 sha256_Transform
  by unfold_locales simp_all

interpretation sha512s: md_hash 128 sha512_Transform
  by unfold_locales simp_all

interpretation sha1s: md_hash 64 sha1_Transform
  by unfold_locales simp_all

interpretation ripemd160s: md_hash 64 ripemd160_Transform
  by unfold_locales simp_all

abbreviation CSHA256_fed :: "CSHA256 \<Rightarrow> bytes \<Rightarrow> bool" where
  "CSHA256_fed \<equiv> hs_rep 64 sha256_Transform sha256_Initialize"

abbreviation CSHA512_fed :: "CSHA512 \<Rightarrow> bytes \<Rightarrow> bool" where
  "CSHA512_fed \<equiv> hs_rep 128 sha512_Transform sha512_Initialize"

abbreviation CSHA1_fed :: "CSHA1 \<Rightarrow> bytes \<Rightarrow> bool" where
  "CSHA1_fed \<equiv> hs_rep 64 sha1_Transform sha1_Initialize"

abbreviation CRIPEMD160_fed :: "CRIPEMD160 \<Rightarrow> bytes \<Rightarrow> bool" where
  "CRIPEMD160_fed \<equiv> hs_rep 64 ripemd160_Transform ripemd160_Initialize"

lemma fed_fresh:
  "CSHA256_fed CSHA256_new []" "CSHA512_fed CSHA512_new []" "CSHA1_fed CSHA1_new []"
  "CRIPEMD160_fed CRIPEMD160_new []"
  by (simp_all add: hs_rep_def chunks_short CSHA256_new_def CSHA512_new_def CSHA1_new_def
      CRIPEMD160_new_def)

lemma fed_Reset:
  "CSHA256_fed h m \<Longrightarrow> CSHA256_fed (CSHA256_Reset h) []"
  "CSHA512_fed h' m \<Longrightarrow> CSHA512_fed (CSHA512_Reset h') []"
  by (simp_all add: hs_rep_def chunks_short CSHA256_Reset_def CSHA512_Reset_def)

lemma length_Write64 [simp]: "length (WriteBE64 x) = 8" "length (WriteLE64 x) = 8"
  by (simp_all add: WriteBE64_def WriteLE64_def)

lemma bits_count: "push_bit 3 (of_nat n :: u64) = of_nat (8 * n)"
  by (simp add: push_bit_eq_mult mult.commute)

lemma CSHA256_Finalize_fed:
  assumes "CSHA256_fed h m"
  shows "CSHA256_Finalize h = sha256_ref m"
proof -
  have n: "hs_bytes h = of_nat (length m)" using assms by (simp add: hs_rep_def)
  show ?thesis
    using sha256s.Write_rep [OF sha256s.Write_rep [OF assms]]
    by (simp add: CSHA256_Finalize_def CSHA256_FinalizeNoPadding_def CSHA256_Write_def Let_def n
        sha256s.bufsize_eq bits_count hs_rep_def foldl_compress sha256_ref_def pad_64
        del: take_Cons_numeral of_nat_mult)
qed

lemma CSHA512_Finalize_fed:
  assumes "CSHA512_fed h m"
  shows "CSHA512_Finalize h = sha512_ref m"
proof -
  have n: "hs_bytes h = of_nat (length m)" using assms by (simp add: hs_rep_def)
  show ?thesis
    using sha512s.Write_rep [OF sha512s.Write_rep [OF assms]]
    by (simp add: CSHA512_Finalize_def CSHA512_Write_def Let_def n
        sha512s.bufsize_eq bits_count hs_rep_def foldl_compress sha512_ref_def pad_128
        del: take_Cons_numeral of_nat_mult)
qed

lemma CSHA1_Finalize_fed:
  assumes "CSHA1_fed h m"
  shows "CSHA1_Finalize h = sha1_ref m"
proof -
  have n: "hs_bytes h = of_nat (length m)" using assms by (simp add: hs_rep_def)
  show ?thesis
    using sha1s.Write_rep [OF sha1s.Write_rep [OF assms]]
    by (simp add: CSHA1_Finalize_def CSHA1_Write_def Let_def n
        sha1s.bufsize_eq bits_count hs_rep_def foldl_compress sha1_ref_def pad_64
        del: take_Cons_numeral of_nat_mult)
qed

lemma CRIPEMD160_Finalize_fed:
  assumes "CRIPEMD160_fed h m"
  shows "CRIPEMD160_Finalize h = ripemd160_ref m"
proof -
  have n: "hs_bytes h = of_nat (length m)" using assms by (simp add: hs_rep_def)
  show ?thesis
    using ripemd160s.Write_rep [OF ripemd160s.Write_rep [OF assms]]
    by (simp add: CRIPEMD160_Finalize_def CRIPEMD160_Write_def Let_def n
        ripemd160s.bufsize_eq bits_count hs_rep_def foldl_compress ripemd160_ref_def pad_64
        del: take_Cons_numeral of_nat_mult)
qed

interpretation csha256: hash_class CSHA256_new CSHA256_Write CSHA256_Finalize CSHA256_fed sha256_ref
  by unfold_locales
    (simp_all add: fed_fresh(1) CSHA256_Finalize_fed sha256s.Write_rep CSHA256_Write_def)

interpretation csha512: hash_class CSHA512_new CSHA512_Write CSHA512_Finalize CSHA512_fed sha512_ref
  by unfold_locales
    (simp_all add: fed_fresh(2) CSHA512_Finalize_fed sha512s.Write_rep CSHA512_Write_def)

interpretation csha1: hash_class CSHA1_new CSHA1_Write CSHA1_Finalize CSHA1_fed sha1_ref
  by unfold_locales
    (simp_all add: fed_fresh(3) CSHA1_Finalize_fed sha1s.Write_rep CSHA1_Write_def)

interpretation cripemd160: hash_class CRIPEMD160_new CRIPEMD160_Write CRIPEMD160_Finalize
  CRIPEMD160_fed ripemd160_ref
  by unfold_locales
    (simp_all add: fed_fresh(4) CRIPEMD160_Finalize_fed ripemd160s.Write_rep CRIPEMD160_Write_def)

text \<open>
  C20. However a message is cut into the pieces that are written to it, an object of each of
  the four hash classes finalizes to the textbook function of the whole message: shifted
  working variables, the message schedule as a recurrence, and the least padding to a
  multiple of the block length.
\<close>

theorem hash_classes_correct:
  "CSHA256_Finalize (foldl (\<lambda>h d. CSHA256_Write d h) CSHA256_new ds) = sha256_ref (concat ds) \<and>
   CSHA512_Finalize (foldl (\<lambda>h d. CSHA512_Write d h) CSHA512_new ds) = sha512_ref (concat ds) \<and>
   CSHA1_Finalize (foldl (\<lambda>h d. CSHA1_Write d h) CSHA1_new ds) = sha1_ref (concat ds) \<and>
   CRIPEMD160_Finalize (foldl (\<lambda>h d. CRIPEMD160_Write d h) CRIPEMD160_new ds) =
     ripemd160_ref (concat ds)"
  using csha256.pieces csha512.pieces csha1.pieces cripemd160.pieces by blast

lemma length_concat_const: "(\<And>x. length (f x) = k) \<Longrightarrow> length (concat (map f xs)) = k * length xs"
  by (induction xs) simp_all

lemma length_foldl_compress:
  "length s = 8 \<Longrightarrow> length (foldl sha256_compress s cs) = 8"
  "length t = 8 \<Longrightarrow> length (foldl sha512_compress t cs) = 8"
  "length u = 5 \<Longrightarrow> length (foldl sha1_compress u cs) = 5"
  by (induction cs arbitrary: s t u) (simp_all add: length_compress)

lemma length_refs:
  "length (sha256_ref m) = 32" "length (sha512_ref m) = 64" "length (sha1_ref m) = 20"
proof -
  have "length (WriteBE32 x) = 4" for x by (simp add: WriteBE32_def)
  then show "length (sha256_ref m) = 32" "length (sha512_ref m) = 64" "length (sha1_ref m) = 20"
    unfolding sha256_ref_def sha512_ref_def sha1_ref_def
    by (subst length_concat_const [where k = 4] length_concat_const [where k = 8];
        simp add: length_foldl_compress sha256_Initialize_def sha512_Initialize_def sha1_Initialize_def)+
qed

lemma CHash_fed:
  "CSHA256_fed h m \<Longrightarrow> CHash256_Finalize h = sha256_ref (sha256_ref m)"
  "CSHA512_fed h' m \<Longrightarrow> CHash512_Finalize h' = sha512_ref (sha512_ref m)"
  "CSHA256_fed h m \<Longrightarrow> CHash160_Finalize h = ripemd160_ref (sha256_ref m)"
  unfolding CHash256_Finalize_def CHash512_Finalize_def CHash160_Finalize_def Let_def
  using csha256.fed_Finalize [OF csha256.fed_Write [OF fed_Reset(1)]] csha256.fed_Finalize
    csha512.fed_Finalize [OF csha512.fed_Write [OF fed_Reset(2)]] csha512.fed_Finalize
    cripemd160.single
  by (metis append_Nil)+

text \<open>
  The composed classes compute the compositions they are named after, for every way of
  cutting the message into pieces and whatever the key array held before: HMAC over SHA-256
  and SHA-512 with keys of any length (longer keys are hashed first), the double hashes, and
  RIPEMD-160 of SHA-256.
\<close>

lemma hash_compositions:
  assumes "length r64 = 64" "length r128 = 128"
  shows "CHMAC_SHA256_Finalize (foldl (\<lambda>h d. CHMAC_SHA256_Write d h) (CHMAC_SHA256_new r64 key) ds) =
     hmac_ref sha256_ref 64 key (concat ds) \<and>
   CHMAC_SHA512_Finalize (foldl (\<lambda>h d. CHMAC_SHA512_Write d h) (CHMAC_SHA512_new r128 key) ds) =
     hmac_ref sha512_ref 128 key (concat ds) \<and>
   CHash256_Finalize (foldl (\<lambda>h d. CSHA256_Write d h) CSHA256_new ds) = sha256_ref (sha256_ref (concat ds)) \<and>
   CHash512_Finalize (foldl (\<lambda>h d. CSHA512_Write d h) CSHA512_new ds) = sha512_ref (sha512_ref (concat ds)) \<and>
   CHash160_Finalize (foldl (\<lambda>h d. CSHA256_Write d h) CSHA256_new ds) = ripemd160_ref (sha256_ref (concat ds))"
  using CHash_fed(1,3) [OF csha256.fed_pieces [OF fed_fresh(1)]]
    CHash_fed(2) [OF csha512.fed_pieces [OF fed_fresh(2)]] assms
  by (simp add: CHMAC_SHA256_new_def CHMAC_SHA256_Write_def CHMAC_SHA256_Finalize_def
      CHMAC_SHA512_new_def CHMAC_SHA512_Write_def CHMAC_SHA512_Finalize_def
      csha256.chmac_correct csha512.chmac_correct length_refs)

text \<open>
  C40. The constructor of CHMAC_SHA1 clears the key array from byte 32 on, as the one for
  SHA-256 does, but a hashed key fills only 20 bytes: a key of more than 64 bytes is
  authenticated with twelve bytes of whatever the array held before. Keys of at most 64 bytes
  give HMAC-SHA1.
\<close>

theorem CHMAC_SHA1_long_key:
  assumes "length rkey = 64"
  shows "CHMAC_SHA1_Finalize (foldl (\<lambda>h d. CHMAC_SHA1_Write d h) (CHMAC_SHA1_new rkey key) ds) =
    (if length key \<le> 64 then hmac_ref sha1_ref 64 key (concat ds)
     else hmac_block sha1_ref (sha1_ref key @ take 12 (drop 20 rkey) @ replicate 32 0) (concat ds))"
proof (cases "length key \<le> 64")
  case True
  then show ?thesis using assms
    by (simp add: CHMAC_SHA1_new_def CHMAC_SHA1_Write_def CHMAC_SHA1_Finalize_def csha1.chmac_correct)
next
  case False
  then show ?thesis using assms
    by (simp add: CHMAC_SHA1_new_def CHMAC_SHA1_Write_def CHMAC_SHA1_Finalize_def csha1.chmac_block
        chmac_rkey_long length_refs)
qed

theorem CHMAC_SHA1_long_key_witness:
  "CHMAC_SHA1_Finalize (CHMAC_SHA1_Write [1] (CHMAC_SHA1_new (replicate 64 7) (replicate 65 0))) =
    hmac_block sha1_ref (sha1_ref (replicate 65 0) @ replicate 12 7 @ replicate 32 0) [1]"
  using CHMAC_SHA1_long_key [of "replicate 64 7" "replicate 65 0" "[[1]]"] by simp

end
