(* ===== verification/Block.thy ===== *)
theory Block
  imports Transaction PubKey Crypto
begin

text \<open>
  Block headers and blocks (primitives/block.h, block.cpp) and the hash functions of hash.h they use.

  The header is serialized by version; the coordinator and quorum signatures are left out of the hashed form. The hash
  of an ADAM header (versions 11 and 12) is a chain of rounds, one per miner, each with the algorithms that the previous
  block and the miner's key select. The vendored sphlib functions are the parameter \<open>sph\<close>; double SHA-256 is the one of
  the theory Crypto.
\<close>

unbundle bit_operations_syntax

section \<open>Hash functions\<close>

definition uint256_of :: "bytes \<Rightarrow> uint256" where
  "uint256_of b = of_nat (le_val (take 32 b))"

definition Hash256 :: "bytes \<Rightarrow> uint256" where
  "Hash256 m = uint256_of (CHash256_Finalize (CSHA256_Write m CSHA256_new))"

datatype sph_algo = Blake | Bmw | Groestl | Jh | Keccak | Skein | Luffa | Cubehash | Shavite | Simd | Echo | Hamsi |
  Fugue | Shabal | Whirlpool | Haval256_5

type_synonym sph = "sph_algo \<Rightarrow> bytes \<Rightarrow> bytes"

text \<open>The order in which \<open>HashX11KV\<close> numbers the eleven algorithms.\<close>

definition x11kv_algo :: "nat \<Rightarrow> sph_algo" where
  "x11kv_algo n = [Blake, Bmw, Groestl, Skein, Jh, Keccak, Luffa, Cubehash, Shavite, Simd, Echo] ! n"

definition HashX11KV :: "sph \<Rightarrow> bytes \<Rightarrow> uint256" where
  "HashX11KV sph data =
     (let hash = sph Blake data;
          n = 2 + unat (hash ! 63) mod 5;
          hash = foldl (\<lambda>hash i. sph (x11kv_algo (unat (hash ! (i mod 64)) mod 11)) hash) hash [1..<n]
      in uint256_of hash)"

definition le32dec :: "bytes \<Rightarrow> u32" where
  "le32dec p = ucast (p ! 0) OR push_bit 8 (ucast (p ! 1)) OR push_bit 16 (ucast (p ! 2)) OR push_bit 24 (ucast (p ! 3))"

definition le32enc :: "u32 \<Rightarrow> bytes" where
  "le32enc x = [ucast (x AND 0xff), ucast (drop_bit 8 x AND 0xff), ucast (drop_bit 16 x AND 0xff),
     ucast (drop_bit 24 x AND 0xff)]"

text \<open>The levels count down from seven to one; level one returns the plain hash.\<close>

fun HashX11KVS_level :: "sph \<Rightarrow> nat \<Rightarrow> bytes \<Rightarrow> uint256" where
  "HashX11KVS_level sph level data =
     (if length data < 80 then HashX11KV sph data
      else
        let hash = HashX11KV sph data in
        if level \<le> 1 then hash
        else
          let nonce = le32dec (drop 76 data);
              h = put_uint256 hash;
              nextnonce1 = nonce + le32dec (drop 24 h) mod 0xFFFF;
              nextnonce2 = nonce + le32dec (drop 28 h) mod 0xFFFF;
              hash1 = HashX11KVS_level sph (level - 1) (take 76 data @ le32enc nextnonce1);
              hash2 = HashX11KVS_level sph (level - 1) (take 76 data @ le32enc nextnonce2)
          in Hash256 (h @ put_uint256 hash1 @ put_uint256 hash2))"

declare HashX11KVS_level.simps [simp del]

definition HashX11KVS :: "sph \<Rightarrow> bytes \<Rightarrow> uint256" where
  "HashX11KVS sph = HashX11KVS_level sph 7"

definition CalculateAdamPuzzleHash :: "sph \<Rightarrow> nat \<Rightarrow> bytes \<Rightarrow> uint256" where
  "CalculateAdamPuzzleHash sph algoIndex data =
     (if algoIndex = 11 then HashX11KVS sph data
      else if algoIndex = 12 then Hash256 data
      else if algoIndex < 18
      then uint256_of (sph ([Blake, Bmw, Groestl, Jh, Keccak, Skein, Luffa, Cubehash, Shavite, Simd, Echo, Echo, Echo,
             Hamsi, Fugue, Shabal, Whirlpool, Haval256_5] ! algoIndex) data)
      else Hash256 data)"

section \<open>Headers\<close>

record CBlockHeader =
  nVersion :: int
  hashPrevBlock :: uint256
  hashMerkleRoot :: uint256
  nTime :: u32
  nBits :: u32
  nNonce :: u32
  nAccumulatorCheckpoint :: uint256
  vAdamMiners :: "cpubkey list"
  vAdamSolutions :: "bytes list"
  vAdamVRFProof :: bytes
  vAdamCoordinatorSig :: bytes
  vQuorumSig :: bytes

definition header_SetNull :: CBlockHeader where
  "header_SetNull = \<lparr>nVersion = 12, hashPrevBlock = 0, hashMerkleRoot = 0, nTime = 0, nBits = 0, nNonce = 0,
     nAccumulatorCheckpoint = 0, vAdamMiners = [], vAdamSolutions = [], vAdamVRFProof = [], vAdamCoordinatorSig = [],
     vQuorumSig = []\<rparr>"

definition header_IsNull :: "CBlockHeader \<Rightarrow> bool" where
  "header_IsNull b \<longleftrightarrow> nBits b = 0"

text \<open>Serialization; the first argument is the bit \<open>SER_GETHASH\<close> of the stream type.\<close>

definition put_header :: "bool \<Rightarrow> CBlockHeader \<Rightarrow> bytes" where
  "put_header gethash b =
     put_int32 (nVersion b) @ put_uint256 (hashPrevBlock b) @ put_uint256 (hashMerkleRoot b) @
     ser_writedata32 (nTime b) @ ser_writedata32 (nBits b) @ ser_writedata32 (nNonce b) @
     (if nVersion b > 3 \<and> nVersion b < 7 then put_uint256 (nAccumulatorCheckpoint b) else []) @
     (if nVersion b \<ge> 11
      then put_vector put_pubkey (vAdamMiners b) @ put_vector put_blob (vAdamSolutions b) @ put_blob (vAdamVRFProof b) @
           (if gethash then [] else put_blob (vAdamCoordinatorSig b))
      else []) @
     (if nVersion b \<ge> 12 then if gethash then [] else put_blob (vQuorumSig b) else [])"

text \<open>Reading into a freshly constructed header from a stream that is not hashed.\<close>

definition get_header :: "CBlockHeader reader" where
  "get_header s = do {
     (ver, s) \<leftarrow> get_int32 s;
     (prev, s) \<leftarrow> get_uint256 s;
     (root, s) \<leftarrow> get_uint256 s;
     (t, s) \<leftarrow> ser_readdata32 s;
     (bits, s) \<leftarrow> ser_readdata32 s;
     (nonce, s) \<leftarrow> ser_readdata32 s;
     (acc, s) \<leftarrow> (if ver > 3 \<and> ver < 7 then get_uint256 s else Some (0, s));
     (ms, s) \<leftarrow> (if ver \<ge> 11 then get_vector get_pubkey s else Some ([], s));
     (sols, s) \<leftarrow> (if ver \<ge> 11 then get_vector get_blob s else Some ([], s));
     (vrf, s) \<leftarrow> (if ver \<ge> 11 then get_blob s else Some ([], s));
     (csig, s) \<leftarrow> (if ver \<ge> 11 then get_blob s else Some ([], s));
     (qsig, s) \<leftarrow> (if ver \<ge> 12 then get_blob s else Some ([], s));
     Some (\<lparr>nVersion = ver, hashPrevBlock = prev, hashMerkleRoot = root, nTime = t, nBits = bits, nNonce = nonce,
        nAccumulatorCheckpoint = acc, vAdamMiners = ms, vAdamSolutions = sols, vAdamVRFProof = vrf,
        vAdamCoordinatorSig = csig, vQuorumSig = qsig\<rparr>, s) }"

text \<open>\<open>GetAdam3PermutationAlgos\<close>: three different algorithms out of eighteen.\<close>

definition adam3_perm :: "nat \<Rightarrow> nat \<times> nat \<times> nat" where
  "adam3_perm permIdx =
     (let algo1 = permIdx div 272;
          rem = permIdx mod 272;
          algo2 = rem div 16;
          algo3 = rem mod 16;
          algo2 = (if algo2 \<ge> algo1 then algo2 + 1 else algo2);
          min_algo = min algo1 algo2;
          max_algo = max algo1 algo2;
          algo3 = (if algo3 \<ge> min_algo then algo3 + 1 else algo3);
          algo3 = (if algo3 \<ge> max_algo then algo3 + 1 else algo3)
      in (algo1, algo2, algo3))"

definition GetAdam3PermutationAlgos :: "uint256 \<Rightarrow> cpubkey \<Rightarrow> nat \<times> nat \<times> nat" where
  "GetAdam3PermutationAlgos prev minerKey =
     (let h = Hash256 (put_uint256 prev @ put_pubkey minerKey);
          randVal = (ucast h :: u64)
      in adam3_perm (unat (randVal mod 4896)))"

definition adam_multiplier :: "uint256 \<Rightarrow> u32 \<Rightarrow> u32" where
  "adam_multiplier prev i =
     (let roundHash = Hash256 (put_uint256 prev @ ser_writedata32 i);
          m = ucast (put_uint256 roundHash ! 0) OR 1
      in if m < 3 then 3 else m)"

text \<open>Round i of an ADAM header hash: the input is the header in round zero and the previous result afterwards.\<close>

definition adam_round :: "sph \<Rightarrow> CBlockHeader \<Rightarrow> bool \<Rightarrow> nat \<Rightarrow> bytes \<Rightarrow> uint256" where
  "adam_round sph b fFallbackMode i data =
     (let minerKey = vAdamMiners b ! i;
          H =
            (if fFallbackMode
             then (let tmp = Hash256 (put_uint256 (hashPrevBlock b) @ put_pubkey minerKey);
                       algo = unat (tmp - (tmp div 18) * 18)
                   in CalculateAdamPuzzleHash sph algo data)
             else (let (algo1, algo2, algo3) = GetAdam3PermutationAlgos (hashPrevBlock b) minerKey;
                       i_factor = of_nat (i + 1);
                       hash3 = CalculateAdamPuzzleHash sph algo3 data;
                       hash2 = CalculateAdamPuzzleHash sph algo2 (put_uint256 (hash3 * i_factor))
                   in CalculateAdamPuzzleHash sph algo1 (put_uint256 (hash2 * i_factor))))
      in H * ucast (adam_multiplier (hashPrevBlock b) (of_nat i)))"

definition GetHash :: "sph \<Rightarrow> CBlockHeader \<Rightarrow> uint256" where
  "GetHash sph b =
     (if nVersion b = 11 \<or> nVersion b = 12
      then
        let fFallbackMode = (nVersion b = 11 \<or> length (vAdamMiners b) > 11);
            M = (if fFallbackMode then length (vAdamMiners b) - 1 else length (vAdamMiners b))
        in if M = 0 \<or> length (vAdamMiners b) > 32 \<or> length (vAdamSolutions b) > 32
           then Hash256 (put_header True b)
           else foldl (\<lambda>H_prev i. adam_round sph b fFallbackMode i (put_uint256 H_prev))
                  (adam_round sph b fFallbackMode 0 (put_header True b)) [1..<M]
      else if nVersion b < 4
      then HashX11KVS sph (put_int32 (nVersion b) @ put_uint256 (hashPrevBlock b) @ put_uint256 (hashMerkleRoot b) @
             ser_writedata32 (nTime b) @ ser_writedata32 (nBits b) @ ser_writedata32 (nNonce b))
      else Hash256 (put_header True b))"

section \<open>Blocks\<close>

record CBlock =
  header :: CBlockHeader
  vtx :: "CTransaction list"
  vchBlockSig :: bytes

definition IsProofOfStake :: "CBlock \<Rightarrow> bool" where
  "IsProofOfStake b \<longleftrightarrow> length (vtx b) > 1 \<and> IsCoinStake (vtx b ! 1)"

definition put_block :: "CBlock \<Rightarrow> bytes" where
  "put_block b = put_header False (header b) @ put_vector put_tx (vtx b) @
     (if length (vtx b) > 1 \<and> IsCoinStake (vtx b ! 1) then put_blob (vchBlockSig b) else [])"

definition get_block :: "CBlock reader" where
  "get_block s = do {
     (h, s) \<leftarrow> get_header s;
     (txs, s) \<leftarrow> get_vector get_tx s;
     (sig, s) \<leftarrow> (if length txs > 1 \<and> IsCoinStake (txs ! 1) then get_blob s else Some ([], s));
     Some (\<lparr>header = h, vtx = txs, vchBlockSig = sig\<rparr>, s) }"

text \<open>\<open>CBlock::GetBlockHeader\<close> copies the fields the version has.\<close>

definition GetBlockHeader :: "CBlock \<Rightarrow> CBlockHeader" where
  "GetBlockHeader b =
     (let h = header b;
          r = header_SetNull\<lparr>nVersion := nVersion h, hashPrevBlock := hashPrevBlock h, hashMerkleRoot := hashMerkleRoot h,
                nTime := nTime h, nBits := nBits h, nNonce := nNonce h\<rparr>;
          r = (if nVersion h > 3 \<and> nVersion h < 7 then r\<lparr>nAccumulatorCheckpoint := nAccumulatorCheckpoint h\<rparr> else r);
          r = (if nVersion h \<ge> 11
               then r\<lparr>vAdamMiners := vAdamMiners h, vAdamSolutions := vAdamSolutions h, vAdamVRFProof := vAdamVRFProof h,
                      vAdamCoordinatorSig := vAdamCoordinatorSig h\<rparr> else r)
      in if nVersion h \<ge> 12 then r\<lparr>vQuorumSig := vQuorumSig h\<rparr> else r)"

section \<open>Serialization round trip\<close>

text \<open>
  Headers and blocks whose fields fit their types and the size limit; fields that a version does not serialize have the
  value of a fresh header.
\<close>

definition wf_header :: "CBlockHeader \<Rightarrow> bool" where
  "wf_header b \<longleftrightarrow>
     wf_int32 (nVersion b) \<and>
     (nVersion b > 3 \<and> nVersion b < 7 \<or> nAccumulatorCheckpoint b = 0) \<and>
     (if nVersion b \<ge> 11
      then length (vAdamMiners b) \<le> unat MAX_SIZE \<and> list_all wf_pubkey (vAdamMiners b) \<and>
           length (vAdamSolutions b) \<le> unat MAX_SIZE \<and> list_all (\<lambda>v. length v \<le> unat MAX_SIZE) (vAdamSolutions b) \<and>
           length (vAdamVRFProof b) \<le> unat MAX_SIZE \<and> length (vAdamCoordinatorSig b) \<le> unat MAX_SIZE
      else vAdamMiners b = [] \<and> vAdamSolutions b = [] \<and> vAdamVRFProof b = [] \<and> vAdamCoordinatorSig b = []) \<and>
     (if nVersion b \<ge> 12 then length (vQuorumSig b) \<le> unat MAX_SIZE else vQuorumSig b = [])"

definition wf_block :: "CBlock \<Rightarrow> bool" where
  "wf_block b \<longleftrightarrow>
     wf_header (header b) \<and> length (vtx b) \<le> unat MAX_SIZE \<and> list_all wf_tx (vtx b) \<and>
     (if IsProofOfStake b then length (vchBlockSig b) \<le> unat MAX_SIZE else vchBlockSig b = [])"

interpretation pubkeys: codec "\<lambda>xs. length xs \<le> unat MAX_SIZE \<and> (\<forall>x \<in> set xs. wf_pubkey x)"
  "put_vector put_pubkey" "get_vector get_pubkey"
  by (rule pubkey.vector_codec)

interpretation blobs: codec "\<lambda>xs. length xs \<le> unat MAX_SIZE \<and> (\<forall>x \<in> set xs. length x \<le> unat MAX_SIZE)"
  "put_vector put_blob" "get_vector get_blob"
  by (rule blob.vector_codec)

interpretation txs: codec "\<lambda>xs. length xs \<le> unat MAX_SIZE \<and> (\<forall>x \<in> set xs. wf_tx x)"
  "put_vector put_tx" "get_vector get_tx"
  by (rule tx.vector_codec)

interpretation block_header: codec wf_header "put_header False" get_header
proof
  fix b rest
  assume wf: "wf_header b"
  consider "nVersion b \<ge> 12" | "nVersion b = 11" | "nVersion b > 3" "nVersion b < 7" | "nVersion b \<ge> 7" "nVersion b < 11"
    | "nVersion b \<le> 3" by linarith
  then show "get_header (put_header False b @ rest) = Some (b, rest)"
    by cases (use wf in \<open>simp_all add: wf_header_def put_header_def get_header_def list_all_iff field_codecs
      pubkeys.get_put blobs.get_put\<close>)
qed

interpretation block: codec wf_block put_block get_block
  by unfold_locales
    (auto simp: wf_block_def put_block_def get_block_def IsProofOfStake_def list_all_iff block_header.get_put txs.get_put
      blob.get_put)

section \<open>Algorithm selection\<close>

lemma adam3_perm_triple:
  assumes "p < 4896" "adam3_perm p = (a, b, c)"
  shows "a < 18" "b < 18" "c < 18" "a \<noteq> b" "a \<noteq> c" "b \<noteq> c"
proof -
  define x y z B C where "x = p div 272" and "y = p mod 272 div 16" and "z = p mod 272 mod 16" and
    "B = (if x \<le> y then y + 1 else y)" and
    "C = (let w = (if min x B \<le> z then z + 1 else z) in if max x B \<le> w then w + 1 else w)"
  have lt: "x < 18" "y < 17" "z < 16" using assms(1) by (simp_all add: x_def y_def z_def less_mult_imp_div_less)
  have "adam3_perm p = (x, B, C)" by (simp only: adam3_perm_def x_def y_def z_def B_def C_def Let_def)
  then have a: "a = x" and b: "b = B" and c: "c = C" using assms(2) by simp_all
  show "a < 18" "b < 18" and ab: "a \<noteq> b" using lt by (auto simp: a b B_def)
  show "c < 18" "a \<noteq> c" "b \<noteq> c"
    using lt ab \<open>b < 18\<close> unfolding a b c by (cases "x < B"; auto simp: C_def Let_def min_def max_def)+
qed

text \<open>The index of a triple of different algorithms.\<close>

definition adam3_index :: "nat \<times> nat \<times> nat \<Rightarrow> nat" where
  "adam3_index = (\<lambda>(a, b, c).
     a * 272 + (if b > a then b - 1 else b) * 16 +
     (if c > max a b then c - 2 else if c > min a b then c - 1 else c))"

lemma adam3_perm_index:
  assumes "a < 18" "b < 18" "c < 18" "a \<noteq> b" "a \<noteq> c" "b \<noteq> c"
  shows "adam3_perm (adam3_index (a, b, c)) = (a, b, c)" "adam3_index (a, b, c) < 4896"
proof -
  define b' where "b' = (if b > a then b - 1 else b)"
  define c' where "c' = (if c > max a b then c - 2 else if c > min a b then c - 1 else c)"
  have bc: "b' < 17" "c' < 16" using assms by (auto simp: b'_def c'_def)
  have i: "adam3_index (a, b, c) = a * 272 + (b' * 16 + c')" by (simp add: adam3_index_def b'_def c'_def)
  have r: "b' * 16 + c' < 272" using bc by simp
  have d: "(a * 272 + (b' * 16 + c')) div 272 = a" "(a * 272 + (b' * 16 + c')) mod 272 = b' * 16 + c'"
    using r by simp_all
  have e: "(b' * 16 + c') div 16 = b'" "(b' * 16 + c') mod 16 = c'" using bc by simp_all
  show "adam3_index (a, b, c) < 4896" unfolding i using assms(1) r by simp
  have b: "(if a \<le> b' then b' + 1 else b') = b" using assms by (auto simp: b'_def)
  have c: "(let x = (if min a b \<le> c' then c' + 1 else c') in if max a b \<le> x then x + 1 else x) = c"
    using assms by (auto simp: c'_def min_def max_def Let_def)
  show "adam3_perm (adam3_index (a, b, c)) = (a, b, c)"
    by (simp only: adam3_perm_def i d e Let_def b c [unfolded Let_def])
qed

lemma adam3_index_perm:
  assumes "p < 4896"
  shows "adam3_index (adam3_perm p) = p"
proof -
  define a r b c where "a = p div 272" and "r = p mod 272" and
    "b = (if a \<le> r div 16 then r div 16 + 1 else r div 16)" and
    "c = (let x = (if min a b \<le> r mod 16 then r mod 16 + 1 else r mod 16) in if max a b \<le> x then x + 1 else x)"
  have perm: "adam3_perm p = (a, b, c)"
    by (simp only: adam3_perm_def a_def r_def b_def c_def Let_def)
  have ab: "a \<noteq> b" by (auto simp: b_def)
  have b': "(if b > a then b - 1 else b) = r div 16" by (auto simp: b_def)
  have c': "(if c > max a b then c - 2 else if c > min a b then c - 1 else c) = r mod 16"
    using ab by (cases "a < b") (auto simp: c_def Let_def min_def max_def)
  have "p = a * 272 + (r div 16 * 16 + r mod 16)" by (simp add: a_def r_def)
  then show ?thesis unfolding perm by (simp only: adam3_index_def prod.case b' c' add.assoc)
qed

lemma adam3_perm_bij:
  "bij_betw adam3_perm {..<4896} {(a, b, c). a < 18 \<and> b < 18 \<and> c < 18 \<and> a \<noteq> b \<and> a \<noteq> c \<and> b \<noteq> c}"
proof (rule bij_betw_byWitness [where f' = adam3_index])
  show "\<forall>p \<in> {..<4896}. adam3_index (adam3_perm p) = p" by (simp add: adam3_index_perm)
  show "\<forall>x \<in> {(a, b, c). a < 18 \<and> b < 18 \<and> c < 18 \<and> a \<noteq> b \<and> a \<noteq> c \<and> b \<noteq> c}. adam3_perm (adam3_index x) = x"
    by (auto simp: adam3_perm_index)
  show "adam3_perm ` {..<4896} \<subseteq> {(a, b, c). a < 18 \<and> b < 18 \<and> c < 18 \<and> a \<noteq> b \<and> a \<noteq> c \<and> b \<noteq> c}"
  proof (intro image_subsetI, clarsimp)
    fix p a b c assume "p < 4896" "adam3_perm p = (a, b, c)"
    from adam3_perm_triple [OF this]
    show "a < 18 \<and> b < 18 \<and> c < 18 \<and> a \<noteq> b \<and> a \<noteq> c \<and> b \<noteq> c" by simp
  qed
  show "adam3_index ` {(a, b, c). a < 18 \<and> b < 18 \<and> c < 18 \<and> a \<noteq> b \<and> a \<noteq> c \<and> b \<noteq> c} \<subseteq> {..<4896}"
    by (auto simp: adam3_perm_index)
qed

text \<open>
  The permutation index that the previous block and the miner's key select names an ordered choice of three
  different algorithms out of eighteen, and every such choice has exactly one of the 4896 indices: no algorithm is used
  twice in a round and none of the choices is left out or counted twice.
\<close>

lemma adam_permutation_bijective:
  "bij_betw adam3_perm {..<4896} {(a, b, c). a < 18 \<and> b < 18 \<and> c < 18 \<and> a \<noteq> b \<and> a \<noteq> c \<and> b \<noteq> c} \<and>
   GetAdam3PermutationAlgos prev key \<in> adam3_perm ` {..<4896}"
proof
  have "unat ((ucast h :: u64) mod 4896) < 4896" for h :: uint256
    by (simp add: unat_mod)
  then show "GetAdam3PermutationAlgos prev key \<in> adam3_perm ` {..<4896}"
    unfolding GetAdam3PermutationAlgos_def Let_def by blast
qed (rule adam3_perm_bij)

text \<open>The signatures over the header are not part of what they sign.\<close>

lemma put_header_signature_free:
  "put_header True (b\<lparr>vAdamCoordinatorSig := x, vQuorumSig := y\<rparr>) = put_header True b"
  by (simp add: put_header_def)

lemma GetHash_signature_free:
  "GetHash sph (b\<lparr>vAdamCoordinatorSig := x, vQuorumSig := y\<rparr>) = GetHash sph b"
proof -
  let ?b = "b\<lparr>vAdamCoordinatorSig := x, vQuorumSig := y\<rparr>"
  have sel: "nVersion ?b = nVersion b" "hashPrevBlock ?b = hashPrevBlock b" "hashMerkleRoot ?b = hashMerkleRoot b"
    "nTime ?b = nTime b" "nBits ?b = nBits b" "nNonce ?b = nNonce b" "vAdamMiners ?b = vAdamMiners b"
    "vAdamSolutions ?b = vAdamSolutions b" by simp_all
  have r: "adam_round sph ?b = adam_round sph b"
    unfolding adam_round_def fun_eq_iff sel by simp
  show ?thesis unfolding GetHash_def put_header_signature_free sel r ..
qed

text \<open>
  A block whose fields fit their types is read back unchanged from its serialization, in every header version:
  accumulator checkpoints in versions 4 to 6, the ADAM data from version 11 on, the quorum signature from version 12 on,
  and the block signature of proof-of-stake blocks.
\<close>

lemma block_roundtrip:
  "wf_block b \<Longrightarrow> get_block (put_block b @ rest) = Some (b, rest)"
  by (rule block.get_put)

end
