(* ===== verification/BlockIndex.thy ===== *)
theory BlockIndex
  imports Pow Block
begin

text \<open>
  The tree of block headers and the active chain (\<open>src/src/chain.h\<close>, \<open>chain.cpp\<close> and the functions of \<open>main.cpp\<close> that
  walk it: \<open>GetAncestor\<close>, \<open>BuildSkip\<close>, \<open>LastCommonAncestor\<close>, \<open>FindForkInGlobalIndex\<close>).  Entries live in an explicit store from addresses to entries, so that
  \<open>pprev\<close> and \<open>pskip\<close> are addresses or null and following a null or dangling pointer is an error value.  Loops that follow
  \<open>pprev\<close> are partial functions: the outer \<open>None\<close> is a loop that does not return, which the lemmas exclude for a
  well-formed tree.
\<close>

section \<open>Entries\<close>

type_synonym ptr = nat

record CBlockIndex =
  phashBlock :: uint256
  pprev :: "ptr option"
  pskip :: "ptr option"
  ix_nHeight :: int
  ix_nFile :: int
  nDataPos :: u32
  nUndoPos :: u32
  nChainWork :: uint256
  nTx :: u32
  nChainTx :: u32
  nStatus :: u32
  vStakeModifier :: bytes
  ix_nFlags :: u32
  ix_nVersion :: int
  ix_hashMerkleRoot :: uint256
  ix_nTime :: u32
  ix_nBits :: u32
  ix_nNonce :: u32
  ix_nAccumulatorCheckpoint :: uint256
  nSequenceId :: u32

type_synonym block_tree = "ptr \<Rightarrow> CBlockIndex option"

datatype chain_error = NullPointer | OutOfRange | AssertFailed

abbreviation (input) BLOCK_VALID_TREE :: u32 where "BLOCK_VALID_TREE \<equiv> 2"
abbreviation (input) BLOCK_VALID_TRANSACTIONS :: u32 where "BLOCK_VALID_TRANSACTIONS \<equiv> 3"
abbreviation (input) BLOCK_VALID_MASK :: u32 where "BLOCK_VALID_MASK \<equiv> 7"
abbreviation (input) BLOCK_HAVE_DATA :: u32 where "BLOCK_HAVE_DATA \<equiv> 8"
abbreviation (input) BLOCK_HAVE_UNDO :: u32 where "BLOCK_HAVE_UNDO \<equiv> 16"
abbreviation (input) BLOCK_FAILED_VALID :: u32 where "BLOCK_FAILED_VALID \<equiv> 32"
abbreviation (input) BLOCK_FAILED_CHILD :: u32 where "BLOCK_FAILED_CHILD \<equiv> 64"
abbreviation (input) BLOCK_FAILED_MASK :: u32 where "BLOCK_FAILED_MASK \<equiv> 96"
abbreviation (input) BLOCK_PROOF_OF_STAKE :: u32 where "BLOCK_PROOF_OF_STAKE \<equiv> 1"
abbreviation (input) BLOCK_STAKE_ENTROPY :: u32 where "BLOCK_STAKE_ENTROPY \<equiv> 2"
abbreviation (input) BLOCK_STAKE_MODIFIER :: u32 where "BLOCK_STAKE_MODIFIER \<equiv> 4"

definition ix_GetBlockTime :: "CBlockIndex \<Rightarrow> int" where
  "ix_GetBlockTime b = uint (ix_nTime b)"

definition ix_IsProofOfStake :: "CBlockIndex \<Rightarrow> bool" where
  "ix_IsProofOfStake b \<longleftrightarrow> ix_nFlags b AND BLOCK_PROOF_OF_STAKE \<noteq> 0"

definition SetProofOfStake :: "CBlockIndex \<Rightarrow> CBlockIndex" where
  "SetProofOfStake b = b\<lparr>ix_nFlags := ix_nFlags b OR BLOCK_PROOF_OF_STAKE\<rparr>"

definition GeneratedStakeModifier :: "CBlockIndex \<Rightarrow> bool" where
  "GeneratedStakeModifier b \<longleftrightarrow> ix_nFlags b AND BLOCK_STAKE_MODIFIER \<noteq> 0"

definition GetStakeEntropyBit :: "CBlockIndex \<Rightarrow> u32" where
  "GetStakeEntropyBit b = ucast (phashBlock b) AND 1"

definition SetStakeEntropyBit :: "u32 \<Rightarrow> CBlockIndex \<Rightarrow> bool \<times> CBlockIndex" where
  "SetStakeEntropyBit nEntropyBit b =
     (if nEntropyBit > 1 then (False, b)
      else (True, b\<lparr>ix_nFlags := ix_nFlags b OR (if nEntropyBit \<noteq> 0 then BLOCK_STAKE_ENTROPY else 0)\<rparr>))"

definition SetStakeModifier :: "u64 \<Rightarrow> bool \<Rightarrow> CBlockIndex \<Rightarrow> CBlockIndex" where
  "SetStakeModifier nStakeModifier fGenerated b =
     b\<lparr>vStakeModifier := WriteLE64 nStakeModifier,
       ix_nFlags := (if fGenerated then ix_nFlags b OR BLOCK_STAKE_MODIFIER else ix_nFlags b)\<rparr>"

definition GetStakeModifierV1 :: "CBlockIndex \<Rightarrow> u64" where
  "GetStakeModifierV1 b = (if vStakeModifier b = [] then 0 else ReadLE64 (vStakeModifier b))"

text \<open>\<open>None\<close> is the failed assertion that only validity bits are passed.\<close>

definition ix_IsValid :: "u32 \<Rightarrow> CBlockIndex \<Rightarrow> bool option" where
  "ix_IsValid nUpTo b =
     (if nUpTo AND NOT BLOCK_VALID_MASK \<noteq> 0 then None
      else if nStatus b AND BLOCK_FAILED_MASK \<noteq> 0 then Some False
      else Some (nStatus b AND BLOCK_VALID_MASK \<ge> nUpTo))"

definition RaiseValidity :: "u32 \<Rightarrow> CBlockIndex \<Rightarrow> (bool \<times> CBlockIndex) option" where
  "RaiseValidity nUpTo b =
     (if nUpTo AND NOT BLOCK_VALID_MASK \<noteq> 0 then None
      else if nStatus b AND BLOCK_FAILED_MASK \<noteq> 0 then Some (False, b)
      else if nStatus b AND BLOCK_VALID_MASK < nUpTo
      then Some (True, b\<lparr>nStatus := (nStatus b AND NOT BLOCK_VALID_MASK) OR nUpTo\<rparr>)
      else Some (False, b))"

text \<open>The entry of a new block and the header rebuilt from an entry.\<close>

definition new_index :: "CBlock \<Rightarrow> CBlockIndex" where
  "new_index block =
     (let h = header block;
          b = \<lparr>phashBlock = 0, pprev = None, pskip = None, ix_nHeight = 0, ix_nFile = 0, nDataPos = 0, nUndoPos = 0,
               nChainWork = 0, nTx = 0, nChainTx = 0, nStatus = 0, vStakeModifier = [], ix_nFlags = 0,
               ix_nVersion = nVersion h, ix_hashMerkleRoot = hashMerkleRoot h, ix_nTime = nTime h, ix_nBits = nBits h,
               ix_nNonce = nNonce h, ix_nAccumulatorCheckpoint = 0, nSequenceId = 0\<rparr>;
          b = (if nVersion h > 3 \<and> nVersion h < 7
               then b\<lparr>ix_nAccumulatorCheckpoint := nAccumulatorCheckpoint h\<rparr> else b)
      in if IsProofOfStake block then SetProofOfStake b else b)"


section \<open>Ancestors\<close>

definition InvertLowestOne :: "int \<Rightarrow> int" where
  "InvertLowestOne n = n AND (n - 1)"

definition GetSkipHeight :: "int \<Rightarrow> int" where
  "GetSkipHeight height =
     (if height < 2 then 0
      else if height AND 1 \<noteq> 0 then InvertLowestOne (InvertLowestOne (height - 1)) + 1
      else InvertLowestOne height)"

lemma and_pred_less: "0 < n \<Longrightarrow> 0 \<le> n AND (n - 1) \<and> n AND (n - 1) < (n :: int)"
  using AND_upper2 [of "n - 1" n] by simp

lemma GetSkipHeight_less:
  assumes "0 < height"
  shows "0 \<le> GetSkipHeight height \<and> GetSkipHeight height < height"
proof (cases "height < 2")
  case False
  let ?n = "InvertLowestOne (height - 1)"
  have n: "0 \<le> ?n" "?n < height - 1" using False and_pred_less [of "height - 1"] by (simp_all add: InvertLowestOne_def)
  have "0 \<le> InvertLowestOne ?n \<and> InvertLowestOne ?n \<le> ?n"
    using n and_pred_less [of ?n] by (cases "?n = 0") (auto simp: InvertLowestOne_def)
  moreover have "0 \<le> InvertLowestOne height" "InvertLowestOne height < height"
    using False and_pred_less [of height] by (simp_all add: InvertLowestOne_def)
  ultimately show ?thesis using False n by (auto simp: GetSkipHeight_def)
qed (use assms in \<open>simp add: GetSkipHeight_def\<close>)

text \<open>The walk is only entered with \<open>0 \<le> height\<close>; a negative height ends it at once so that the recursion is total.\<close>

function GetAncestor_walk :: "block_tree \<Rightarrow> int \<Rightarrow> ptr option \<Rightarrow> int \<Rightarrow> chain_error + ptr option" where
  "GetAncestor_walk t height pindexWalk heightWalk =
     (if heightWalk \<le> height \<or> height < 0 then Inr pindexWalk
      else case pindexWalk of
        None \<Rightarrow> Inl NullPointer
      | Some p \<Rightarrow>
          (case t p of
             None \<Rightarrow> Inl NullPointer
           | Some b \<Rightarrow>
               let heightSkip = GetSkipHeight heightWalk;
                   heightSkipPrev = GetSkipHeight (heightWalk - 1)
               in if heightSkip = height \<or> (heightSkip > height \<and> \<not> (heightSkipPrev < heightSkip - 2 \<and> heightSkipPrev \<ge> height))
                  then GetAncestor_walk t height (pskip b) heightSkip
                  else GetAncestor_walk t height (pprev b) (heightWalk - 1)))"
  by auto
termination
proof (relation "measure (\<lambda>(t, height, p, heightWalk). nat heightWalk)", goal_cases)
  case (2 t height p heightWalk)
  then show ?case using GetSkipHeight_less [of heightWalk] by (auto simp: zless_nat_conj)
qed auto

declare GetAncestor_walk.simps [simp del]

definition GetAncestor :: "block_tree \<Rightarrow> ptr \<Rightarrow> int \<Rightarrow> chain_error + ptr option" where
  "GetAncestor t p height =
     (case t p of
        None \<Rightarrow> Inl NullPointer
      | Some b \<Rightarrow> if height > ix_nHeight b \<or> height < 0 then Inr None else GetAncestor_walk t height (Some p) (ix_nHeight b))"

definition BuildSkip :: "block_tree \<Rightarrow> CBlockIndex \<Rightarrow> chain_error + CBlockIndex" where
  "BuildSkip t b =
     (case pprev b of
        None \<Rightarrow> Inr b
      | Some q \<Rightarrow>
          (case GetAncestor t q (GetSkipHeight (ix_nHeight b)) of
             Inl err \<Rightarrow> Inl err
           | Inr a \<Rightarrow> Inr (b\<lparr>pskip := a\<rparr>)))"


section \<open>Block times\<close>

text \<open>The times of an entry and its predecessors, at most \<open>n\<close> of them.\<close>

fun past_times :: "block_tree \<Rightarrow> nat \<Rightarrow> ptr option \<Rightarrow> int list" where
  "past_times t 0 pindex = []"
| "past_times t (Suc n) pindex =
     (case pindex of
        None \<Rightarrow> []
      | Some p \<Rightarrow> (case t p of None \<Rightarrow> [] | Some b \<Rightarrow> ix_GetBlockTime b # past_times t n (pprev b)))"

definition nMedianTimeSpan :: nat where "nMedianTimeSpan = 11"

definition GetMedianTimePast :: "block_tree \<Rightarrow> ptr \<Rightarrow> int" where
  "GetMedianTimePast t p = (let times = sort (past_times t nMedianTimeSpan (Some p)) in times ! (length times div 2))"

definition MaxFutureBlockTime :: "ConsensusParams \<Rightarrow> int \<Rightarrow> CBlockIndex \<Rightarrow> int" where
  "MaxFutureBlockTime consensus adjustedTime b = adjustedTime + FutureBlockTimeDrift consensus (ix_nHeight b + 1)"

definition MinPastBlockTime :: "ConsensusParams \<Rightarrow> block_tree \<Rightarrow> ptr \<Rightarrow> CBlockIndex \<Rightarrow> int" where
  "MinPastBlockTime consensus t p b =
     (if \<not> IsTimeProtocolV2 consensus (ix_nHeight b + 1) then GetMedianTimePast t p
      else if ix_nHeight b + 1 = nActivationHeight (vUpgrades consensus UPGRADE_TIME_PROTOCOL_V2)
      then ix_GetBlockTime b - FutureBlockTimeDrift consensus (ix_nHeight b) + FutureBlockTimeDrift consensus (ix_nHeight b + 1)
      else ix_GetBlockTime b)"

section \<open>The active chain\<close>

text \<open>An element of \<open>vChain\<close> is a pointer that may be null.\<close>

record CChain =
  vChain :: "ptr option list"
  atomicTip :: "ptr option"

definition chain_Genesis :: "CChain \<Rightarrow> ptr option" where
  "chain_Genesis c = (if vChain c \<noteq> [] then vChain c ! 0 else None)"

definition chain_at :: "CChain \<Rightarrow> int \<Rightarrow> ptr option" where
  "chain_at c nHeight = (if nHeight < 0 \<or> nHeight \<ge> int (length (vChain c)) then None else vChain c ! nat nHeight)"

definition chain_Tip :: "CChain \<Rightarrow> ptr option" where
  "chain_Tip c = (if vChain c = [] then None else last (vChain c))"

definition chain_Height :: "CChain \<Rightarrow> int" where
  "chain_Height c = int (length (vChain c)) - 1"

definition chain_Contains :: "block_tree \<Rightarrow> CChain \<Rightarrow> ptr \<Rightarrow> bool" where
  "chain_Contains t c p = (case t p of None \<Rightarrow> False | Some b \<Rightarrow> chain_at c (ix_nHeight b) = Some p)"

definition chain_Next :: "block_tree \<Rightarrow> CChain \<Rightarrow> ptr \<Rightarrow> ptr option" where
  "chain_Next t c p =
     (case t p of None \<Rightarrow> None | Some b \<Rightarrow> if chain_Contains t c p then chain_at c (ix_nHeight b + 1) else None)"

partial_function (option) stake_tip_walk :: "block_tree \<Rightarrow> ptr option \<Rightarrow> (chain_error + ptr option) option" where
  "stake_tip_walk t pindex =
     (case pindex of
        None \<Rightarrow> Some (Inr None)
      | Some p \<Rightarrow>
          (case t p of
             None \<Rightarrow> Some (Inl NullPointer)
           | Some b \<Rightarrow> if pprev b \<noteq> None \<and> \<not> ix_IsProofOfStake b then stake_tip_walk t (pprev b) else Some (Inr (Some p))))"

definition chain_StakeTip :: "block_tree \<Rightarrow> CChain \<Rightarrow> (chain_error + ptr option) option" where
  "chain_StakeTip t c = stake_tip_walk t (chain_Tip c)"

definition resize :: "nat \<Rightarrow> ptr option list \<Rightarrow> ptr option list" where
  "resize n v = take n v @ replicate (n - length v) None"

partial_function (option) SetTip_loop :: "block_tree \<Rightarrow> ptr option list \<Rightarrow> ptr option \<Rightarrow> (chain_error + ptr option list) option" where
  "SetTip_loop t v pindex =
     (case pindex of
        None \<Rightarrow> Some (Inr v)
      | Some p \<Rightarrow>
          (case t p of
             None \<Rightarrow> Some (Inl NullPointer)
           | Some b \<Rightarrow>
               if ix_nHeight b < 0 \<or> ix_nHeight b \<ge> int (length v) then Some (Inl OutOfRange)
               else if v ! nat (ix_nHeight b) = Some p then Some (Inr v)
               else SetTip_loop t (v[nat (ix_nHeight b) := Some p]) (pprev b)))"

definition SetTip :: "block_tree \<Rightarrow> ptr option \<Rightarrow> CChain \<Rightarrow> (chain_error + CChain) option" where
  "SetTip t pindex c =
     (case pindex of
        None \<Rightarrow> Some (Inr \<lparr>vChain = [], atomicTip = None\<rparr>)
      | Some p \<Rightarrow>
          (case t p of
             None \<Rightarrow> Some (Inl NullPointer)
           | Some b \<Rightarrow>
               map_option (map_sum id (\<lambda>v. \<lparr>vChain = v, atomicTip = Some p\<rparr>))
                 (SetTip_loop t (resize (nat (ix_nHeight b + 1)) (vChain c)) (Some p))))"

partial_function (option) FindFork_loop :: "block_tree \<Rightarrow> CChain \<Rightarrow> ptr option \<Rightarrow> (chain_error + ptr option) option" where
  "FindFork_loop t c pindex =
     (case pindex of
        None \<Rightarrow> Some (Inr None)
      | Some p \<Rightarrow>
          (case t p of
             None \<Rightarrow> Some (Inl NullPointer)
           | Some b \<Rightarrow> if chain_Contains t c p then Some (Inr (Some p)) else FindFork_loop t c (pprev b)))"

definition FindFork :: "block_tree \<Rightarrow> CChain \<Rightarrow> ptr option \<Rightarrow> (chain_error + ptr option) option" where
  "FindFork t c pindex =
     (case pindex of
        None \<Rightarrow> Some (Inr None)
      | Some p \<Rightarrow>
          (case t p of
             None \<Rightarrow> Some (Inl NullPointer)
           | Some b \<Rightarrow>
               (case (if ix_nHeight b > chain_Height c then GetAncestor t p (chain_Height c) else Inr (Some p)) of
                  Inl err \<Rightarrow> Some (Inl err)
                | Inr q \<Rightarrow> FindFork_loop t c q)))"

partial_function (option) LastCommonAncestor_loop :: "block_tree \<Rightarrow> ptr option \<Rightarrow> ptr option \<Rightarrow> (chain_error + ptr option) option" where
  "LastCommonAncestor_loop t pa pb =
     (case pa of
        None \<Rightarrow> Some (if pa = pb then Inr pa else Inl AssertFailed)
      | Some a \<Rightarrow>
          (case pb of
             None \<Rightarrow> Some (Inl AssertFailed)
           | Some b \<Rightarrow>
               if a = b then Some (Inr (Some a))
               else (case t a of
                       None \<Rightarrow> Some (Inl NullPointer)
                     | Some ea \<Rightarrow>
                         (case t b of
                            None \<Rightarrow> Some (Inl NullPointer)
                          | Some eb \<Rightarrow> LastCommonAncestor_loop t (pprev ea) (pprev eb)))))"

definition LastCommonAncestor :: "block_tree \<Rightarrow> ptr \<Rightarrow> ptr \<Rightarrow> (chain_error + ptr option) option" where
  "LastCommonAncestor t pa pb =
     (case t pa of
        None \<Rightarrow> Some (Inl NullPointer)
      | Some a \<Rightarrow>
          (case t pb of
             None \<Rightarrow> Some (Inl NullPointer)
           | Some b \<Rightarrow>
               (case (if ix_nHeight a > ix_nHeight b then GetAncestor t pa (ix_nHeight b) else Inr (Some pa)) of
                  Inl err \<Rightarrow> Some (Inl err)
                | Inr pa' \<Rightarrow>
                    (case (if \<not> ix_nHeight a > ix_nHeight b \<and> ix_nHeight b > ix_nHeight a
                           then GetAncestor t pb (ix_nHeight a) else Inr (Some pb)) of
                       Inl err \<Rightarrow> Some (Inl err)
                     | Inr pb' \<Rightarrow> LastCommonAncestor_loop t pa' pb'))))"

partial_function (option) GetLocator_loop ::
  "block_tree \<Rightarrow> CChain \<Rightarrow> int \<Rightarrow> uint256 list \<Rightarrow> ptr option \<Rightarrow> (chain_error + uint256 list) option" where
  "GetLocator_loop t c nStep vHave pindex =
     (case pindex of
        None \<Rightarrow> Some (Inr vHave)
      | Some p \<Rightarrow>
          (case t p of
             None \<Rightarrow> Some (Inl NullPointer)
           | Some b \<Rightarrow>
               let vHave = vHave @ [phashBlock b] in
               if ix_nHeight b = 0 then Some (Inr vHave)
               else
                 let nHeight = max (ix_nHeight b - nStep) 0
                 in (case (if chain_Contains t c p then Inr (chain_at c nHeight) else GetAncestor t p nHeight) of
                       Inl err \<Rightarrow> Some (Inl err)
                     | Inr q \<Rightarrow> GetLocator_loop t c (if length vHave > 10 then nStep * 2 else nStep) vHave q)))"

definition GetLocator :: "block_tree \<Rightarrow> CChain \<Rightarrow> ptr option \<Rightarrow> (chain_error + uint256 list) option" where
  "GetLocator t c pindex = GetLocator_loop t c 1 [] (if pindex = None then chain_Tip c else pindex)"

text \<open>\<open>FindForkInGlobalIndex\<close>: the first known hash whose entry is in the chain.\<close>

fun FindForkInGlobalIndex :: "block_tree \<Rightarrow> (uint256 \<times> ptr) list \<Rightarrow> CChain \<Rightarrow> uint256 list \<Rightarrow> ptr option" where
  "FindForkInGlobalIndex t mapBlockIndex c [] = chain_Genesis c"
| "FindForkInGlobalIndex t mapBlockIndex c (hash # vHave) =
     (case map_of mapBlockIndex hash of
        None \<Rightarrow> FindForkInGlobalIndex t mapBlockIndex c vHave
      | Some p \<Rightarrow> if chain_Contains t c p then Some p else FindForkInGlobalIndex t mapBlockIndex c vHave)"

section \<open>Well-formed trees\<close>

text \<open>The entry reached from \<open>p\<close> by following \<open>pprev\<close> \<open>k\<close> times.\<close>

primrec up :: "block_tree \<Rightarrow> nat \<Rightarrow> ptr \<Rightarrow> ptr option" where
  "up t 0 p = (if t p = None then None else Some p)"
| "up t (Suc k) p = (case t p of None \<Rightarrow> None | Some b \<Rightarrow> (case pprev b of None \<Rightarrow> None | Some q \<Rightarrow> up t k q))"

text \<open>The height of an entry, and its ancestor at a height.\<close>

definition ht :: "block_tree \<Rightarrow> ptr \<Rightarrow> int" where
  "ht t p = (case t p of None \<Rightarrow> -1 | Some b \<Rightarrow> ix_nHeight b)"

definition anc :: "block_tree \<Rightarrow> ptr \<Rightarrow> int \<Rightarrow> ptr option" where
  "anc t p h = (if h < 0 \<or> h > ht t p then None else up t (nat (ht t p - h)) p)"

text \<open>
  A tree is well formed when only the genesis block has no parent, heights count the steps to it, and the skip pointer of
  every other block is its ancestor at the height \<open>GetSkipHeight\<close> prescribes.
\<close>

definition wf_parent :: "block_tree \<Rightarrow> bool" where
  "wf_parent t \<longleftrightarrow>
     (\<forall>p b. t p = Some b \<longrightarrow>
        0 \<le> ix_nHeight b \<and>
        (case pprev b of
           None \<Rightarrow> ix_nHeight b = 0
         | Some q \<Rightarrow> (\<exists>c. t q = Some c \<and> ix_nHeight b = ix_nHeight c + 1)))"

definition wf_tree :: "block_tree \<Rightarrow> bool" where
  "wf_tree t \<longleftrightarrow> wf_parent t \<and>
     (\<forall>p b. t p = Some b \<longrightarrow> 0 < ix_nHeight b \<longrightarrow> pskip b = anc t p (GetSkipHeight (ix_nHeight b)))"

lemma wf_treeD: "wf_tree t \<Longrightarrow> wf_parent t"
  by (simp add: wf_tree_def)

lemma wf_parent_height: "wf_parent t \<Longrightarrow> t p = Some b \<Longrightarrow> 0 \<le> ix_nHeight b"
  unfolding wf_parent_def by blast

lemma wf_parent_prev:
  "wf_parent t \<Longrightarrow> t p = Some b \<Longrightarrow> pprev b = Some q \<Longrightarrow> \<exists>c. t q = Some c \<and> ix_nHeight b = ix_nHeight c + 1"
  unfolding wf_parent_def by force

lemma wf_parent_genesis:
  assumes "wf_parent t" "t p = Some b"
  shows "pprev b = None \<longleftrightarrow> ix_nHeight b = 0"
  using assms wf_parent_prev [OF assms] wf_parent_height [OF assms(1)]
  unfolding wf_parent_def by (cases "pprev b") (force, fastforce)

lemma ht_Some [simp]: "t p = Some b \<Longrightarrow> ht t p = ix_nHeight b"
  by (simp add: ht_def)

lemma up_total:
  assumes "wf_parent t" "t p = Some b" "int k \<le> ix_nHeight b"
  obtains q c where "up t k p = Some q" "t q = Some c" "ix_nHeight c = ix_nHeight b - int k"
proof -
  have "\<exists>q c. up t k p = Some q \<and> t q = Some c \<and> ix_nHeight c = ix_nHeight b - int k"
    using assms(2,3)
  proof (induction k arbitrary: p b)
    case (Suc k)
    then obtain q where q: "pprev b = Some q"
      using wf_parent_genesis [OF assms(1) Suc.prems(1)] by fastforce
    from wf_parent_prev [OF assms(1) Suc.prems(1) q] obtain c where
      c: "t q = Some c" "ix_nHeight b = ix_nHeight c + 1" by blast
    have "int k \<le> ix_nHeight c" using Suc.prems(2) c by simp
    from Suc.IH [OF c(1) this] show ?case using q c Suc.prems by auto
  qed simp
  then show thesis using that by blast
qed

lemma up_add: "up t (j + k) p = (case up t j p of None \<Rightarrow> None | Some q \<Rightarrow> up t k q)"
proof (induction j arbitrary: p)
  case 0
  show ?case by (cases "t p"; cases k) auto
qed (auto split: option.splits)

lemma anc_total:
  assumes "wf_parent t" "t p = Some b" "0 \<le> h" "h \<le> ix_nHeight b"
  obtains q c where "anc t p h = Some q" "t q = Some c" "ix_nHeight c = h"
proof -
  obtain q c where "up t (nat (ix_nHeight b - h)) p = Some q" "t q = Some c" "ix_nHeight c = h"
    using up_total [OF assms(1,2), of "nat (ix_nHeight b - h)"] assms(3,4) by auto
  then show thesis using that [of q c] assms by (simp add: anc_def)
qed

lemma anc_self: "t p = Some b \<Longrightarrow> 0 \<le> ix_nHeight b \<Longrightarrow> anc t p (ix_nHeight b) = Some p"
  by (simp add: anc_def)

lemma anc_trans:
  assumes "wf_parent t" "t p = Some b" "anc t p h = Some q" "h' \<le> h"
  shows "anc t q h' = anc t p h'"
proof (cases "h' < 0")
  case False
  have h: "0 \<le> h" "h \<le> ix_nHeight b" using assms by (auto simp: anc_def split: if_splits)
  obtain c where c: "t q = Some c" "ix_nHeight c = h"
    using anc_total [OF assms(1,2) h] assms(3) by (metis option.inject)
  have "nat (ix_nHeight b - h') = nat (ix_nHeight b - h) + nat (h - h')" using assms(4) h by simp
  then show ?thesis using False c h assms by (simp add: anc_def up_add)
qed (simp add: anc_def)

lemma anc_prev:
  assumes "wf_parent t" "t p = Some b" "pprev b = Some q"
  shows "anc t p (ix_nHeight b - 1) = Some q"
proof -
  obtain c where "t q = Some c" "ix_nHeight b = ix_nHeight c + 1" using wf_parent_prev [OF assms] by blast
  then show ?thesis using assms wf_parent_height [OF assms(1) assms(2)] wf_parent_height [OF assms(1), of q c]
    by (simp add: anc_def)
qed

lemma anc_prev_below:
  assumes "wf_parent t" "t p = Some b" "pprev b = Some q" "h < ix_nHeight b"
  shows "anc t q h = anc t p h"
  using anc_trans [OF assms(1,2) anc_prev [OF assms(1-3)]] assms(4) by simp

lemma anc_height:
  assumes "wf_parent t" "t p = Some b" "anc t p h = Some q"
  shows "ht t q = h" "0 \<le> h" "h \<le> ix_nHeight b" "\<exists>c. t q = Some c \<and> ix_nHeight c = h"
proof -
  show h: "0 \<le> h" "h \<le> ix_nHeight b" using assms by (auto simp: anc_def split: if_splits)
  from anc_total [OF assms(1,2) h] assms(3) show "\<exists>c. t q = Some c \<and> ix_nHeight c = h" by (metis option.inject)
  then show "ht t q = h" by auto
qed

section \<open>Skip pointers\<close>

lemma GetAncestor_walk_anc:
  assumes "wf_tree t" "t p = Some b" "0 \<le> h" "h \<le> ix_nHeight b"
  shows "GetAncestor_walk t h (Some p) (ix_nHeight b) = Inr (anc t p h)"
  using assms(2,4)
proof (induction "nat (ix_nHeight b)" arbitrary: p b rule: less_induct)
  case less
  have wp: "wf_parent t" using assms(1) by (rule wf_treeD)
  show ?case
  proof (cases "ix_nHeight b \<le> h")
    case True
    then have "h = ix_nHeight b" using less.prems by simp
    then show ?thesis using less.prems assms(3)
      by (subst GetAncestor_walk.simps) (simp add: anc_def)
  next
    case False
    let ?s = "GetSkipHeight (ix_nHeight b)"
    have pos: "0 < ix_nHeight b" using False assms(3) by simp
    have s: "0 \<le> ?s" "?s < ix_nHeight b" using GetSkipHeight_less [OF pos] by auto
    have sk: "pskip b = anc t p ?s" using assms(1) less.prems(1) pos by (simp add: wf_tree_def)
    obtain k e where k: "anc t p ?s = Some k" "t k = Some e" "ix_nHeight e = ?s"
      using anc_total [OF wp less.prems(1) s(1)] s(2) by auto
    obtain q where q: "pprev b = Some q" using wf_parent_genesis [OF wp less.prems(1)] pos by fastforce
    obtain c where c: "t q = Some c" "ix_nHeight b = ix_nHeight c + 1"
      using wf_parent_prev [OF wp less.prems(1) q] by blast
    have "GetAncestor_walk t h (Some k) ?s = Inr (anc t p h)" if "h \<le> ?s"
      using less.hyps [of e k] k s that pos anc_trans [OF wp less.prems(1) k(1) that] by simp
    moreover have "GetAncestor_walk t h (Some q) (ix_nHeight b - 1) = Inr (anc t p h)"
      using less.hyps [of c q] c False pos wf_parent_height [OF wp c(1)]
        anc_prev_below [OF wp less.prems(1) q, of h] by simp
    ultimately show ?thesis using False assms(3) less.prems(1)
      by (subst GetAncestor_walk.simps) (auto simp: Let_def sk k q)
  qed
qed

lemma GetAncestor_anc:
  assumes "wf_tree t" "t p = Some b"
  shows "GetAncestor t p h = Inr (anc t p h)"
  using assms GetAncestor_walk_anc [OF assms, of h] by (auto simp: GetAncestor_def anc_def)

section \<open>The active chain as a path of the tree\<close>

definition chain_of :: "block_tree \<Rightarrow> ptr \<Rightarrow> ptr option list" where
  "chain_of t p = map (\<lambda>i. anc t p (int i)) [0..<nat (ht t p + 1)]"

definition chain_wf :: "block_tree \<Rightarrow> CChain \<Rightarrow> bool" where
  "chain_wf t c \<longleftrightarrow>
     (case atomicTip c of None \<Rightarrow> vChain c = [] | Some p \<Rightarrow> t p \<noteq> None \<and> vChain c = chain_of t p)"

lemma length_chain_of [simp]: "length (chain_of t p) = nat (ht t p + 1)"
  by (simp add: chain_of_def)

lemma chain_of_nth: "i < nat (ht t p + 1) \<Longrightarrow> chain_of t p ! i = anc t p (int i)"
  by (simp add: chain_of_def)

lemma chain_of_below:
  assumes "wf_parent t" "t p = Some b" "i < nat (ix_nHeight b + 1)" "chain_of t p ! i = Some q" "j \<le> i"
  shows "chain_of t p ! j = anc t q (int j)"
proof -
  have "anc t p (int i) = Some q" using assms by (simp add: chain_of_nth)
  then show ?thesis using anc_trans [OF assms(1,2), of "int i" q "int j"] assms by (simp add: chain_of_nth)
qed

text \<open>The elements of \<open>vChain\<close> that are present agree with the tree below them.\<close>

definition path_like :: "block_tree \<Rightarrow> ptr option list \<Rightarrow> nat \<Rightarrow> bool" where
  "path_like t v n \<longleftrightarrow> n \<le> length v \<and> (\<forall>i < n. \<forall>q. v ! i = Some q \<longrightarrow> (\<forall>j < i. v ! j = anc t q (int j)))"

lemma path_like_update: "path_like t v n \<Longrightarrow> m \<le> k \<Longrightarrow> m \<le> n \<Longrightarrow> path_like t (v[k := x]) m"
  unfolding path_like_def by (auto dest: less_le_trans)

lemma SetTip_loop_None [simp]: "SetTip_loop t v None = Some (Inr v)"
  by (subst SetTip_loop.simps) simp

lemma SetTip_loop_chain_of:
  assumes wp: "wf_parent t" and tip: "t tip = Some bt"
    and len: "length v = nat (ix_nHeight bt + 1)"
    and p: "t p = Some b" "anc t tip (ix_nHeight b) = Some p"
    and above: "\<forall>i < length v. ix_nHeight b < int i \<longrightarrow> v ! i = anc t tip (int i)"
    and below: "path_like t v (nat (ix_nHeight b + 1))"
  shows "SetTip_loop t v (Some p) = Some (Inr (chain_of t tip))"
  using p len above below
proof (induction "nat (ix_nHeight b)" arbitrary: p b v)
  case 0
  then have h: "ix_nHeight b = 0" using wf_parent_height [OF wp 0(2)] by simp
  then have pv: "pprev b = None" using wf_parent_genesis [OF wp 0(2)] by simp
  have l: "0 < length v" using 0 wf_parent_height [OF wp tip] by simp
  have "chain_of t tip = v[0 := Some p]"
    using 0 h l by (intro nth_equalityI) (auto simp: tip chain_of_nth nth_list_update)
  moreover have "chain_of t tip = v" if "v ! 0 = Some p"
    using calculation that by (metis list_update_id)
  ultimately show ?case
    using 0(2) h l pv by (subst SetTip_loop.simps) auto
next
  case (Suc n)
  have hb: "0 < ix_nHeight b" using Suc.hyps(2) by simp
  have le: "ix_nHeight b \<le> ix_nHeight bt" using anc_height [OF wp tip Suc.prems(2)] by simp
  have l: "nat (ix_nHeight b) < length v" using Suc.prems(3) le hb by simp
  obtain q where q: "pprev b = Some q" using wf_parent_genesis [OF wp Suc.prems(1)] hb by fastforce
  obtain c where c: "t q = Some c" "ix_nHeight b = ix_nHeight c + 1"
    using wf_parent_prev [OF wp Suc.prems(1) q] by blast
  show ?case
  proof (cases "v ! nat (ix_nHeight b) = Some p")
    case True
    have "chain_of t tip ! i = v ! i" if "i < length v" for i
    proof (cases "int i < ix_nHeight b")
      case lt: True
      have "nat (ix_nHeight b) < nat (ix_nHeight b + 1)" "i < nat (ix_nHeight b)" using lt hb by linarith+
      then have "v ! i = anc t p (int i)" using Suc.prems(5) True unfolding path_like_def by blast
      then show ?thesis
        using anc_trans [OF wp tip Suc.prems(2), of "int i"] that lt Suc.prems(3) by (simp add: tip chain_of_nth)
    next
      case False
      have "int i = ix_nHeight b \<Longrightarrow> nat (ix_nHeight b) = i" by (metis nat_int)
      then show ?thesis
        using False that Suc.prems(2-4) True by (cases "int i = ix_nHeight b") (auto simp: tip chain_of_nth)
    qed
    then have "chain_of t tip = v" using Suc.prems(3) by (intro nth_equalityI) (auto simp: tip)
    then show ?thesis using True Suc.prems(1) l hb by (subst SetTip_loop.simps) auto
  next
    case False
    let ?v = "v[nat (ix_nHeight b) := Some p]"
    have "anc t tip (ix_nHeight c) = Some q"
      using anc_trans [OF wp tip Suc.prems(2), of "ix_nHeight c"] anc_prev [OF wp Suc.prems(1) q] c by simp
    moreover have "\<forall>i < length ?v. ix_nHeight c < int i \<longrightarrow> ?v ! i = anc t tip (int i)"
      using Suc.prems(2,4) c l hb by (auto simp: nth_list_update)
    moreover have "path_like t ?v (nat (ix_nHeight c + 1))"
      using c hb by (intro path_like_update [OF Suc.prems(5)]) auto
    ultimately have "SetTip_loop t ?v (Some q) = Some (Inr (chain_of t tip))"
      using Suc.hyps(1) [of c q ?v] Suc.hyps(2) Suc.prems(3) c by simp
    then show ?thesis using False Suc.prems(1) l hb q by (subst SetTip_loop.simps) auto
  qed
qed

lemma path_like_resize:
  assumes "wf_parent t" "chain_wf t c"
  shows "path_like t (resize n (vChain c)) n"
proof (cases "atomicTip c")
  case None
  then show ?thesis using assms by (simp add: chain_wf_def resize_def path_like_def)
next
  case (Some o')
  then obtain b where o: "t o' = Some b" "vChain c = chain_of t o'" using assms by (auto simp: chain_wf_def)
  show ?thesis unfolding path_like_def
  proof (intro conjI allI impI)
    fix i q j
    assume i: "i < n" "resize n (vChain c) ! i = Some q" "j < i"
    have iv: "i < length (vChain c)"
      using i by (cases "i < length (vChain c)") (auto simp: resize_def nth_append min_def split: if_splits)
    then have "chain_of t o' ! i = Some q" using i o by (auto simp: resize_def nth_append)
    then show "resize n (vChain c) ! j = anc t q (int j)"
      using chain_of_below [OF assms(1) o(1), of i q j] iv i o by (simp add: resize_def nth_append)
  qed (simp add: resize_def)
qed

lemma SetTip_chain_of:
  assumes "wf_parent t" "chain_wf t c" "t p = Some b"
  shows "SetTip t (Some p) c = Some (Inr \<lparr>vChain = chain_of t p, atomicTip = Some p\<rparr>)"
proof -
  let ?v = "resize (nat (ix_nHeight b + 1)) (vChain c)"
  have h: "0 \<le> ix_nHeight b" by (rule wf_parent_height [OF assms(1,3)])
  have len: "length ?v = nat (ix_nHeight b + 1)" by (simp add: resize_def)
  have "SetTip_loop t ?v (Some p) = Some (Inr (chain_of t p))"
  proof (rule SetTip_loop_chain_of [OF assms(1,3) len assms(3)])
    show "anc t p (ix_nHeight b) = Some p" using assms(3) h by (simp add: anc_self)
    show "path_like t ?v (nat (ix_nHeight b + 1))" by (rule path_like_resize [OF assms(1,2)])
    show "\<forall>i < length ?v. ix_nHeight b < int i \<longrightarrow> ?v ! i = anc t p (int i)" unfolding len by auto
  qed
  then show ?thesis using assms(3) by (simp add: SetTip_def)
qed

lemma chain_Contains_anc:
  assumes "wf_parent t" "chain_wf t c" "atomicTip c = Some tip" "t q = Some e"
  shows "chain_Contains t c q \<longleftrightarrow> anc t tip (ix_nHeight e) = Some q"
proof -
  obtain b where b: "t tip = Some b" "vChain c = chain_of t tip" using assms by (auto simp: chain_wf_def)
  have "0 \<le> ix_nHeight e" by (rule wf_parent_height [OF assms(1,4)])
  then show ?thesis using assms(4) b
    by (auto simp: chain_Contains_def chain_at_def chain_of_nth anc_def)
qed

lemma chain_Height_wf:
  assumes "wf_parent t" "chain_wf t c" "atomicTip c = Some tip"
  shows "chain_Height c = ht t tip"
proof -
  obtain b where "t tip = Some b" "vChain c = chain_of t tip" using assms by (auto simp: chain_wf_def)
  then show ?thesis using wf_parent_height [OF assms(1)] by (simp add: chain_Height_def)
qed

section \<open>Fork points\<close>

text \<open>The highest entry that is an ancestor of both \<open>a\<close> and \<open>b\<close>, if any.\<close>

definition is_fork :: "block_tree \<Rightarrow> ptr \<Rightarrow> ptr \<Rightarrow> ptr option \<Rightarrow> bool" where
  "is_fork t a b r \<longleftrightarrow>
     (case r of
        None \<Rightarrow> (\<forall>h q. anc t a h = Some q \<longrightarrow> anc t b h \<noteq> Some q)
      | Some q \<Rightarrow> (\<exists>h. anc t a h = Some q \<and> anc t b h = Some q \<and>
                     (\<forall>h' q'. h < h' \<longrightarrow> anc t a h' = Some q' \<longrightarrow> anc t b h' \<noteq> Some q')))"

lemma is_fork_unique:
  assumes "is_fork t a b r" "is_fork t a b r'"
  shows "r = r'"
  using assms by (cases r; cases r') (auto simp: is_fork_def dest: linorder_cases, (metis linorder_cases option.inject)+)

lemma FindFork_loop_None [simp]: "FindFork_loop t c None = Some (Inr None)"
  by (subst FindFork_loop.simps) simp

lemma FindFork_loop_fork:
  assumes wf: "wf_parent t" "chain_wf t c" "atomicTip c = Some tip" and a: "t a = Some ea"
    and q: "t q = Some b" "anc t a (ix_nHeight b) = Some q"
    and above: "\<forall>h' q'. ix_nHeight b < h' \<longrightarrow> anc t a h' = Some q' \<longrightarrow> anc t tip h' \<noteq> Some q'"
  shows "\<exists>r. FindFork_loop t c (Some q) = Some (Inr r) \<and> is_fork t a tip r"
  using q above
proof (induction "nat (ix_nHeight b)" arbitrary: q b rule: less_induct)
  case less
  note cc = chain_Contains_anc [OF wf less.prems(1)]
  show ?case
  proof (cases "chain_Contains t c q")
    case True
    then have "is_fork t a tip (Some q)" using cc less.prems(2,3) by (auto simp: is_fork_def)
    then show ?thesis using True less.prems(1) by (subst FindFork_loop.simps) auto
  next
    case False
    then have ne: "anc t tip (ix_nHeight b) \<noteq> Some q" using cc by simp
    show ?thesis
    proof (cases "pprev b")
      case None
      have "ix_nHeight b = 0" using wf_parent_genesis [OF wf(1) less.prems(1)] None by simp
      then have "is_fork t a tip None" using ne less.prems(2,3) anc_height [OF wf(1) a]
        unfolding is_fork_def by (auto, metis linorder_neqE_linordered_idom not_less option.inject)
      then show ?thesis using False None less.prems(1) by (subst FindFork_loop.simps) auto
    next
      case (Some p)
      obtain e where e: "t p = Some e" "ix_nHeight b = ix_nHeight e + 1"
        using wf_parent_prev [OF wf(1) less.prems(1) Some] by blast
      have 1: "anc t a (ix_nHeight e) = Some p"
        using anc_trans [OF wf(1) a less.prems(2), of "ix_nHeight e"] anc_prev [OF wf(1) less.prems(1) Some] e by simp
      have 2: "\<forall>h' q'. ix_nHeight e < h' \<longrightarrow> anc t a h' = Some q' \<longrightarrow> anc t tip h' \<noteq> Some q'"
      proof (intro allI impI)
        fix h' q' assume h': "ix_nHeight e < h'" "anc t a h' = Some q'"
        show "anc t tip h' \<noteq> Some q'"
        proof (cases "h' = ix_nHeight b")
          case True then show ?thesis using h' ne less.prems(2) by auto
        next
          case False then show ?thesis using h' e less.prems(3) by auto
        qed
      qed
      have "nat (ix_nHeight e) < nat (ix_nHeight b)" using e wf_parent_height [OF wf(1) e(1)] by simp
      from less.hyps [OF this e(1) 1 2] show ?thesis
        using False Some less.prems(1) by (subst FindFork_loop.simps) auto
    qed
  qed
qed

lemma FindFork_fork:
  assumes "wf_tree t" "chain_wf t c" "atomicTip c = Some tip" "t a = Some ea"
  shows "\<exists>r. FindFork t c (Some a) = Some (Inr r) \<and> is_fork t a tip r"
proof -
  have wp: "wf_parent t" using assms(1) by (rule wf_treeD)
  obtain et where et: "t tip = Some et" using assms(2,3) by (auto simp: chain_wf_def)
  have H: "chain_Height c = ix_nHeight et" using chain_Height_wf [OF wp assms(2,3)] et by simp
  have ht0: "0 \<le> ix_nHeight et" "0 \<le> ix_nHeight ea" using wf_parent_height [OF wp] et assms(4) by auto
  show ?thesis
  proof (cases "ix_nHeight ea > chain_Height c")
    case True
    then obtain q b where q: "anc t a (ix_nHeight et) = Some q" "t q = Some b" "ix_nHeight b = ix_nHeight et"
      using anc_total [OF wp assms(4) ht0(1)] H by auto
    have "\<exists>r. FindFork_loop t c (Some q) = Some (Inr r) \<and> is_fork t a tip r"
      by (rule FindFork_loop_fork [OF wp assms(2-4) q(2)]) (use q et in \<open>auto simp: anc_def\<close>)
    then show ?thesis using True assms(4) H q by (auto simp: FindFork_def GetAncestor_anc [OF assms(1,4)])
  next
    case False
    have "\<exists>r. FindFork_loop t c (Some a) = Some (Inr r) \<and> is_fork t a tip r"
      by (rule FindFork_loop_fork [OF wp assms(2-4) assms(4)]) (use ht0 assms(4) in \<open>auto simp: anc_def\<close>)
    then show ?thesis using False assms(4) by (auto simp: FindFork_def)
  qed
qed

lemma LastCommonAncestor_loop_same [simp]: "LastCommonAncestor_loop t p p = Some (Inr p)"
  by (subst LastCommonAncestor_loop.simps) (simp split: option.split)

lemma LastCommonAncestor_loop_fork:
  assumes wp: "wf_parent t" and ab: "t a = Some ea" "t b = Some eb"
    and p: "t p = Some ep" "anc t a h = Some p" and q: "t q = Some eq" "anc t b h = Some q"
    and above: "\<forall>h' q'. h < h' \<longrightarrow> anc t a h' = Some q' \<longrightarrow> anc t b h' \<noteq> Some q'"
  shows "\<exists>r. LastCommonAncestor_loop t (Some p) (Some q) = Some (Inr r) \<and> is_fork t a b r"
  using p q above
proof (induction "nat h" arbitrary: p ep q eq h rule: less_induct)
  case less
  have hp: "ix_nHeight ep = h" "0 \<le> h" using anc_height [OF wp ab(1) less.prems(2)] less.prems(1) by auto
  have hq: "ix_nHeight eq = h" using anc_height [OF wp ab(2) less.prems(4)] less.prems(3) by auto
  show ?case
  proof (cases "p = q")
    case True
    then have "is_fork t a b (Some p)" using less.prems by (auto simp: is_fork_def)
    then show ?thesis using True by auto
  next
    case False
    have step: "LastCommonAncestor_loop t (Some p) (Some q) = LastCommonAncestor_loop t (pprev ep) (pprev eq)"
      using False less.prems by (subst LastCommonAncestor_loop.simps) simp
    show ?thesis
    proof (cases "h = 0")
      case True
      then have "pprev ep = None" "pprev eq = None"
        using wf_parent_genesis [OF wp less.prems(1)] wf_parent_genesis [OF wp less.prems(3)] hp hq by auto
      moreover have "is_fork t a b None"
        unfolding is_fork_def option.case
      proof (intro allI impI)
        fix h' q' assume h': "anc t a h' = Some q'"
        then have "0 \<le> h'" using anc_height [OF wp ab(1)] by blast
        then show "anc t b h' \<noteq> Some q'"
          using h' True False less.prems by (cases "h' = 0") auto
      qed
      ultimately show ?thesis using step by auto
    next
      case h: False
      obtain p' q' where pq: "pprev ep = Some p'" "pprev eq = Some q'"
        using wf_parent_genesis [OF wp less.prems(1)] wf_parent_genesis [OF wp less.prems(3)] hp hq h by fastforce
      obtain ep' eq' where e: "t p' = Some ep'" "t q' = Some eq'"
        using wf_parent_prev [OF wp less.prems(1) pq(1)] wf_parent_prev [OF wp less.prems(3) pq(2)] by blast
      have 1: "anc t a (h - 1) = Some p'"
        using anc_trans [OF wp ab(1) less.prems(2), of "h - 1"] anc_prev [OF wp less.prems(1) pq(1)] hp by simp
      have 2: "anc t b (h - 1) = Some q'"
        using anc_trans [OF wp ab(2) less.prems(4), of "h - 1"] anc_prev [OF wp less.prems(3) pq(2)] hq by simp
      have 3: "\<forall>h' r. h - 1 < h' \<longrightarrow> anc t a h' = Some r \<longrightarrow> anc t b h' \<noteq> Some r"
      proof (intro allI impI)
        fix h' r assume h': "h - 1 < h'" "anc t a h' = Some r"
        show "anc t b h' \<noteq> Some r"
          using h' less.prems False by (cases "h' = h") auto
      qed
      have "nat (h - 1) < nat h" using h hp by simp
      from less.hyps [OF this e(1) 1 e(2) 2 3] show ?thesis using step pq by simp
    qed
  qed
qed

lemma LastCommonAncestor_fork:
  assumes "wf_tree t" "t a = Some ea" "t b = Some eb"
  shows "\<exists>r. LastCommonAncestor t a b = Some (Inr r) \<and> is_fork t a b r"
proof -
  have wp: "wf_parent t" using assms(1) by (rule wf_treeD)
  have nn: "0 \<le> ix_nHeight ea" "0 \<le> ix_nHeight eb" using wf_parent_height [OF wp] assms by auto
  let ?h = "min (ix_nHeight ea) (ix_nHeight eb)"
  have hh: "0 \<le> ?h" "?h \<le> ix_nHeight ea" "?h \<le> ix_nHeight eb" using nn by auto
  obtain p ep where p: "anc t a ?h = Some p" "t p = Some ep" using anc_total [OF wp assms(2) hh(1,2)] by blast
  obtain q eq where q: "anc t b ?h = Some q" "t q = Some eq" using anc_total [OF wp assms(3) hh(1,3)] by blast
  have "\<forall>h' q'. ?h < h' \<longrightarrow> anc t a h' = Some q' \<longrightarrow> anc t b h' \<noteq> Some q'"
    using assms by (auto simp: anc_def)
  from LastCommonAncestor_loop_fork [OF wp assms(2,3) p(2,1) q(2,1) this]
  obtain r where r: "LastCommonAncestor_loop t (Some p) (Some q) = Some (Inr r)" "is_fork t a b r" by blast
  have self: "anc t a (ix_nHeight ea) = Some a" "anc t b (ix_nHeight eb) = Some b"
    using anc_self assms nn by auto
  have "LastCommonAncestor t a b = LastCommonAncestor_loop t (Some p) (Some q)"
    using p q self assms by (auto simp: LastCommonAncestor_def GetAncestor_anc [OF assms(1,2)] GetAncestor_anc [OF assms(1,3)] min_def split: if_splits)
  then show ?thesis using r by simp
qed

section \<open>Locators\<close>

text \<open>The heights a locator lists: ten single steps, then steps that double, down to the genesis block.\<close>

function loc_heights :: "int \<Rightarrow> nat \<Rightarrow> int \<Rightarrow> int list" where
  "loc_heights nStep n h =
     (if h \<le> 0 \<or> nStep \<le> 0 then [h]
      else h # loc_heights (if n \<ge> 10 then nStep * 2 else nStep) (Suc n) (max (h - nStep) 0))"
  by auto
termination by (relation "measure (\<lambda>(nStep, n, h). nat h)") auto

declare loc_heights.simps [simp del]

definition hash_at :: "block_tree \<Rightarrow> ptr \<Rightarrow> int \<Rightarrow> uint256" where
  "hash_at t p h = (case anc t p h of None \<Rightarrow> 0 | Some q \<Rightarrow> (case t q of None \<Rightarrow> 0 | Some b \<Rightarrow> phashBlock b))"

lemma chain_at_anc:
  assumes "wf_parent t" "chain_wf t c" "t p = Some b" "chain_Contains t c p" "0 \<le> h" "h \<le> ix_nHeight b"
  shows "chain_at c h = anc t p h"
proof -
  have "atomicTip c \<noteq> None"
    using assms by (cases "atomicTip c") (auto simp: chain_wf_def chain_Contains_def chain_at_def split: if_splits)
  then obtain tip where tip: "atomicTip c = Some tip" by blast
  obtain e where e: "t tip = Some e" "vChain c = chain_of t tip" using assms(2) tip by (auto simp: chain_wf_def)
  have a: "anc t tip (ix_nHeight b) = Some p" using chain_Contains_anc [OF assms(1,2) tip assms(3)] assms(4) by simp
  have "anc t p h = anc t tip h" using anc_trans [OF assms(1) e(1) a assms(6)] .
  moreover have "h \<le> ix_nHeight e" using anc_height [OF assms(1) e(1) a] assms(6) by simp
  ultimately show ?thesis using e assms(5) by (simp add: chain_at_def chain_of_nth)
qed

lemma loc_heights_le: "0 < s \<Longrightarrow> x \<in> set (loc_heights s n y) \<Longrightarrow> x \<le> y"
proof (induction s n y rule: loc_heights.induct)
  case (1 s n y)
  show ?case
  proof (cases "y \<le> 0")
    case True
    then show ?thesis using 1(3) by (simp add: loc_heights.simps [of s n y])
  next
    case False
    then have "x = y \<or> x \<in> set (loc_heights (if 10 \<le> n then s * 2 else s) (Suc n) (max (y - s) 0))"
      using 1(2,3) by (simp add: loc_heights.simps [of s n y])
    moreover have "0 < (if 10 \<le> n then s * 2 else s)" using 1(2) by simp
    ultimately have "x = y \<or> x \<le> max (y - s) 0" using 1(1,2) False by auto
    then show ?thesis using 1(2) False by auto
  qed
qed

lemma GetLocator_loop_heights:
  assumes wf: "wf_tree t" "chain_wf t c" and p: "t p = Some b" and "0 < nStep"
  shows "GetLocator_loop t c nStep vHave (Some p) =
    Some (Inr (vHave @ map (hash_at t p) (loc_heights nStep (length vHave) (ix_nHeight b))))"
  using p assms(4)
proof (induction "nat (ix_nHeight b)" arbitrary: p b nStep vHave rule: less_induct)
  case less
  have wp: "wf_parent t" using wf(1) by (rule wf_treeD)
  have h0: "0 \<le> ix_nHeight b" by (rule wf_parent_height [OF wp less.prems(1)])
  have self: "hash_at t p (ix_nHeight b) = phashBlock b"
    using less.prems(1) h0 by (simp add: hash_at_def anc_self)
  show ?case
  proof (cases "ix_nHeight b = 0")
    case True
    then show ?thesis using less.prems self
      by (subst GetLocator_loop.simps) (simp add: loc_heights.simps [of _ _ 0])
  next
    case False
    let ?h = "max (ix_nHeight b - nStep) 0"
    have hh: "0 \<le> ?h" "?h \<le> ix_nHeight b" "?h < ix_nHeight b" using False h0 less.prems(2) by auto
    obtain q e where q: "anc t p ?h = Some q" "t q = Some e" "ix_nHeight e = ?h"
      using anc_total [OF wp less.prems(1) hh(1,2)] by blast
    have nxt: "(if chain_Contains t c p then Inr (chain_at c ?h) else GetAncestor t p ?h) = Inr (Some q)"
      using chain_at_anc [OF wp wf(2) less.prems(1) _ hh(1,2)] q(1) GetAncestor_anc [OF wf(1) less.prems(1)] by simp
    let ?s = "if 10 < length (vHave @ [phashBlock b]) then nStep * 2 else nStep"
    have sub: "hash_at t q h = hash_at t p h" if "h \<le> ?h" for h
      using anc_trans [OF wp less.prems(1) q(1) that] by (simp add: hash_at_def)
    have "GetLocator_loop t c ?s (vHave @ [phashBlock b]) (Some q) =
      Some (Inr ((vHave @ [phashBlock b]) @ map (hash_at t q) (loc_heights ?s (length (vHave @ [phashBlock b])) ?h)))"
      using less.hyps [of e q ?s "vHave @ [phashBlock b]"] q hh less.prems(2) by simp
    moreover have "map (hash_at t q) (loc_heights ?s (length (vHave @ [phashBlock b])) ?h) =
        map (hash_at t p) (loc_heights ?s (length (vHave @ [phashBlock b])) ?h)"
    proof (intro map_cong refl sub)
      fix x assume "x \<in> set (loc_heights ?s (length (vHave @ [phashBlock b])) ?h)"
      then show "x \<le> ?h" using less.prems(2) by (intro loc_heights_le [of ?s]) auto
    qed
    moreover have "loc_heights nStep (length vHave) (ix_nHeight b) =
        ix_nHeight b # loc_heights ?s (length (vHave @ [phashBlock b])) ?h"
      using False h0 less.prems(2) by (subst loc_heights.simps) auto
    ultimately show ?thesis
      using False less.prems(1) nxt self by (subst GetLocator_loop.simps) (simp add: Let_def)
  qed
qed

lemma loc_heights_double:
  "10 \<le> n \<Longrightarrow> h \<le> 2 ^ j * (2 ^ m - 1) \<Longrightarrow> length (loc_heights (2 ^ j) n h) \<le> m + 1"
proof (induction m arbitrary: j n h)
  case 0
  then show ?case by (subst loc_heights.simps) simp
next
  case (Suc m)
  have "max (h - 2 ^ j) 0 \<le> 2 ^ (Suc j) * (2 ^ m - 1)"
  proof -
    have "2 ^ j * (2 ^ Suc m - 1) = 2 ^ j + 2 ^ Suc j * (2 ^ m - 1 :: int)" by (simp add: algebra_simps)
    moreover have "0 \<le> 2 ^ Suc j * (2 ^ m - 1 :: int)" by simp
    ultimately show ?thesis using Suc.prems(2) by linarith
  qed
  from Suc.IH [OF _ this, of "Suc n"] Suc.prems(1) show ?case
    by (subst loc_heights.simps) (auto simp: mult.commute)
qed

lemma loc_heights_single:
  "n \<le> 10 \<Longrightarrow> h < 2 ^ m + int (10 - n) \<Longrightarrow> length (loc_heights 1 n h) \<le> m + (11 - n)"
proof (induction "10 - n" arbitrary: n h)
  case 0
  then show ?case using loc_heights_double [of n h 0 m] by simp
next
  case (Suc k)
  have "max (h - 1) 0 < 2 ^ m + int (10 - Suc n)" 
  proof -
    have "int (10 - n) = int (10 - Suc n) + 1" "(0 :: int) < 2 ^ m" using Suc.hyps(2) by simp_all
    then show ?thesis using Suc.prems(2) by linarith
  qed
  moreover have "k = 10 - Suc n" "Suc n \<le> 10" using Suc.hyps(2) by simp_all
  ultimately have "length (loc_heights 1 (Suc n) (max (h - 1) 0)) \<le> m + (11 - Suc n)"
    using Suc.hyps(1) by blast
  then show ?case using Suc.hyps(2) Suc.prems(1) by (subst loc_heights.simps) auto
qed

lemma loc_heights_ends:
  assumes "0 < s" "0 \<le> h"
  shows "loc_heights s n h \<noteq> [] \<and> hd (loc_heights s n h) = h \<and> last (loc_heights s n h) = 0"
  using assms
proof (induction s n h rule: loc_heights.induct)
  case (1 s n h)
  then show ?case by (subst (1 2 3) loc_heights.simps) (auto split: if_splits)
qed

section \<open>Properties\<close>

text \<open>
  C16. In a well-formed tree \<open>GetAncestor\<close> returns for every entry and every height, along skip pointers or not, exactly the
  entry that following \<open>pprev\<close> reaches at that height, and null for heights that are negative or above the entry; it never
  follows a null pointer.
\<close>

theorem GetAncestor_correct:
  assumes "wf_tree t" "t p = Some b"
  shows "GetAncestor t p h = Inr (anc t p h) \<and> (anc t p h = None \<longleftrightarrow> h < 0 \<or> h > ix_nHeight b)"
proof
  show "GetAncestor t p h = Inr (anc t p h)" by (rule GetAncestor_anc [OF assms])
  show "anc t p h = None \<longleftrightarrow> h < 0 \<or> h > ix_nHeight b"
  proof (cases "h < 0 \<or> h > ix_nHeight b")
    case False
    then obtain q where "anc t p h = Some q" using anc_total [OF wf_treeD [OF assms(1)] assms(2), of h] by force
    then show ?thesis using False by simp
  qed (use assms(2) in \<open>auto simp: anc_def\<close>)
qed

text \<open>A chain of four blocks and a block that forks off after the genesis block.\<close>

definition demo_entry :: "uint256 \<Rightarrow> ptr option \<Rightarrow> ptr option \<Rightarrow> int \<Rightarrow> CBlockIndex" where
  "demo_entry hash prev skip h =
     (new_index \<lparr>header = header_SetNull, vtx = [], vchBlockSig = []\<rparr>)
       \<lparr>phashBlock := hash, pprev := prev, pskip := skip, ix_nHeight := h\<rparr>"

definition demo_tree :: block_tree where
  "demo_tree = [0 \<mapsto> demo_entry 100 None None 0, 1 \<mapsto> demo_entry 101 (Some 0) (Some 0) 1,
     2 \<mapsto> demo_entry 102 (Some 1) (Some 0) 2, 3 \<mapsto> demo_entry 103 (Some 2) (Some 1) 3,
     4 \<mapsto> demo_entry 104 (Some 0) (Some 0) 1]"

lemma demo_entry_simps [simp]:
  "pprev (demo_entry hash prev skip h) = prev" "pskip (demo_entry hash prev skip h) = skip"
  "ix_nHeight (demo_entry hash prev skip h) = h" "phashBlock (demo_entry hash prev skip h) = hash"
  by (simp_all add: demo_entry_def)

lemma demo_tree_nodes:
  "demo_tree 0 = Some (demo_entry 100 None None 0)" "demo_tree (Suc 0) = Some (demo_entry 101 (Some 0) (Some 0) 1)"
  "demo_tree 1 = Some (demo_entry 101 (Some 0) (Some 0) 1)"
  "demo_tree 2 = Some (demo_entry 102 (Some 1) (Some 0) 2)" "demo_tree 3 = Some (demo_entry 103 (Some 2) (Some 1) 3)"
  "demo_tree 4 = Some (demo_entry 104 (Some 0) (Some 0) 1)"
  by (simp_all add: demo_tree_def)

lemma up_numeral [simp]:
  "up t (numeral k) p =
    (case t p of None \<Rightarrow> None | Some b \<Rightarrow> (case pprev b of None \<Rightarrow> None | Some q \<Rightarrow> up t (pred_numeral k) q))"
  by (simp add: numeral_eq_Suc)

lemma demo_skip: "GetSkipHeight 1 = 0" "GetSkipHeight 2 = 0" "GetSkipHeight 3 = 1"
  by (simp_all add: GetSkipHeight_def InvertLowestOne_def)

lemma demo_anc:
  "anc demo_tree (Suc 0) 0 = Some 0" "anc demo_tree 2 0 = Some 0" "anc demo_tree 3 1 = Some 1" "anc demo_tree 4 0 = Some 0"
  by (simp_all add: anc_def ht_def demo_tree_nodes)

lemma demo_tree_wf: "wf_tree demo_tree"
proof -
  have dom: "p \<in> {0, 1, 2, 3, 4}" if "demo_tree p = Some b" for p b
    using that by (auto simp: demo_tree_def split: if_splits)
  have "wf_parent demo_tree"
    unfolding wf_parent_def
  proof (intro allI impI)
    fix p b assume "demo_tree p = Some b"
    then show "0 \<le> ix_nHeight b \<and> (case pprev b of None \<Rightarrow> ix_nHeight b = 0
        | Some q \<Rightarrow> \<exists>c. demo_tree q = Some c \<and> ix_nHeight b = ix_nHeight c + 1)"
      using dom [of p b] by (auto simp: demo_tree_nodes)
  qed
  moreover have "pskip b = anc demo_tree p (GetSkipHeight (ix_nHeight b))"
    if "demo_tree p = Some b" "0 < ix_nHeight b" for p b
    using dom [OF that(1)] that by (auto simp: demo_tree_nodes demo_anc demo_skip)
  ultimately show ?thesis by (simp add: wf_tree_def)
qed

theorem GetAncestor_correct_witness:
  "wf_tree demo_tree \<and> GetAncestor demo_tree 3 1 = Inr (Some 1) \<and> GetAncestor demo_tree 3 5 = Inr None"
  using GetAncestor_correct [OF demo_tree_wf demo_tree_nodes(5), of 1]
    GetAncestor_correct [OF demo_tree_wf demo_tree_nodes(5), of 5] demo_tree_wf demo_anc(3)
  by simp

text \<open>
  C17. \<open>SetTip\<close> returns, although it stops at the first entry that is already in place: from any earlier active chain, the
  new chain holds at every height exactly the ancestor of the new tip at that height, and nothing outside.
\<close>

theorem SetTip_correct:
  assumes "wf_tree t" "chain_wf t c" "t p = Some b"
  shows "\<exists>c'. SetTip t (Some p) c = Some (Inr c') \<and> chain_wf t c' \<and> atomicTip c' = Some p \<and>
    chain_Tip c' = Some p \<and> chain_Height c' = ix_nHeight b \<and> (\<forall>h. chain_at c' h = anc t p h)"
proof -
  let ?c = "\<lparr>vChain = chain_of t p, atomicTip = Some p\<rparr>"
  have wp: "wf_parent t" using assms(1) by (rule wf_treeD)
  have h: "0 \<le> ix_nHeight b" by (rule wf_parent_height [OF wp assms(3)])
  have at: "chain_at ?c h = anc t p h" for h
    using assms(3) by (auto simp: chain_at_def chain_of_nth anc_def)
  have "chain_of t p \<noteq> []" using assms(3) h by (auto simp: chain_of_def)
  moreover have "last (chain_of t p) = Some p"
    using calculation assms(3) h by (simp add: last_conv_nth chain_of_nth anc_self)
  ultimately show ?thesis
    using SetTip_chain_of [OF wp assms(2,3)] assms(3) h at
    by (auto simp: chain_wf_def chain_Tip_def chain_Height_def)
qed

lemma demo_chain_wf: "chain_wf demo_tree \<lparr>vChain = [Some 0, Some 1, Some 2, Some 3], atomicTip = Some 3\<rparr>"
proof -
  have "chain_of demo_tree 3 = [Some 0, Some 1, Some 2, Some 3]"
    by (simp add: chain_of_def ht_def demo_tree_nodes anc_def upt_rec)
  then show ?thesis by (simp add: chain_wf_def demo_tree_nodes)
qed

theorem SetTip_correct_witness:
  "wf_tree demo_tree \<and> chain_wf demo_tree \<lparr>vChain = [Some 0, Some 1, Some 2, Some 3], atomicTip = Some 3\<rparr> \<and>
   (\<exists>c'. SetTip demo_tree (Some 4) \<lparr>vChain = [Some 0, Some 1, Some 2, Some 3], atomicTip = Some 3\<rparr> = Some (Inr c') \<and>
     chain_at c' 0 = Some 0 \<and> chain_Height c' = 1)"
  using SetTip_correct [OF demo_tree_wf demo_chain_wf demo_tree_nodes(6)] demo_tree_wf demo_chain_wf demo_anc(4)
  by auto

text \<open>
  C28. The fork point of a block and the active chain, found by \<open>FindFork\<close> through the chain and by \<open>LastCommonAncestor\<close>
  through the tree, is the same in both and is the highest common ancestor of the block and the tip. Both loops return, and
  the assertion that the two walks meet never fails, also for trees with more than one root.
\<close>

theorem fork_point_correct:
  assumes "wf_tree t" "chain_wf t c" "atomicTip c = Some tip" "t a = Some ea"
  shows "\<exists>r. FindFork t c (Some a) = Some (Inr r) \<and> LastCommonAncestor t a tip = Some (Inr r) \<and> is_fork t a tip r"
proof -
  obtain et where "t tip = Some et" using assms(2,3) by (auto simp: chain_wf_def)
  from LastCommonAncestor_fork [OF assms(1,4) this] FindFork_fork [OF assms] is_fork_unique
  show ?thesis by metis
qed

theorem fork_point_correct_witness:
  "\<exists>r. FindFork demo_tree \<lparr>vChain = [Some 0, Some 1, Some 2, Some 3], atomicTip = Some 3\<rparr> (Some 4) = Some (Inr r) \<and>
     LastCommonAncestor demo_tree 4 3 = Some (Inr r) \<and> is_fork demo_tree 4 3 r"
  using fork_point_correct [OF demo_tree_wf demo_chain_wf _ demo_tree_nodes(6)] by simp

text \<open>
  The locator of an entry lists, on and off the active chain, hashes of its ancestors at heights that start at the entry
  and end at the genesis block, and has at most m + 11 elements for an entry below height \<open>2 ^ m\<close>. The step stays below
  \<open>2 ^ 31\<close> for entries below height \<open>2 ^ 30\<close>, where the model's unbounded step is the machine integer.
\<close>

lemma GetLocator_bounds:
  assumes "wf_tree t" "chain_wf t c" "t p = Some b" "ix_nHeight b < 2 ^ m"
  shows "\<exists>hs. GetLocator t c (Some p) = Some (Inr (map (hash_at t p) hs)) \<and> length hs \<le> m + 11 \<and>
    hs \<noteq> [] \<and> hd hs = ix_nHeight b \<and> last hs = 0"
proof -
  let ?hs = "loc_heights 1 0 (ix_nHeight b)"
  have "0 \<le> ix_nHeight b" by (rule wf_parent_height [OF wf_treeD [OF assms(1)] assms(3)])
  then have "?hs \<noteq> [] \<and> hd ?hs = ix_nHeight b \<and> last ?hs = 0" using loc_heights_ends [of 1] by simp
  moreover have "length ?hs \<le> m + 11" using loc_heights_single [of 0 "ix_nHeight b" m] assms(4) by simp
  moreover have "GetLocator t c (Some p) = Some (Inr (map (hash_at t p) ?hs))"
    using GetLocator_loop_heights [OF assms(1-3), of 1 "[]"] by (simp add: GetLocator_def)
  ultimately show ?thesis by blast
qed



end
