(* ===== verification/Bls.thy ===== *)
theory Bls
  imports Block
begin

text \<open>
  Hybrid signatures (crypto/bls.h, bls.cpp): a BLS12-381 signature together with an ECDSA signature of the BLS key, and
  the registry that pins one BLS key to every ECDSA key.

  The blst library and the curve operations of libsecp256k1 are the parameters \<open>blst\<close> and \<open>secp\<close>; a call that can
  throw returns an option. The registry is the map \<open>g_mapPinnedBLSPubKeys\<close>. The lemmas show that what
  \<open>SignBLSWithECDSAFallback\<close> produces is accepted, that a pinned key excludes every other one, and that unpinning a
  height undoes exactly the pins of that height.
\<close>

section \<open>Libraries\<close>

record ('g1, 'g2) blst =
  keygen :: "bytes \<Rightarrow> bytes option"
  sk_to_pk :: "bytes \<Rightarrow> 'g1"
  sign_hash :: "bytes \<Rightarrow> bytes \<Rightarrow> 'g2 option"
  P1_Affine :: "bytes \<Rightarrow> 'g1 option"
  P1_ok :: "'g1 \<Rightarrow> bool"
  P1_aggregate :: "'g1 \<Rightarrow> 'g1 \<Rightarrow> 'g1 option"
  P1_compress :: "'g1 \<Rightarrow> bytes"
  P2_Affine :: "bytes \<Rightarrow> 'g2 option"
  P2_ok :: "'g2 \<Rightarrow> bool"
  P2_aggregate :: "'g2 \<Rightarrow> 'g2 \<Rightarrow> 'g2 option"
  P2_compress :: "'g2 \<Rightarrow> bytes"
  core_verify :: "'g2 \<Rightarrow> 'g1 \<Rightarrow> bytes \<Rightarrow> bool"

record secp =
  ec_verify :: "bytes \<Rightarrow> uint256 \<Rightarrow> bytes \<Rightarrow> bool"
  ec_sign :: "bytes \<Rightarrow> uint256 \<Rightarrow> bytes"

definition pubkey_Verify :: "secp \<Rightarrow> cpubkey \<Rightarrow> uint256 \<Rightarrow> bytes \<Rightarrow> bool" where
  "pubkey_Verify ec k hash vchSig = (if \<not> pubkey_IsValid k then False else ec_verify ec (pubkey_bytes k) hash vchSig)"

record CKey =
  ck_fValid :: bool
  ck_keydata :: bytes

definition CKey_Sign :: "secp \<Rightarrow> CKey \<Rightarrow> uint256 \<Rightarrow> bytes option" where
  "CKey_Sign ec k hash = (if \<not> ck_fValid k then None else Some (ec_sign ec (ck_keydata k) hash))"

section \<open>Keys and signatures\<close>

record CBLSSecretKey =
  sk_data :: bytes
  sk_fValid :: bool

record CBLSPubKey =
  pk_data :: bytes
  pk_fValid :: bool

record CBLSSignature =
  sg_data :: bytes
  sg_fValid :: bool

definition secret_Reset :: CBLSSecretKey where
  "secret_Reset = \<lparr>sk_data = replicate 32 0, sk_fValid = False\<rparr>"

definition secret_SetBuf :: "bytes \<Rightarrow> bool \<times> CBLSSecretKey" where
  "secret_SetBuf b = (if length b \<noteq> 32 then (False, secret_Reset) else (True, \<lparr>sk_data = b, sk_fValid = True\<rparr>))"

definition blspk_Reset :: CBLSPubKey where
  "blspk_Reset = \<lparr>pk_data = replicate 48 0, pk_fValid = False\<rparr>"

definition blspk_of_secret :: "('g1, 'g2) blst \<Rightarrow> CBLSSecretKey \<Rightarrow> CBLSPubKey" where
  "blspk_of_secret bl sk =
     (if \<not> sk_fValid sk then blspk_Reset
      else \<lparr>pk_data = P1_compress bl (sk_to_pk bl (sk_data sk)), pk_fValid = True\<rparr>)"

definition blspk_SetBuf :: "('g1, 'g2) blst \<Rightarrow> bytes \<Rightarrow> bool \<times> CBLSPubKey" where
  "blspk_SetBuf bl b =
     (if length b \<noteq> 48 then (False, blspk_Reset)
      else case P1_Affine bl b of
        None \<Rightarrow> (False, blspk_Reset)
      | Some p \<Rightarrow> if P1_ok bl p then (True, \<lparr>pk_data = b, pk_fValid = True\<rparr>) else (False, blspk_Reset))"

definition sig_Reset :: CBLSSignature where
  "sig_Reset = \<lparr>sg_data = replicate 96 0, sg_fValid = False\<rparr>"

definition sig_SetBuf :: "('g1, 'g2) blst \<Rightarrow> bytes \<Rightarrow> bool \<times> CBLSSignature" where
  "sig_SetBuf bl b =
     (if length b \<noteq> 96 then (False, sig_Reset)
      else case P2_Affine bl b of
        None \<Rightarrow> (False, sig_Reset)
      | Some p \<Rightarrow> if P2_ok bl p then (True, \<lparr>sg_data = b, sg_fValid = True\<rparr>) else (False, sig_Reset))"

text \<open>\<open>Sign\<close> on the signature it is called on; the domain separation tag is part of the parameter.\<close>

definition sig_Sign :: "('g1, 'g2) blst \<Rightarrow> CBLSSignature \<Rightarrow> CBLSSecretKey \<Rightarrow> uint256 \<Rightarrow> bool \<times> CBLSSignature" where
  "sig_Sign bl this sk hash =
     (if \<not> sk_fValid sk then (False, this)
      else case sign_hash bl (sk_data sk) (put_uint256 hash) of
        None \<Rightarrow> (False, sig_Reset)
      | Some s \<Rightarrow> (True, \<lparr>sg_data = P2_compress bl s, sg_fValid = True\<rparr>))"

definition sig_Verify :: "('g1, 'g2) blst \<Rightarrow> CBLSSignature \<Rightarrow> CBLSPubKey \<Rightarrow> uint256 \<Rightarrow> bool" where
  "sig_Verify bl s pk hash =
     (if \<not> sg_fValid s \<or> \<not> pk_fValid pk then False
      else case (P2_Affine bl (sg_data s), P1_Affine bl (pk_data pk)) of
        (Some sa, Some pa) \<Rightarrow> core_verify bl sa pa (put_uint256 hash)
      | _ \<Rightarrow> False)"

text \<open>The loop of both \<open>Aggregate\<close> functions: the outer option is the exception, the inner one \<open>first\<close>.\<close>

fun aggregate_loop :: "(bytes \<Rightarrow> 'g option) \<Rightarrow> ('g \<Rightarrow> 'g \<Rightarrow> 'g option) \<Rightarrow> 'g option \<Rightarrow> (bytes \<times> bool) list \<Rightarrow> 'g option option" where
  "aggregate_loop affine add acc [] = Some acc"
| "aggregate_loop affine add acc ((d, valid) # xs) =
     (if \<not> valid then aggregate_loop affine add acc xs
      else case affine d of
        None \<Rightarrow> None
      | Some p \<Rightarrow>
          (case acc of
             None \<Rightarrow> aggregate_loop affine add (Some p) xs
           | Some a \<Rightarrow> (case add a p of None \<Rightarrow> None | Some q \<Rightarrow> aggregate_loop affine add (Some q) xs)))"

definition sig_Aggregate :: "('g1, 'g2) blst \<Rightarrow> CBLSSignature list \<Rightarrow> CBLSSignature" where
  "sig_Aggregate bl sigs =
     (if sigs = [] then sig_Reset
      else case aggregate_loop (P2_Affine bl) (P2_aggregate bl) None (map (\<lambda>s. (sg_data s, sg_fValid s)) sigs) of
        Some (Some agg) \<Rightarrow> \<lparr>sg_data = P2_compress bl agg, sg_fValid = True\<rparr>
      | _ \<Rightarrow> sig_Reset)"

definition blspk_Aggregate :: "('g1, 'g2) blst \<Rightarrow> CBLSPubKey list \<Rightarrow> CBLSPubKey" where
  "blspk_Aggregate bl pks =
     (if pks = [] then blspk_Reset
      else case aggregate_loop (P1_Affine bl) (P1_aggregate bl) None (map (\<lambda>k. (pk_data k, pk_fValid k)) pks) of
        Some (Some agg) \<Rightarrow> \<lparr>pk_data = P1_compress bl agg, pk_fValid = True\<rparr>
      | _ \<Rightarrow> blspk_Reset)"

definition DeriveBLSFromSeed :: "('g1, 'g2) blst \<Rightarrow> bytes \<Rightarrow> CBLSSecretKey" where
  "DeriveBLSFromSeed bl seed =
     (if seed = [] then secret_Reset
      else case keygen bl seed of None \<Rightarrow> secret_Reset | Some d \<Rightarrow> snd (secret_SetBuf d))"

definition DeriveBLSFromCKey :: "('g1, 'g2) blst \<Rightarrow> CKey \<Rightarrow> CBLSSecretKey" where
  "DeriveBLSFromCKey bl key = (if \<not> ck_fValid key then secret_Reset else DeriveBLSFromSeed bl (take 32 (ck_keydata key)))"

definition DeriveEphemeralBLSFromCKey :: "('g1, 'g2) blst \<Rightarrow> CKey \<Rightarrow> uint256 \<Rightarrow> CBLSSecretKey" where
  "DeriveEphemeralBLSFromCKey bl key contextHash =
     (if \<not> ck_fValid key then secret_Reset
      else if contextHash = 0 then DeriveBLSFromCKey bl key
      else DeriveBLSFromSeed bl (put_uint256 (Hash256 (take 32 (ck_keydata key) @ put_uint256 contextHash))))"

section \<open>Signed data\<close>

record CBLSSignedData =
  blsPubKey :: CBLSPubKey
  blsSig :: CBLSSignature
  ecdsaSig :: bytes

definition put_signed :: "CBLSSignedData \<Rightarrow> bytes" where
  "put_signed d = pk_data (blsPubKey d) @ sg_data (blsSig d) @ put_blob (ecdsaSig d)"

text \<open>Reading sets both validity flags.\<close>

definition get_signed :: "CBLSSignedData reader" where
  "get_signed s = do {
     (k, s) \<leftarrow> read_bytes 48 s;
     (g, s) \<leftarrow> read_bytes 96 s;
     (e, s) \<leftarrow> get_blob s;
     Some (\<lparr>blsPubKey = \<lparr>pk_data = k, pk_fValid = True\<rparr>, blsSig = \<lparr>sg_data = g, sg_fValid = True\<rparr>, ecdsaSig = e\<rparr>, s) }"

type_synonym pin_map = "cpubkey \<Rightarrow> (CBLSPubKey \<times> int) option"

definition GetPinnedBLSPubKey :: "pin_map \<Rightarrow> cpubkey \<Rightarrow> CBLSPubKey option" where
  "GetPinnedBLSPubKey m k =
     (if \<not> pubkey_IsValid k then None
      else case m k of Some (b, h) \<Rightarrow> if pk_fValid b then Some b else None | None \<Rightarrow> None)"

definition PinBLSPubKey :: "cpubkey \<Rightarrow> CBLSPubKey \<Rightarrow> int \<Rightarrow> pin_map \<Rightarrow> bool \<times> pin_map" where
  "PinBLSPubKey k b nHeight m =
     (if \<not> pubkey_IsValid k \<or> \<not> pk_fValid b then (False, m)
      else case m k of Some (b', h) \<Rightarrow> (b' = b, m) | None \<Rightarrow> (True, m(k \<mapsto> (b, nHeight))))"

definition UnpinBLSPubKeysAtHeight :: "int \<Rightarrow> pin_map \<Rightarrow> pin_map" where
  "UnpinBLSPubKeysAtHeight nHeight m =
     (\<lambda>k. case m k of Some (b, h) \<Rightarrow> if h = nHeight then None else Some (b, h) | None \<Rightarrow> None)"

definition ClearPinnedBLSPubKeys :: pin_map where
  "ClearPinnedBLSPubKeys = Map.empty"

definition ImportPinnedBLSPubKeys :: "pin_map \<Rightarrow> int \<Rightarrow> pin_map" where
  "ImportPinnedBLSPubKeys mapIn nMaxHeight =
     (\<lambda>k. case mapIn k of
        Some (b, h) \<Rightarrow> if pubkey_IsValid k \<and> pk_fValid b \<and> h \<le> nMaxHeight then Some (b, h) else None
      | None \<Rightarrow> None)"

definition SignBLSWithECDSAFallback ::
  "('g1, 'g2) blst \<Rightarrow> secp \<Rightarrow> uint256 \<Rightarrow> CKey \<Rightarrow> CBLSSecretKey \<Rightarrow> bytes option" where
  "SignBLSWithECDSAFallback bl ec hash ecdsaKey blsKey =
     (if \<not> ck_fValid ecdsaKey \<or> \<not> sk_fValid blsKey then None
      else
        let pk = blspk_of_secret bl blsKey;
            (ok, s) = sig_Sign bl sig_Reset blsKey hash
        in if \<not> ok then None
           else case CKey_Sign ec ecdsaKey (Hash256 (pk_data pk)) of
             None \<Rightarrow> None
           | Some e \<Rightarrow> Some (put_signed \<lparr>blsPubKey = pk, blsSig = s, ecdsaSig = e\<rparr>))"

definition VerifySelfContainedBLSSignedData :: "('g1, 'g2) blst \<Rightarrow> uint256 \<Rightarrow> bytes \<Rightarrow> CBLSPubKey option" where
  "VerifySelfContainedBLSSignedData bl hash vchSig =
     (if vchSig = [] then None
      else case get_signed vchSig of
        None \<Rightarrow> None
      | Some (d, rest) \<Rightarrow>
          if \<not> pk_fValid (blsPubKey d) \<or> \<not> sg_fValid (blsSig d) \<or> ecdsaSig d = [] then None
          else if \<not> sig_Verify bl (blsSig d) (blsPubKey d) hash then None
          else Some (blsPubKey d))"

definition ExtractBLSPubKeyFromSignedData :: "bytes \<Rightarrow> CBLSPubKey option" where
  "ExtractBLSPubKeyFromSignedData vchSig =
     (if vchSig = [] then None
      else case get_signed vchSig of
        None \<Rightarrow> None
      | Some (d, rest) \<Rightarrow> if pk_fValid (blsPubKey d) \<and> sg_fValid (blsSig d) then Some (blsPubKey d) else None)"

definition VerifyBLSWithECDSAFallback ::
  "('g1, 'g2) blst \<Rightarrow> secp \<Rightarrow> pin_map \<Rightarrow> uint256 \<Rightarrow> cpubkey \<Rightarrow> bytes \<Rightarrow> bool" where
  "VerifyBLSWithECDSAFallback bl ec pins hash k vchSig =
     (if vchSig = [] \<or> \<not> pubkey_IsValid k then False
      else case get_signed vchSig of
        None \<Rightarrow> False
      | Some (d, rest) \<Rightarrow>
          if pk_fValid (blsPubKey d) \<and> sg_fValid (blsSig d) then
            if \<not> pubkey_Verify ec k (Hash256 (pk_data (blsPubKey d))) (ecdsaSig d) then False
            else if (case GetPinnedBLSPubKey pins k of Some p \<Rightarrow> blsPubKey d \<noteq> p | None \<Rightarrow> False) then False
            else sig_Verify bl (blsSig d) (blsPubKey d) hash
          else False)"

section \<open>Signing and verifying\<close>

text \<open>
  What the node relies on: compression and decoding are inverse and of fixed size, and what a secret key signs verifies
  under its public key; an ECDSA key verifies what its private key signs, in signatures of at most 72 bytes.
\<close>

definition blst_ok :: "('g1, 'g2) blst \<Rightarrow> bool" where
  "blst_ok bl \<longleftrightarrow>
     (\<forall>p. P1_Affine bl (P1_compress bl p) = Some p \<and> length (P1_compress bl p) = 48) \<and>
     (\<forall>p. P2_Affine bl (P2_compress bl p) = Some p \<and> length (P2_compress bl p) = 96) \<and>
     (\<forall>sk m s. sign_hash bl sk m = Some s \<longrightarrow> core_verify bl s (sk_to_pk bl sk) m)"

definition key_pair :: "secp \<Rightarrow> CKey \<Rightarrow> cpubkey \<Rightarrow> bool" where
  "key_pair ec key k \<longleftrightarrow>
     pubkey_IsValid k \<and>
     (\<forall>h. ec_verify ec (pubkey_bytes k) h (ec_sign ec (ck_keydata key) h) \<and> length (ec_sign ec (ck_keydata key) h) \<le> 72)"

definition wf_signed :: "CBLSSignedData \<Rightarrow> bool" where
  "wf_signed d \<longleftrightarrow> length (pk_data (blsPubKey d)) = 48 \<and> pk_fValid (blsPubKey d) \<and>
     length (sg_data (blsSig d)) = 96 \<and> sg_fValid (blsSig d) \<and> length (ecdsaSig d) \<le> unat MAX_SIZE"

interpretation signed_data: canonical_codec wf_signed put_signed get_signed
proof
  fix d rest
  assume "wf_signed d"
  then show "get_signed (put_signed d @ rest) = Some (d, rest)"
    by (cases d, cases "blsPubKey d", cases "blsSig d")
      (auto simp: wf_signed_def put_signed_def get_signed_def read_bytes_def blob.get_put)
next
  fix s d r
  assume "get_signed s = Some (d, r)"
  then show "s = put_signed d @ r \<and> wf_signed d"
    by (auto simp: get_signed_def put_signed_def wf_signed_def bind_eq_Some_conv dest!: read_bytes_SomeD blob.canon)
qed

lemma put_signed_nonempty [simp]: "wf_signed d \<Longrightarrow> put_signed d \<noteq> []"
  by (auto simp: wf_signed_def put_signed_def)

lemma VerifyBLS_put:
  assumes "wf_signed d"
  shows "VerifyBLSWithECDSAFallback bl ec pins hash k (put_signed d) \<longleftrightarrow>
    pubkey_Verify ec k (Hash256 (pk_data (blsPubKey d))) (ecdsaSig d) \<and>
    GetPinnedBLSPubKey pins k \<in> {None, Some (blsPubKey d)} \<and> sig_Verify bl (blsSig d) (blsPubKey d) hash"
  using assms signed_data.get_put [OF assms, of "[]"]
  by (auto simp: VerifyBLSWithECDSAFallback_def pubkey_Verify_def wf_signed_def put_signed_nonempty [OF assms]
    split: option.splits)

lemma VerifyBLS_cases:
  assumes "VerifyBLSWithECDSAFallback bl ec pins hash k vchSig"
  obtains d rest where "vchSig = put_signed d @ rest" "wf_signed d"
    "pubkey_Verify ec k (Hash256 (pk_data (blsPubKey d))) (ecdsaSig d)"
    "GetPinnedBLSPubKey pins k \<in> {None, Some (blsPubKey d)}" "sig_Verify bl (blsSig d) (blsPubKey d) hash"
proof -
  from assms obtain d rest where d: "get_signed vchSig = Some (d, rest)"
    by (auto simp: VerifyBLSWithECDSAFallback_def split: if_splits option.splits)
  note c = signed_data.canon [OF d]
  have "pubkey_Verify ec k (Hash256 (pk_data (blsPubKey d))) (ecdsaSig d)"
    "GetPinnedBLSPubKey pins k \<in> {None, Some (blsPubKey d)}" "sig_Verify bl (blsSig d) (blsPubKey d) hash"
    using assms d by (auto simp: VerifyBLSWithECDSAFallback_def split: if_splits option.splits)
  with c that show thesis by blast
qed

lemma SignBLS_SomeD:
  assumes "SignBLSWithECDSAFallback bl ec hash key sk = Some v" "blst_ok bl" "key_pair ec key k"
  obtains d where "v = put_signed d" "wf_signed d" "blsPubKey d = blspk_of_secret bl sk"
    "sig_Verify bl (blsSig d) (blsPubKey d) hash" "pubkey_Verify ec k (Hash256 (pk_data (blsPubKey d))) (ecdsaSig d)"
proof -
  from assms(1) obtain s where s: "sign_hash bl (sk_data sk) (put_uint256 hash) = Some s" "sk_fValid sk" "ck_fValid key"
    by (auto simp: SignBLSWithECDSAFallback_def sig_Sign_def split: if_splits option.splits)
  define d where "d = \<lparr>blsPubKey = blspk_of_secret bl sk, blsSig = \<lparr>sg_data = P2_compress bl s, sg_fValid = True\<rparr>,
    ecdsaSig = ec_sign ec (ck_keydata key) (Hash256 (pk_data (blspk_of_secret bl sk)))\<rparr>"
  have "v = put_signed d"
    using assms(1) s by (simp add: SignBLSWithECDSAFallback_def sig_Sign_def CKey_Sign_def d_def Let_def)
  moreover have "length (ecdsaSig d) \<le> 72" using assms(3) by (simp add: key_pair_def d_def)
  then have "wf_signed d"
    using assms(2) s by (simp add: wf_signed_def d_def blspk_of_secret_def blst_ok_def MAX_SIZE_def)
  moreover have "sig_Verify bl (blsSig d) (blsPubKey d) hash"
    using assms(2) s by (simp add: sig_Verify_def d_def blspk_of_secret_def blst_ok_def)
  moreover have "pubkey_Verify ec k (Hash256 (pk_data (blsPubKey d))) (ecdsaSig d)"
    using assms(3) by (simp add: pubkey_Verify_def key_pair_def d_def)
  moreover have "blsPubKey d = blspk_of_secret bl sk" by (simp add: d_def)
  ultimately show thesis using that by blast
qed

text \<open>
  C29. What \<open>SignBLSWithECDSAFallback\<close> produces with a key pair is accepted by \<open>VerifyBLSWithECDSAFallback\<close> for the same
  hash and key exactly when the registry has no BLS key pinned to the ECDSA key, or the one that signed. The hypotheses
  state that the libraries verify what they sign and decode what they encode.
\<close>

theorem sign_verify_pinned:
  assumes "blst_ok bl" and "key_pair ec key k"
    and "SignBLSWithECDSAFallback bl ec hash key sk = Some v"
  shows "VerifyBLSWithECDSAFallback bl ec pins hash k v \<longleftrightarrow>
    GetPinnedBLSPubKey pins k \<in> {None, Some (blspk_of_secret bl sk)}"
  using SignBLS_SomeD [OF assms(3,1,2)] by (metis VerifyBLS_put)

text \<open>Stand-ins for the libraries, with which the hypotheses hold: one point in each group.\<close>

definition demo_blst :: "(unit, unit) blst" where
  "demo_blst = \<lparr>keygen = Some, sk_to_pk = \<lambda>_. (), sign_hash = \<lambda>_ _. Some (),
     P1_Affine = \<lambda>b. if length b = 48 then Some () else None, P1_ok = \<lambda>_. True, P1_aggregate = \<lambda>_ _. Some (),
     P1_compress = \<lambda>_. replicate 48 7, P2_Affine = \<lambda>b. if length b = 96 then Some () else None, P2_ok = \<lambda>_. True,
     P2_aggregate = \<lambda>_ _. Some (), P2_compress = \<lambda>_. replicate 96 9, core_verify = \<lambda>_ _ _. True\<rparr>"

definition demo_secp :: secp where
  "demo_secp = \<lparr>ec_verify = \<lambda>_ _ s. s = [48, 6], ec_sign = \<lambda>_ _. [48, 6]\<rparr>"

definition demo_key :: "u8 \<Rightarrow> cpubkey" where
  "demo_key n = CPubKey (2 # replicate 32 n)"

definition demo_secret :: CKey where
  "demo_secret = \<lparr>ck_fValid = True, ck_keydata = replicate 32 1\<rparr>"

definition demo_bls :: CBLSSecretKey where
  "demo_bls = DeriveBLSFromCKey demo_blst demo_secret"

lemma demo_key_valid [simp]: "pubkey_IsValid (demo_key n)"
  by (simp add: demo_key_def pubkey_IsValid_def pubkey_size_def GetLen_def COMPRESSED_PUBLIC_KEY_SIZE_def)

lemma demo_libraries: "blst_ok demo_blst" "key_pair demo_secp demo_secret (demo_key n)"
  by (simp_all add: blst_ok_def key_pair_def demo_blst_def demo_secp_def)

lemma demo_bls_fields [simp]: "sk_fValid demo_bls"
  by (simp add: demo_bls_def DeriveBLSFromCKey_def DeriveBLSFromSeed_def demo_secret_def demo_blst_def secret_SetBuf_def)

lemma demo_sign:
  "\<exists>v. SignBLSWithECDSAFallback demo_blst demo_secp hash demo_secret demo_bls = Some v"
  by (simp add: SignBLSWithECDSAFallback_def sig_Sign_def CKey_Sign_def demo_secret_def demo_blst_def Let_def)

theorem sign_verify_pinned_witness:
  "\<exists>v. SignBLSWithECDSAFallback demo_blst demo_secp 5 demo_secret demo_bls = Some v \<and>
     VerifyBLSWithECDSAFallback demo_blst demo_secp ClearPinnedBLSPubKeys 5 (demo_key 3) v \<and>
     \<not> VerifyBLSWithECDSAFallback demo_blst demo_secp [demo_key 3 \<mapsto> (\<lparr>pk_data = [], pk_fValid = True\<rparr>, 8)] 5 (demo_key 3) v"
proof -
  obtain v where v: "SignBLSWithECDSAFallback demo_blst demo_secp 5 demo_secret demo_bls = Some v"
    using demo_sign by blast
  note sv = sign_verify_pinned [OF demo_libraries v, of _ 3]
  show ?thesis
    by (intro exI [of _ v] conjI v; subst sv)
      (simp_all add: GetPinnedBLSPubKey_def ClearPinnedBLSPubKeys_def blspk_of_secret_def demo_blst_def)
qed

section \<open>The registry\<close>

primrec pin_all :: "int \<Rightarrow> (cpubkey \<times> CBLSPubKey) list \<Rightarrow> pin_map \<Rightarrow> pin_map" where
  "pin_all h [] m = m"
| "pin_all h (x # xs) m = pin_all h xs (snd (PinBLSPubKey (fst x) (snd x) h m))"

lemma Unpin_Pin [simp]:
  "UnpinBLSPubKeysAtHeight h (snd (PinBLSPubKey k b h m)) = UnpinBLSPubKeysAtHeight h m"
  by (auto simp: UnpinBLSPubKeysAtHeight_def PinBLSPubKey_def fun_eq_iff split: option.splits)

lemma Unpin_pin_all: "UnpinBLSPubKeysAtHeight h (pin_all h xs m) = UnpinBLSPubKeysAtHeight h m"
  by (induction xs arbitrary: m) simp_all

lemma Unpin_fresh: "(\<And>k b h'. m k = Some (b, h') \<Longrightarrow> h' \<noteq> h) \<Longrightarrow> UnpinBLSPubKeysAtHeight h m = m"
  by (auto simp: UnpinBLSPubKeysAtHeight_def fun_eq_iff split: option.splits)

lemma Pin_keeps: "m k = Some p \<Longrightarrow> snd (PinBLSPubKey k' b h m) k = Some p"
  by (auto simp: PinBLSPubKey_def split: option.splits)

lemma pin_all_keeps: "m k = Some p \<Longrightarrow> pin_all h xs m k = Some p"
  by (induction xs arbitrary: m) (simp_all add: Pin_keeps)

text \<open>
  C30. Whatever a block at a height pins, a key that was pinned before keeps its BLS key, so that no signature with another
  BLS key is accepted for it; and unpinning the height when the block is disconnected restores the registry exactly, if
  nothing was pinned at that height before.
\<close>

theorem pins_of_block_undone:
  assumes "\<And>k b h'. pins k = Some (b, h') \<Longrightarrow> h' < h"
  shows "UnpinBLSPubKeysAtHeight h (pin_all h xs pins) = pins \<and>
    (GetPinnedBLSPubKey pins k = Some b \<and> VerifyBLSWithECDSAFallback bl ec (pin_all h xs pins) hash k vchSig \<longrightarrow>
     (\<exists>d rest. vchSig = put_signed d @ rest \<and> wf_signed d \<and> blsPubKey d = b))"
proof (intro conjI impI; (elim conjE)?)
  show "UnpinBLSPubKeysAtHeight h (pin_all h xs pins) = pins"
    unfolding Unpin_pin_all by (rule Unpin_fresh) (use assms in blast)
  assume b: "GetPinnedBLSPubKey pins k = Some b" and v: "VerifyBLSWithECDSAFallback bl ec (pin_all h xs pins) hash k vchSig"
  from b obtain h' where "pins k = Some (b, h')" "pk_fValid b" "pubkey_IsValid k"
    by (auto simp: GetPinnedBLSPubKey_def split: if_splits option.splits)
  then have "GetPinnedBLSPubKey (pin_all h xs pins) k = Some b"
    by (simp add: GetPinnedBLSPubKey_def pin_all_keeps)
  with v show "\<exists>d rest. vchSig = put_signed d @ rest \<and> wf_signed d \<and> blsPubKey d = b"
    by (elim VerifyBLS_cases) auto
qed

theorem pins_of_block_undone_witness:
  "UnpinBLSPubKeysAtHeight 9 (pin_all 9 [(demo_key 2, blspk_of_secret demo_blst demo_bls)]
     [demo_key 3 \<mapsto> (blspk_of_secret demo_blst demo_bls, 8)]) = [demo_key 3 \<mapsto> (blspk_of_secret demo_blst demo_bls, 8)]"
  by (rule conjunct1 [OF pins_of_block_undone]) (simp split: if_splits)

end
