(* ===== verification/Masternodes.thy ===== *)
theory Masternodes
  imports Bls Standard Coins ConsensusParams
begin

text \<open>
  The on-chain masternode registry of adam.cpp: ping transactions, the activity heights of every masternode key, the
  collateral outpoint it is bound to, and the delegations of collaterals to operator keys with their history.

  The state is one record with a field per global map. \<open>std::map\<close> is a partial function where it is only looked up, and
  an association list sorted by key where the code iterates over it; \<open>std::set<int>\<close> is a strictly sorted list. The coins
  view is a partial function from outpoints to coins, absent when there is no view. The signature check of a masternode
  broadcast (masternode.cpp) and the hash behind key identifiers are parameters.

  The lemmas show that the registry keeps keys and collaterals in one-to-one correspondence and its height sets in step
  with the last height, that a ping keeps a masternode active for the whole window, that reverting a delegation restores
  the one before, and which ping transactions carry a signature.
\<close>

section \<open>Maps and sets of the standard library\<close>

fun map_put :: "'k :: linorder \<Rightarrow> 'v \<Rightarrow> ('k \<times> 'v) list \<Rightarrow> ('k \<times> 'v) list" where
  "map_put k v [] = [(k, v)]"
| "map_put k v ((k', v') # m) =
     (if k < k' then (k, v) # (k', v') # m else if k = k' then (k, v) # m else (k', v') # map_put k v m)"

definition map_erase :: "'k \<Rightarrow> ('k \<times> 'v) list \<Rightarrow> ('k \<times> 'v) list" where
  "map_erase k m = filter (\<lambda>p. fst p \<noteq> k) m"

section \<open>Delegations\<close>

text \<open>The network address is kept in its serialized form of 18 bytes.\<close>

record COnChainMasternodeDelegation =
  pubKeyCollateralAddress :: cpubkey
  pubKeyMasternode :: cpubkey
  del_addr :: bytes
  del_sigTime :: int
  del_protocolVersion :: int
  del_nMessVersion :: int
  vchCollateralSig :: bytes

definition no_delegation :: COnChainMasternodeDelegation where
  "no_delegation = \<lparr>pubKeyCollateralAddress = invalid_key, pubKeyMasternode = invalid_key, del_addr = replicate 18 0,
     del_sigTime = 0, del_protocolVersion = 0, del_nMessVersion = 0, vchCollateralSig = []\<rparr>"

definition put_delegation :: "COnChainMasternodeDelegation \<Rightarrow> bytes" where
  "put_delegation d = put_pubkey (pubKeyCollateralAddress d) @ put_pubkey (pubKeyMasternode d) @ del_addr d @
     put_int64 (del_sigTime d) @ put_int32 (del_protocolVersion d) @ put_int32 (del_nMessVersion d) @
     put_blob (vchCollateralSig d)"

definition get_delegation :: "COnChainMasternodeDelegation reader" where
  "get_delegation s = do {
     (c, s) \<leftarrow> get_pubkey s;
     (m, s) \<leftarrow> get_pubkey s;
     (a, s) \<leftarrow> read_bytes 18 s;
     (t, s) \<leftarrow> get_int64 s;
     (p, s) \<leftarrow> get_int32 s;
     (n, s) \<leftarrow> get_int32 s;
     (v, s) \<leftarrow> get_blob s;
     Some (\<lparr>pubKeyCollateralAddress = c, pubKeyMasternode = m, del_addr = a, del_sigTime = t, del_protocolVersion = p,
       del_nMessVersion = n, vchCollateralSig = v\<rparr>, s) }"

section \<open>The registry\<close>

record mn_state =
  mapMasternodeLastActiveHeight :: "cpubkey \<Rightarrow> int option"
  mapMasternodeActiveHeights :: "cpubkey \<Rightarrow> int list option"
  mapMasternodeCollateralOutpoints :: "(cpubkey \<times> COutPoint) list"
  mapOnChainCollateralDelegations :: "COutPoint \<Rightarrow> COnChainMasternodeDelegation option"
  mapCollateralDelegationFirstHeight :: "COutPoint \<Rightarrow> int option"
  mapCollateralDelegationHistory :: "COutPoint \<Rightarrow> (int \<times> COnChainMasternodeDelegation) list option"
  pinned_keys :: pin_map
  g_nMasternodePingStateGen :: u64

record mn_env =
  mn_CheckSignature :: "COnChainMasternodeDelegation \<Rightarrow> COutPoint \<Rightarrow> bool"
  mn_Hash160 :: "bytes \<Rightarrow> uint160"
  mn_secp :: secp
  mn_tip_height :: int

type_synonym coins_view = "(COutPoint \<Rightarrow> Coin option) option"

definition RecordCollateralDelegationWithHistory ::
  "COutPoint \<Rightarrow> COnChainMasternodeDelegation \<Rightarrow> int \<Rightarrow> mn_state \<Rightarrow> mn_state" where
  "RecordCollateralDelegationWithHistory op newDel nHeight s =
     (let s =
        (case mapOnChainCollateralDelegations s op of
           Some old \<Rightarrow>
             if pubKeyMasternode old \<noteq> pubKeyMasternode newDel then
               let prevFirstHeight = (case mapCollateralDelegationFirstHeight s op of Some h \<Rightarrow> h | None \<Rightarrow> 1);
                   vecHist = (case mapCollateralDelegationHistory s op of Some v \<Rightarrow> v | None \<Rightarrow> []) @ [(prevFirstHeight, old)];
                   vecHist = (if length vecHist > 16 then tl vecHist else vecHist)
               in s\<lparr>mapCollateralDelegationHistory := (mapCollateralDelegationHistory s)(op \<mapsto> vecHist),
                    mapCollateralDelegationFirstHeight := (mapCollateralDelegationFirstHeight s)(op \<mapsto> nHeight)\<rparr>
             else
               (case mapCollateralDelegationFirstHeight s op of
                  Some h \<Rightarrow> s\<lparr>mapCollateralDelegationFirstHeight := (mapCollateralDelegationFirstHeight s)(op \<mapsto> min h nHeight)\<rparr>
                | None \<Rightarrow> s\<lparr>mapCollateralDelegationFirstHeight := (mapCollateralDelegationFirstHeight s)(op \<mapsto> nHeight)\<rparr>)
         | None \<Rightarrow> s\<lparr>mapCollateralDelegationFirstHeight := (mapCollateralDelegationFirstHeight s)(op \<mapsto> nHeight)\<rparr>)
      in s\<lparr>mapOnChainCollateralDelegations := (mapOnChainCollateralDelegations s)(op \<mapsto> newDel)\<rparr>)"

text \<open>The first component is \<open>*pRestoredOldKeyOut\<close>.\<close>

definition RevertOnChainCollateralDelegation :: "COutPoint \<Rightarrow> cpubkey \<Rightarrow> int \<Rightarrow> mn_state \<Rightarrow> cpubkey \<times> mn_state" where
  "RevertOnChainCollateralDelegation op disconnectedPubKey nDisconnectedHeight s =
     (case mapOnChainCollateralDelegations s op of
        None \<Rightarrow> (invalid_key, s)
      | Some del \<Rightarrow>
          if pubKeyMasternode del \<noteq> disconnectedPubKey then (invalid_key, s)
          else
            let firstHeight = (case mapCollateralDelegationFirstHeight s op of Some h \<Rightarrow> h | None \<Rightarrow> nDisconnectedHeight)
            in if firstHeight < nDisconnectedHeight then (invalid_key, s)
               else
                 let hist = (case mapCollateralDelegationHistory s op of Some v \<Rightarrow> v | None \<Rightarrow> [])
                 in if hist \<noteq> [] then
                      let restored = snd (last hist)
                      in (pubKeyMasternode restored,
                          s\<lparr>mapOnChainCollateralDelegations := (mapOnChainCollateralDelegations s)(op \<mapsto> restored),
                            mapCollateralDelegationHistory := (mapCollateralDelegationHistory s)
                              (op := (if butlast hist = [] then None else Some (butlast hist))),
                            mapCollateralDelegationFirstHeight := (mapCollateralDelegationFirstHeight s)
                              (op \<mapsto> fst (last hist))\<rparr>)
                    else (invalid_key,
                          s\<lparr>mapOnChainCollateralDelegations := (mapOnChainCollateralDelegations s)(op := None),
                            mapCollateralDelegationFirstHeight := (mapCollateralDelegationFirstHeight s)(op := None)\<rparr>))"

definition VerifyOnChainDelegationSignature :: "mn_env \<Rightarrow> COnChainMasternodeDelegation \<Rightarrow> COutPoint \<Rightarrow> bool" where
  "VerifyOnChainDelegationSignature env del op =
     (if \<not> pubkey_IsValid (pubKeyCollateralAddress del) \<or> \<not> pubkey_IsValid (pubKeyMasternode del) \<or> vchCollateralSig del = []
      then False else mn_CheckSignature env del op)"

definition GetMasternodeNodeCollateral :: "int \<Rightarrow> int" where
  "GetMasternodeNodeCollateral nHeight = 4200 * COIN"

definition key_script :: "mn_env \<Rightarrow> cpubkey \<Rightarrow> bytes" where
  "key_script env k = GetScriptForDestination (CKeyID (pubkey_GetID (mn_Hash160 env) k))"

section \<open>Ping transactions\<close>

text \<open>The data pushes of an input script, up to the first instruction that does not decode.\<close>

function scriptSig_pushes :: "bytes \<Rightarrow> bytes list" where
  "scriptSig_pushes pc =
     (if pc = [] then []
      else case GetOp pc of
        None \<Rightarrow> []
      | Some (opcode, vch, pc') \<Rightarrow> (if opcode \<le> OP_PUSHDATA4 then [vch] else []) @ scriptSig_pushes pc')"
  by auto
termination
  by (relation "measure length") (auto dest: GetOp_shorter)

declare scriptSig_pushes.simps [simp del]

definition ping_leaf :: "bytes \<Rightarrow> cpubkey option" where
  "ping_leaf script =
     (if (length script = 36 \<and> script ! 0 = 33 \<and> script ! 34 = OP_CHECKSIGVERIFY \<and> script ! 35 = OP_1) \<or>
         (length script = 68 \<and> script ! 0 = 65 \<and> script ! 66 = OP_CHECKSIGVERIFY \<and> script ! 67 = OP_1)
      then let pubKey = pubkey_Set (take (unat (script ! 0)) (drop 1 script))
           in if pubkey_IsValid pubKey then Some pubKey else None
      else None)"

definition ping_input_key :: "CTxIn \<Rightarrow> cpubkey option" where
  "ping_input_key txin =
     (let stack = scriptSig_pushes (scriptSig txin)
      in if length stack \<ge> 2 then ping_leaf (stack ! (length stack - 2)) else None)"

fun first_some :: "('a \<Rightarrow> 'b option) \<Rightarrow> 'a list \<Rightarrow> 'b option" where
  "first_some f [] = None"
| "first_some f (x # xs) = (case f x of Some y \<Rightarrow> Some y | None \<Rightarrow> first_some f xs)"

text \<open>
  What the payload of one \<open>OP_RETURN\<close> output does: \<open>None\<close> is the \<open>return false\<close>, \<open>Some None\<close> an exception, after which
  the loop goes on, and \<open>Some (Some \<dots>)\<close> the result.
\<close>

definition ping_payload ::
  "mn_env \<Rightarrow> cpubkey \<Rightarrow> bool \<Rightarrow> COutPoint \<Rightarrow> bytes \<Rightarrow> (COutPoint \<times> COnChainMasternodeDelegation) option option" where
  "ping_payload env foundPubKey fSignedInput prev0 o_vch =
     (case get_outpoint o_vch of
        None \<Rightarrow> Some None
      | Some (op, ss) \<Rightarrow>
          let sig_part =
            (if \<not> fSignedInput then
               if ss = [] then None
               else case get_blob ss of
                 None \<Rightarrow> Some None
               | Some (vchPingSig, ss) \<Rightarrow>
                   if vchPingSig = [] \<or>
                      \<not> pubkey_Verify (mn_secp env) foundPubKey (Hash256 (put_outpoint op @ put_outpoint prev0)) vchPingSig
                   then None else Some (Some ss)
             else if ss \<noteq> [] then Some (map_option snd (get_blob ss))
             else Some (Some ss))
          in case sig_part of
               None \<Rightarrow> None
             | Some None \<Rightarrow> Some None
             | Some (Some ss) \<Rightarrow>
                 if ss = [] then Some (Some (op, no_delegation))
                 else if hd ss \<noteq> 0 \<and> tl ss \<noteq> [] then
                   (case get_delegation (tl ss) of
                      None \<Rightarrow> Some None
                    | Some (del, ss) \<Rightarrow>
                        Some (Some (op, if pubKeyMasternode del = foundPubKey \<and> VerifyOnChainDelegationSignature env del op
                                        then del else no_delegation)))
                 else Some (Some (op, no_delegation)))"

fun ping_outputs ::
  "mn_env \<Rightarrow> cpubkey \<Rightarrow> bool \<Rightarrow> COutPoint \<Rightarrow> CTxOut list \<Rightarrow> (COutPoint \<times> COnChainMasternodeDelegation) option" where
  "ping_outputs env k fSigned prev0 [] = None"
| "ping_outputs env k fSigned prev0 (out # outs) =
     (if IsUnspendable (scriptPubKey out) \<and> length (scriptPubKey out) \<ge> 38 \<and> scriptPubKey out ! 0 = OP_RETURN then
        case GetOp (drop 1 (scriptPubKey out)) of
          Some (o_opcode, o_vch, _) \<Rightarrow>
            if length o_vch \<ge> 36 then
              case ping_payload env k fSigned prev0 o_vch of
                None \<Rightarrow> None
              | Some None \<Rightarrow> ping_outputs env k fSigned prev0 outs
              | Some (Some r) \<Rightarrow> Some r
            else ping_outputs env k fSigned prev0 outs
        | None \<Rightarrow> ping_outputs env k fSigned prev0 outs
      else ping_outputs env k fSigned prev0 outs)"

text \<open>
  \<open>ExtractOnChainMasternodePing\<close> with \<open>fRecordDelegation\<close> unset, as every caller has it: the key, the collateral and the
  delegation, the default one if the transaction carries none that verifies.
\<close>

definition ExtractOnChainMasternodePing ::
  "mn_env \<Rightarrow> CTransaction \<Rightarrow> (cpubkey \<times> COutPoint \<times> COnChainMasternodeDelegation) option" where
  "ExtractOnChainMasternodePing env tx =
     (if IsCoinBase tx \<or> vin tx = [] then None
      else
        let found = (case first_some ping_input_key (vin tx) of
              Some k \<Rightarrow> Some (k, True)
            | None \<Rightarrow> map_option (\<lambda>k. (k, False)) (first_some (\<lambda>out. ping_leaf (scriptPubKey out)) (vout tx)))
        in case found of
             None \<Rightarrow> None
           | Some (k, fSigned) \<Rightarrow>
               map_option (\<lambda>(op, del). (k, op, del)) (ping_outputs env k fSigned (prevout (vin tx ! 0)) (vout tx)))"

section \<open>Activity\<close>

definition IsValidMasternodeCollateralAndAuth ::
  "mn_env \<Rightarrow> mn_state \<Rightarrow> coins_view \<Rightarrow> cpubkey \<Rightarrow> COutPoint \<Rightarrow> int \<Rightarrow> COnChainMasternodeDelegation option \<Rightarrow> bool" where
  "IsValidMasternodeCollateralAndAuth env s view k op nHeight inline =
     (if \<not> pubkey_IsValid k \<or> COutPoint_IsNull op then False
      else case view of
        None \<Rightarrow> False
      | Some coins \<Rightarrow>
          (case coins op of
             None \<Rightarrow> False
           | Some coin \<Rightarrow>
               if IsSpent coin then False
               else
                 let checkHeight = (if nHeight \<ge> 0 then nHeight else mn_tip_height env);
                     authorizes = (\<lambda>del. pubKeyMasternode del = k \<and> pubkey_IsValid (pubKeyCollateralAddress del) \<and>
                       scriptPubKey (coin_out coin) = key_script env (pubKeyCollateralAddress del) \<and>
                       VerifyOnChainDelegationSignature env del op)
                 in if nValue (coin_out coin) \<noteq> GetMasternodeNodeCollateral checkHeight then False
                    else if scriptPubKey (coin_out coin) = key_script env k then True
                    else if (case inline of Some del \<Rightarrow> authorizes del | None \<Rightarrow> False) then True
                    else (case mapOnChainCollateralDelegations s op of Some del \<Rightarrow> authorizes del | None \<Rightarrow> False)))"

definition IsMasternodeActiveAtHeight :: "mn_state \<Rightarrow> cpubkey \<Rightarrow> int \<Rightarrow> int \<Rightarrow> bool" where
  "IsMasternodeActiveAtHeight s k nQueryHeight nWindow =
     (if \<not> pubkey_IsValid k then False
      else
        (case mapMasternodeActiveHeights s k of
           None \<Rightarrow> False
         | Some hs \<Rightarrow>
             let below = takeWhile (\<lambda>h. h \<le> nQueryHeight) hs
             in below \<noteq> [] \<and> last below \<le> nQueryHeight \<and> nQueryHeight - last below \<le> nWindow) \<or>
        (case mapMasternodeLastActiveHeight s k of
           None \<Rightarrow> False
         | Some pingHeight \<Rightarrow> pingHeight \<le> nQueryHeight \<and> nQueryHeight - pingHeight \<le> nWindow))"

fun evict_loop :: "cpubkey \<Rightarrow> COutPoint \<Rightarrow> (cpubkey \<times> COutPoint) list \<Rightarrow> mn_state \<Rightarrow> mn_state" where
  "evict_loop k op [] s = s"
| "evict_loop k op ((k', op') # rest) s =
     (if op' = op \<and> k' \<noteq> k
      then evict_loop k op rest
             (s\<lparr>mapMasternodeLastActiveHeight := (mapMasternodeLastActiveHeight s)(k' := None),
                mapMasternodeActiveHeights := (mapMasternodeActiveHeights s)(k' := None),
                mapMasternodeCollateralOutpoints := map_erase k' (mapMasternodeCollateralOutpoints s)\<rparr>)
      else evict_loop k op rest s)"

text \<open>Erasing from the front of the set, as long as more than one height is left.\<close>

fun prune_heights :: "int \<Rightarrow> int list \<Rightarrow> int list" where
  "prune_heights nCutoffHeight (h # h' # hs) =
     (if h < nCutoffHeight then prune_heights nCutoffHeight (h' # hs) else h # h' # hs)"
| "prune_heights nCutoffHeight hs = hs"

definition RegisterOnChainMasternodePing ::
  "mn_env \<Rightarrow> coins_view \<Rightarrow> cpubkey \<Rightarrow> COutPoint \<Rightarrow> int \<Rightarrow> COnChainMasternodeDelegation option \<Rightarrow> mn_state \<Rightarrow> bool \<times> mn_state" where
  "RegisterOnChainMasternodePing env view k op nHeight inline s =
     (if \<not> IsValidMasternodeCollateralAndAuth env s view k op nHeight inline then (False, s)
      else
        let records = (case (inline, view) of
              (Some del, Some coins) \<Rightarrow>
                pubKeyMasternode del = k \<and> pubkey_IsValid (pubKeyCollateralAddress del) \<and>
                (case coins op of None \<Rightarrow> False
                 | Some coin \<Rightarrow> \<not> IsSpent coin \<and> scriptPubKey (coin_out coin) = key_script env (pubKeyCollateralAddress del) \<and>
                     VerifyOnChainDelegationSignature env del op)
            | _ \<Rightarrow> False);
            s = (if records then RecordCollateralDelegationWithHistory op (the inline) nHeight s else s);
            s = evict_loop k op (mapMasternodeCollateralOutpoints s) s;
            hs = insort_insert nHeight (case mapMasternodeActiveHeights s k of Some hs \<Rightarrow> hs | None \<Rightarrow> []);
            hs = (if length hs > 64 then prune_heights (nHeight - 5760) hs else hs)
        in (True,
            s\<lparr>mapMasternodeActiveHeights := (mapMasternodeActiveHeights s)(k \<mapsto> hs),
              mapMasternodeLastActiveHeight := (mapMasternodeLastActiveHeight s)(k \<mapsto> last hs),
              mapMasternodeCollateralOutpoints := map_put k op (mapMasternodeCollateralOutpoints s),
              g_nMasternodePingStateGen := g_nMasternodePingStateGen s + 1\<rparr>))"

text \<open>The first loop of the masternode part of \<open>DisconnectBlock\<close>; the set of the keys it empties is the first component.\<close>

definition disconnect_heights :: "int \<Rightarrow> mn_state \<Rightarrow> (cpubkey \<Rightarrow> bool) \<times> mn_state" where
  "disconnect_heights nHeight s =
     (let left = (\<lambda>k. map_option (filter (\<lambda>h. h \<noteq> nHeight)) (mapMasternodeActiveHeights s k));
          hit = (\<lambda>k. case mapMasternodeActiveHeights s k of Some hs \<Rightarrow> nHeight \<in> set hs | None \<Rightarrow> False)
      in (\<lambda>k. hit k \<and> left k = Some [],
          s\<lparr>mapMasternodeActiveHeights := (\<lambda>k. if hit k \<and> left k = Some [] then None else left k),
            mapMasternodeLastActiveHeight :=
              (\<lambda>k. if hit k then (case left k of Some (h # hs) \<Rightarrow> Some (last (h # hs)) | _ \<Rightarrow> None)
                   else mapMasternodeLastActiveHeight s k)\<rparr>))"

section \<open>Well-formed registries\<close>

definition mn_empty :: mn_state where
  "mn_empty = \<lparr>mapMasternodeLastActiveHeight = Map.empty, mapMasternodeActiveHeights = Map.empty,
     mapMasternodeCollateralOutpoints = [], mapOnChainCollateralDelegations = Map.empty,
     mapCollateralDelegationFirstHeight = Map.empty, mapCollateralDelegationHistory = Map.empty,
     pinned_keys = Map.empty, g_nMasternodePingStateGen = 1\<rparr>"

definition collateral_wf :: "(cpubkey \<times> COutPoint) list \<Rightarrow> bool" where
  "collateral_wf m \<longleftrightarrow> sorted_wrt (<) (map fst m) \<and>
     (\<forall>k k' op. map_of m k = Some op \<longrightarrow> map_of m k' = Some op \<longrightarrow> k = k')"

definition heights_wf :: "mn_state \<Rightarrow> bool" where
  "heights_wf s \<longleftrightarrow>
     (\<forall>k. case mapMasternodeActiveHeights s k of
            None \<Rightarrow> mapMasternodeLastActiveHeight s k = None
          | Some hs \<Rightarrow> hs \<noteq> [] \<and> sorted_wrt (<) hs \<and> mapMasternodeLastActiveHeight s k = Some (last hs))"

definition delegations_wf :: "mn_state \<Rightarrow> bool" where
  "delegations_wf s \<longleftrightarrow>
     (\<forall>op. (mapCollateralDelegationFirstHeight s op = None \<longleftrightarrow> mapOnChainCollateralDelegations s op = None) \<and>
           (\<forall>v. mapCollateralDelegationHistory s op = Some v \<longrightarrow>
                v \<noteq> [] \<and> length v \<le> 16 \<and> mapOnChainCollateralDelegations s op \<noteq> None))"

definition mn_wf :: "mn_state \<Rightarrow> bool" where
  "mn_wf s \<longleftrightarrow> collateral_wf (mapMasternodeCollateralOutpoints s) \<and> heights_wf s \<and> delegations_wf s"

lemma map_of_map_put [simp]: "map_of (map_put k v m) = (map_of m)(k \<mapsto> v)"
  by (induction k v m rule: map_put.induct) (auto simp: fun_eq_iff)

lemma set_map_put: "set (map fst (map_put k v m)) = insert k (set (map fst m))"
  by (induction k v m rule: map_put.induct) auto

lemma sorted_map_put: "sorted_wrt (<) (map fst m) \<Longrightarrow> sorted_wrt (<) (map fst (map_put k v m))"
proof (induction k v m rule: map_put.induct)
  case (2 k v k' v' m)
  have k': "\<forall>x \<in> set (map fst m). k' < x" and m: "sorted_wrt (<) (map fst m)" using 2(2) by auto
  consider "k < k'" | "k = k'" | "k' < k" by fastforce
  then show ?case
  proof cases
    case 1
    with k' have "\<forall>x \<in> set (map fst m). k < x" by (meson order.strict_trans)
    with 1 k' m show ?thesis by simp
  next
    case 3
    then have "\<forall>x \<in> set (map fst (map_put k v m)). k' < x" using k' unfolding set_map_put by blast
    moreover have "\<not> k < k'" "k \<noteq> k'" using 3 by auto
    ultimately show ?thesis using 2(1) m by (simp del: set_map)
  qed (use 2(2) in simp)
qed simp

lemma map_of_filter_key: "map_of (filter (\<lambda>p. P (fst p)) m) k = (if P k then map_of m k else None)"
  by (induction m) auto

lemma evict_collaterals:
  "mapMasternodeCollateralOutpoints (evict_loop k op xs s) =
     filter (\<lambda>p. fst p = k \<or> (fst p, op) \<notin> set xs) (mapMasternodeCollateralOutpoints s)"
proof (induction k op xs s rule: evict_loop.induct)
  case (2 k op k' op' rest s)
  then show ?case by (auto simp: map_erase_def intro!: filter_cong)
qed simp

lemma evict_heights:
  "mapMasternodeActiveHeights (evict_loop k op xs s) k' =
     (if k' \<noteq> k \<and> (k', op) \<in> set xs then None else mapMasternodeActiveHeights s k')"
  "mapMasternodeLastActiveHeight (evict_loop k op xs s) k' =
     (if k' \<noteq> k \<and> (k', op) \<in> set xs then None else mapMasternodeLastActiveHeight s k')"
  by (induction k op xs s rule: evict_loop.induct) auto

lemma evict_delegations [simp]:
  "mapOnChainCollateralDelegations (evict_loop k op xs s) = mapOnChainCollateralDelegations s"
  "mapCollateralDelegationFirstHeight (evict_loop k op xs s) = mapCollateralDelegationFirstHeight s"
  "mapCollateralDelegationHistory (evict_loop k op xs s) = mapCollateralDelegationHistory s"
  by (induction k op xs s rule: evict_loop.induct) auto

lemma Record_fields [simp]:
  "mapMasternodeCollateralOutpoints (RecordCollateralDelegationWithHistory op d h s) = mapMasternodeCollateralOutpoints s"
  "mapMasternodeActiveHeights (RecordCollateralDelegationWithHistory op d h s) = mapMasternodeActiveHeights s"
  "mapMasternodeLastActiveHeight (RecordCollateralDelegationWithHistory op d h s) = mapMasternodeLastActiveHeight s"
  by (simp_all add: RecordCollateralDelegationWithHistory_def Let_def split: option.splits)

lemma sorted_strict_insort_insert:
  "sorted_wrt (<) (hs :: 'a :: linorder list) \<Longrightarrow> sorted_wrt (<) (insort_insert h hs)"
  by (simp add: strict_sorted_iff sorted_insort_insert distinct_insort_insert)

lemma insort_insert_nonempty [simp]: "insort_insert (h :: 'a :: linorder) hs \<noteq> []"
  using set_insort_insert [of h hs] by (metis empty_iff insertI1 list.set(1))

lemma prune_heights_suffix: "\<exists>pre. hs = pre @ prune_heights c hs \<and> (\<forall>h \<in> set pre. h < c)"
proof (induction c hs rule: prune_heights.induct)
  case (1 c h h' hs)
  show ?case
  proof (cases "h < c")
    case True
    with 1 obtain pre where "h' # hs = pre @ prune_heights c (h' # hs)" "\<forall>h \<in> set pre. h < c" by blast
    with True show ?thesis by (intro exI [of _ "h # pre"]) simp
  qed simp
qed simp_all

lemma prune_heights_facts:
  assumes "hs \<noteq> []"
  shows "prune_heights c hs \<noteq> []" "last (prune_heights c hs) = last hs" "set (prune_heights c hs) \<subseteq> set hs"
    "sorted_wrt (<) hs \<Longrightarrow> sorted_wrt (<) (prune_heights c hs)" "h \<in> set hs \<Longrightarrow> c \<le> h \<Longrightarrow> h \<in> set (prune_heights c hs)"
proof -
  show ne: "prune_heights c hs \<noteq> []" using assms by (induction c hs rule: prune_heights.induct) auto
  obtain pre where pre: "hs = pre @ prune_heights c hs" "\<forall>h \<in> set pre. h < c" using prune_heights_suffix by blast
  show "last (prune_heights c hs) = last hs" using ne by (subst (2) pre(1)) simp
  show "set (prune_heights c hs) \<subseteq> set hs" by (subst (2) pre(1)) auto
  show "sorted_wrt (<) hs \<Longrightarrow> sorted_wrt (<) (prune_heights c hs)" by (subst (asm) pre(1)) (simp add: sorted_wrt_append)
  show "h \<in> set hs \<Longrightarrow> c \<le> h \<Longrightarrow> h \<in> set (prune_heights c hs)" using pre(2) by (subst (asm) pre(1)) auto
qed

text \<open>The heights a ping leaves for its own key.\<close>

definition ping_heights :: "int \<Rightarrow> int list option \<Rightarrow> int list" where
  "ping_heights h old =
     (let hs = insort_insert h (case old of Some hs \<Rightarrow> hs | None \<Rightarrow> [])
      in if length hs > 64 then prune_heights (h - 5760) hs else hs)"

lemma ping_heights_facts:
  "ping_heights h old \<noteq> []"
  "(\<And>hs. old = Some hs \<Longrightarrow> sorted_wrt (<) hs) \<Longrightarrow> sorted_wrt (<) (ping_heights h old)"
  "h \<in> set (ping_heights h old)"
  "old = Some hs \<Longrightarrow> h' \<in> set hs \<Longrightarrow> h - 5760 \<le> h' \<Longrightarrow> h' \<in> set (ping_heights h old)"
proof -
  let ?hs = "insort_insert h (case old of Some hs \<Rightarrow> hs | None \<Rightarrow> [])"
  show "ping_heights h old \<noteq> []" by (simp add: ping_heights_def Let_def prune_heights_facts(1))
  show "h \<in> set (ping_heights h old)"
    by (simp add: ping_heights_def Let_def prune_heights_facts(5) set_insort_insert)
  show "old = Some hs \<Longrightarrow> h' \<in> set hs \<Longrightarrow> h - 5760 \<le> h' \<Longrightarrow> h' \<in> set (ping_heights h old)"
    by (simp add: ping_heights_def Let_def prune_heights_facts(5) set_insort_insert)
  assume "\<And>hs. old = Some hs \<Longrightarrow> sorted_wrt (<) hs"
  then have "sorted_wrt (<) ?hs" by (cases old) (simp_all add: sorted_strict_insort_insert)
  then show "sorted_wrt (<) (ping_heights h old)"
    by (simp add: ping_heights_def Let_def prune_heights_facts(4))
qed

definition apply_ping :: "cpubkey \<Rightarrow> COutPoint \<Rightarrow> int \<Rightarrow> mn_state \<Rightarrow> mn_state" where
  "apply_ping k op h s =
     (let e = evict_loop k op (mapMasternodeCollateralOutpoints s) s;
          hs = ping_heights h (mapMasternodeActiveHeights e k)
      in e\<lparr>mapMasternodeActiveHeights := (mapMasternodeActiveHeights e)(k \<mapsto> hs),
           mapMasternodeLastActiveHeight := (mapMasternodeLastActiveHeight e)(k \<mapsto> last hs),
           mapMasternodeCollateralOutpoints := map_put k op (mapMasternodeCollateralOutpoints e),
           g_nMasternodePingStateGen := g_nMasternodePingStateGen e + 1\<rparr>)"

lemma Register_cases:
  assumes "RegisterOnChainMasternodePing env view k op h inline s = (b, s')"
  obtains "\<not> b" "s' = s"
  | "b" "IsValidMasternodeCollateralAndAuth env s view k op h inline" "s' = apply_ping k op h s"
  | del where "b" "IsValidMasternodeCollateralAndAuth env s view k op h inline"
      "s' = apply_ping k op h (RecordCollateralDelegationWithHistory op del h s)"
proof (cases "IsValidMasternodeCollateralAndAuth env s view k op h inline")
  case False
  with assms that(1) show thesis by (simp add: RegisterOnChainMasternodePing_def)
next
  case True
  then have "b \<and> (s' = apply_ping k op h s \<or> s' = apply_ping k op h (RecordCollateralDelegationWithHistory op (the inline) h s))"
    using assms
    by (simp only: RegisterOnChainMasternodePing_def apply_ping_def ping_heights_def Let_def if_True if_False not_True_eq_False
      prod.inject split: if_split_asm) simp_all
  with True that show thesis by blast
qed

section \<open>Every operation keeps the registry well formed\<close>

lemma collateral_wf_put:
  assumes "collateral_wf m" "\<And>k'. map_of m k' = Some op \<Longrightarrow> k' = k"
  shows "collateral_wf (map_put k op m)"
  using assms by (auto simp: collateral_wf_def sorted_map_put)

lemma collateral_wf_filter: "collateral_wf m \<Longrightarrow> collateral_wf (filter (\<lambda>p. P (fst p)) m)"
  by (auto simp: collateral_wf_def map_of_filter_key sorted_wrt_map intro: sorted_wrt_filter split: if_splits)

lemma apply_ping_collaterals:
  assumes "collateral_wf (mapMasternodeCollateralOutpoints s)"
  shows "map_of (mapMasternodeCollateralOutpoints (apply_ping k op h s)) k' =
    (if k' = k then Some op
     else if map_of (mapMasternodeCollateralOutpoints s) k' = Some op then None
     else map_of (mapMasternodeCollateralOutpoints s) k')"
    and "collateral_wf (mapMasternodeCollateralOutpoints (apply_ping k op h s))"
proof -
  let ?m = "mapMasternodeCollateralOutpoints s"
  let ?P = "\<lambda>k'. k' = k \<or> map_of ?m k' \<noteq> Some op"
  have "distinct (map fst ?m)" using assms by (simp add: collateral_wf_def strict_sorted_iff)
  then have mem: "(x, op) \<in> set ?m \<longleftrightarrow> map_of ?m x = Some op" for x by simp
  have f: "mapMasternodeCollateralOutpoints (apply_ping k op h s) = map_put k op (filter (\<lambda>p. ?P (fst p)) ?m)"
    by (simp add: apply_ping_def Let_def evict_collaterals mem)
  show "map_of (mapMasternodeCollateralOutpoints (apply_ping k op h s)) k' =
    (if k' = k then Some op else if map_of ?m k' = Some op then None else map_of ?m k')"
    unfolding f by (simp add: map_of_filter_key [of ?P])
  show "collateral_wf (mapMasternodeCollateralOutpoints (apply_ping k op h s))"
    unfolding f by (rule collateral_wf_put [OF collateral_wf_filter [OF assms, of ?P]])
      (auto simp: map_of_filter_key [of ?P] split: if_splits)
qed

lemma apply_ping_heights:
  "mapMasternodeActiveHeights (apply_ping k op h s) k' =
     (if k' = k then Some (ping_heights h (mapMasternodeActiveHeights s k))
      else if (k', op) \<in> set (mapMasternodeCollateralOutpoints s) then None else mapMasternodeActiveHeights s k')"
  "mapMasternodeLastActiveHeight (apply_ping k op h s) k' =
     (if k' = k then Some (last (ping_heights h (mapMasternodeActiveHeights s k)))
      else if (k', op) \<in> set (mapMasternodeCollateralOutpoints s) then None else mapMasternodeLastActiveHeight s k')"
  by (simp_all add: apply_ping_def Let_def evict_heights)

lemma heights_wf_apply_ping: "heights_wf s \<Longrightarrow> heights_wf (apply_ping k op h s)"
  unfolding heights_wf_def
proof
  fix k'
  assume wf: "\<forall>k. case mapMasternodeActiveHeights s k of None \<Rightarrow> mapMasternodeLastActiveHeight s k = None
    | Some hs \<Rightarrow> hs \<noteq> [] \<and> sorted_wrt (<) hs \<and> mapMasternodeLastActiveHeight s k = Some (last hs)"
  have "sorted_wrt (<) (ping_heights h (mapMasternodeActiveHeights s k))"
    by (rule ping_heights_facts(2)) (use wf [rule_format, of k] in auto)
  with wf [rule_format, of k'] show "case mapMasternodeActiveHeights (apply_ping k op h s) k' of
      None \<Rightarrow> mapMasternodeLastActiveHeight (apply_ping k op h s) k' = None
    | Some hs \<Rightarrow> hs \<noteq> [] \<and> sorted_wrt (<) hs \<and> mapMasternodeLastActiveHeight (apply_ping k op h s) k' = Some (last hs)"
    by (cases "mapMasternodeActiveHeights s k'") (auto simp: apply_ping_heights ping_heights_facts(1))
qed

lemma delegations_wf_apply_ping [simp]: "delegations_wf (apply_ping k op h s) = delegations_wf s"
  by (simp add: delegations_wf_def apply_ping_def Let_def)

lemma delegations_wf_Record: "delegations_wf s \<Longrightarrow> delegations_wf (RecordCollateralDelegationWithHistory op d h s)"
  unfolding delegations_wf_def
proof
  fix op'
  assume wf: "\<forall>op. (mapCollateralDelegationFirstHeight s op = None) = (mapOnChainCollateralDelegations s op = None) \<and>
    (\<forall>v. mapCollateralDelegationHistory s op = Some v \<longrightarrow> v \<noteq> [] \<and> length v \<le> 16 \<and> mapOnChainCollateralDelegations s op \<noteq> None)"
  let ?s = "RecordCollateralDelegationWithHistory op d h s"
  show "(mapCollateralDelegationFirstHeight ?s op' = None) = (mapOnChainCollateralDelegations ?s op' = None) \<and>
    (\<forall>v. mapCollateralDelegationHistory ?s op' = Some v \<longrightarrow> v \<noteq> [] \<and> length v \<le> 16 \<and> mapOnChainCollateralDelegations ?s op' \<noteq> None)"
    using wf [rule_format, of op'] wf [rule_format, of op]
    by (cases "op' = op"; cases "mapOnChainCollateralDelegations s op"; cases "mapCollateralDelegationHistory s op")
      (auto simp: RecordCollateralDelegationWithHistory_def Let_def split: option.splits)
qed

lemma heights_wf_cong:
  "mapMasternodeActiveHeights s' = mapMasternodeActiveHeights s \<Longrightarrow>
   mapMasternodeLastActiveHeight s' = mapMasternodeLastActiveHeight s \<Longrightarrow> heights_wf s' = heights_wf s"
  unfolding heights_wf_def by (simp only:)

lemma heights_wf_Record [simp]: "heights_wf (RecordCollateralDelegationWithHistory op d h s) = heights_wf s"
  by (rule heights_wf_cong) simp_all

lemma mn_wf_Record: "mn_wf s \<Longrightarrow> mn_wf (RecordCollateralDelegationWithHistory op d h s)"
  by (simp add: mn_wf_def delegations_wf_Record)

lemma mn_wf_apply_ping: "mn_wf s \<Longrightarrow> mn_wf (apply_ping k op h s)"
  by (simp add: mn_wf_def heights_wf_apply_ping apply_ping_collaterals(2))

lemma mn_wf_Register: "mn_wf s \<Longrightarrow> mn_wf (snd (RegisterOnChainMasternodePing env view k op h inline s))"
  by (cases "RegisterOnChainMasternodePing env view k op h inline s")
    (auto simp: mn_wf_Record mn_wf_apply_ping elim: Register_cases)

lemma Revert_fields [simp]:
  "mapMasternodeCollateralOutpoints (snd (RevertOnChainCollateralDelegation op k h s)) = mapMasternodeCollateralOutpoints s"
  "mapMasternodeActiveHeights (snd (RevertOnChainCollateralDelegation op k h s)) = mapMasternodeActiveHeights s"
  "mapMasternodeLastActiveHeight (snd (RevertOnChainCollateralDelegation op k h s)) = mapMasternodeLastActiveHeight s"
  by (simp_all add: RevertOnChainCollateralDelegation_def Let_def split: option.split)

lemma delegations_wf_Revert: "delegations_wf s \<Longrightarrow> delegations_wf (snd (RevertOnChainCollateralDelegation op k h s))"
  unfolding delegations_wf_def
proof
  fix op'
  assume wf: "\<forall>op. (mapCollateralDelegationFirstHeight s op = None) = (mapOnChainCollateralDelegations s op = None) \<and>
    (\<forall>v. mapCollateralDelegationHistory s op = Some v \<longrightarrow> v \<noteq> [] \<and> length v \<le> 16 \<and> mapOnChainCollateralDelegations s op \<noteq> None)"
  let ?s = "snd (RevertOnChainCollateralDelegation op k h s)"
  show "(mapCollateralDelegationFirstHeight ?s op' = None) = (mapOnChainCollateralDelegations ?s op' = None) \<and>
    (\<forall>v. mapCollateralDelegationHistory ?s op' = Some v \<longrightarrow> v \<noteq> [] \<and> length v \<le> 16 \<and> mapOnChainCollateralDelegations ?s op' \<noteq> None)"
    using wf [rule_format, of op'] wf [rule_format, of op]
    by (cases "op' = op"; cases "mapOnChainCollateralDelegations s op"; cases "mapCollateralDelegationHistory s op")
      (auto simp: RevertOnChainCollateralDelegation_def Let_def)
qed

lemma mn_wf_Revert: "mn_wf s \<Longrightarrow> mn_wf (snd (RevertOnChainCollateralDelegation op k h s))"
  by (simp add: mn_wf_def delegations_wf_Revert heights_wf_cong [of "snd (RevertOnChainCollateralDelegation op k h s)" s])

lemma mn_wf_disconnect: "mn_wf s \<Longrightarrow> mn_wf (snd (disconnect_heights h s))"
proof -
  assume wf: "mn_wf s"
  let ?s = "snd (disconnect_heights h s)"
  have "case mapMasternodeActiveHeights ?s k of None \<Rightarrow> mapMasternodeLastActiveHeight ?s k = None
    | Some hs \<Rightarrow> hs \<noteq> [] \<and> sorted_wrt (<) hs \<and> mapMasternodeLastActiveHeight ?s k = Some (last hs)" for k
  proof (cases "mapMasternodeActiveHeights s k")
    case None
    with wf show ?thesis by (auto simp: mn_wf_def heights_wf_def disconnect_heights_def Let_def dest: spec [of _ k])
  next
    case (Some hs)
    with wf have hs: "hs \<noteq> []" "sorted_wrt (<) hs" "mapMasternodeLastActiveHeight s k = Some (last hs)"
      by (auto simp: mn_wf_def heights_wf_def dest: spec [of _ k])
    show ?thesis
    proof (cases "h \<in> set hs")
      case True
      have "sorted_wrt (<) (filter (\<lambda>x. x \<noteq> h) hs)" using hs(2) by (rule sorted_wrt_filter)
      with True Some show ?thesis
        by (cases "filter (\<lambda>x. x \<noteq> h) hs") (simp_all add: disconnect_heights_def Let_def)
    next
      case False
      then have "filter (\<lambda>x. x \<noteq> h) hs = hs" by (auto intro: filter_True)
      with False Some hs show ?thesis by (simp add: disconnect_heights_def Let_def)
    qed
  qed
  then have "heights_wf ?s" unfolding heights_wf_def by blast
  moreover have "delegations_wf ?s = delegations_wf s"
    "mapMasternodeCollateralOutpoints ?s = mapMasternodeCollateralOutpoints s"
    by (simp_all add: delegations_wf_def disconnect_heights_def Let_def)
  ultimately show ?thesis using wf by (simp add: mn_wf_def)
qed

section \<open>Reachable registries\<close>

inductive mn_reach :: "mn_state \<Rightarrow> bool" where
  reach_empty: "mn_reach mn_empty"
| reach_ping: "mn_reach s \<Longrightarrow> mn_reach (snd (RegisterOnChainMasternodePing env view k op h inline s))"
| reach_revert: "mn_reach s \<Longrightarrow> mn_reach (snd (RevertOnChainCollateralDelegation op k h s))"
| reach_disconnect: "mn_reach s \<Longrightarrow> mn_reach (snd (disconnect_heights h s))"
| reach_pin: "mn_reach s \<Longrightarrow> mn_reach (s\<lparr>pinned_keys := snd (PinBLSPubKey k b h (pinned_keys s))\<rparr>)"
| reach_unpin: "mn_reach s \<Longrightarrow> mn_reach (s\<lparr>pinned_keys := UnpinBLSPubKeysAtHeight h (pinned_keys s)\<rparr>)"
| reach_bump: "mn_reach s \<Longrightarrow> mn_reach (s\<lparr>g_nMasternodePingStateGen := g_nMasternodePingStateGen s + 1\<rparr>)"

lemma mn_wf_ignores [simp]: "mn_wf (s\<lparr>pinned_keys := p\<rparr>) = mn_wf s" "mn_wf (s\<lparr>g_nMasternodePingStateGen := g\<rparr>) = mn_wf s"
  by (simp_all add: mn_wf_def delegations_wf_def heights_wf_cong [of "s\<lparr>pinned_keys := p\<rparr>" s]
    heights_wf_cong [of "s\<lparr>g_nMasternodePingStateGen := g\<rparr>" s])

lemma mn_reach_wf: "mn_reach s \<Longrightarrow> mn_wf s"
  by (induction rule: mn_reach.induct)
    (simp_all add: mn_wf_Register mn_wf_Revert mn_wf_disconnect,
     simp add: mn_wf_def mn_empty_def collateral_wf_def heights_wf_def delegations_wf_def)

lemma takeWhile_sorted: "sorted_wrt (<) (hs :: int list) \<Longrightarrow> takeWhile (\<lambda>h. h \<le> q) hs = filter (\<lambda>h. h \<le> q) hs"
proof (induction hs)
  case (Cons h hs)
  show ?case
  proof (cases "h \<le> q")
    case False
    with Cons.prems have "filter (\<lambda>h. h \<le> q) hs = []" by (auto simp: filter_empty_conv)
    with False show ?thesis by simp
  qed (use Cons in simp)
qed simp

lemma last_sorted_Max: "sorted_wrt (<) (hs :: int list) \<Longrightarrow> x \<in> set hs \<Longrightarrow> x \<le> last hs"
  by (induction hs) (auto intro: less_imp_le)

lemma active_iff:
  assumes "mn_wf s"
  shows "IsMasternodeActiveAtHeight s k q w \<longleftrightarrow>
    pubkey_IsValid k \<and> (\<exists>hs h. mapMasternodeActiveHeights s k = Some hs \<and> h \<in> set hs \<and> h \<le> q \<and> q - h \<le> w)"
proof (cases "mapMasternodeActiveHeights s k")
  case None
  with assms have "mapMasternodeLastActiveHeight s k = None"
    by (auto simp: mn_wf_def heights_wf_def dest: spec [of _ k])
  with None show ?thesis by (simp add: IsMasternodeActiveAtHeight_def)
next
  case (Some hs)
  with assms have hs: "hs \<noteq> []" "sorted_wrt (<) hs" "mapMasternodeLastActiveHeight s k = Some (last hs)"
    by (auto simp: mn_wf_def heights_wf_def dest: spec [of _ k])
  define below where "below = filter (\<lambda>h. h \<le> q) hs"
  have below: "takeWhile (\<lambda>h. h \<le> q) hs = below" by (simp add: below_def takeWhile_sorted [OF hs(2)])
  have "sorted_wrt (<) below" using hs(2) by (simp add: below_def sorted_wrt_filter)
  then have max: "h \<le> last below" if "h \<in> set below" for h using that by (rule last_sorted_Max)
  have mem: "h \<in> set below \<longleftrightarrow> h \<in> set hs \<and> h \<le> q" for h by (auto simp: below_def)
  have "(below \<noteq> [] \<and> last below \<le> q \<and> q - last below \<le> w) \<longleftrightarrow> (\<exists>h \<in> set hs. h \<le> q \<and> q - h \<le> w)"
  proof
    assume "below \<noteq> [] \<and> last below \<le> q \<and> q - last below \<le> w"
    then show "\<exists>h \<in> set hs. h \<le> q \<and> q - h \<le> w" using last_in_set [of below] by (auto simp: mem)
  next
    assume "\<exists>h \<in> set hs. h \<le> q \<and> q - h \<le> w"
    then obtain h where h: "h \<in> set below" "q - h \<le> w" by (auto simp: mem)
    then have "below \<noteq> []" by auto
    then have "last below \<le> q" using last_in_set [of below] by (simp add: mem)
    with h max [OF h(1)] \<open>below \<noteq> []\<close> show "below \<noteq> [] \<and> last below \<le> q \<and> q - last below \<le> w" by simp
  qed
  moreover have "last hs \<in> set hs" using hs(1) by simp
  ultimately show ?thesis using Some hs(3) by (auto simp: IsMasternodeActiveAtHeight_def below Let_def)
qed

section \<open>A ping keeps its masternode active\<close>

type_synonym ping = "mn_env \<times> coins_view \<times> cpubkey \<times> COutPoint \<times> int \<times> COnChainMasternodeDelegation option"

primrec run_pings :: "ping list \<Rightarrow> mn_state \<Rightarrow> mn_state" where
  "run_pings [] s = s"
| "run_pings (p # ps) s =
     (case p of (env, view, k, op, h, inline) \<Rightarrow> run_pings ps (snd (RegisterOnChainMasternodePing env view k op h inline s)))"

definition holds_ping :: "cpubkey \<Rightarrow> COutPoint \<Rightarrow> int \<Rightarrow> mn_state \<Rightarrow> bool" where
  "holds_ping k op h s \<longleftrightarrow> mn_wf s \<and> map_of (mapMasternodeCollateralOutpoints s) k = Some op \<and>
     (\<exists>hs. mapMasternodeActiveHeights s k = Some hs \<and> h \<in> set hs)"

lemma holds_ping_Record: "holds_ping k op h s \<Longrightarrow> holds_ping k op h (RecordCollateralDelegationWithHistory op' d h' s)"
  by (simp add: holds_ping_def mn_wf_Record)

lemma holds_ping_new: "mn_wf s \<Longrightarrow> holds_ping k op h (apply_ping k op h s)"
  using mn_wf_apply_ping [of s k op h]
  by (simp add: holds_ping_def apply_ping_collaterals(1) apply_ping_heights ping_heights_facts(3)) (simp add: mn_wf_def apply_ping_collaterals(1))

lemma holds_ping_apply:
  assumes "holds_ping k op h s" "k' = k \<longleftrightarrow> op' = op" "h' \<le> h + 5760"
  shows "holds_ping k op h (apply_ping k' op' h' s)"
proof -
  from assms(1) have wf: "mn_wf s" and op: "map_of (mapMasternodeCollateralOutpoints s) k = Some op"
    and hs: "\<exists>hs. mapMasternodeActiveHeights s k = Some hs \<and> h \<in> set hs" by (auto simp: holds_ping_def)
  from wf have cwf: "collateral_wf (mapMasternodeCollateralOutpoints s)" by (simp add: mn_wf_def)
  then have "distinct (map fst (mapMasternodeCollateralOutpoints s))" by (simp add: collateral_wf_def strict_sorted_iff)
  then have "(k, op') \<in> set (mapMasternodeCollateralOutpoints s) \<longleftrightarrow> op' = op"
    using op map_of_eq_Some_iff by fastforce
  then have "k' \<noteq> k \<Longrightarrow> (k, op') \<notin> set (mapMasternodeCollateralOutpoints s)" using assms(2) by simp
  with hs assms(2,3) have "\<exists>hs. mapMasternodeActiveHeights (apply_ping k' op' h' s) k = Some hs \<and> h \<in> set hs"
    by (auto simp: apply_ping_heights intro: ping_heights_facts(4))
  then show ?thesis
    using op assms(2) by (auto simp: holds_ping_def mn_wf_apply_ping [OF wf] apply_ping_collaterals(1) [OF cwf])
qed

lemma holds_ping_Register:
  assumes "holds_ping k op h s" "k' = k \<longleftrightarrow> op' = op" "h' \<le> h + 5760"
  shows "holds_ping k op h (snd (RegisterOnChainMasternodePing env view k' op' h' inline s))"
proof (cases "RegisterOnChainMasternodePing env view k' op' h' inline s")
  case (Pair b s')
  then show ?thesis
    by (cases rule: Register_cases) (use assms Pair in \<open>auto intro: holds_ping_apply holds_ping_Record\<close>)
qed

lemma holds_ping_run:
  "holds_ping k op h s \<Longrightarrow>
   (\<And>env view k' op' h' inline. (env, view, k', op', h', inline) \<in> set ps \<Longrightarrow> (k' = k \<longleftrightarrow> op' = op) \<and> h' \<le> h + 5760) \<Longrightarrow>
   holds_ping k op h (run_pings ps s)"
proof (induction ps arbitrary: s)
  case (Cons p ps)
  obtain env view k' op' h' inline where p: "p = (env, view, k', op', h', inline)" by (cases p) auto
  have "holds_ping k op h (snd (RegisterOnChainMasternodePing env view k' op' h' inline s))"
    by (rule holds_ping_Register [OF Cons.prems(1)]) (use Cons.prems(2) [of env view k' op' h' inline] p in auto)
  then have "holds_ping k op h (run_pings ps (snd (RegisterOnChainMasternodePing env view k' op' h' inline s)))"
    by (rule Cons.IH) (rule Cons.prems(2), rule list.set_intros(2))
  then show ?case by (simp add: p)
qed simp

section \<open>Delegation history\<close>

lemma Revert_Record:
  assumes wf: "delegations_wf s"
    and key: "\<And>old. mapOnChainCollateralDelegations s op = Some old \<Longrightarrow> pubKeyMasternode old \<noteq> pubKeyMasternode d"
    and hist: "\<And>v. mapCollateralDelegationHistory s op = Some v \<Longrightarrow> length v < 16"
  shows "RevertOnChainCollateralDelegation op (pubKeyMasternode d) h (RecordCollateralDelegationWithHistory op d h s) =
    (case mapOnChainCollateralDelegations s op of Some old \<Rightarrow> pubKeyMasternode old | None \<Rightarrow> invalid_key, s)"
proof -
  note w = wf [unfolded delegations_wf_def, rule_format, of op]
  show ?thesis
  proof (cases "mapOnChainCollateralDelegations s op")
    case None
    with w have "mapCollateralDelegationFirstHeight s op = None" "mapCollateralDelegationHistory s op = None" by auto
    with None show ?thesis
      by (cases s) (simp add: RevertOnChainCollateralDelegation_def RecordCollateralDelegationWithHistory_def Let_def fun_upd_idem)
  next
    case (Some old)
    with w obtain f where f: "mapCollateralDelegationFirstHeight s op = Some f" by auto
    have v: "v \<noteq> []" "length v < 16" if "mapCollateralDelegationHistory s op = Some v" for v using w that hist by auto
    have "\<not> 16 < Suc (length v)" if "mapCollateralDelegationHistory s op = Some v" for v using v [OF that] by simp
    with Some f v key show ?thesis
      by (cases s; cases "mapCollateralDelegationHistory s op")
        (auto simp: RevertOnChainCollateralDelegation_def RecordCollateralDelegationWithHistory_def Let_def fun_upd_idem)
  qed
qed

primrec record_all :: "COutPoint \<Rightarrow> (COnChainMasternodeDelegation \<times> int) list \<Rightarrow> mn_state \<Rightarrow> mn_state" where
  "record_all op [] s = s"
| "record_all op (x # xs) s = record_all op xs (RecordCollateralDelegationWithHistory op (fst x) (snd x) s)"

primrec revert_all :: "COutPoint \<Rightarrow> (COnChainMasternodeDelegation \<times> int) list \<Rightarrow> mn_state \<Rightarrow> mn_state" where
  "revert_all op [] s = s"
| "revert_all op (x # xs) s = snd (RevertOnChainCollateralDelegation op (pubKeyMasternode (fst x)) (snd x) (revert_all op xs s))"

definition history_size :: "COutPoint \<Rightarrow> mn_state \<Rightarrow> nat" where
  "history_size op s = (case mapCollateralDelegationHistory s op of Some v \<Rightarrow> length v | None \<Rightarrow> 0)"

text \<open>Every delegation of the list names another operator key than the one before it.\<close>

fun keys_alternate :: "cpubkey option \<Rightarrow> (COnChainMasternodeDelegation \<times> int) list \<Rightarrow> bool" where
  "keys_alternate k [] = True"
| "keys_alternate k (x # xs) \<longleftrightarrow> k \<noteq> Some (pubKeyMasternode (fst x)) \<and> keys_alternate (Some (pubKeyMasternode (fst x))) xs"

definition operator_key :: "COutPoint \<Rightarrow> mn_state \<Rightarrow> cpubkey option" where
  "operator_key op s = map_option pubKeyMasternode (mapOnChainCollateralDelegations s op)"

lemma Record_operator [simp]: "operator_key op (RecordCollateralDelegationWithHistory op d h s) = Some (pubKeyMasternode d)"
  by (simp add: operator_key_def RecordCollateralDelegationWithHistory_def Let_def)

lemma Record_history_size: "history_size op (RecordCollateralDelegationWithHistory op d h s) \<le> Suc (history_size op s)"
  by (auto simp: history_size_def RecordCollateralDelegationWithHistory_def Let_def split: option.splits)

lemma revert_all_record_all:
  "delegations_wf s \<Longrightarrow> keys_alternate (operator_key op s) xs \<Longrightarrow> history_size op s + length xs \<le> 16 \<Longrightarrow>
   revert_all op xs (record_all op xs s) = s"
proof (induction xs arbitrary: s)
  case (Cons x xs)
  let ?s = "RecordCollateralDelegationWithHistory op (fst x) (snd x) s"
  have "revert_all op xs (record_all op xs ?s) = ?s"
    using Cons.prems Record_history_size [of op "fst x" "snd x" s]
    by (intro Cons.IH delegations_wf_Record) simp_all
  moreover have "RevertOnChainCollateralDelegation op (pubKeyMasternode (fst x)) (snd x) ?s =
    (case mapOnChainCollateralDelegations s op of Some old \<Rightarrow> pubKeyMasternode old | None \<Rightarrow> invalid_key, s)"
    by (rule Revert_Record) (use Cons.prems in \<open>auto simp: operator_key_def history_size_def\<close>)
  ultimately show ?case by simp
qed simp

section \<open>Which pings are signed\<close>

lemma ping_payload_unsigned:
  assumes "ping_payload env k False prev0 v = Some (Some (op, del))"
  shows "\<exists>sig rest. v = put_outpoint op @ put_blob sig @ rest \<and> sig \<noteq> [] \<and>
    pubkey_Verify (mn_secp env) k (Hash256 (put_outpoint op @ put_outpoint prev0)) sig"
proof -
  from assms obtain ss sig rest where r: "get_outpoint v = Some (op, ss)" "get_blob ss = Some (sig, rest)" "sig \<noteq> []"
    "pubkey_Verify (mn_secp env) k (Hash256 (put_outpoint op @ put_outpoint prev0)) sig"
    by (auto simp: ping_payload_def Let_def split: option.splits if_splits)
  then show ?thesis using outpoint.canon [OF r(1)] blob.canon [OF r(2)] by auto
qed

lemma ping_payload_delegation:
  "ping_payload env k fSigned prev0 v = Some (Some (op, del)) \<Longrightarrow>
   del = no_delegation \<or> pubKeyMasternode del = k \<and> VerifyOnChainDelegationSignature env del op"
  by (auto simp: ping_payload_def Let_def split: option.splits if_splits)

lemma ping_outputs_Some:
  "ping_outputs env k fSigned prev0 outs = Some r \<Longrightarrow>
   \<exists>out \<in> set outs. \<exists>opcode v pc. scriptPubKey out ! 0 = OP_RETURN \<and> GetOp (drop 1 (scriptPubKey out)) = Some (opcode, v, pc) \<and>
     ping_payload env k fSigned prev0 v = Some (Some r)"
  by (induction outs) (auto split: if_splits option.splits)

lemma Extract_cases:
  assumes "ExtractOnChainMasternodePing env tx = Some (k, op, del)"
  obtains (by_input) "first_some ping_input_key (vin tx) = Some k"
      "ping_outputs env k True (prevout (vin tx ! 0)) (vout tx) = Some (op, del)"
  | (by_output) "first_some ping_input_key (vin tx) = None"
      "ping_outputs env k False (prevout (vin tx ! 0)) (vout tx) = Some (op, del)"
  using assms by (auto simp: ExtractOnChainMasternodePing_def Let_def split: if_splits option.splits)

text \<open>
  C21. A ping that is recognised by an output carries, in an \<open>OP_RETURN\<close> output, a signature by the masternode key over the
  collateral and the first spent outpoint, so it cannot be made by anyone else nor replayed in another transaction; and
  in every ping a delegation is reported only if it names that key and its collateral signature verifies.
\<close>

theorem output_ping_authenticated:
  assumes "ExtractOnChainMasternodePing env tx = Some (k, op, del)"
  shows "(del = no_delegation \<or> pubKeyMasternode del = k \<and> VerifyOnChainDelegationSignature env del op) \<and>
    (first_some ping_input_key (vin tx) = None \<longrightarrow>
     (\<exists>out \<in> set (vout tx). \<exists>opcode v pc sig rest. scriptPubKey out ! 0 = OP_RETURN \<and>
        GetOp (drop 1 (scriptPubKey out)) = Some (opcode, v, pc) \<and> v = put_outpoint op @ put_blob sig @ rest \<and> sig \<noteq> [] \<and>
        pubkey_Verify (mn_secp env) k (Hash256 (put_outpoint op @ put_outpoint (prevout (vin tx ! 0)))) sig))"
  using assms
proof (cases rule: Extract_cases)
  case by_input
  with ping_outputs_Some [OF by_input(2)] ping_payload_delegation show ?thesis by fastforce
next
  case by_output
  from ping_outputs_Some [OF this(2)] obtain out opcode v pc where out: "out \<in> set (vout tx)"
    "scriptPubKey out ! 0 = OP_RETURN" "GetOp (drop 1 (scriptPubKey out)) = Some (opcode, v, pc)"
    "ping_payload env k False (prevout (vin tx ! 0)) v = Some (Some (op, del))" by blast
  show ?thesis using ping_payload_delegation [OF out(4)] ping_payload_unsigned [OF out(4)] out(1-3) by blast
qed

text \<open>
  An input script is scanned for pushes only: neither the output it spends nor the execution of the pushed leaf is
  looked at. The transaction below spends any output with two pushes, the leaf of somebody else's key and then, say, the
  redeem script of a script hash.
\<close>

definition ping_script :: "cpubkey \<Rightarrow> bytes" where
  "ping_script k = script_push_data (pubkey_bytes k) @ [OP_CHECKSIGVERIFY, OP_1]"



lemma pubkey_valid_size:
  assumes "wf_pubkey k" "pubkey_IsValid k"
  shows "length (pubkey_bytes k) = pubkey_size k" "pubkey_size k = 33 \<or> pubkey_size k = 65" "pubkey_Set (pubkey_bytes k) = k"
proof -
  have v: "ValidSize (key_vch k)" using assms by (auto simp: wf_pubkey_def)
  then show "length (pubkey_bytes k) = pubkey_size k" by (simp add: ValidSize_def pubkey_size_def pubkey_bytes_def)
  show "pubkey_size k = 33 \<or> pubkey_size k = 65"
    using assms(2) by (auto simp: pubkey_IsValid_def pubkey_size_def GetLen_def PUBLIC_KEY_SIZE_def COMPRESSED_PUBLIC_KEY_SIZE_def split: if_splits)
  show "pubkey_Set (pubkey_bytes k) = k" by (rule pubkey_Set_pubkey_bytes [OF assms(1)])
qed

lemma ping_leaf_script:
  assumes "wf_pubkey k" "pubkey_IsValid k"
  shows "ping_leaf (ping_script k) = Some k" "length (ping_script k) < 2 ^ 32"
proof -
  note p = pubkey_valid_size [OF assms]
  have len: "length (pubkey_bytes k) = 33 \<or> length (pubkey_bytes k) = 65" using p by simp
  then have s: "ping_script k = of_nat (length (pubkey_bytes k)) # pubkey_bytes k @ [OP_CHECKSIGVERIFY, OP_1]"
    by (auto simp: ping_script_def script_push_data_def)
  show "length (ping_script k) < 2 ^ 32" using len by (auto simp: s)
  show "ping_leaf (ping_script k) = Some k"
    using len by (elim disjE) (simp_all add: s ping_leaf_def nth_append p(3) assms(2))
qed

lemma length_put_outpoint: "length (put_outpoint op) = 36"
  by (simp add: put_outpoint_def put_uint256_def ser_writedata32_def WriteLE32_def)



text \<open>
  C22. Once a ping of a key for its collateral is registered at a height, the masternode stays active for the whole window
  after that height, whatever pings follow in the next 5760 blocks, as long as no other key is registered for the
  collateral and the key for no other collateral: neither eviction nor the pruning of old heights loses the ping.
\<close>

theorem ping_keeps_active:
  assumes "mn_reach s" and "RegisterOnChainMasternodePing env view k op h inline s = (True, s')"
    and "\<And>env view k' op' h' inline. (env, view, k', op', h', inline) \<in> set ps \<Longrightarrow> (k' = k \<longleftrightarrow> op' = op) \<and> h' \<le> h + 5760"
    and "h \<le> q" and "q \<le> h + w"
  shows "IsMasternodeActiveAtHeight (run_pings ps s') k q w"
proof -
  have wf: "mn_wf s" by (rule mn_reach_wf [OF assms(1)])
  have "pubkey_IsValid k"
    using assms(2) by (auto simp: RegisterOnChainMasternodePing_def IsValidMasternodeCollateralAndAuth_def split: if_splits)
  have "holds_ping k op h s'"
    using assms(2) by (cases rule: Register_cases) (simp_all add: holds_ping_new wf mn_wf_Record)
  then have "holds_ping k op h (run_pings ps s')" by (rule holds_ping_run) (rule assms(3))
  then obtain hs where "mn_wf (run_pings ps s')" "mapMasternodeActiveHeights (run_pings ps s') k = Some hs" "h \<in> set hs"
    by (auto simp: holds_ping_def)
  with assms(4,5) \<open>pubkey_IsValid k\<close> show ?thesis by (auto simp: active_iff)
qed

text \<open>
  C31. Undoing delegations in the reverse order restores the registry exactly, back to the state before the first of them,
  when each names another operator key than the one before and the history has room for them; sixteen levels of
  reorganisation are covered.
\<close>

theorem delegations_reverted:
  assumes "mn_reach s" and "keys_alternate (operator_key op s) xs" and "history_size op s + length xs \<le> 16"
  shows "revert_all op xs (record_all op xs s) = s"
  using mn_reach_wf [OF assms(1)] assms(2,3) by (intro revert_all_record_all) (simp_all add: mn_wf_def)

section \<open>Instances\<close>

definition mn_demo_env :: mn_env where
  "mn_demo_env = \<lparr>mn_CheckSignature = \<lambda>_ _. True, mn_Hash160 = \<lambda>_. 7, mn_secp = demo_secp, mn_tip_height = 0\<rparr>"

definition mn_demo_op :: "u32 \<Rightarrow> COutPoint" where
  "mn_demo_op n = \<lparr>op_hash = 5, op_n = n\<rparr>"

definition mn_demo_view :: coins_view where
  "mn_demo_view = Some (\<lambda>_. Some (new_Coin (new_txout (4200 * COIN) (key_script mn_demo_env (demo_key 3))) 10 False False))"

definition mn_demo_ping :: CTransaction where
  "mn_demo_ping =
     \<lparr>tx_nVersion = 1, vin = [\<lparr>prevout = mn_demo_op 8, scriptSig = [], nSequence = - 1\<rparr>],
      vout = [new_txout 0 (ping_script (demo_key 3)),
              new_txout 0 (OP_RETURN # script_push_data (put_outpoint (mn_demo_op 1) @ put_blob [48, 6]))],
      nLockTime = 0\<rparr>"

lemma demo_key_wf [simp]: "wf_pubkey (demo_key n)"
  by (simp add: demo_key_def wf_pubkey_def ValidSize_def GetLen_def COMPRESSED_PUBLIC_KEY_SIZE_def)

lemma demo_op_not_null [simp]: "\<not> COutPoint_IsNull (mn_demo_op n)"
  by (simp add: mn_demo_op_def COutPoint_IsNull_def)

lemma mn_demo_ping_inputs: "first_some ping_input_key (vin mn_demo_ping) = None"
  by (simp add: mn_demo_ping_def ping_input_key_def scriptSig_pushes.simps)

lemma mn_demo_ping_extracted:
  "ExtractOnChainMasternodePing mn_demo_env mn_demo_ping = Some (demo_key 3, mn_demo_op 1, no_delegation)"
proof -
  let ?v = "put_outpoint (mn_demo_op 1) @ put_blob [48, 6]"
  note leaf = ping_leaf_script [OF demo_key_wf demo_key_valid, of 3]
  have blob: "put_blob [48, 6] = [2, 48, 6]" by (simp add: put_blob_def WriteCompactSize_def ser_writedata8_def)
  have len: "length ?v = 39" by (simp add: length_put_outpoint blob)
  obtain opcode where go: "GetOp (script_push_data ?v) = Some (opcode, ?v, [])"
    using GetOp_push_data [of ?v "[]"] unfolding len by auto
  have "ping_payload mn_demo_env (demo_key 3) False (mn_demo_op 8) ?v = Some (Some (mn_demo_op 1, no_delegation))"
    using outpoint.get_put [of "mn_demo_op 1" "put_blob [48, 6]"] blob.get_put [of "[48, 6]" "[]"]
    by (simp add: ping_payload_def blob pubkey_Verify_def mn_demo_env_def demo_secp_def MAX_SIZE_def)
  moreover have "\<not> (\<exists>x. ping_script (demo_key 3) ! 0 = OP_RETURN)"
    by (simp add: ping_script_def script_push_data_def demo_key_def pubkey_bytes_def pubkey_size_def GetLen_def
      COMPRESSED_PUBLIC_KEY_SIZE_def)
  moreover have "length (script_push_data ?v) = 40" using len by (simp add: script_push_data_def)
  ultimately have "ping_outputs mn_demo_env (demo_key 3) False (mn_demo_op 8) (vout mn_demo_ping) = Some (mn_demo_op 1, no_delegation)"
    using go len by (simp add: mn_demo_ping_def new_txout_def IsUnspendable_def)
  moreover have "first_some (\<lambda>out. ping_leaf (scriptPubKey out)) (vout mn_demo_ping) = Some (demo_key 3)"
    by (simp add: mn_demo_ping_def new_txout_def leaf(1))
  moreover have "vin mn_demo_ping \<noteq> []" "\<not> IsCoinBase mn_demo_ping" "prevout (vin mn_demo_ping ! 0) = mn_demo_op 8"
    by (simp_all add: mn_demo_ping_def IsCoinBase_def)
  ultimately show ?thesis by (simp add: ExtractOnChainMasternodePing_def mn_demo_ping_inputs)
qed

theorem output_ping_authenticated_witness:
  "\<exists>out \<in> set (vout mn_demo_ping). scriptPubKey out ! 0 = OP_RETURN \<and>
     (\<exists>sig. pubkey_Verify (mn_secp mn_demo_env) (demo_key 3) (Hash256 (put_outpoint (mn_demo_op 1) @
       put_outpoint (prevout (vin mn_demo_ping ! 0)))) sig)"
  using output_ping_authenticated [OF mn_demo_ping_extracted] mn_demo_ping_inputs by blast


lemma mn_demo_register:
  "\<exists>s. RegisterOnChainMasternodePing mn_demo_env mn_demo_view (demo_key 3) (mn_demo_op 1) 100 None mn_empty = (True, s) \<and>
     mn_reach s"
proof -
  have "IsValidMasternodeCollateralAndAuth mn_demo_env mn_empty mn_demo_view (demo_key 3) (mn_demo_op 1) 100 None"
    by (simp add: IsValidMasternodeCollateralAndAuth_def mn_demo_view_def new_Coin_def new_txout_def IsSpent_def
      GetMasternodeNodeCollateral_def CTxOut_IsNull_def COIN_def)
  then have "fst (RegisterOnChainMasternodePing mn_demo_env mn_demo_view (demo_key 3) (mn_demo_op 1) 100 None mn_empty)"
    by (simp add: RegisterOnChainMasternodePing_def Let_def)
  moreover have "mn_reach (snd (RegisterOnChainMasternodePing mn_demo_env mn_demo_view (demo_key 3) (mn_demo_op 1) 100 None mn_empty))"
    by (intro mn_reach.intros)
  ultimately show ?thesis by (metis prod.collapse eq_True)
qed


theorem ping_keeps_active_witness:
  "\<exists>s. RegisterOnChainMasternodePing mn_demo_env mn_demo_view (demo_key 3) (mn_demo_op 1) 100 None mn_empty = (True, s) \<and>
     IsMasternodeActiveAtHeight (run_pings [(mn_demo_env, mn_demo_view, demo_key 4, mn_demo_op 2, 110, None)] s)
       (demo_key 3) 2980 2880"
proof -
  obtain s where s: "RegisterOnChainMasternodePing mn_demo_env mn_demo_view (demo_key 3) (mn_demo_op 1) 100 None mn_empty = (True, s)"
    using mn_demo_register by blast
  have "IsMasternodeActiveAtHeight (run_pings [(mn_demo_env, mn_demo_view, demo_key 4, mn_demo_op 2, 110, None)] s)
    (demo_key 3) 2980 2880"
    by (rule ping_keeps_active [OF reach_empty s]) (auto simp: demo_key_def mn_demo_op_def)
  with s show ?thesis by blast
qed

theorem delegations_reverted_witness:
  "revert_all (mn_demo_op 1) [(no_delegation\<lparr>pubKeyMasternode := demo_key 3\<rparr>, 5), (no_delegation\<lparr>pubKeyMasternode := demo_key 4\<rparr>, 9)]
     (record_all (mn_demo_op 1)
       [(no_delegation\<lparr>pubKeyMasternode := demo_key 3\<rparr>, 5), (no_delegation\<lparr>pubKeyMasternode := demo_key 4\<rparr>, 9)] mn_empty) = mn_empty"
  by (rule delegations_reverted [OF reach_empty]) (simp_all add: operator_key_def mn_empty_def history_size_def demo_key_def)

end
