(* ===== verification/MinerPool.thy ===== *)
theory MinerPool
  imports BlockIndex Masternodes TxVerify
begin

text \<open>
  The pool of keys that ADAM miners and coordinators are elected from (\<open>GetAdamMinerPool\<close> of adam.cpp): active
  masternodes, coin-lock and proof-of-work registrations of the recent blocks, and, to fill up a small pool, zero-coin
  registrations and the keys that the first 199 coinbases paid.

  The static caches of the function are the record \<open>pool_cache\<close>; sets of keys are strictly sorted lists, which is the
  order \<open>std::set\<close> iterates in. Block files are the function \<open>pe_disk\<close>, absent where a block cannot be read. A pointer
  that the block index does not have counts as null. The lemmas show that the pool is strictly sorted, contains every
  funded key and is filled up only to the number of miners plus two.
\<close>

record CachedBlockRegEntry =
  isCoinLock :: bool
  reg_outpoint :: COutPoint
  reg_nValue :: int
  reg_pubkey :: cpubkey
  reg_lockTime :: int
  reg_challenge :: uint256

record pool_cache =
  mapMinerPoolCache :: "(uint256 \<times> cpubkey list) list"
  mapBlockRegCache :: "(uint256 \<times> CachedBlockRegEntry list) list"
  cachedBootstrapKeys :: "cpubkey list"
  cachedBootstrapScannedUpTo :: int
  cachedGenesisHash :: uint256
  cachedPoolStateGen :: u64

definition pool_cache_init :: pool_cache where
  "pool_cache_init = \<lparr>mapMinerPoolCache = [], mapBlockRegCache = [], cachedBootstrapKeys = [],
     cachedBootstrapScannedUpTo = 0, cachedGenesisHash = 0, cachedPoolStateGen = 0\<rparr>"

text \<open>A coins view with the hash of its best block.\<close>

type_synonym best_view = "uint256 \<times> (COutPoint \<Rightarrow> Coin option)"

record pool_env =
  pe_params :: ConsensusParams
  pe_network :: string
  pe_tree :: block_tree
  pe_index :: "uint256 \<Rightarrow> ptr option"
  pe_chain :: CChain
  pe_disk :: "ptr \<Rightarrow> CBlock option"
  pe_mn :: mn_env
  pe_det_key :: "nat \<Rightarrow> cpubkey"
  pe_coinsTip :: "best_view option"

definition IsRegTestNet :: "pool_env \<Rightarrow> bool" where
  "IsRegTestNet env \<longleftrightarrow> pe_network env = ''regtest''"

definition IsModelDActive :: "pool_env \<Rightarrow> int \<Rightarrow> bool" where
  "IsModelDActive env nHeight = Params_NetworkUpgradeActive (pe_params env) nHeight UPGRADE_MODELD"

definition chain_block :: "pool_env \<Rightarrow> int \<Rightarrow> (ptr \<times> CBlockIndex) option" where
  "chain_block env h =
     (case chain_at (pe_chain env) h of
        None \<Rightarrow> None
      | Some p \<Rightarrow> map_option (\<lambda>b. (p, b)) (pe_tree env p))"

definition tip_block :: "pool_env \<Rightarrow> (ptr \<times> CBlockIndex) option" where
  "tip_block env =
     (case chain_Tip (pe_chain env) of
        None \<Rightarrow> None
      | Some p \<Rightarrow> map_option (\<lambda>b. (p, b)) (pe_tree env p))"

definition have_coin :: "coins_view \<Rightarrow> COutPoint \<Rightarrow> bool" where
  "have_coin view op =
     (case view of None \<Rightarrow> False | Some coins \<Rightarrow> (case coins op of None \<Rightarrow> False | Some c \<Rightarrow> \<not> IsSpent c))"

definition MINER_REGISTRATION_LOCK_AMOUNT :: int where
  "MINER_REGISTRATION_LOCK_AMOUNT = 1000 * COIN"

section \<open>Registrations in a block\<close>

definition registration_entry ::
  "pool_env \<Rightarrow> bool \<Rightarrow> uint256 \<Rightarrow> nat \<Rightarrow> CTxOut \<Rightarrow> CachedBlockRegEntry option" where
  "registration_entry env isZeroCoinTx txid i out =
     (if length (scriptPubKey out) < 60 then None
      else case MatchCoinLockRegistration (scriptPubKey out) of
        Some (pubkey, lockTime, pubkeyHash) \<Rightarrow>
          if pubkey_GetID (mn_Hash160 (pe_mn env)) pubkey \<noteq> pubkeyHash then None
          else if nValue out < MINER_REGISTRATION_LOCK_AMOUNT then None
          else Some \<lparr>isCoinLock = True, reg_outpoint = \<lparr>op_hash = txid, op_n = of_nat i\<rparr>, reg_nValue = nValue out,
                 reg_pubkey = pubkey, reg_lockTime = lockTime, reg_challenge = 0\<rparr>
      | None \<Rightarrow>
          (case MatchPoWLockRegistration (scriptPubKey out) of
             Some (nonce, challenge, pubkey, lockTime, pubkeyHash) \<Rightarrow>
               if pubkey_GetID (mn_Hash160 (pe_mn env)) pubkey \<noteq> pubkeyHash then None
               else if length nonce \<noteq> 4 then None
               else
                 let puzzleHash = Hash256 (ser_writedata32 (ReadLE32 nonce) @ put_uint256 challenge @ put_pubkey pubkey)
                 in if (if nValue out = 0
                        then \<not> isZeroCoinTx \<or> puzzleHash > GetZeroCoinPoWLimit (pe_network env)
                        else nValue out < 10000 \<or> puzzleHash > GetMinerPoWLimit (pe_network env))
                    then None
                    else Some \<lparr>isCoinLock = False, reg_outpoint = \<lparr>op_hash = txid, op_n = of_nat i\<rparr>,
                           reg_nValue = nValue out, reg_pubkey = pubkey, reg_lockTime = lockTime, reg_challenge = challenge\<rparr>
           | None \<Rightarrow> None))"

fun output_entries :: "pool_env \<Rightarrow> bool \<Rightarrow> uint256 \<Rightarrow> nat \<Rightarrow> CTxOut list \<Rightarrow> CachedBlockRegEntry list" where
  "output_entries env zero txid i [] = []"
| "output_entries env zero txid i (out # outs) =
     (case registration_entry env zero txid i out of Some e \<Rightarrow> [e] | None \<Rightarrow> []) @ output_entries env zero txid (i + 1) outs"

fun block_entries :: "pool_env \<Rightarrow> nat \<Rightarrow> CTransaction list \<Rightarrow> CachedBlockRegEntry list" where
  "block_entries env nZeroCoinTxInBlock [] = []"
| "block_entries env nZeroCoinTxInBlock (tx # txs) =
     (let isZeroCoinTx = IsZeroCoinPoWTransaction (mn_Hash160 (pe_mn env)) tx
      in if isZeroCoinTx \<and> (length (vout tx) \<noteq> 1 \<or> nZeroCoinTxInBlock \<ge> 1) then block_entries env nZeroCoinTxInBlock txs
         else output_entries env isZeroCoinTx (tx_GetHash Hash256 tx) 0 (vout tx) @
              block_entries env (if isZeroCoinTx then nZeroCoinTxInBlock + 1 else nZeroCoinTxInBlock) txs)"

definition block_registrations :: "pool_env \<Rightarrow> ptr \<Rightarrow> CachedBlockRegEntry list" where
  "block_registrations env p = (case pe_disk env p of None \<Rightarrow> [] | Some block \<Rightarrow> block_entries env 0 (vtx block))"

definition challenge_valid :: "pool_env \<Rightarrow> int \<Rightarrow> uint256 \<Rightarrow> bool" where
  "challenge_valid env nHeight challenge =
     (case Option.bind (pe_index env challenge) (pe_tree env) of
        None \<Rightarrow> False
      | Some c \<Rightarrow>
          ix_nHeight c \<ge> 0 \<and> ix_nHeight c \<le> chain_Height (pe_chain env) \<and>
          (case chain_block env (ix_nHeight c) of None \<Rightarrow> False | Some (p, b) \<Rightarrow> phashBlock b = challenge) \<and>
          ix_nHeight c \<ge> nHeight - 100 \<and> ix_nHeight c < nHeight)"

text \<open>The keys an entry adds: those with a funded output, and those without value.\<close>

definition apply_entry ::
  "pool_env \<Rightarrow> coins_view \<Rightarrow> int \<Rightarrow> int \<Rightarrow> CachedBlockRegEntry \<Rightarrow> cpubkey list \<times> cpubkey list \<Rightarrow> cpubkey list \<times> cpubkey list" where
  "apply_entry env view nRegPeriod nHeight e ks =
     (case ks of (uniqueKeys, zeroCoinKeys) \<Rightarrow>
        if reg_lockTime e < nHeight + nRegPeriod then ks
        else if isCoinLock e then
          if \<not> have_coin view (reg_outpoint e) then ks else (insort_insert (reg_pubkey e) uniqueKeys, zeroCoinKeys)
        else if \<not> challenge_valid env nHeight (reg_challenge e) then ks
        else if reg_nValue e > 0 then
          if reg_nValue e < 10000 \<or> \<not> have_coin view (reg_outpoint e) then ks
          else (insort_insert (reg_pubkey e) uniqueKeys, zeroCoinKeys)
        else (uniqueKeys, insort_insert (reg_pubkey e) zeroCoinKeys))"

primrec scan_heights ::
  "pool_env \<Rightarrow> coins_view \<Rightarrow> int \<Rightarrow> int list \<Rightarrow> pool_cache \<times> cpubkey list \<times> cpubkey list \<Rightarrow> pool_cache \<times> cpubkey list \<times> cpubkey list" where
  "scan_heights env view nRegPeriod [] st = st"
| "scan_heights env view nRegPeriod (h # hs) st =
     (case chain_block env h of
        None \<Rightarrow> scan_heights env view nRegPeriod hs st
      | Some (p, b) \<Rightarrow>
          (case st of (cache, ks) \<Rightarrow>
             let (cache, entries) =
               (case map_of (mapBlockRegCache cache) (phashBlock b) of
                  Some es \<Rightarrow> (cache, es)
                | None \<Rightarrow>
                    let es = block_registrations env p
                    in (cache\<lparr>mapBlockRegCache := (phashBlock b, es) # mapBlockRegCache cache\<rparr>, es))
             in scan_heights env view nRegPeriod hs (cache, fold (apply_entry env view nRegPeriod (ix_nHeight b)) entries ks)))"

section \<open>Masternodes and bootstrap keys\<close>

fun masternode_keys ::
  "pool_env \<Rightarrow> mn_state \<Rightarrow> coins_view \<Rightarrow> int \<Rightarrow> COutPoint set \<Rightarrow> (cpubkey \<times> COutPoint) list \<Rightarrow> cpubkey list \<Rightarrow> cpubkey list" where
  "masternode_keys env s view h seen [] ks = ks"
| "masternode_keys env s view h seen ((k, op) # rest) ks =
     (if pubkey_IsValid k \<and> IsMasternodeActiveAtHeight s k h 2880 \<and> op \<notin> seen \<and>
         IsValidMasternodeCollateralAndAuth (pe_mn env) s view k op h None
      then masternode_keys env s view h (insert op seen) rest (insort_insert k ks)
      else masternode_keys env s view h seen rest ks)"

definition coinbase_key :: "CBlock \<Rightarrow> cpubkey option" where
  "coinbase_key block =
     (case vtx block of
        [] \<Rightarrow> None
      | tx # _ \<Rightarrow>
          (case vout tx of
             [] \<Rightarrow> None
           | out # _ \<Rightarrow>
               (case GetOp (scriptPubKey out) of
                  None \<Rightarrow> None
                | Some (opcode, vchPubKey, pc) \<Rightarrow>
                    if length vchPubKey = 33 \<or> length vchPubKey = 65 then
                      (case GetOp pc of
                         None \<Rightarrow> None
                       | Some (opcode, _, _) \<Rightarrow>
                           if opcode = OP_CHECKSIG \<and> pubkey_IsValid (pubkey_Set vchPubKey)
                           then Some (pubkey_Set vchPubKey) else None)
                    else None)))"

primrec scan_bootstrap :: "pool_env \<Rightarrow> int list \<Rightarrow> pool_cache \<Rightarrow> pool_cache" where
  "scan_bootstrap env [] cache = cache"
| "scan_bootstrap env (h # hs) cache =
     (case chain_block env h of
        None \<Rightarrow> cache
      | Some (p, b) \<Rightarrow>
          (case pe_disk env p of
             None \<Rightarrow> scan_bootstrap env hs cache
           | Some block \<Rightarrow>
               scan_bootstrap env hs
                 (cache\<lparr>cachedBootstrapKeys :=
                          (case coinbase_key block of
                             Some k \<Rightarrow> insort_insert k (cachedBootstrapKeys cache)
                           | None \<Rightarrow> cachedBootstrapKeys cache),
                        cachedBootstrapScannedUpTo := h\<rparr>)))"

fun fill_pool :: "nat \<Rightarrow> cpubkey list \<Rightarrow> cpubkey list \<Rightarrow> cpubkey list" where
  "fill_pool max_size [] ks = ks"
| "fill_pool max_size (k # rest) ks = (if length ks \<ge> max_size then ks else fill_pool max_size rest (insort_insert k ks))"

section \<open>The pool\<close>

text \<open>The keys found by the masternode map and the registrations, and the zero-coin keys.\<close>

definition registered_keys ::
  "pool_env \<Rightarrow> mn_state \<Rightarrow> coins_view \<Rightarrow> (ptr \<times> CBlockIndex) option \<Rightarrow> pool_cache \<Rightarrow> pool_cache \<times> cpubkey list \<times> cpubkey list" where
  "registered_keys env s view pindexTip cache =
     (let uniqueKeys = (if IsRegTestNet env then fold (\<lambda>i. insort_insert (pe_det_key env i)) [0..<15] [] else []);
          currentRefHeight = (case pindexTip of
              Some (_, b) \<Rightarrow> ix_nHeight b
            | None \<Rightarrow> (case tip_block env of Some (_, b) \<Rightarrow> ix_nHeight b | None \<Rightarrow> 0));
          uniqueKeys = masternode_keys env s view currentRefHeight {} (mapMasternodeCollateralOutpoints s) uniqueKeys
      in case pindexTip of
           None \<Rightarrow> (cache, uniqueKeys, [])
         | Some (_, b) \<Rightarrow>
             let nTipHeight = ix_nHeight b;
                 nRegPeriod = (if (pe_network env = ''test'' \<or> pe_network env = ''regtest'') \<and> IsModelDActive env (nTipHeight + 1)
                               then 100 else 2880);
                 nLimit = max 0 (nTipHeight - nRegPeriod)
             in scan_heights env view nRegPeriod (rev [nLimit + 1..nTipHeight]) (cache, uniqueKeys, []))"

definition pool_tip :: "pool_env \<Rightarrow> int \<Rightarrow> (ptr \<times> CBlockIndex) option" where
  "pool_tip env nHeight =
     (let pindexTip = (if nHeight = - 1 then tip_block env
                       else if nHeight \<ge> 0 \<and> nHeight \<le> chain_Height (pe_chain env) then chain_block env nHeight else None)
      in if pindexTip = None then tip_block env else pindexTip)"

definition pool_view :: "pool_env \<Rightarrow> best_view option \<Rightarrow> coins_view" where
  "pool_view env pView = map_option snd (if pView \<noteq> None then pView else pe_coinsTip env)"

definition trim_cache :: "mn_state \<Rightarrow> pool_cache \<Rightarrow> pool_cache" where
  "trim_cache s cache =
     (let cache = (if cachedPoolStateGen cache \<noteq> g_nMasternodePingStateGen s
                   then cache\<lparr>mapMinerPoolCache := [], cachedPoolStateGen := g_nMasternodePingStateGen s\<rparr> else cache);
          cache = (if length (mapMinerPoolCache cache) > 500 then cache\<lparr>mapMinerPoolCache := []\<rparr> else cache)
      in if length (mapBlockRegCache cache) > 5000 then cache\<lparr>mapBlockRegCache := []\<rparr> else cache)"

definition use_pool_cache :: "pool_env \<Rightarrow> best_view option \<Rightarrow> bool" where
  "use_pool_cache env pView =
     (case pView of
        None \<Rightarrow> True
      | Some (best, _) \<Rightarrow> (case pe_coinsTip env of None \<Rightarrow> False | Some (best', _) \<Rightarrow> best = best'))"

definition bootstrap_fill ::
  "pool_env \<Rightarrow> (ptr \<times> CBlockIndex) option \<Rightarrow> nat \<Rightarrow> pool_cache \<Rightarrow> cpubkey list \<Rightarrow> pool_cache \<times> cpubkey list" where
  "bootstrap_fill env pindexTip maxBootstrapPoolSize cache uniqueKeys =
     (if length uniqueKeys < maxBootstrapPoolSize \<and> pe_network env \<in> {''main'', ''test'', ''regtest''} \<and>
         (case pindexTip of None \<Rightarrow> True | Some (_, b) \<Rightarrow> ix_nHeight b < nAdamBootstrapLimit (pe_params env))
      then
        let genesisHash = (case chain_block env 0 of Some (_, b) \<Rightarrow> phashBlock b | None \<Rightarrow> 0);
            cache = (if genesisHash \<noteq> cachedGenesisHash cache
                     then cache\<lparr>cachedBootstrapKeys := [], cachedBootstrapScannedUpTo := 0, cachedGenesisHash := genesisHash\<rparr>
                     else cache);
            nScanLimit = min 199 (case pindexTip of Some (_, b) \<Rightarrow> ix_nHeight b | None \<Rightarrow> 0);
            cache = scan_bootstrap env [cachedBootstrapScannedUpTo cache + 1..nScanLimit] cache
        in (cache, fill_pool maxBootstrapPoolSize (cachedBootstrapKeys cache) uniqueKeys)
      else (cache, uniqueKeys))"

definition GetAdamMinerPool ::
  "pool_env \<Rightarrow> mn_state \<Rightarrow> int \<Rightarrow> best_view option \<Rightarrow> pool_cache \<Rightarrow> cpubkey list \<times> pool_cache" where
  "GetAdamMinerPool env s nHeight pView cache =
     (let cache = trim_cache s cache;
          pindexTip = pool_tip env nHeight;
          fUsePoolCache = use_pool_cache env pView
      in case (if fUsePoolCache then Option.bind pindexTip (\<lambda>(_, b). map_of (mapMinerPoolCache cache) (phashBlock b)) else None) of
           Some pool \<Rightarrow> (pool, cache)
         | None \<Rightarrow>
             let (cache, uniqueKeys, zeroCoinKeys) = registered_keys env s (pool_view env pView) pindexTip cache;
                 maxBootstrapPoolSize = nat (nAdamMinersCount (pe_params env) + 2);
                 uniqueKeys = fill_pool maxBootstrapPoolSize zeroCoinKeys uniqueKeys;
                 (cache, resultPool) = bootstrap_fill env pindexTip maxBootstrapPoolSize cache uniqueKeys;
                 cache = (case pindexTip of
                    Some (_, b) \<Rightarrow>
                      if fUsePoolCache \<and> int (length resultPool) \<ge> GetAdamThreshold (pe_params env) (ix_nHeight b)
                      then cache\<lparr>mapMinerPoolCache := (phashBlock b, resultPool) # mapMinerPoolCache cache\<rparr> else cache
                  | None \<Rightarrow> cache)
             in (resultPool, cache))"

section \<open>What the pool contains\<close>

abbreviation sorted_keys :: "cpubkey list \<Rightarrow> bool" where
  "sorted_keys \<equiv> sorted_wrt (<)"

definition cache_ok :: "pool_cache \<Rightarrow> bool" where
  "cache_ok cache \<longleftrightarrow> (\<forall>(h, pool) \<in> set (mapMinerPoolCache cache). sorted_keys pool) \<and> sorted_keys (cachedBootstrapKeys cache)"

lemma fill_pool_facts:
  assumes "sorted_keys ks"
  shows "sorted_keys (fill_pool n rest ks)" "set ks \<subseteq> set (fill_pool n rest ks)"
    "set (fill_pool n rest ks) \<subseteq> set ks \<union> set rest" "length (fill_pool n rest ks) \<le> max (length ks) n"
proof -
  have len: "length (insort_insert k xs) \<le> Suc (length xs)" for k :: cpubkey and xs
    by (simp add: insort_insert_key_def)
  show "sorted_keys (fill_pool n rest ks)" "set ks \<subseteq> set (fill_pool n rest ks)"
    "set (fill_pool n rest ks) \<subseteq> set ks \<union> set rest" "length (fill_pool n rest ks) \<le> max (length ks) n"
    using assms
    by (induction n rest ks rule: fill_pool.induct)
      (auto simp: sorted_strict_insort_insert set_insort_insert, metis len max.coboundedI1 max_def not_less_eq_eq order_trans)
qed

lemma fold_entries_sorted:
  "sorted_keys (fst ks) \<Longrightarrow> sorted_keys (snd ks) \<Longrightarrow>
   sorted_keys (fst (fold (apply_entry env view per h) es ks)) \<and> sorted_keys (snd (fold (apply_entry env view per h) es ks))"
proof (induction es arbitrary: ks)
  case (Cons e es)
  have "sorted_keys (fst (apply_entry env view per h e ks)) \<and> sorted_keys (snd (apply_entry env view per h e ks))"
    using Cons.prems by (cases ks) (simp add: apply_entry_def sorted_strict_insort_insert)
  then show ?case using Cons.IH [of "apply_entry env view per h e ks"] by simp
qed simp

lemma cache_ok_simps [simp]:
  "cache_ok (cache\<lparr>mapBlockRegCache := x\<rparr>) = cache_ok cache"
  "cache_ok (cache\<lparr>cachedPoolStateGen := g\<rparr>) = cache_ok cache"
  "cache_ok (cache\<lparr>mapMinerPoolCache := (h, pool) # m\<rparr>) \<longleftrightarrow> sorted_keys pool \<and> cache_ok (cache\<lparr>mapMinerPoolCache := m\<rparr>)"
  "cache_ok (cache\<lparr>mapMinerPoolCache := []\<rparr>) \<longleftrightarrow> sorted_keys (cachedBootstrapKeys cache)"
  by (auto simp: cache_ok_def)

lemma cache_ok_trim: "cache_ok cache \<Longrightarrow> cache_ok (trim_cache s cache)"
  by (auto simp: trim_cache_def Let_def cache_ok_def)

definition scan_ok :: "pool_cache \<times> cpubkey list \<times> cpubkey list \<Rightarrow> bool" where
  "scan_ok st \<longleftrightarrow> cache_ok (fst st) \<and> sorted_keys (fst (snd st)) \<and> sorted_keys (snd (snd st))"

lemma scan_ok_fold: "scan_ok (cache, ks) \<Longrightarrow> cache_ok cache' \<Longrightarrow> scan_ok (cache', fold (apply_entry env view per h) es ks)"
  using fold_entries_sorted [of ks env view per h es] by (simp add: scan_ok_def)

lemma scan_heights_ok: "scan_ok st \<Longrightarrow> scan_ok (scan_heights env view per hs st)"
proof (induction hs arbitrary: st)
  case (Cons h hs)
  obtain cache ks where st: "st = (cache, ks)" by (cases st)
  have c: "cache_ok cache" using Cons.prems by (simp add: st scan_ok_def)
  show ?case
  proof (cases "chain_block env h")
    case (Some pb)
    obtain p b where pb: "pb = (p, b)" by (cases pb)
    show ?thesis
      by (cases "map_of (mapBlockRegCache cache) (phashBlock b)")
        (simp_all add: Some pb st Let_def Cons.IH scan_ok_fold [OF Cons.prems [unfolded st]] c)
  qed (use Cons in simp)
qed simp

lemma masternode_keys_sorted: "sorted_keys ks \<Longrightarrow> sorted_keys (masternode_keys env s view h seen m ks)"
  by (induction env s view h seen m ks rule: masternode_keys.induct) (simp_all add: sorted_strict_insort_insert)

lemma registered_keys_ok: "cache_ok cache \<Longrightarrow> scan_ok (registered_keys env s view tip cache)"
proof -
  assume c: "cache_ok cache"
  have "sorted_keys ks \<Longrightarrow> sorted_keys (fold (\<lambda>i. insort_insert (pe_det_key env i)) is ks)" for "is" ks
    by (induction "is" arbitrary: ks) (simp_all add: sorted_strict_insort_insert)
  then have "sorted_keys (if IsRegTestNet env then fold (\<lambda>i. insort_insert (pe_det_key env i)) [0..<15] [] else [])" by simp
  then show ?thesis
    unfolding registered_keys_def Let_def
    by (auto simp: scan_ok_def c masternode_keys_sorted simp del: upt_Suc split: option.splits
      intro!: scan_heights_ok [unfolded scan_ok_def])
qed

lemma scan_bootstrap_ok:
  "sorted_keys (cachedBootstrapKeys cache) \<Longrightarrow>
   sorted_keys (cachedBootstrapKeys (scan_bootstrap env hs cache)) \<and>
   mapMinerPoolCache (scan_bootstrap env hs cache) = mapMinerPoolCache cache"
  by (induction hs arbitrary: cache) (auto simp: sorted_strict_insort_insert split: option.splits)

lemma bootstrap_fill_facts:
  assumes "cache_ok cache" "sorted_keys ks" "bootstrap_fill env tip n cache ks = (cache', pool)"
  shows "cache_ok cache'" "sorted_keys pool" "set ks \<subseteq> set pool" "length pool \<le> max (length ks) n"
    "n \<le> length ks \<Longrightarrow> pool = ks"
proof -
  have full: "fill_pool n rest ks = ks" if "n \<le> length ks" for rest using that by (cases rest) simp_all
  show "n \<le> length ks \<Longrightarrow> pool = ks"
    using assms(3) by (auto simp: bootstrap_fill_def Let_def full split: if_splits)
  consider "cache' = cache" "pool = ks"
    | hs c where "cache' = scan_bootstrap env hs c" "pool = fill_pool n (cachedBootstrapKeys cache') ks"
        "mapMinerPoolCache c = mapMinerPoolCache cache" "sorted_keys (cachedBootstrapKeys c)"
    using assms(1,3) by (auto simp: bootstrap_fill_def Let_def cache_ok_def split: if_splits)
  then have "cache_ok cache' \<and> sorted_keys pool \<and> set ks \<subseteq> set pool \<and> length pool \<le> max (length ks) n"
  proof cases
    case 2
    note f = fill_pool_facts [OF assms(2)] and b = scan_bootstrap_ok [OF 2(4), of env hs]
    have "cache_ok cache'" using assms(1) b 2 by (simp add: cache_ok_def)
    with f 2(2) show ?thesis by simp
  qed (use assms in simp)
  then show "cache_ok cache'" "sorted_keys pool" "set ks \<subseteq> set pool" "length pool \<le> max (length ks) n" by simp_all
qed

abbreviation fill_limit :: "pool_env \<Rightarrow> nat" where
  "fill_limit env \<equiv> nat (nAdamMinersCount (pe_params env) + 2)"

text \<open>Either a cached pool is returned, or the keys found are filled up.\<close>

lemma GetAdamMinerPool_cases:
  assumes "GetAdamMinerPool env s nHeight pView cache = (pool, cache')"
  obtains (hit) h where "use_pool_cache env pView" "(h, pool) \<in> set (mapMinerPoolCache (trim_cache s cache))"
      "cache' = trim_cache s cache"
  | (fresh) c funded zero c' where
      "registered_keys env s (pool_view env pView) (pool_tip env nHeight) (trim_cache s cache) = (c, funded, zero)"
      "bootstrap_fill env (pool_tip env nHeight) (fill_limit env) c (fill_pool (fill_limit env) zero funded) = (c', pool)"
      "cache' = c' \<or> (\<exists>h. cache' = c'\<lparr>mapMinerPoolCache := (h, pool) # mapMinerPoolCache c'\<rparr>)"
proof (cases "if use_pool_cache env pView
    then Option.bind (pool_tip env nHeight) (\<lambda>(_, b). map_of (mapMinerPoolCache (trim_cache s cache)) (phashBlock b)) else None")
  case None
  with assms fresh show thesis
    by (auto simp: GetAdamMinerPool_def Let_def split: prod.splits option.splits if_splits)
next
  case (Some p)
  then have "pool = p" "cache' = trim_cache s cache" "use_pool_cache env pView"
    using assms by (simp_all add: GetAdamMinerPool_def Let_def split: if_splits)
  with Some hit show thesis by (auto simp: bind_eq_Some_conv dest: map_of_SomeD)
qed

lemma GetAdamMinerPool_sorted:
  assumes "cache_ok cache" "GetAdamMinerPool env s nHeight pView cache = (pool, cache')"
  shows "cache_ok cache' \<and> sorted_keys pool"
  using assms(2)
proof (cases rule: GetAdamMinerPool_cases)
  case (hit h)
  then show ?thesis using cache_ok_trim [OF assms(1), of s] by (auto simp: cache_ok_def)
next
  case (fresh c funded zero c')
  have ok: "cache_ok c" "sorted_keys funded"
    using registered_keys_ok [OF cache_ok_trim [OF assms(1)], of env s "pool_view env pView" "pool_tip env nHeight" s] fresh(1)
    by (simp_all add: scan_ok_def)
  note b = bootstrap_fill_facts [OF ok(1) fill_pool_facts(1) [OF ok(2)] fresh(2)]
  show ?thesis using fresh(3) b(1,2) by auto
qed

text \<open>
  The miner pool has no duplicates and is in the order of the keys, with every cache it leaves behind. When it is
  computed and not taken from the cache, it contains every funded key, that is every active masternode and every
  registration with an unspent output; zero-coin and bootstrap keys are added only up to the number of miners plus two,
  and not at all when the funded keys reach that number.
\<close>

lemma miner_pool_filled:
  assumes "cache_ok cache" and "GetAdamMinerPool env s nHeight pView cache = (pool, cache')"
    and "registered_keys env s (pool_view env pView) (pool_tip env nHeight) (trim_cache s cache) = (c, funded, zero)"
  shows "cache_ok cache' \<and> sorted_keys pool \<and>
    (mapMinerPoolCache cache = [] \<or> \<not> use_pool_cache env pView \<longrightarrow>
     set funded \<subseteq> set pool \<and> length pool \<le> max (length funded) (nat (nAdamMinersCount (pe_params env) + 2)) \<and>
     (nat (nAdamMinersCount (pe_params env) + 2) \<le> length funded \<longrightarrow> pool = funded))"
  using assms(2)
proof (cases rule: GetAdamMinerPool_cases)
  case (hit h)
  then have "mapMinerPoolCache cache \<noteq> []" by (auto simp: trim_cache_def Let_def split: if_splits)
  with hit GetAdamMinerPool_sorted [OF assms(1,2)] show ?thesis by simp
next
  case (fresh c2 funded2 zero2 c')
  have ok: "cache_ok c" "sorted_keys funded"
    using registered_keys_ok [OF cache_ok_trim [OF assms(1)], of env s "pool_view env pView" "pool_tip env nHeight" s] assms(3)
    by (simp_all add: scan_ok_def)
  have eq: "c2 = c" "funded2 = funded" "zero2 = zero" using fresh(1) assms(3) by simp_all
  note f = fill_pool_facts [OF ok(2), where rest = zero and n = "fill_limit env"]
  note b = bootstrap_fill_facts [OF ok(1) f(1) fresh(2) [unfolded eq]]
  have "fill_limit env \<le> length funded \<Longrightarrow> pool = funded" using b(5) by (cases zero) simp_all
  then show ?thesis using b(3,4) f(2,4) GetAdamMinerPool_sorted [OF assms(1,2)] by auto
qed

definition pool_demo_env :: pool_env where
  "pool_demo_env = \<lparr>pe_params = mainConsensus\<lparr>nAdamThreshold := 1, nAdamThresholdBootstrapLimit := 0\<rparr>, pe_network = ''main'', pe_tree = Map.empty, pe_index = Map.empty,
     pe_chain = \<lparr>vChain = [], atomicTip = None\<rparr>, pe_disk = Map.empty, pe_mn = mn_demo_env, pe_det_key = \<lambda>_. invalid_key,
     pe_coinsTip = map_option (\<lambda>v. (0, v)) mn_demo_view\<rparr>"

text \<open>One masternode whose ping at height zero is the only key.\<close>

definition pool_demo_state :: mn_state where
  "pool_demo_state = apply_ping (demo_key 3) (mn_demo_op 1) 0 mn_empty"

lemma pool_demo_state_fields:
  "mapMasternodeCollateralOutpoints pool_demo_state = [(demo_key 3, mn_demo_op 1)]"
  "mapMasternodeActiveHeights pool_demo_state (demo_key 3) = Some [0]"
  by (simp_all add: pool_demo_state_def apply_ping_def mn_empty_def Let_def ping_heights_def insort_insert_key_def)

lemma pool_demo_registered:
  "registered_keys pool_demo_env pool_demo_state (pool_view pool_demo_env None) (pool_tip pool_demo_env 0)
     (trim_cache pool_demo_state pool_cache_init) = (trim_cache pool_demo_state pool_cache_init, [demo_key 3], [])"
proof -
  have tip: "tip_block pool_demo_env = None" "pool_tip pool_demo_env 0 = None"
    by (simp_all add: tip_block_def pool_tip_def pool_demo_env_def chain_Tip_def chain_Height_def)
  have view: "pool_view pool_demo_env None = mn_demo_view"
    by (simp add: pool_view_def pool_demo_env_def mn_demo_view_def)
  have "IsMasternodeActiveAtHeight pool_demo_state (demo_key 3) 0 2880"
    by (simp add: IsMasternodeActiveAtHeight_def pool_demo_state_fields)
  moreover have "IsValidMasternodeCollateralAndAuth mn_demo_env pool_demo_state mn_demo_view (demo_key 3) (mn_demo_op 1) 0 None"
    by (simp add: IsValidMasternodeCollateralAndAuth_def mn_demo_view_def new_Coin_def new_txout_def IsSpent_def
      GetMasternodeNodeCollateral_def CTxOut_IsNull_def COIN_def)
  moreover have "pe_mn pool_demo_env = mn_demo_env" "\<not> IsRegTestNet pool_demo_env"
    by (simp_all add: pool_demo_env_def IsRegTestNet_def)
  ultimately show ?thesis
    by (simp add: registered_keys_def tip view pool_demo_state_fields insort_insert_key_def)
qed

lemma pool_demo_pool:
  "\<exists>c. GetAdamMinerPool pool_demo_env pool_demo_state 0 None pool_cache_init = ([demo_key 3], c)"
proof -
  have "trim_cache pool_demo_state pool_cache_init = pool_cache_init\<lparr>cachedPoolStateGen := g_nMasternodePingStateGen pool_demo_state\<rparr>"
    by (simp add: trim_cache_def pool_cache_init_def Let_def)
  moreover have "pool_tip pool_demo_env 0 = None" "chain_block pool_demo_env 0 = None"
    by (simp_all add: tip_block_def pool_tip_def pool_demo_env_def chain_Tip_def chain_Height_def chain_block_def chain_at_def)
  ultimately show ?thesis
    using pool_demo_registered
    by (simp add: GetAdamMinerPool_def bootstrap_fill_def Let_def pool_cache_init_def)
qed

end
