(* ===== verification/Adam.thy ===== *)
theory Adam
  imports MinerPool "HOL-Library.Product_Lexorder"
begin

text \<open>
  ADAM, the cooperative consensus of adam.cpp: the rolling seed, the election of miners and a coordinator, the partial
  proofs of work of the miners, and the rotation of fallback coordinators by the distance of their BLS tickets.

  The global maps and the static caches are fields of \<open>adam_state\<close>, which every operation returns updated. The walk over
  parents in \<open>GetAdamSeed\<close> is a partial function whose value \<open>None\<close> means that it does not return. Sorting is stable where
  the code uses \<open>std::sort\<close>; the two agree when no two ranks are equal. The lemmas show that the seed is the one of a
  recursive specification whatever the cache holds, that the cached election is the computed one and what it elects, that
  an accepted solution meets its target, and that the rotation reaches every validator.
\<close>

unbundle bit_operations_syntax

section \<open>State\<close>

record select_cache =
  cachedSeed :: uint256
  cachedMinCount :: int
  cachedThreshold :: int
  cachedPool :: "cpubkey list"
  cachedMns :: "cpubkey list"
  cachedSelectedMiners :: "cpubkey list"
  cachedCoordinator :: cpubkey

record adam_state =
  mapAdamSeeds :: "uint256 \<Rightarrow> uint256 option"
  mapSeedToBlockHash :: "uint256 \<Rightarrow> uint256 option"
  mapRecentVRFProofs :: "uint256 \<Rightarrow> bytes option"
  adam_mn :: mn_state
  adam_pool :: pool_cache
  adam_select :: select_cache

definition IsAdamActive :: "int \<Rightarrow> ConsensusParams \<Rightarrow> bool" where
  "IsAdamActive nHeight p = Params_NetworkUpgradeActive p nHeight UPGRADE_ADAM"

section \<open>The rolling seed\<close>

definition ComputeNextAdamSeed :: "uint256 \<Rightarrow> bytes \<Rightarrow> uint256" where
  "ComputeNextAdamSeed prevSeed vrf =
     (case (if vrf = [] then None else get_signed vrf) of
        Some (d, _) \<Rightarrow>
          if pk_fValid (blsPubKey d) \<and> sg_fValid (blsSig d)
          then Hash256 (put_uint256 prevSeed @ pk_data (blsPubKey d) @ sg_data (blsSig d))
          else Hash256 (put_uint256 prevSeed @ put_blob vrf)
      | None \<Rightarrow> Hash256 (put_uint256 prevSeed @ put_blob vrf))"

text \<open>The first loop: the seed it starts from, if any, and the blocks after it, the oldest first.\<close>

partial_function (option) seed_walk ::
  "pool_env \<Rightarrow> adam_state \<Rightarrow> ptr option \<Rightarrow> (ptr \<times> CBlockIndex) list \<Rightarrow> (uint256 option \<times> (ptr \<times> CBlockIndex) list) option" where
  "seed_walk env st pcurr path =
     (case pcurr of
        None \<Rightarrow> Some (None, path)
      | Some p \<Rightarrow>
          (case pe_tree env p of
             None \<Rightarrow> Some (None, path)
           | Some b \<Rightarrow>
               if \<not> IsAdamActive (ix_nHeight b) (pe_params env) then Some (Some (phashBlock b), path)
               else (case mapAdamSeeds st (phashBlock b) of
                       Some seed \<Rightarrow> Some (Some seed, path)
                     | None \<Rightarrow> seed_walk env st (pprev b) ((p, b) # path))))"

text \<open>The proof of a block, from its file or else from the recent proofs.\<close>

definition block_proof :: "pool_env \<Rightarrow> adam_state \<Rightarrow> ptr \<Rightarrow> CBlockIndex \<Rightarrow> bytes option" where
  "block_proof env st p b =
     (case pe_disk env p of
        Some block \<Rightarrow> Some (vAdamVRFProof (header block))
      | None \<Rightarrow> mapRecentVRFProofs st (phashBlock b))"

primrec seed_forward :: "pool_env \<Rightarrow> uint256 \<Rightarrow> (ptr \<times> CBlockIndex) list \<Rightarrow> adam_state \<Rightarrow> uint256 \<times> adam_state" where
  "seed_forward env seed [] st = (seed, st)"
| "seed_forward env seed (pb # path) st =
     (case block_proof env st (fst pb) (snd pb) of
        None \<Rightarrow> (0, st)
      | Some vrf \<Rightarrow>
          let seed = ComputeNextAdamSeed seed vrf
          in seed_forward env seed path
               (st\<lparr>mapAdamSeeds := (mapAdamSeeds st)(phashBlock (snd pb) \<mapsto> seed),
                   mapSeedToBlockHash := (mapSeedToBlockHash st)(seed \<mapsto> phashBlock (snd pb))\<rparr>))"

definition GetAdamSeed :: "pool_env \<Rightarrow> ptr option \<Rightarrow> adam_state \<Rightarrow> (uint256 \<times> adam_state) option" where
  "GetAdamSeed env pindex st =
     (case Option.bind pindex (pe_tree env) of
        None \<Rightarrow> Some (0, st)
      | Some b \<Rightarrow>
          if \<not> IsAdamActive (ix_nHeight b) (pe_params env) then Some (phashBlock b, st)
          else (case seed_walk env st pindex [] of
                  None \<Rightarrow> None
                | Some (None, path) \<Rightarrow> Some (0, st)
                | Some (Some seed, path) \<Rightarrow> Some (seed_forward env seed path st)))"

section \<open>Election\<close>

definition adam_rank :: "uint256 \<Rightarrow> cpubkey \<Rightarrow> uint256" where
  "adam_rank hashAdamSeed key = Hash256 (put_uint256 hashAdamSeed @ put_pubkey key)"

definition adam_elect :: "uint256 \<Rightarrow> int \<Rightarrow> int \<Rightarrow> cpubkey list \<Rightarrow> cpubkey list \<Rightarrow> cpubkey list \<times> cpubkey" where
  "adam_elect hashAdamSeed minCount threshold pool vMns =
     (let rankedPool = sort_key (adam_rank hashAdamSeed) pool
      in if int (length vMns) > threshold then
           let rankedMns = sort_key (adam_rank hashAdamSeed) vMns;
               coordinatorOut = rankedMns ! 0;
               remainingPool = filter (\<lambda>k. k \<noteq> coordinatorOut) rankedPool;
               electCount = min minCount (int (length remainingPool))
           in (take (nat electCount) remainingPool, coordinatorOut)
         else
           let electCount = min minCount (int (length rankedPool))
           in (take (nat electCount) rankedPool,
               if int (length rankedPool) > electCount then rankedPool ! nat electCount else rankedPool ! 0))"

fun active_masternodes ::
  "pool_env \<Rightarrow> mn_state \<Rightarrow> coins_view \<Rightarrow> int \<Rightarrow> COutPoint set \<Rightarrow> (cpubkey \<times> COutPoint) list \<Rightarrow> (cpubkey \<times> COutPoint) list" where
  "active_masternodes env s view h seen [] = []"
| "active_masternodes env s view h seen ((k, op) # rest) =
     (if pubkey_IsValid k \<and> IsMasternodeActiveAtHeight s k h 2880 \<and> op \<notin> seen \<and>
         IsValidMasternodeCollateralAndAuth (pe_mn env) s view k op h None
      then (k, op) # active_masternodes env s view h (insert op seen) rest
      else active_masternodes env s view h seen rest)"

text \<open>The height \<open>SelectAdamNodes\<close> refers to, \<open>-1\<close> when it is unknown.\<close>

definition select_height :: "pool_env \<Rightarrow> adam_state \<Rightarrow> uint256 \<Rightarrow> int \<Rightarrow> int" where
  "select_height env st hashAdamSeed nBlockHeight =
     (let nHeight = (if nBlockHeight > 0 then nBlockHeight - 1 else - 1)
      in if nHeight < 0 then
           (case mapSeedToBlockHash st hashAdamSeed of
              None \<Rightarrow> nHeight
            | Some blockHash \<Rightarrow>
                (case Option.bind (pe_index env blockHash) (pe_tree env) of
                   None \<Rightarrow> nHeight
                 | Some b \<Rightarrow> ix_nHeight b))
         else nHeight)"

definition tip_height :: "pool_env \<Rightarrow> int \<Rightarrow> int" where
  "tip_height env d = (case tip_block env of Some (_, b) \<Rightarrow> ix_nHeight b | None \<Rightarrow> d)"

definition select_min_count :: "pool_env \<Rightarrow> int \<Rightarrow> int \<Rightarrow> int" where
  "select_min_count env nHeight nBlockHeight =
     (let effectiveBlockHeight =
            (if nBlockHeight > 0 then nBlockHeight else if nHeight \<ge> 0 then nHeight + 1 else tip_height env (- 1) + 1)
      in if effectiveBlockHeight > 0
         then if \<not> Params_NetworkUpgradeActive (pe_params env) effectiveBlockHeight UPGRADE_POMBL
              then 11 else nAdamMinersCount (pe_params env)
         else 11)"

definition SelectAdamNodes ::
  "pool_env \<Rightarrow> uint256 \<Rightarrow> int \<Rightarrow> best_view option \<Rightarrow> adam_state \<Rightarrow> (cpubkey list \<times> cpubkey) option \<times> adam_state" where
  "SelectAdamNodes env hashAdamSeed nBlockHeight pView st =
     (let nHeight = select_height env st hashAdamSeed nBlockHeight;
          (pool, pc) = GetAdamMinerPool env (adam_mn st) nHeight pView (adam_pool st);
          st = st\<lparr>adam_pool := pc\<rparr>;
          minCount = select_min_count env nHeight nBlockHeight;
          threshold = GetAdamThreshold (pe_params env) (if nHeight \<ge> 0 then nHeight else tip_height env 0)
      in if int (length pool) < threshold then (None, st)
         else
           let currentHeight = (if nHeight \<ge> 0 then nHeight else tip_height env 0);
               vMns = (if IsRegTestNet env then []
                       else map fst (active_masternodes env (adam_mn st) (pool_view env pView) currentHeight {}
                         (mapMasternodeCollateralOutpoints (adam_mn st))));
               vMns = remdups_adj (sort vMns);
               c = adam_select st
           in if cachedSeed c \<noteq> 0 \<and> cachedSeed c = hashAdamSeed \<and> cachedMinCount c = minCount \<and>
                 cachedThreshold c = threshold \<and> cachedPool c = pool \<and> cachedMns c = vMns
              then (Some (cachedSelectedMiners c, cachedCoordinator c), st)
              else
                let (miners, coordinator) = adam_elect hashAdamSeed minCount threshold pool vMns
                in (Some (miners, coordinator),
                    st\<lparr>adam_select := \<lparr>cachedSeed = hashAdamSeed, cachedMinCount = minCount, cachedThreshold = threshold,
                       cachedPool = pool, cachedMns = vMns, cachedSelectedMiners = miners, cachedCoordinator = coordinator\<rparr>\<rparr>))"

section \<open>Partial solutions\<close>

fun key_index :: "cpubkey \<Rightarrow> cpubkey list \<Rightarrow> nat \<Rightarrow> nat option" where
  "key_index k [] i = None"
| "key_index k (x # xs) i = (if x = k then Some i else key_index k xs (i + 1))"

definition GetAdamPuzzleAlgo :: "pool_env \<Rightarrow> uint256 \<Rightarrow> cpubkey \<Rightarrow> bool \<Rightarrow> adam_state \<Rightarrow> nat \<times> adam_state" where
  "GetAdamPuzzleAlgo env hashAdamSeed minerKey fFallbackMode st =
     (if fFallbackMode then
        let tmp = Hash256 (put_uint256 hashAdamSeed @ put_pubkey minerKey)
        in (unat (ucast (tmp - (tmp div 18) * 18) :: u64), st)
      else
        case SelectAdamNodes env hashAdamSeed (- 1) None st of
          (None, st) \<Rightarrow> (12, st)
        | (Some (miners, _), st) \<Rightarrow> (case key_index minerKey miners 0 of Some i \<Rightarrow> i mod 13 | None \<Rightarrow> 12, st))"

definition GetAdamPuzzleAlgoName :: "int \<Rightarrow> string" where
  "GetAdamPuzzleAlgoName algoIndex =
     (if 0 \<le> algoIndex \<and> algoIndex < 18
      then [''blake'', ''bmw'', ''groestl'', ''jh'', ''keccak'', ''skein'', ''luffa'', ''cubehash'', ''shavite'', ''simd'',
            ''echo'', ''X11KVS'', ''DoubleSHA256'', ''hamsi'', ''fugue'', ''shabal'', ''whirlpool'', ''haval''] ! nat algoIndex
      else ''DoubleSHA256'')"

text \<open>The buffer of 104 bytes holds the seed, the key with its size, and the nonce.\<close>

definition puzzle_input :: "uint256 \<Rightarrow> cpubkey \<Rightarrow> u32 \<Rightarrow> bytes" where
  "puzzle_input hashAdamSeed minerKey nonce =
     put_uint256 hashAdamSeed @ [of_nat (pubkey_size minerKey)] @ pubkey_bytes minerKey @ WriteLE32 nonce"

definition puzzle_chain :: "sph \<Rightarrow> uint256 \<Rightarrow> cpubkey \<Rightarrow> nat \<Rightarrow> bytes \<Rightarrow> uint256" where
  "puzzle_chain sph hashPrev minerKey minerIdx data =
     (case GetAdam3PermutationAlgos hashPrev minerKey of
        (algo1, algo2, algo3) \<Rightarrow>
          let i_factor = of_nat (minerIdx + 1);
              hash3 = CalculateAdamPuzzleHash sph algo3 data;
              hash2 = CalculateAdamPuzzleHash sph algo2 (put_uint256 (hash3 * i_factor))
          in CalculateAdamPuzzleHash sph algo1 (put_uint256 (hash2 * i_factor)))"

definition adam_target :: "ConsensusParams \<Rightarrow> int \<Rightarrow> int \<Rightarrow> limbs \<Rightarrow> limbs" where
  "adam_target p ver height bnTarget =
     (let fFallbackMode = (ver = 11 \<or> \<not> Params_NetworkUpgradeActive p height UPGRADE_MODELD);
          shift = (if Params_NetworkUpgradeActive p height UPGRADE_ADAM_V2 \<and> \<not> fFallbackMode
                   then nAdamDifficultyShiftV2 p else nAdamDifficultyShiftV1 p);
          scaledTarget = limbs_shl bnTarget (nat shift)
      in if limbs_compare scaledTarget (powLimit p) > 0 \<or> limbs_compare scaledTarget bnTarget < 0
         then powLimit p else scaledTarget)"

definition meets_difficulty :: "pool_env \<Rightarrow> uint256 \<Rightarrow> u32 \<Rightarrow> int \<Rightarrow> int \<Rightarrow> uint256 \<Rightarrow> bool" where
  "meets_difficulty env hashPrev bits ver height puzzleHash =
     (if IsRegTestNet env then True
      else case SetCompact bits of
        (bnTarget, fNegative, fOverflow) \<Rightarrow>
          if fNegative \<or> limbs_is_null bnTarget \<or> fOverflow then False
          else
            let height = (if height = - 1
                  then (case Option.bind (pe_index env hashPrev) (pe_tree env) of
                          Some b \<Rightarrow> ix_nHeight b + 1
                        | None \<Rightarrow> chain_Height (pe_chain env) + 1)
                  else height)
            in \<not> limbs_compare (limbs_of_u256 puzzleHash) (adam_target (pe_params env) ver height bnTarget) > 0)"

text \<open>The hash a solution has to have, \<open>None\<close> when the miner was not elected.\<close>

definition solution_hash ::
  "pool_env \<Rightarrow> sph \<Rightarrow> uint256 \<Rightarrow> uint256 \<Rightarrow> cpubkey \<Rightarrow> u32 \<Rightarrow> int \<Rightarrow> int \<Rightarrow> int \<Rightarrow> adam_state \<Rightarrow> uint256 option \<times> adam_state" where
  "solution_hash env sph hashPrev hashAdamSeed minerKey nonce ver height knownMinerIdx st =
     (let input = puzzle_input hashAdamSeed minerKey nonce
      in if ver = 11 then
           (case GetAdamPuzzleAlgo env hashAdamSeed minerKey True st of
              (algoIndex, st) \<Rightarrow> (Some (CalculateAdamPuzzleHash sph algoIndex input), st))
         else if ver \<ge> 12 then
           (let (minerIdx, st) =
              (if knownMinerIdx < 0 then
                 (case SelectAdamNodes env hashAdamSeed height None st of
                    (None, st) \<Rightarrow> (None, st)
                  | (Some (miners, _), st) \<Rightarrow> (key_index minerKey miners 0, st))
               else (Some (nat knownMinerIdx), st))
            in (map_option (\<lambda>i. puzzle_chain sph hashPrev minerKey i input) minerIdx, st))
         else (Some (CalculateAdamPuzzleHash sph 12 input), st))"

definition get_solution :: "(u32 \<times> bytes) reader" where
  "get_solution s = do {
     (nonce, s) \<leftarrow> ser_readdata32 s;
     (vchSig, s) \<leftarrow> get_blob s;
     Some ((nonce, vchSig), s) }"

definition VerifyAdamSolution ::
  "pool_env \<Rightarrow> ('g1, 'g2) blst \<Rightarrow> sph \<Rightarrow> uint256 \<Rightarrow> uint256 \<Rightarrow> cpubkey \<Rightarrow> bytes \<Rightarrow> u32 \<Rightarrow> int \<Rightarrow> int \<Rightarrow> int \<Rightarrow> adam_state \<Rightarrow>
   bool \<times> adam_state" where
  "VerifyAdamSolution env bl sph hashPrev hashAdamSeed minerKey vchSolution bits ver height knownMinerIdx st =
     (if vchSolution = [] then (False, st)
      else case get_solution vchSolution of
        None \<Rightarrow> (False, st)
      | Some ((nonce, vchSig), _) \<Rightarrow>
          (case solution_hash env sph hashPrev hashAdamSeed minerKey nonce ver height knownMinerIdx st of
             (None, st) \<Rightarrow> (False, st)
           | (Some puzzleHash, st) \<Rightarrow>
               if \<not> VerifyBLSWithECDSAFallback bl (mn_secp (pe_mn env)) (pinned_keys (adam_mn st)) puzzleHash minerKey vchSig
               then (False, st)
               else (meets_difficulty env hashPrev bits ver height puzzleHash, st)))"

definition VerifyAdamVRFProof :: "('g1, 'g2) blst \<Rightarrow> secp \<Rightarrow> pin_map \<Rightarrow> uint256 \<Rightarrow> bytes \<Rightarrow> cpubkey \<Rightarrow> bool" where
  "VerifyAdamVRFProof bl ec pins prevSeed vchProof coordinatorKey =
     (if vchProof = [] then False else VerifyBLSWithECDSAFallback bl ec pins prevSeed coordinatorKey vchProof)"

definition VerifyAdamCoordinatorSig ::
  "('g1, 'g2) blst \<Rightarrow> sph \<Rightarrow> secp \<Rightarrow> pin_map \<Rightarrow> CBlockHeader \<Rightarrow> cpubkey \<Rightarrow> uint256 option \<Rightarrow> bool" where
  "VerifyAdamCoordinatorSig bl sph ec pins block coordinatorKey pBlockHash =
     (if vAdamCoordinatorSig block = [] then False
      else VerifyBLSWithECDSAFallback bl ec pins (case pBlockHash of Some h \<Rightarrow> h | None \<Rightarrow> GetHash sph block)
        coordinatorKey (vAdamCoordinatorSig block))"

section \<open>Proof of BLS\<close>

definition ComputePoBLSTicket :: "CBLSPubKey \<Rightarrow> CBLSSignature \<Rightarrow> int \<Rightarrow> uint256" where
  "ComputePoBLSTicket k s nBlockHeight = Hash256 (pk_data k @ sg_data s @ put_int32 nBlockHeight)"

definition ExtractPoBLSTicketFromSolution ::
  "secp \<Rightarrow> pin_map \<Rightarrow> bytes \<Rightarrow> int \<Rightarrow> cpubkey option \<Rightarrow> uint256 option" where
  "ExtractPoBLSTicketFromSolution ec pins vchSolution nBlockHeight pMinerKey =
     (if vchSolution = [] then None
      else case get_solution vchSolution of
        None \<Rightarrow> None
      | Some ((nonce, vchSig), _) \<Rightarrow>
          if vchSig = [] then None
          else case get_signed vchSig of
            None \<Rightarrow> None
          | Some (d, _) \<Rightarrow>
              if pk_fValid (blsPubKey d) \<and> sg_fValid (blsSig d) then
                if (case pMinerKey of
                      None \<Rightarrow> True
                    | Some k \<Rightarrow>
                        pubkey_IsValid k \<and> pubkey_Verify ec k (Hash256 (pk_data (blsPubKey d))) (ecdsaSig d) \<and>
                        (case GetPinnedBLSPubKey pins k of Some p \<Rightarrow> blsPubKey d = p | None \<Rightarrow> True))
                then Some (ComputePoBLSTicket (blsPubKey d) (blsSig d) nBlockHeight) else None
              else None)"

definition ComputePoBLSTarget :: "uint256 \<Rightarrow> int \<Rightarrow> uint256" where
  "ComputePoBLSTarget hashAdamSeed nBlockHeight = Hash256 (put_uint256 hashAdamSeed @ put_int32 nBlockHeight)"

definition ComputePoBLSXORDistance :: "uint256 \<Rightarrow> uint256 \<Rightarrow> uint256" where
  "ComputePoBLSXORDistance ticketHash targetHash = ticketHash XOR targetHash"

text \<open>The order of \<open>ValidatorDistance\<close>: tickets first, then the distance, then the key.\<close>

definition validator_rank ::
  "secp \<Rightarrow> pin_map \<Rightarrow> uint256 \<Rightarrow> int \<Rightarrow> (cpubkey \<Rightarrow> bytes option) \<Rightarrow> cpubkey \<Rightarrow> bool \<times> uint256 \<times> cpubkey" where
  "validator_rank ec pins hashAdamSeed nBlockHeight mapSolutions minerKey =
     (let ticket = (case mapSolutions minerKey of
            None \<Rightarrow> None
          | Some sol \<Rightarrow> if sol = [] then None else ExtractPoBLSTicketFromSolution ec pins sol nBlockHeight (Some minerKey));
          ticketHash = (case ticket of
            Some h \<Rightarrow> h
          | None \<Rightarrow> Hash256 (put_uint256 hashAdamSeed @ put_pubkey minerKey @ put_int32 nBlockHeight))
      in (ticket = None, ComputePoBLSXORDistance ticketHash (ComputePoBLSTarget hashAdamSeed nBlockHeight), minerKey))"

definition RankValidatorsByPoBLSDistance ::
  "secp \<Rightarrow> pin_map \<Rightarrow> uint256 \<Rightarrow> int \<Rightarrow> cpubkey list \<Rightarrow> (cpubkey \<Rightarrow> bytes option) \<Rightarrow> cpubkey list" where
  "RankValidatorsByPoBLSDistance ec pins hashAdamSeed nBlockHeight vMiners mapSolutions =
     sort_key (validator_rank ec pins hashAdamSeed nBlockHeight mapSolutions) vMiners"

definition ADAM_FALLBACK_COORDINATOR_TIMEOUT_SECS :: int where
  "ADAM_FALLBACK_COORDINATOR_TIMEOUT_SECS = 45"

text \<open>The active coordinator, the one before it during the grace period, and the rotation index.\<close>

definition GetAdamFallbackCoordinatorForSlot ::
  "secp \<Rightarrow> pin_map \<Rightarrow> uint256 \<Rightarrow> int \<Rightarrow> int \<Rightarrow> cpubkey list \<Rightarrow> (cpubkey \<Rightarrow> bytes option) \<Rightarrow> (cpubkey \<times> cpubkey \<times> nat) option" where
  "GetAdamFallbackCoordinatorForSlot ec pins hashAdamSeed nBlockHeight nTimeElapsed vMiners mapSolutions =
     (if nTimeElapsed < ADAM_FALLBACK_COORDINATOR_TIMEOUT_SECS \<or> vMiners = [] then None
      else
        let vRanked = RankValidatorsByPoBLSDistance ec pins hashAdamSeed nBlockHeight vMiners mapSolutions
        in if vRanked = [] then None
           else
             let nFallbackElapsed = nTimeElapsed - ADAM_FALLBACK_COORDINATOR_TIMEOUT_SECS;
                 nRawSlot = nFallbackElapsed div 30;
                 nSlotOffset = nFallbackElapsed mod 30;
                 rotationIndex = nat nRawSlot mod length vRanked;
                 active = vRanked ! rotationIndex;
                 prev = (if nRawSlot > 0 \<and> nSlotOffset < 5
                         then vRanked ! ((rotationIndex + length vRanked - 1) mod length vRanked) else active)
             in Some (active, prev, rotationIndex))"

section \<open>The seed is the specified one\<close>

text \<open>
  The specification: a block before ADAM contributes its hash, and every later block hashes its proof into the seed of its
  parent.
\<close>

inductive adam_seed :: "pool_env \<Rightarrow> (ptr \<Rightarrow> CBlockIndex \<Rightarrow> bytes option) \<Rightarrow> ptr \<Rightarrow> uint256 \<Rightarrow> bool"
  for env :: pool_env and vp :: "ptr \<Rightarrow> CBlockIndex \<Rightarrow> bytes option" where
  seed_base: "pe_tree env p = Some b \<Longrightarrow> \<not> IsAdamActive (ix_nHeight b) (pe_params env) \<Longrightarrow> adam_seed env vp p (phashBlock b)"
| seed_step: "pe_tree env p = Some b \<Longrightarrow> IsAdamActive (ix_nHeight b) (pe_params env) \<Longrightarrow> pprev b = Some q \<Longrightarrow>
    adam_seed env vp q s \<Longrightarrow> vp p b = Some v \<Longrightarrow> adam_seed env vp p (ComputeNextAdamSeed s v)"

lemma adam_seed_unique: "adam_seed env vp p s \<Longrightarrow> adam_seed env vp p s' \<Longrightarrow> s = s'"
proof (induction arbitrary: s' rule: adam_seed.induct)
  case (seed_base p b)
  from seed_base.prems show ?case by cases (use seed_base.hyps in auto)
next
  case (seed_step p b q s v)
  from seed_step.prems show ?case
  proof cases
    case (seed_step b' q' s'' v')
    then show ?thesis using \<open>pe_tree env p = Some b\<close> \<open>pprev b = Some q\<close> \<open>vp p b = Some v\<close> seed_step.IH by fastforce
  qed (use seed_step.hyps in simp)
qed

definition seeds_ok :: "pool_env \<Rightarrow> (ptr \<Rightarrow> CBlockIndex \<Rightarrow> bytes option) \<Rightarrow> adam_state \<Rightarrow> bool" where
  "seeds_ok env vp st \<longleftrightarrow>
     (\<forall>p b s. pe_tree env p = Some b \<longrightarrow> IsAdamActive (ix_nHeight b) (pe_params env) \<longrightarrow>
        mapAdamSeeds st (phashBlock b) = Some s \<longrightarrow> adam_seed env vp p s)"

text \<open>
  The block index the node keeps: parents are present and one lower, a hash names one entry, the genesis block precedes
  ADAM, and the proof of every later block can be read.
\<close>

definition index_ok :: "pool_env \<Rightarrow> (ptr \<Rightarrow> CBlockIndex \<Rightarrow> bytes option) \<Rightarrow> bool" where
  "index_ok env vp \<longleftrightarrow>
     wf_parent (pe_tree env) \<and> \<not> IsAdamActive 0 (pe_params env) \<and>
     (\<forall>p q b c. pe_tree env p = Some b \<longrightarrow> pe_tree env q = Some c \<longrightarrow> phashBlock b = phashBlock c \<longrightarrow> p = q) \<and>
     (\<forall>p b. pe_tree env p = Some b \<longrightarrow> IsAdamActive (ix_nHeight b) (pe_params env) \<longrightarrow> vp p b \<noteq> None)"

definition active_path :: "pool_env \<Rightarrow> (ptr \<times> CBlockIndex) list \<Rightarrow> bool" where
  "active_path env path \<longleftrightarrow>
     (\<forall>(p, b) \<in> set path. pe_tree env p = Some b \<and> IsAdamActive (ix_nHeight b) (pe_params env))"

lemma block_proof_seeds [simp]:
  "block_proof env (st\<lparr>mapAdamSeeds := a, mapSeedToBlockHash := c\<rparr>) = block_proof env st"
  by (auto simp: block_proof_def fun_eq_iff split: option.split)

lemma seed_forward_append:
  assumes "index_ok env vp" "active_path env xs" "block_proof env st = vp"
  shows "seed_forward env s (xs @ ys) st = (case seed_forward env s xs st of (s', st') \<Rightarrow> seed_forward env s' ys st') \<and>
    block_proof env (snd (seed_forward env s xs st)) = vp"
  using assms(2,3)
proof (induction xs arbitrary: s st)
  case (Cons x xs)
  obtain p b where x: "x = (p, b)" by (cases x)
  have "vp p b \<noteq> None" using assms(1) Cons.prems(1) by (auto simp: index_ok_def active_path_def x)
  then obtain v where v: "block_proof env st p b = Some v" using Cons.prems(2) by auto
  have "active_path env xs" using Cons.prems(1) by (simp add: active_path_def)
  from Cons.IH [OF this, of "st\<lparr>mapAdamSeeds := (mapAdamSeeds st)(phashBlock b \<mapsto> ComputeNextAdamSeed s v),
      mapSeedToBlockHash := (mapSeedToBlockHash st)(ComputeNextAdamSeed s v \<mapsto> phashBlock b)\<rparr>" "ComputeNextAdamSeed s v"]
  show ?case using v Cons.prems(2) by (simp add: x Let_def)
qed simp

lemma seeds_ok_update:
  assumes "index_ok env vp" "seeds_ok env vp st" "pe_tree env p = Some b" "adam_seed env vp p s"
  shows "seeds_ok env vp (st\<lparr>mapAdamSeeds := (mapAdamSeeds st)(phashBlock b \<mapsto> s), mapSeedToBlockHash := m\<rparr>)"
  unfolding seeds_ok_def
proof (intro allI impI)
  fix q c s'
  assume q: "pe_tree env q = Some c" "IsAdamActive (ix_nHeight c) (pe_params env)"
    and s': "mapAdamSeeds (st\<lparr>mapAdamSeeds := (mapAdamSeeds st)(phashBlock b \<mapsto> s), mapSeedToBlockHash := m\<rparr>) (phashBlock c) = Some s'"
  show "adam_seed env vp q s'"
  proof (cases "phashBlock c = phashBlock b")
    case True
    then have "q = p" using assms(1,3) q(1) unfolding index_ok_def by blast
    with True s' assms(4) show ?thesis by simp
  next
    case False
    with s' q assms(2) show ?thesis by (simp add: seeds_ok_def)
  qed
qed

lemma seed_walk_path:
  assumes ok: "index_ok env vp" and st: "seeds_ok env vp st"
  shows "pe_tree env p = Some b \<Longrightarrow>
    \<exists>s pre. seed_walk env st (Some p) path = Some (Some s, pre @ path) \<and> active_path env pre \<and>
      (\<forall>st'. seeds_ok env vp st' \<longrightarrow> block_proof env st' = vp \<longrightarrow>
         adam_seed env vp p (fst (seed_forward env s pre st')) \<and> seeds_ok env vp (snd (seed_forward env s pre st')))"
proof (induction "nat (ix_nHeight b)" arbitrary: p b path)
  case 0
  have "wf_parent (pe_tree env)" using ok by (simp add: index_ok_def)
  then have "ix_nHeight b = 0" using 0 wf_parent_height by fastforce
  then have "\<not> IsAdamActive (ix_nHeight b) (pe_params env)" using ok by (simp add: index_ok_def)
  then show ?case using 0(2)
    by (intro exI [of _ "phashBlock b"] exI [of _ "[]"])
      (simp add: seed_walk.simps [of env st "Some p" path] active_path_def adam_seed.seed_base)
next
  case (Suc n)
  have wf: "wf_parent (pe_tree env)" using ok by (simp add: index_ok_def)
  show ?case
  proof (cases "IsAdamActive (ix_nHeight b) (pe_params env)")
    case False
    then show ?thesis using Suc.prems
      by (intro exI [of _ "phashBlock b"] exI [of _ "[]"])
        (simp add: seed_walk.simps [of env st "Some p" path] active_path_def adam_seed.seed_base)
  next
    case act: True
    show ?thesis
    proof (cases "mapAdamSeeds st (phashBlock b)")
      case (Some s)
      then have "adam_seed env vp p s" using st act Suc.prems by (auto simp: seeds_ok_def)
      with Some act show ?thesis using Suc.prems
        by (intro exI [of _ s] exI [of _ "[]"]) (simp add: seed_walk.simps [of env st "Some p" path] active_path_def)
    next
      case None
      have "ix_nHeight b \<noteq> 0" using Suc.hyps(2) by auto
      then obtain q where q: "pprev b = Some q" using wf_parent_genesis [OF wf Suc.prems] by auto
      from wf_parent_prev [OF wf Suc.prems q] obtain c where c: "pe_tree env q = Some c" "ix_nHeight b = ix_nHeight c + 1" by blast
      have "n = nat (ix_nHeight c)" using Suc.hyps(2) c(2) by linarith
      from Suc.hyps(1) [OF this c(1), of "(p, b) # path"] obtain s pre where
        walk: "seed_walk env st (Some q) ((p, b) # path) = Some (Some s, pre @ (p, b) # path)" and pre: "active_path env pre"
        and fwd: "\<And>st'. seeds_ok env vp st' \<Longrightarrow> block_proof env st' = vp \<Longrightarrow>
          adam_seed env vp q (fst (seed_forward env s pre st')) \<and> seeds_ok env vp (snd (seed_forward env s pre st'))" by blast
      have w: "seed_walk env st (Some p) path = Some (Some s, (pre @ [(p, b)]) @ path)"
        using walk None act Suc.prems q by (simp add: seed_walk.simps [of env st "Some p" path])
      have "active_path env (pre @ [(p, b)])" using pre act Suc.prems by (auto simp: active_path_def)
      moreover obtain v where v: "vp p b = Some v" using ok act Suc.prems unfolding index_ok_def by blast
      have "adam_seed env vp p (fst (seed_forward env s (pre @ [(p, b)]) st')) \<and>
          seeds_ok env vp (snd (seed_forward env s (pre @ [(p, b)]) st'))"
        if st': "seeds_ok env vp st'" "block_proof env st' = vp" for st'
      proof -
        obtain s1 st1 where f1: "seed_forward env s pre st' = (s1, st1)" by (cases "seed_forward env s pre st'")
        note ap = seed_forward_append [OF ok pre st'(2), of s "[(p, b)]"]
        have s1: "adam_seed env vp q s1" "seeds_ok env vp st1" using fwd [OF st'] f1 by simp_all
        have pr: "block_proof env st1 p b = Some v" using ap f1 v by simp
        have a: "adam_seed env vp p (ComputeNextAdamSeed s1 v)"
          by (rule adam_seed.seed_step [where vp = vp, OF Suc.prems act q s1(1) v])
        from seeds_ok_update [OF ok s1(2) Suc.prems a] a show ?thesis
          using ap f1 pr by (simp add: Let_def)
      qed
      ultimately show ?thesis using w by blast
    qed
  qed
qed

text \<open>
  C9. \<open>GetAdamSeed\<close> returns for every block of the index, and the seed is the one of the recursive specification, whatever
  part of the chain the cache already covers, as long as the cached seeds are right; the seeds it adds are right too.
  The proofs of the blocks are those the block files or the recent proofs give.
\<close>

theorem GetAdamSeed_correct:
  assumes "index_ok env (block_proof env st)" and "seeds_ok env (block_proof env st) st" and "pe_tree env p = Some b"
  shows "\<exists>seed st'. GetAdamSeed env (Some p) st = Some (seed, st') \<and> adam_seed env (block_proof env st) p seed \<and>
    seeds_ok env (block_proof env st) st'"
proof (cases "IsAdamActive (ix_nHeight b) (pe_params env)")
  case False
  with assms show ?thesis by (simp add: GetAdamSeed_def adam_seed.seed_base)
next
  case True
  from seed_walk_path [OF assms, of "[]"] obtain s pre where
    w: "seed_walk env st (Some p) [] = Some (Some s, pre)" and f: "adam_seed env (block_proof env st) p (fst (seed_forward env s pre st))"
    "seeds_ok env (block_proof env st) (snd (seed_forward env s pre st))" using assms(2) by auto
  have "GetAdamSeed env (Some p) st = Some (seed_forward env s pre st)" using True assms(3) w by (simp add: GetAdamSeed_def)
  with f show ?thesis by (metis prod.collapse)
qed

section \<open>What the election elects\<close>

lemma take_sort_key_le:
  assumes "x \<in> set (take n (sort_key f xs))" "y \<in> set xs" "y \<notin> set (take n (sort_key f xs))"
  shows "f x \<le> f y"
proof -
  let ?s = "sort_key f xs"
  have "sorted (map f (take n ?s) @ map f (drop n ?s))" by (metis append_take_drop_id map_append sorted_sort_key)
  moreover have "y \<in> set (drop n ?s)" using assms(2,3) by (metis Un_iff append_take_drop_id set_append set_sort)
  ultimately show ?thesis using assms(1) by (auto simp: sorted_append)
qed

definition elected_ok :: "uint256 \<Rightarrow> int \<Rightarrow> cpubkey list \<Rightarrow> cpubkey list \<Rightarrow> cpubkey list \<Rightarrow> cpubkey \<Rightarrow> bool" where
  "elected_ok seed minCount pool vMns miners coordinator \<longleftrightarrow>
     distinct miners \<and> set miners \<subseteq> set pool \<and> coordinator \<in> set pool \<union> set vMns \<and> int (length miners) \<le> minCount \<and>
     (int (length pool) > minCount \<longrightarrow> int (length miners) = minCount \<and> coordinator \<notin> set miners) \<and>
     (\<forall>m \<in> set miners. \<forall>k \<in> set pool. k \<notin> set miners \<longrightarrow> k \<noteq> coordinator \<longrightarrow> adam_rank seed m \<le> adam_rank seed k)"

lemma adam_elect_ok:
  assumes "distinct pool" "pool \<noteq> []" "0 \<le> threshold" "0 \<le> minCount"
    and elect: "adam_elect seed minCount threshold pool vMns = (miners, coordinator)"
  shows "elected_ok seed minCount pool vMns miners coordinator"
proof (cases "int (length vMns) > threshold")
  case True
  let ?s = "sort_key (adam_rank seed)"
  define rest where "rest = filter (\<lambda>k. k \<noteq> coordinator) (?s pool)"
  have c: "coordinator = ?s vMns ! 0" and m: "miners = take (nat (min minCount (int (length rest)))) rest"
    using elect True by (auto simp: adam_elect_def Let_def rest_def)
  have "vMns \<noteq> []" using True assms(3) by auto
  then have "coordinator \<in> set vMns" unfolding c by (metis length_greater_0_conv length_sort nth_mem set_sort)
  moreover have rest: "rest = ?s (filter (\<lambda>k. k \<noteq> coordinator) pool)"
    unfolding rest_def by (rule filter_sort)
  have "length (filter (\<lambda>k. k = coordinator) pool) \<le> 1"
    using assms(1) by (simp add: distinct_length_filter card_le_Suc0_iff_eq)
  then have "length pool \<le> Suc (length rest)"
    using sum_length_filter_compl [of "\<lambda>k. k = coordinator" pool] by (simp add: rest)
  moreover have "set miners \<subseteq> set rest" by (simp add: m set_take_subset)
  moreover have "distinct rest" using assms(1) by (simp add: rest)
  moreover have "adam_rank seed x \<le> adam_rank seed y"
    if "x \<in> set miners" "y \<in> set pool" "y \<notin> set miners" "y \<noteq> coordinator" for x y
    using take_sort_key_le [of x _ "adam_rank seed" "filter (\<lambda>k. k \<noteq> coordinator) pool" y] that by (simp add: m rest)
  ultimately show ?thesis using assms(4) by (auto simp: elected_ok_def m rest min_def)
next
  case False
  let ?s = "sort_key (adam_rank seed) pool" and ?n = "nat (min minCount (int (length pool)))"
  have m: "miners = take ?n ?s" and c: "coordinator = (if int (length pool) > min minCount (int (length pool)) then ?s ! ?n else ?s ! 0)"
    using elect False by (auto simp: adam_elect_def Let_def)
  have d: "distinct ?s" using assms(1) by simp
  have big: "coordinator \<notin> set miners" if "int (length pool) > minCount"
  proof -
    have n: "?n < length ?s" using that assms(4) by simp
    have "coordinator = ?s ! ?n" using that by (simp add: c)
    then show ?thesis using d n unfolding m by (auto simp: in_set_conv_nth nth_eq_iff_index_eq)
  qed
  have "0 < length ?s" "int (length pool) > min minCount (int (length pool)) \<Longrightarrow> ?n < length ?s" using assms(2,4) by auto
  then have "coordinator \<in> set ?s" unfolding c using nth_mem by (metis (full_types))
  moreover have "adam_rank seed x \<le> adam_rank seed y" if "x \<in> set miners" "y \<in> set pool" "y \<notin> set miners" for x y
    using take_sort_key_le that by (simp add: m)
  ultimately show ?thesis
    using assms(1,4) big by (auto simp: elected_ok_def m dest: in_set_takeD)
qed

definition select_ok :: "select_cache \<Rightarrow> bool" where
  "select_ok c \<longleftrightarrow> cachedSeed c \<noteq> 0 \<longrightarrow>
     adam_elect (cachedSeed c) (cachedMinCount c) (cachedThreshold c) (cachedPool c) (cachedMns c) =
       (cachedSelectedMiners c, cachedCoordinator c)"

lemma select_min_count_nonneg: "0 \<le> nAdamMinersCount (pe_params env) \<Longrightarrow> 0 \<le> select_min_count env h h'"
  by (simp add: select_min_count_def Let_def)

lemma GetAdamThreshold_pos: "0 < nAdamThreshold p \<Longrightarrow> 0 < GetAdamThreshold p h"
  by (simp add: GetAdamThreshold_def)

text \<open>
  C10. Whenever \<open>SelectAdamNodes\<close> succeeds, from its cache or not, the result is the election from the current miner pool
  and the active masternodes: the miners are distinct keys of the pool, at most as many as asked for, and rank before
  every key of the pool that was passed over; if the pool is larger than the number of miners, exactly that many are
  elected and the coordinator is not one of them. The caches stay right.
\<close>

theorem SelectAdamNodes_elects:
  assumes "cache_ok (adam_pool st)" and "select_ok (adam_select st)"
    and "0 < nAdamThreshold (pe_params env)" and "0 \<le> nAdamMinersCount (pe_params env)"
    and "SelectAdamNodes env hashAdamSeed nBlockHeight pView st = (Some (miners, coordinator), st')"
  shows "cache_ok (adam_pool st') \<and> select_ok (adam_select st') \<and>
    (\<exists>nHeight pool pc vMns.
       GetAdamMinerPool env (adam_mn st) nHeight pView (adam_pool st) = (pool, pc) \<and>
       int (length pool) \<ge> GetAdamThreshold (pe_params env) (if nHeight \<ge> 0 then nHeight else tip_height env 0) \<and>
       elected_ok hashAdamSeed (select_min_count env nHeight nBlockHeight) pool vMns miners coordinator)"
proof -
  define nHeight where "nHeight = select_height env st hashAdamSeed nBlockHeight"
  define minCount where "minCount = select_min_count env nHeight nBlockHeight"
  define thr where "thr = GetAdamThreshold (pe_params env) (if nHeight \<ge> 0 then nHeight else tip_height env 0)"
  obtain pool pc where pool: "GetAdamMinerPool env (adam_mn st) nHeight pView (adam_pool st) = (pool, pc)"
    by (cases "GetAdamMinerPool env (adam_mn st) nHeight pView (adam_pool st)")
  define vMns where "vMns = remdups_adj (sort (if IsRegTestNet env then []
    else map fst (active_masternodes env (adam_mn st) (pool_view env pView) (if nHeight \<ge> 0 then nHeight else tip_height env 0) {}
      (mapMasternodeCollateralOutpoints (adam_mn st)))))"
  note pf = GetAdamMinerPool_sorted [OF assms(1) pool]
  let ?c = "adam_select st"
  define hit where "hit \<longleftrightarrow> cachedSeed ?c \<noteq> 0 \<and> cachedSeed ?c = hashAdamSeed \<and> cachedMinCount ?c = minCount \<and> cachedThreshold ?c = thr \<and>
    cachedPool ?c = pool \<and> cachedMns ?c = vMns"
  have upd: "adam_mn (st\<lparr>adam_pool := pc\<rparr>) = adam_mn st" "adam_select (st\<lparr>adam_pool := pc\<rparr>) = adam_select st" by simp_all
  have eq: "SelectAdamNodes env hashAdamSeed nBlockHeight pView st =
    (if int (length pool) < thr then (None, st\<lparr>adam_pool := pc\<rparr>)
     else if hit then (Some (cachedSelectedMiners ?c, cachedCoordinator ?c), st\<lparr>adam_pool := pc\<rparr>)
     else (case adam_elect hashAdamSeed minCount thr pool vMns of (miners, coordinator) \<Rightarrow>
       (Some (miners, coordinator), st\<lparr>adam_pool := pc, adam_select := \<lparr>cachedSeed = hashAdamSeed, cachedMinCount = minCount,
          cachedThreshold = thr, cachedPool = pool, cachedMns = vMns, cachedSelectedMiners = miners,
          cachedCoordinator = coordinator\<rparr>\<rparr>)))"
    unfolding SelectAdamNodes_def nHeight_def [symmetric] pool Let_def prod.case minCount_def thr_def vMns_def hit_def upd ..
  have size: "\<not> int (length pool) < thr" using assms(5) unfolding eq by (auto split: if_splits)
  have res: "adam_pool st' = pc \<and> adam_elect hashAdamSeed minCount thr pool vMns = (miners, coordinator) \<and> select_ok (adam_select st')"
  proof (cases hit)
    case True
    then show ?thesis using assms(2,5) size unfolding eq by (auto simp: select_ok_def hit_def)
  next
    case False
    then show ?thesis using assms(5) size unfolding eq by (auto simp: select_ok_def split: prod.splits)
  qed
  have "distinct pool" using pf by (simp add: strict_sorted_iff)
  moreover have thr: "0 < thr" unfolding thr_def by (rule GetAdamThreshold_pos [OF assms(3)])
  moreover have "pool \<noteq> []" using size thr by auto
  ultimately have "elected_ok hashAdamSeed minCount pool vMns miners coordinator"
    using res select_min_count_nonneg [OF assms(4)] by (intro adam_elect_ok [of pool thr]) (simp_all add: minCount_def)
  with pf res size pool show ?thesis unfolding minCount_def thr_def by (meson linorder_not_less)
qed

section \<open>Accepted solutions\<close>

interpretation solution: canonical_codec "\<lambda>x. length (snd x) \<le> unat MAX_SIZE" "\<lambda>x. ser_writedata32 (fst x) @ put_blob (snd x)" get_solution
  by unfold_locales (auto simp: get_solution_def field_codecs bind_eq_Some_conv dest!: field_canon)

lemma puzzle_input_fits: "length (puzzle_input seed k nonce) \<le> 102"
proof -
  have "length (pubkey_bytes k) \<le> 65"
    using GetLen_bound [of "key_vch k ! 0"] by (simp add: pubkey_bytes_def pubkey_size_def)
  then show ?thesis by (simp add: puzzle_input_def put_uint256_def WriteLE32_def)
qed

lemma adam_target_bounds:
  assumes "length bn = 8" "length (powLimit p) = 8"
  shows "lval (adam_target p ver h bn) \<le> lval (powLimit p)"
    and "\<exists>shift \<in> {nAdamDifficultyShiftV1 p, nAdamDifficultyShiftV2 p}. lval (adam_target p ver h bn) \<le> lval bn * 2 ^ nat shift"
proof -
  define shift where "shift = (if Params_NetworkUpgradeActive p h UPGRADE_ADAM_V2 \<and>
    \<not> (ver = 11 \<or> \<not> Params_NetworkUpgradeActive p h UPGRADE_MODELD) then nAdamDifficultyShiftV2 p else nAdamDifficultyShiftV1 p)"
  define sc where "sc = limbs_shl bn (nat shift)"
  have t: "adam_target p ver h bn = (if limbs_compare sc (powLimit p) > 0 \<or> limbs_compare sc bn < 0 then powLimit p else sc)"
    by (simp only: adam_target_def Let_def shift_def sc_def)
  have len: "length sc = 8" by (simp add: sc_def assms)
  have sc: "lval sc = lval bn * 2 ^ nat shift mod 2 ^ 256" by (simp add: sc_def lval_shl assms)
  have cmp: "limbs_compare sc (powLimit p) > 0 \<longleftrightarrow> lval (powLimit p) < lval sc" "limbs_compare sc bn < 0 \<longleftrightarrow> lval sc < lval bn"
    using limbs_compare_correct [of sc "powLimit p"] limbs_compare_correct [of sc bn] len assms by auto
  have tv: "lval (adam_target p ver h bn) = (if lval (powLimit p) < lval sc \<or> lval sc < lval bn then lval (powLimit p) else lval sc)"
    unfolding t cmp by (rule if_distrib)
  then show le: "lval (adam_target p ver h bn) \<le> lval (powLimit p)" by (simp split: if_splits)
  have pl: "lval (powLimit p) < 2 ^ 256" using lval_less [of "powLimit p"] assms by simp
  have "lval (adam_target p ver h bn) \<le> lval bn * 2 ^ nat shift"
  proof (cases "lval bn * 2 ^ nat shift < 2 ^ 256")
    case True
    then have e: "lval sc = lval bn * 2 ^ nat shift" using sc by (simp only: mod_less)
    have "lval bn * 1 \<le> lval bn * 2 ^ nat shift" by (rule mult_le_mono2) simp
    then have "\<not> lval sc < lval bn" unfolding e by linarith
    then show ?thesis using tv e by (simp split: if_splits)
  next
    case False
    then show ?thesis using le pl by linarith
  qed
  moreover have "shift \<in> {nAdamDifficultyShiftV1 p, nAdamDifficultyShiftV2 p}" by (simp add: shift_def)
  ultimately show "\<exists>shift \<in> {nAdamDifficultyShiftV1 p, nAdamDifficultyShiftV2 p}. lval (adam_target p ver h bn) \<le> lval bn * 2 ^ nat shift"
    by (rule bexI)
qed

text \<open>
  C24. A solution that is accepted outside the regression test network decodes into a nonce and a signature, the miner was
  elected or its index was given, the miner's hybrid signature covers the puzzle hash, the hash does not exceed the proof
  of work limit nor the compact target times the difficulty shift, even if shifting the target overflows; and the buffer
  the puzzle is assembled in is never exceeded.
\<close>

theorem accepted_solution:
  assumes "VerifyAdamSolution env bl sph hashPrev hashAdamSeed minerKey vchSolution bits ver height knownMinerIdx st = (True, st')"
    and "\<not> IsRegTestNet env" and "length (powLimit (pe_params env)) = 8"
  shows "\<exists>nonce vchSig rest puzzleHash.
    vchSolution = ser_writedata32 nonce @ put_blob vchSig @ rest \<and>
    length (puzzle_input hashAdamSeed minerKey nonce) \<le> 104 \<and>
    solution_hash env sph hashPrev hashAdamSeed minerKey nonce ver height knownMinerIdx st = (Some puzzleHash, st') \<and>
    VerifyBLSWithECDSAFallback bl (mn_secp (pe_mn env)) (pinned_keys (adam_mn st')) puzzleHash minerKey vchSig \<and>
    unat puzzleHash \<le> lval (powLimit (pe_params env)) \<and>
    (\<exists>shift \<in> {nAdamDifficultyShiftV1 (pe_params env), nAdamDifficultyShiftV2 (pe_params env)}.
       unat puzzleHash \<le> lval (fst (SetCompact bits)) * 2 ^ nat shift)"
proof -
  from assms(1) obtain nonce vchSig rest puzzleHash where
    sol: "get_solution vchSolution = Some ((nonce, vchSig), rest)" and
    hash: "solution_hash env sph hashPrev hashAdamSeed minerKey nonce ver height knownMinerIdx st = (Some puzzleHash, st')"
      "VerifyBLSWithECDSAFallback bl (mn_secp (pe_mn env)) (pinned_keys (adam_mn st')) puzzleHash minerKey vchSig"
      "meets_difficulty env hashPrev bits ver height puzzleHash"
    by (auto simp: VerifyAdamSolution_def split: if_splits option.splits prod.splits)
  obtain h where h: "\<not> limbs_compare (limbs_of_u256 puzzleHash) (adam_target (pe_params env) ver h (fst (SetCompact bits))) > 0"
    using hash(3) assms(2) by (auto simp: meets_difficulty_def Let_def split: prod.splits if_splits)
  let ?t = "adam_target (pe_params env) ver h (fst (SetCompact bits))"
  have "length ?t = 8" using assms(3) by (simp add: adam_target_def Let_def)
  then have "unat puzzleHash \<le> lval ?t" using h by (simp add: limbs_compare_correct lval_limbs_of_u256 split: if_splits)
  with adam_target_bounds [OF length_SetCompact assms(3), of ver h bits]
  have "unat puzzleHash \<le> lval (powLimit (pe_params env))" "\<exists>shift \<in> {nAdamDifficultyShiftV1 (pe_params env), nAdamDifficultyShiftV2 (pe_params env)}.
       unat puzzleHash \<le> lval (fst (SetCompact bits)) * 2 ^ nat shift" by force+
  moreover have "vchSolution = ser_writedata32 nonce @ put_blob vchSig @ rest" using solution.canon [OF sol] by simp
  moreover have "length (puzzle_input hashAdamSeed minerKey nonce) \<le> 104" using puzzle_input_fits [of hashAdamSeed minerKey nonce] by simp
  ultimately show ?thesis using hash by blast
qed

section \<open>Rotation of fallback coordinators\<close>

lemma RankValidators_perm:
  "set (RankValidatorsByPoBLSDistance ec pins seed h vMiners sols) = set vMiners"
  "length (RankValidatorsByPoBLSDistance ec pins seed h vMiners sols) = length vMiners"
  "sorted (map (validator_rank ec pins seed h sols) (RankValidatorsByPoBLSDistance ec pins seed h vMiners sols))"
  by (simp_all add: RankValidatorsByPoBLSDistance_def)

lemma fallback_slot:
  assumes "vMiners \<noteq> []" "0 \<le> i" "0 \<le> d" "d < 30"
  shows "GetAdamFallbackCoordinatorForSlot ec pins seed h (45 + 30 * i + d) vMiners sols =
    (let v = RankValidatorsByPoBLSDistance ec pins seed h vMiners sols; n = length v
     in Some (v ! (nat i mod n), if i > 0 \<and> d < 5 then v ! (nat (i - 1) mod n) else v ! (nat i mod n), nat i mod n))"
proof -
  define v where "v = RankValidatorsByPoBLSDistance ec pins seed h vMiners sols"
  have n: "v \<noteq> []" using assms(1) RankValidators_perm(2) [of ec pins seed h vMiners sols] by (auto simp: v_def)
  have dm: "(30 * i + d) div 30 = i" "(30 * i + d) mod 30 = d" using assms by (simp_all add: div_add1_eq)
  have prev: "(nat i mod length v + length v - 1) mod length v = nat (i - 1) mod length v" if "i > 0"
  proof -
    have "nat i mod length v + length v - 1 = nat i mod length v + (length v - 1)" using n by (cases v) simp_all
    also have "(nat i mod length v + (length v - 1)) mod length v = (nat i + (length v - 1)) mod length v"
      by (rule mod_add_left_eq)
    also have "nat i + (length v - 1) = nat (i - 1) + length v" using n that by (cases v) simp_all
    finally show ?thesis by simp
  qed
  show ?thesis
    unfolding GetAdamFallbackCoordinatorForSlot_def v_def [symmetric] Let_def ADAM_FALLBACK_COORDINATOR_TIMEOUT_SECS_def
    using n assms prev dm by simp
qed

lemma fallback_slot_exists:
  assumes "0 \<le> s0" "j < n"
  obtains i where "s0 \<le> i" "i < s0 + int n" "nat i mod n = j"
proof -
  define i where "i = s0 + (int j - s0) mod int n"
  have n: "0 < int n" using assms(2) by simp
  have "0 \<le> (int j - s0) mod int n" "(int j - s0) mod int n < int n" using n by simp_all
  then have b: "s0 \<le> i" "i < s0 + int n" by (simp_all add: i_def)
  have "i mod int n = int j mod int n" unfolding i_def by (metis add.commute diff_add_cancel mod_add_left_eq)
  then have "int (nat i mod n) = int j" using b assms by (simp add: zmod_int)
  with b that show thesis by simp
qed

text \<open>
  C23. Once the timeout of 45 seconds has passed, every validator is the active fallback coordinator at some moment of any
  period of thirty seconds per validator, so a stalled coordinator cannot hold up a block for ever; and during the first
  five seconds of the next slot it is still reported as the previous coordinator.
\<close>

theorem fallback_rotation_live:
  assumes "k \<in> set vMiners" and "45 \<le> t"
  shows "\<exists>t' d. t \<le> t' \<and> t' < t + 30 * int (length vMiners) \<and> 0 < d \<and> d \<le> 30 \<and>
    (\<exists>prev i. GetAdamFallbackCoordinatorForSlot ec pins seed nBlockHeight t' vMiners mapSolutions = Some (k, prev, i)) \<and>
    (\<forall>g. 0 \<le> g \<and> g < 5 \<longrightarrow>
       (\<exists>act i. GetAdamFallbackCoordinatorForSlot ec pins seed nBlockHeight (t' + d + g) vMiners mapSolutions = Some (act, k, i)))"
proof -
  define v where "v = RankValidatorsByPoBLSDistance ec pins seed nBlockHeight vMiners mapSolutions"
  have ne: "vMiners \<noteq> []" using assms(1) by auto
  have len: "length v = length vMiners" by (simp add: v_def RankValidators_perm)
  obtain j where j: "j < length v" "v ! j = k" using assms(1) RankValidators_perm(1) [of ec pins seed nBlockHeight vMiners mapSolutions]
    by (metis in_set_conv_nth v_def)
  define s0 d0 where "s0 = (t - 45) div 30" and "d0 = (t - 45) mod 30"
  have t: "t = 45 + 30 * s0 + d0" "0 \<le> d0" "d0 < 30" "0 \<le> s0" using assms(2) by (simp_all add: s0_def d0_def)
  obtain i where i: "s0 \<le> i" "i < s0 + int (length v)" "nat i mod length v = j"
    using fallback_slot_exists [OF t(4) j(1)] by blast
  have slot: "GetAdamFallbackCoordinatorForSlot ec pins seed nBlockHeight (45 + 30 * x + d) vMiners mapSolutions =
      Some (v ! (nat x mod length v), if x > 0 \<and> d < 5 then v ! (nat (x - 1) mod length v) else v ! (nat x mod length v), nat x mod length v)"
    if "0 \<le> x" "0 \<le> d" "d < 30" for x d
    using fallback_slot [OF ne that] by (simp add: v_def Let_def)
  let ?t = "45 + 30 * i + d0"
  have "t \<le> ?t \<and> ?t < t + 30 * int (length vMiners)" using i t(1) len by simp
  moreover have "GetAdamFallbackCoordinatorForSlot ec pins seed nBlockHeight ?t vMiners mapSolutions =
      Some (k, if i > 0 \<and> d0 < 5 then v ! (nat (i - 1) mod length v) else k, j)"
    using slot [of i d0] i t j by simp
  moreover have "GetAdamFallbackCoordinatorForSlot ec pins seed nBlockHeight (?t + (30 - d0) + g) vMiners mapSolutions
      = Some (v ! (nat (i + 1) mod length v), k, nat (i + 1) mod length v)" if "0 \<le> g" "g < 5" for g
  proof -
    have "?t + (30 - d0) + g = 45 + 30 * (i + 1) + g" by simp
    then show ?thesis using slot [of "i + 1" g] that i t(4) j by simp
  qed
  moreover have "0 < 30 - d0" "30 - d0 \<le> 30" using t by simp_all
  ultimately show ?thesis by blast
qed

section \<open>Instances\<close>

definition select_cache_init :: select_cache where
  "select_cache_init = \<lparr>cachedSeed = 0, cachedMinCount = - 1, cachedThreshold = - 1, cachedPool = [], cachedMns = [],
     cachedSelectedMiners = [], cachedCoordinator = invalid_key\<rparr>"

definition adam_demo_state :: adam_state where
  "adam_demo_state = \<lparr>mapAdamSeeds = Map.empty, mapSeedToBlockHash = Map.empty, mapRecentVRFProofs = Map.empty,
     adam_mn = pool_demo_state, adam_pool = pool_cache_init, adam_select = select_cache_init\<rparr>"

text \<open>The four blocks of the demonstration tree, with ADAM active from the first one after the genesis block.\<close>

definition seed_demo_env :: pool_env where
  "seed_demo_env = pool_demo_env\<lparr>pe_tree := demo_tree,
     pe_disk := \<lambda>_. Some \<lparr>header = header_SetNull, vtx = [], vchBlockSig = []\<rparr>,
     pe_params := mainConsensus\<lparr>vUpgrades := mainUpgrades(UPGRADE_ADAM := upgrade_at0 1)\<rparr>\<rparr>"

lemma seed_demo_ok: "index_ok seed_demo_env (block_proof seed_demo_env adam_demo_state)"
proof -
  have dom: "p \<in> {0, 1, 2, 3, 4}" if "demo_tree p = Some b" for p b
    using that by (auto simp: demo_tree_def split: if_splits)
  have "p = q" if "demo_tree p = Some b" "demo_tree q = Some c" "phashBlock b = phashBlock c" for p q b c
    using dom [OF that(1)] dom [OF that(2)] that by (auto simp: demo_tree_nodes)
  moreover have "\<not> IsAdamActive 0 (pe_params seed_demo_env)"
    unfolding seed_demo_env_def IsAdamActive_def by code_simp
  ultimately show ?thesis
    using wf_treeD [OF demo_tree_wf] by (auto simp: index_ok_def seed_demo_env_def block_proof_def)
qed

theorem GetAdamSeed_correct_witness:
  "\<exists>seed st'. GetAdamSeed seed_demo_env (Some 3) adam_demo_state = Some (seed, st') \<and>
     adam_seed seed_demo_env (block_proof seed_demo_env adam_demo_state) 3 seed"
proof -
  have "pe_tree seed_demo_env 3 = Some (demo_entry 103 (Some 2) (Some 1) 3)" by (simp add: seed_demo_env_def demo_tree_nodes)
  moreover have "seeds_ok seed_demo_env (block_proof seed_demo_env adam_demo_state) adam_demo_state"
    by (simp add: seeds_ok_def adam_demo_state_def)
  ultimately show ?thesis using GetAdamSeed_correct [OF seed_demo_ok] by blast
qed

lemma select_demo: "\<exists>r st'. SelectAdamNodes pool_demo_env 5 1 None adam_demo_state = (Some r, st')"
proof -
  obtain c where c: "GetAdamMinerPool pool_demo_env pool_demo_state 0 None pool_cache_init = ([demo_key 3], c)"
    using pool_demo_pool by blast
  have "select_height pool_demo_env adam_demo_state 5 1 = 0" by (simp add: select_height_def)
  moreover have "GetAdamThreshold (pe_params pool_demo_env) 0 = 1" by (simp add: pool_demo_env_def GetAdamThreshold_def)
  ultimately show ?thesis
    using c by (simp add: SelectAdamNodes_def adam_demo_state_def Let_def split: prod.split)
qed

theorem SelectAdamNodes_elects_witness:
  "\<exists>miners coordinator st'. SelectAdamNodes pool_demo_env 5 1 None adam_demo_state = (Some (miners, coordinator), st') \<and>
     select_ok (adam_select st')"
proof -
  obtain miners coordinator st' where r: "SelectAdamNodes pool_demo_env 5 1 None adam_demo_state = (Some (miners, coordinator), st')"
    using select_demo by (metis prod.collapse)
  have "cache_ok (adam_pool adam_demo_state)" "select_ok (adam_select adam_demo_state)"
    "0 < nAdamThreshold (pe_params pool_demo_env)" "0 \<le> nAdamMinersCount (pe_params pool_demo_env)"
    by (simp_all add: adam_demo_state_def cache_ok_def pool_cache_init_def select_ok_def select_cache_init_def pool_demo_env_def
      mainConsensus_def)
  from SelectAdamNodes_elects [OF this r] r show ?thesis by blast
qed

text \<open>A network whose target admits every hash.\<close>

definition easy_env :: pool_env where
  "easy_env = pool_demo_env\<lparr>pe_params := mainConsensus\<lparr>powLimit := replicate 8 (- 1), nAdamDifficultyShiftV1 := 30\<rparr>\<rparr>"

definition easy_solution :: bytes where
  "easy_solution = ser_writedata32 7 @ put_blob (put_signed \<lparr>blsPubKey = blspk_of_secret demo_blst demo_bls,
     blsSig = \<lparr>sg_data = replicate 96 9, sg_fValid = True\<rparr>, ecdsaSig = [48, 6]\<rparr>)"

lemma easy_target: "adam_target (pe_params easy_env) 10 5 (fst (SetCompact 0x207fffff)) = replicate 8 (- 1)"
  unfolding easy_env_def by code_simp

lemma easy_accepted:
  "VerifyAdamSolution easy_env demo_blst (\<lambda>_ _. []) 1 2 (demo_key 3) easy_solution 0x207fffff 10 5 0 adam_demo_state = (True, adam_demo_state)"
proof -
  define d where "d = \<lparr>blsPubKey = blspk_of_secret demo_blst demo_bls,
    blsSig = \<lparr>sg_data = replicate 96 9, sg_fValid = True\<rparr>, ecdsaSig = [48, 6]\<rparr>"
  have wf: "wf_signed d"
    by (simp add: d_def wf_signed_def blspk_of_secret_def demo_blst_def MAX_SIZE_def)
  have len: "length (put_signed d) \<le> unat MAX_SIZE"
    using wf by (simp add: put_signed_def wf_signed_def d_def put_blob_def WriteCompactSize_def ser_writedata8_def MAX_SIZE_def)
  have sol: "get_solution easy_solution = Some ((7, put_signed d), [])"
    using solution.get_put [of "(7, put_signed d)" "[]"] len by (simp add: easy_solution_def d_def [symmetric])
  have ne: "easy_solution \<noteq> []"
    by (auto simp: easy_solution_def ser_writedata32_def WriteLE32_def simp flip: length_0_conv)
  have pins: "pinned_keys (adam_mn adam_demo_state) = Map.empty"
    by (simp add: adam_demo_state_def pool_demo_state_def apply_ping_def Let_def mn_empty_def)
  have ver: "VerifyBLSWithECDSAFallback demo_blst (mn_secp (pe_mn easy_env)) Map.empty h (demo_key 3) (put_signed d)" for h
    unfolding VerifyBLS_put [OF wf]
    by (simp add: pubkey_Verify_def easy_env_def pool_demo_env_def mn_demo_env_def demo_secp_def GetPinnedBLSPubKey_def
      sig_Verify_def d_def blspk_of_secret_def demo_blst_def)
  have "replicate 8 (- 1) = limbs_not (limbs_zero 8)" by (simp add: limbs_not_def limbs_zero_def)
  then have "lval (replicate 8 (- 1)) = 2 ^ 256 - 1" using lval_not [of "limbs_zero 8"] by (simp add: limbs_zero_def)
  moreover have "unat h \<le> 2 ^ 256 - 1" for h :: uint256
  proof -
    have "unat h < 2 ^ 256" using unsigned_less [of h] by simp
    then show ?thesis by linarith
  qed
  ultimately have "\<not> lval (replicate 8 (- 1)) < unat h" for h :: uint256 by (simp only: not_less)
  then have "\<not> limbs_compare (limbs_of_u256 h) (replicate 8 (- 1)) > 0" for h
    by (simp add: limbs_compare_correct lval_limbs_of_u256)
  moreover have c: "SetCompact 0x207fffff = (fst (SetCompact 0x207fffff), False, False)" "\<not> limbs_is_null (fst (SetCompact 0x207fffff))"
    by code_simp+
  obtain bn where "SetCompact 0x207fffff = (bn, False, False)" "\<not> limbs_is_null bn"
    "adam_target (pe_params easy_env) 10 5 bn = replicate 8 (- 1)"
    using c easy_target by (rule that)
  ultimately have "meets_difficulty easy_env 1 0x207fffff 10 5 h" for h
    by (simp add: meets_difficulty_def)
  then show ?thesis using sol ne ver by (simp add: VerifyAdamSolution_def solution_hash_def pins)
qed

theorem accepted_solution_witness:
  "\<exists>nonce puzzleHash. solution_hash easy_env (\<lambda>_ _. []) 1 2 (demo_key 3) nonce 10 5 0 adam_demo_state = (Some puzzleHash, adam_demo_state) \<and>
     unat puzzleHash \<le> lval (powLimit (pe_params easy_env))"
proof -
  have "\<not> IsRegTestNet easy_env" "length (powLimit (pe_params easy_env)) = 8"
    by (simp_all add: easy_env_def IsRegTestNet_def pool_demo_env_def)
  from accepted_solution [OF easy_accepted this] show ?thesis by blast
qed

theorem fallback_rotation_live_witness:
  "\<exists>t' prev i. 100 \<le> t' \<and> t' < 160 \<and>
     GetAdamFallbackCoordinatorForSlot demo_secp Map.empty 5 9 t' [demo_key 3, demo_key 4] Map.empty = Some (demo_key 4, prev, i)"
  using fallback_rotation_live [of "demo_key 4" "[demo_key 3, demo_key 4]" 100 demo_secp Map.empty 5 9 Map.empty] by auto

end
