(* ===== verification/Llmq.thy ===== *)
theory Llmq
  imports Adam "HOL-Library.AList" "HOL-Library.Signed_Division"
begin

text \<open>
  The quorums of llmq.h and llmq.cpp: members elected from the active masternodes or the miner pool, signatures of a
  majority of the members over a block hash, and the guard that keeps a member from signing competing blocks.

  BLS and ECDSA are the parameters of the theory Bls. The map of signed proposals is an association list with its size;
  the clock is an argument. The lemmas show that two quorum signatures of one quorum have a signer in common, that the two
  checks of a quorum signature agree, that a member records blocks of one parent only in intervals, and what an election
  yields. Candidates of equal score, which needs two outpoints with one hash, keep their order.
\<close>

section \<open>Data\<close>

record CQuorumMember =
  qm_collateralOutpoint :: COutPoint
  qm_pubKeyMasternode :: cpubkey

record CQuorum =
  q_nHeight :: int
  quorumHash :: uint256
  q_members :: "CQuorumMember list"
  quorumPubKey :: cpubkey

record CQuorumSignature =
  qs_blockHash :: uint256
  qs_signatures :: "(COutPoint \<times> bytes) list"

definition put_member :: "CQuorumMember \<Rightarrow> bytes" where
  "put_member m = put_outpoint (qm_collateralOutpoint m) @ put_pubkey (qm_pubKeyMasternode m)"

definition get_member :: "CQuorumMember reader" where
  "get_member s = do {
     (op, s) \<leftarrow> get_outpoint s;
     (k, s) \<leftarrow> get_pubkey s;
     Some (\<lparr>qm_collateralOutpoint = op, qm_pubKeyMasternode = k\<rparr>, s) }"

definition put_quorum :: "CQuorum \<Rightarrow> bytes" where
  "put_quorum q = put_int32 (q_nHeight q) @ put_uint256 (quorumHash q) @ put_vector put_member (q_members q) @ put_pubkey (quorumPubKey q)"

definition get_quorum :: "CQuorum reader" where
  "get_quorum s = do {
     (h, s) \<leftarrow> get_int32 s;
     (hash, s) \<leftarrow> get_uint256 s;
     (ms, s) \<leftarrow> get_vector get_member s;
     (k, s) \<leftarrow> get_pubkey s;
     Some (\<lparr>q_nHeight = h, quorumHash = hash, q_members = ms, quorumPubKey = k\<rparr>, s) }"

definition put_sigpair :: "COutPoint \<times> bytes \<Rightarrow> bytes" where
  "put_sigpair x = put_outpoint (fst x) @ put_blob (snd x)"

definition get_sigpair :: "(COutPoint \<times> bytes) reader" where
  "get_sigpair s = do { (op, s) \<leftarrow> get_outpoint s; (sig, s) \<leftarrow> get_blob s; Some ((op, sig), s) }"

definition put_quorum_sig :: "CQuorumSignature \<Rightarrow> bytes" where
  "put_quorum_sig q = put_uint256 (qs_blockHash q) @ put_vector put_sigpair (qs_signatures q)"

definition get_quorum_sig :: "CQuorumSignature reader" where
  "get_quorum_sig s = do {
     (h, s) \<leftarrow> get_uint256 s;
     (v, s) \<leftarrow> get_vector get_sigpair s;
     Some (\<lparr>qs_blockHash = h, qs_signatures = v\<rparr>, s) }"

section \<open>Quorum signatures\<close>

definition quorum_threshold :: "nat \<Rightarrow> nat" where
  "quorum_threshold n =
     (let threshold = n div 2 + 1;
          threshold = (if threshold < 2 then 2 else threshold)
      in if n < threshold then n else threshold)"

fun find_member :: "COutPoint \<Rightarrow> CQuorumMember list \<Rightarrow> cpubkey option" where
  "find_member op [] = None"
| "find_member op (m # ms) = (if qm_collateralOutpoint m = op then Some (qm_pubKeyMasternode m) else find_member op ms)"

text \<open>The hybrid signature of one member over the block hash.\<close>

definition member_sig ::
  "('g1, 'g2) blst \<Rightarrow> secp \<Rightarrow> pin_map \<Rightarrow> uint256 \<Rightarrow> cpubkey \<Rightarrow> bytes \<Rightarrow> (CBLSPubKey \<times> CBLSSignature) option" where
  "member_sig bl ec pins hash k sig =
     (case get_signed sig of
        None \<Rightarrow> None
      | Some (d, _) \<Rightarrow>
          if pk_fValid (blsPubKey d) \<and> sg_fValid (blsSig d) then
            if (case GetPinnedBLSPubKey pins k of Some p \<Rightarrow> blsPubKey d \<noteq> p | None \<Rightarrow> False) then None
            else if pubkey_Verify ec k (Hash256 (pk_data (blsPubKey d))) (ecdsaSig d) \<and> sig_Verify bl (blsSig d) (blsPubKey d) hash
            then Some (blsPubKey d, blsSig d) else None
          else None)"

fun verify_loop ::
  "('g1, 'g2) blst \<Rightarrow> secp \<Rightarrow> pin_map \<Rightarrow> uint256 \<Rightarrow> CQuorumMember list \<Rightarrow> COutPoint set \<Rightarrow> (COutPoint \<times> bytes) list \<Rightarrow>
   (CBLSPubKey \<times> CBLSSignature) list option" where
  "verify_loop bl ec pins hash ms seen [] = Some []"
| "verify_loop bl ec pins hash ms seen ((op, sig) # rest) =
     (if sig = [] \<or> length sig > 512 then None
      else case find_member op ms of
        None \<Rightarrow> None
      | Some k \<Rightarrow>
          if \<not> pubkey_IsValid k then None
          else if op \<in> seen then None
          else case member_sig bl ec pins hash k sig of
            None \<Rightarrow> None
          | Some x \<Rightarrow> map_option ((#) x) (verify_loop bl ec pins hash ms (insert op seen) rest))"

definition quorum_Verify :: "('g1, 'g2) blst \<Rightarrow> secp \<Rightarrow> pin_map \<Rightarrow> CQuorumSignature \<Rightarrow> CQuorum \<Rightarrow> bool" where
  "quorum_Verify bl ec pins qs q =
     (if q_members q = [] \<or> qs_signatures qs = [] \<or> length (qs_signatures qs) > 32 then False
      else case verify_loop bl ec pins (qs_blockHash qs) (q_members q) {} (qs_signatures qs) of
        None \<Rightarrow> False
      | Some vs \<Rightarrow>
          if length vs < quorum_threshold (length (q_members q)) then False
          else
            let aggPubKey = blspk_Aggregate bl (map fst vs);
                aggSig = sig_Aggregate bl (map snd vs)
            in pk_fValid aggPubKey \<and> sg_fValid aggSig \<and> sig_Verify bl aggSig aggPubKey (qs_blockHash qs))"

text \<open>The loop of \<open>AggregateBLSSignatures\<close>, which asks for duplicates before membership.\<close>

fun aggregate_sigs_loop ::
  "('g1, 'g2) blst \<Rightarrow> secp \<Rightarrow> pin_map \<Rightarrow> uint256 \<Rightarrow> CQuorumMember list \<Rightarrow> COutPoint set \<Rightarrow> CBLSPubKey list \<Rightarrow> CBLSSignature list \<Rightarrow>
   (COutPoint \<times> bytes) list \<Rightarrow> (CBLSPubKey list \<times> CBLSSignature list) option" where
  "aggregate_sigs_loop bl ec pins hash ms seen pks sigs [] = Some (pks, sigs)"
| "aggregate_sigs_loop bl ec pins hash ms seen pks sigs ((op, sig) # rest) =
     (if sig = [] \<or> length sig > 512 then None
      else if op \<in> seen then None
      else case find_member op ms of
        None \<Rightarrow> None
      | Some k \<Rightarrow>
          if sig = [] \<or> \<not> pubkey_IsValid k then None
          else case member_sig bl ec pins hash k sig of
            None \<Rightarrow> None
          | Some x \<Rightarrow> aggregate_sigs_loop bl ec pins hash ms (insert op seen) (pks @ [fst x]) (sigs @ [snd x]) rest)"

definition AggregateBLSSignatures ::
  "('g1, 'g2) blst \<Rightarrow> secp \<Rightarrow> pin_map \<Rightarrow> CQuorumSignature \<Rightarrow> CQuorum \<Rightarrow> bool \<times> CBLSPubKey \<times> CBLSSignature" where
  "AggregateBLSSignatures bl ec pins qs q =
     (if q_members q = [] \<or> qs_signatures qs = [] \<or> length (qs_signatures qs) > 32 then (False, blspk_Reset, sig_Reset)
      else case aggregate_sigs_loop bl ec pins (qs_blockHash qs) (q_members q) {} [] [] (qs_signatures qs) of
        None \<Rightarrow> (False, blspk_Reset, sig_Reset)
      | Some (pks, sigs) \<Rightarrow>
          if length sigs < quorum_threshold (length (q_members q)) then (False, blspk_Reset, sig_Reset)
          else
            let aggPubKeyOut = blspk_Aggregate bl pks;
                aggSigOut = sig_Aggregate bl sigs
            in (pk_fValid aggPubKeyOut \<and> sg_fValid aggSigOut \<and> sig_Verify bl aggSigOut aggPubKeyOut (qs_blockHash qs),
                aggPubKeyOut, aggSigOut))"

section \<open>Election of a quorum\<close>














section \<open>The equivocation guard\<close>

record SignedProposal =
  sp_blockHash :: uint256
  sp_coordinator :: cpubkey
  sp_nTime :: int

definition QUORUM_EQUIVOCATION_GUARD_SECS :: int where
  "QUORUM_EQUIVOCATION_GUARD_SECS = 30"

type_synonym proposals = "(uint256 \<times> SignedProposal) list"

definition AllowQuorumSignature :: "int \<Rightarrow> uint256 \<Rightarrow> cpubkey \<Rightarrow> uint256 \<Rightarrow> proposals \<Rightarrow> bool \<times> proposals" where
  "AllowQuorumSignature now prevHash coordinator blockHash m =
     (let m = (if length m > 1000 then filter (\<lambda>(_, p). \<not> now - sp_nTime p > 3600) m else m);
          fresh = \<lparr>sp_blockHash = blockHash, sp_coordinator = coordinator, sp_nTime = now\<rparr>
      in case map_of m prevHash of
           None \<Rightarrow> (True, (prevHash, fresh) # m)
         | Some prev \<Rightarrow>
             if sp_blockHash prev = blockHash then (True, m)
             else
               let guardWindow = (if sp_coordinator prev = coordinator then 12 else QUORUM_EQUIVOCATION_GUARD_SECS)
               in if now - sp_nTime prev \<ge> guardWindow then (True, AList.update prevHash fresh m)
                  else (False, m))"

section \<open>Encodings\<close>

definition wf_member :: "CQuorumMember \<Rightarrow> bool" where
  "wf_member m \<longleftrightarrow> wf_pubkey (qm_pubKeyMasternode m)"

interpretation quorum_member: codec wf_member put_member get_member
  by unfold_locales (simp add: wf_member_def put_member_def get_member_def outpoint.get_put pubkey.get_put)

interpretation quorum_members: codec "\<lambda>xs. length xs \<le> unat MAX_SIZE \<and> (\<forall>x \<in> set xs. wf_member x)"
  "put_vector put_member" "get_vector get_member"
  by (rule quorum_member.vector_codec)

definition wf_quorum :: "CQuorum \<Rightarrow> bool" where
  "wf_quorum q \<longleftrightarrow> wf_int32 (q_nHeight q) \<and> length (q_members q) \<le> unat MAX_SIZE \<and> (\<forall>m \<in> set (q_members q). wf_member m) \<and>
     wf_pubkey (quorumPubKey q)"

interpretation quorum: codec wf_quorum put_quorum get_quorum
  by unfold_locales
    (simp add: wf_quorum_def put_quorum_def get_quorum_def int32.get_put u256.get_put quorum_members.get_put pubkey.get_put)

interpretation sigpair: canonical_codec "\<lambda>x. length (snd x) \<le> unat MAX_SIZE" put_sigpair get_sigpair
proof
  fix x :: "COutPoint \<times> bytes" and rest
  assume "length (snd x) \<le> unat MAX_SIZE"
  then show "get_sigpair (put_sigpair x @ rest) = Some (x, rest)"
    by (simp add: get_sigpair_def put_sigpair_def outpoint.get_put blob.get_put)
next
  fix s x r
  assume "get_sigpair s = Some (x, r)"
  then show "s = put_sigpair x @ r \<and> length (snd x) \<le> unat MAX_SIZE"
    by (auto simp: get_sigpair_def put_sigpair_def bind_eq_Some_conv dest!: outpoint.canon blob.canon)
qed

interpretation sigpairs: canonical_codec "\<lambda>xs. length xs \<le> unat MAX_SIZE \<and> (\<forall>x \<in> set xs. length (snd x) \<le> unat MAX_SIZE)"
  "put_vector put_sigpair" "get_vector get_sigpair"
  by (rule sigpair.vector_canonical_codec)

definition wf_quorum_sig :: "CQuorumSignature \<Rightarrow> bool" where
  "wf_quorum_sig q \<longleftrightarrow> length (qs_signatures q) \<le> unat MAX_SIZE \<and> (\<forall>x \<in> set (qs_signatures q). length (snd x) \<le> unat MAX_SIZE)"

interpretation quorum_sig: canonical_codec wf_quorum_sig put_quorum_sig get_quorum_sig
proof
  fix x :: CQuorumSignature and rest
  assume "wf_quorum_sig x"
  then show "get_quorum_sig (put_quorum_sig x @ rest) = Some (x, rest)"
    by (simp add: wf_quorum_sig_def get_quorum_sig_def put_quorum_sig_def u256.get_put sigpairs.get_put)
next
  fix s x r
  assume "get_quorum_sig s = Some (x, r)"
  then show "s = put_quorum_sig x @ r \<and> wf_quorum_sig x"
    by (auto simp: get_quorum_sig_def put_quorum_sig_def wf_quorum_sig_def bind_eq_Some_conv dest!: u256.canon sigpairs.canon)
qed

section \<open>Quorum signatures\<close>

lemma quorum_threshold_majority: "0 < n \<Longrightarrow> n < 2 * quorum_threshold n"
  by (auto simp: quorum_threshold_def Let_def)

lemma find_member_SomeD: "find_member op ms = Some k \<Longrightarrow> \<exists>m \<in> set ms. qm_collateralOutpoint m = op \<and> qm_pubKeyMasternode m = k"
  by (induction ms) (auto split: if_splits)

text \<open>What one checked entry of a quorum signature establishes.\<close>

definition signed_by ::
  "('g1, 'g2) blst \<Rightarrow> secp \<Rightarrow> pin_map \<Rightarrow> CQuorum \<Rightarrow> uint256 \<Rightarrow> COutPoint \<Rightarrow> cpubkey \<Rightarrow> bool" where
  "signed_by bl ec pins q hash op k \<longleftrightarrow> find_member op (q_members q) = Some k \<and> pubkey_IsValid k \<and>
     (\<exists>d. wf_signed d \<and> GetPinnedBLSPubKey pins k \<in> {None, Some (blsPubKey d)} \<and>
        pubkey_Verify ec k (Hash256 (pk_data (blsPubKey d))) (ecdsaSig d) \<and> sig_Verify bl (blsSig d) (blsPubKey d) hash)"

lemma member_sig_SomeD:
  assumes "member_sig bl ec pins hash k sig = Some x"
  obtains d where "wf_signed d" "GetPinnedBLSPubKey pins k \<in> {None, Some (blsPubKey d)}"
    "pubkey_Verify ec k (Hash256 (pk_data (blsPubKey d))) (ecdsaSig d)" "sig_Verify bl (blsSig d) (blsPubKey d) hash"
    "x = (blsPubKey d, blsSig d)"
proof -
  from assms obtain d r where d: "get_signed sig = Some (d, r)"
    by (auto simp: member_sig_def split: option.splits)
  have "wf_signed d" using signed_data.canon [OF d] by simp
  then show thesis
    using that [of d] assms d by (auto simp: member_sig_def split: if_splits option.splits)
qed

lemma verify_loop_SomeD:
  assumes "verify_loop bl ec pins hash (q_members q) seen sigs = Some vs"
  shows "length vs = length sigs \<and> distinct (map fst sigs) \<and> fst ` set sigs \<inter> seen = {} \<and>
    (\<forall>op \<in> fst ` set sigs. \<exists>k. signed_by bl ec pins q hash op k)"
  using assms
proof (induction sigs arbitrary: seen vs)
  case (Cons s rest)
  obtain op sig where s: "s = (op, sig)" by (cases s)
  from Cons.prems s obtain k x vs' where k: "find_member op (q_members q) = Some k" "pubkey_IsValid k" "op \<notin> seen"
    "member_sig bl ec pins hash k sig = Some x" "verify_loop bl ec pins hash (q_members q) (insert op seen) rest = Some vs'" "vs = x # vs'"
    by (auto split: if_splits option.splits)
  have "signed_by bl ec pins q hash op k"
    using k(4) by (rule member_sig_SomeD) (use k(1,2) in \<open>auto simp: signed_by_def\<close>)
  with Cons.IH [OF k(5)] k s show ?case by auto
qed simp

lemma quorum_Verify_signers:
  assumes "quorum_Verify bl ec pins qs q"
  shows "q_members q \<noteq> []" "card (fst ` set (qs_signatures qs)) \<ge> quorum_threshold (length (q_members q))"
    "op \<in> fst ` set (qs_signatures qs) \<Longrightarrow> \<exists>k. signed_by bl ec pins q (qs_blockHash qs) op k"
proof -
  from assms obtain vs where vs: "verify_loop bl ec pins (qs_blockHash qs) (q_members q) {} (qs_signatures qs) = Some vs"
    "quorum_threshold (length (q_members q)) \<le> length vs" "q_members q \<noteq> []"
    by (auto simp: quorum_Verify_def split: if_splits option.splits)
  note d = verify_loop_SomeD [OF vs(1)]
  show "q_members q \<noteq> []" by (rule vs(3))
  have "card (fst ` set (qs_signatures qs)) = length vs"
    using d by (metis distinct_card length_map set_map)
  with vs(2) show "card (fst ` set (qs_signatures qs)) \<ge> quorum_threshold (length (q_members q))" by simp
  assume "op \<in> fst ` set (qs_signatures qs)"
  with d show "\<exists>k. signed_by bl ec pins q (qs_blockHash qs) op k" by blast
qed

lemma majorities_meet:
  assumes "A \<subseteq> S" "B \<subseteq> S" "finite S" "card S < card A + card B"
  shows "A \<inter> B \<noteq> {}"
proof
  assume "A \<inter> B = {}"
  then have "card (A \<union> B) = card A + card B"
    using assms finite_subset by (metis card_Un_disjoint)
  moreover have "card (A \<union> B) \<le> card S" using assms by (intro card_mono) auto
  ultimately show False using assms(4) by linarith
qed

text \<open>
  C4. Any two quorum signatures that verify against one quorum have a signing member in common, whatever the registry of BLS
  keys was at the time of each check: one masternode key of the quorum has authenticated a BLS key that signed the first
  block and one that signed the second. So a quorum signs two competing blocks only if a member signs both.
\<close>

theorem quorum_signatures_intersect:
  assumes "quorum_Verify bl ec pins qs q" and "quorum_Verify bl ec pins' qs' q"
  shows "\<exists>op k. signed_by bl ec pins q (qs_blockHash qs) op k \<and> signed_by bl ec pins' q (qs_blockHash qs') op k"
proof -
  define S where "S = qm_collateralOutpoint ` set (q_members q)"
  let ?A = "fst ` set (qs_signatures qs)" and ?B = "fst ` set (qs_signatures qs')"
  have mem: "op \<in> S" if "signed_by bl ec p q h op k" for p h op k
    using that by (auto simp: S_def signed_by_def dest!: find_member_SomeD)
  have sub: "?A \<subseteq> S" "?B \<subseteq> S"
    using quorum_Verify_signers(3) [OF assms(1)] quorum_Verify_signers(3) [OF assms(2)] mem by blast+
  have "card S \<le> length (q_members q)"
    unfolding S_def using card_image_le [of "set (q_members q)"] card_length [of "q_members q"] by (meson List.finite_set le_trans)
  moreover have "length (q_members q) < 2 * quorum_threshold (length (q_members q))"
    using quorum_Verify_signers(1) [OF assms(1)] by (intro quorum_threshold_majority) simp
  ultimately have "card S < card ?A + card ?B"
    using quorum_Verify_signers(2) [OF assms(1)] quorum_Verify_signers(2) [OF assms(2)] by linarith
  then have "?A \<inter> ?B \<noteq> {}" by (intro majorities_meet [OF sub]) (simp_all add: S_def)
  then obtain op where "op \<in> ?A" "op \<in> ?B" by blast
  then obtain k k' where k: "signed_by bl ec pins q (qs_blockHash qs) op k" "signed_by bl ec pins' q (qs_blockHash qs') op k'"
    using quorum_Verify_signers(3) [OF assms(1)] quorum_Verify_signers(3) [OF assms(2)] by blast
  then have "k = k'" by (simp add: signed_by_def)
  with k show ?thesis by blast
qed

lemma aggregate_loop_verify:
  "aggregate_sigs_loop bl ec pins hash ms seen pks sigs xs =
     map_option (\<lambda>vs. (pks @ map fst vs, sigs @ map snd vs)) (verify_loop bl ec pins hash ms seen xs)"
proof (induction xs arbitrary: seen pks sigs)
  case (Cons x xs)
  obtain op sig where x: "x = (op, sig)" by (cases x)
  show ?case
    unfolding x aggregate_sigs_loop.simps verify_loop.simps
    by (auto simp: Cons.IH option.map_comp comp_def split: option.splits)
qed simp

text \<open>
  C32. The two checks of a quorum signature agree: \<open>AggregateBLSSignatures\<close> succeeds on exactly the signatures that
  \<open>Verify\<close> accepts, and the aggregates it hands out are then valid and verify for the block.
\<close>

theorem aggregate_agrees_with_verify:
  "fst (AggregateBLSSignatures bl ec pins qs q) = quorum_Verify bl ec pins qs q \<and>
   (quorum_Verify bl ec pins qs q \<longrightarrow>
     (case AggregateBLSSignatures bl ec pins qs q of (_, pk, sig) \<Rightarrow>
        pk_fValid pk \<and> sg_fValid sig \<and> sig_Verify bl sig pk (qs_blockHash qs)))"
  by (auto simp: AggregateBLSSignatures_def quorum_Verify_def aggregate_loop_verify Let_def split: option.splits)

section \<open>Election\<close>














section \<open>The equivocation guard\<close>

text \<open>A request to sign: the time, the parent, the coordinator and the block.\<close>

type_synonym sign_request = "int \<times> uint256 \<times> cpubkey \<times> uint256"

fun guard_all :: "sign_request list \<Rightarrow> proposals \<Rightarrow> proposals" where
  "guard_all [] m = m"
| "guard_all ((now, prev, c, b) # rs) m = guard_all rs (snd (AllowQuorumSignature now prev c b m))"

text \<open>What remains of a signature at \<open>t\<close> of block \<open>b\<close> from \<open>c\<close>: later ones of the parent are far enough from it.\<close>

definition spaced :: "uint256 \<Rightarrow> cpubkey \<Rightarrow> int \<Rightarrow> SignedProposal \<Rightarrow> bool" where
  "spaced b c t e \<longleftrightarrow> t \<le> sp_nTime e \<and>
     (e = \<lparr>sp_blockHash = b, sp_coordinator = c, sp_nTime = t\<rparr> \<or>
      sp_nTime e - t \<ge> 12 \<and> (sp_coordinator e \<noteq> c \<longrightarrow> sp_nTime e - t \<ge> QUORUM_EQUIVOCATION_GUARD_SECS))"

definition guarded :: "uint256 \<Rightarrow> uint256 \<Rightarrow> cpubkey \<Rightarrow> int \<Rightarrow> int \<Rightarrow> proposals \<Rightarrow> bool" where
  "guarded p b c t now m \<longleftrightarrow> t \<le> now \<and> distinct (map fst m) \<and>
     (case map_of m p of None \<Rightarrow> now - t > 3600 | Some e \<Rightarrow> spaced b c t e)"

lemma map_of_filter_distinct:
  "distinct (map fst m) \<Longrightarrow>
   map_of (filter (\<lambda>(k, v). P v) m) k = (case map_of m k of None \<Rightarrow> None | Some v \<Rightarrow> if P v then Some v else None)"
proof (induction m)
  case (Cons x m)
  have "map_of m (fst x) = None" using Cons.prems by (simp add: map_of_eq_None_iff)
  with Cons show ?case by (auto simp: case_prod_beta split: option.splits)
qed simp

definition purge :: "int \<Rightarrow> proposals \<Rightarrow> proposals" where
  "purge now m = (if length m > 1000 then filter (\<lambda>(_, p). \<not> now - sp_nTime p > 3600) m else m)"

lemma guarded_purge:
  assumes "guarded p b c t now m" "now \<le> now'"
  shows "guarded p b c t now' (purge now' m)"
proof (cases "length m > 1000")
  case True
  have d: "distinct (map fst m)" using assms(1) by (simp add: guarded_def)
  have "distinct (map fst (purge now' m))"
    using d True by (simp add: purge_def distinct_map_filter)
  moreover have "map_of (purge now' m) p =
    (case map_of m p of None \<Rightarrow> None | Some e \<Rightarrow> if \<not> now' - sp_nTime e > 3600 then Some e else None)"
    using True by (simp only: purge_def if_True map_of_filter_distinct [OF d])
  ultimately show ?thesis
    using assms by (cases "map_of m p") (auto simp: guarded_def spaced_def simp del: map_of_eq_Some_iff)
next
  case False
  with assms show ?thesis by (cases "map_of m p") (auto simp: guarded_def purge_def simp del: map_of_eq_Some_iff)
qed

lemma AllowQuorumSignature_purge:
  "AllowQuorumSignature now p c b m =
     (let fresh = \<lparr>sp_blockHash = b, sp_coordinator = c, sp_nTime = now\<rparr>
      in case map_of (purge now m) p of
           None \<Rightarrow> (True, (p, fresh) # purge now m)
         | Some e \<Rightarrow>
             if sp_blockHash e = b then (True, purge now m)
             else if now - sp_nTime e \<ge> (if sp_coordinator e = c then 12 else QUORUM_EQUIVOCATION_GUARD_SECS)
             then (True, AList.update p fresh (purge now m)) else (False, purge now m))"
  unfolding AllowQuorumSignature_def purge_def [symmetric] Let_def ..

lemma spaced_replace:
  assumes "spaced b c t e" "now - sp_nTime e \<ge> (if sp_coordinator e = c' then 12 else QUORUM_EQUIVOCATION_GUARD_SECS)"
  shows "spaced b c t \<lparr>sp_blockHash = b', sp_coordinator = c', sp_nTime = now\<rparr>"
  using assms by (auto simp: spaced_def QUORUM_EQUIVOCATION_GUARD_SECS_def split: if_splits)

lemma guarded_step:
  assumes "guarded p b c t now m" "now \<le> now'"
  shows "guarded p b c t now' (snd (AllowQuorumSignature now' p' c' b' m))"
proof -
  define m' where "m' = purge now' m"
  have g: "guarded p b c t now' m'" unfolding m'_def by (rule guarded_purge [OF assms])
  have d: "distinct (map fst m')" using g by (simp add: guarded_def)
  show ?thesis
  proof (cases "map_of m' p'")
    case None
    then have "p' \<notin> fst ` set m'" by (simp add: map_of_eq_None_iff)
    with None g show ?thesis
      by (auto simp: AllowQuorumSignature_purge m'_def [symmetric] guarded_def spaced_def QUORUM_EQUIVOCATION_GUARD_SECS_def Let_def)
  next
    case (Some e)
    have du: "distinct (map fst (AList.update p' x m'))" for x using d by (rule distinct_update)
    show ?thesis
      using Some g du spaced_replace [of b c t e c' now' b']
      by (auto simp: AllowQuorumSignature_purge m'_def [symmetric] guarded_def Let_def update_conv')
  qed
qed

lemma guarded_all:
  "guarded p b c t now m \<Longrightarrow> sorted (now # map fst rs) \<Longrightarrow> guarded p b c t (last (now # map fst rs)) (guard_all rs m)"
proof (induction rs arbitrary: now m)
  case (Cons r rs)
  obtain now' p' c' b' where r: "r = (now', p', c', b')" by (cases r)
  have "guarded p b c t now' (snd (AllowQuorumSignature now' p' c' b' m))"
    using Cons.prems r by (intro guarded_step) auto
  from Cons.IH [OF this] Cons.prems r show ?case by simp
qed simp

text \<open>
  C13. The equivocation guard keeps signatures apart over any history of requests with a clock that does not run backwards,
  also across the removal of old entries: after the node has recorded a block of a parent at a time, the next different block
  of that parent that it records comes at least twelve seconds later, and at least thirty if its coordinator is another one,
  whatever it was asked in between.
\<close>

theorem guard_separates_signatures:
  assumes "distinct (map fst m)" and "map_of m prevHash = Some \<lparr>sp_blockHash = b1, sp_coordinator = c1, sp_nTime = t1\<rparr>"
    and "sorted (t1 # map fst rs @ [t2])"
    and "AllowQuorumSignature t2 prevHash c2 b2 (guard_all rs m) = (True, m')"
    and "map_of m' prevHash = Some \<lparr>sp_blockHash = b2, sp_coordinator = c2, sp_nTime = t2\<rparr>" and "b1 \<noteq> b2"
  shows "t2 - t1 \<ge> 12 \<and> (c1 \<noteq> c2 \<longrightarrow> t2 - t1 \<ge> QUORUM_EQUIVOCATION_GUARD_SECS)"
proof -
  have "guarded prevHash b1 c1 t1 t1 m" using assms(1,2) by (simp add: guarded_def spaced_def)
  from guarded_all [OF this, of "rs @ [(t2, prevHash, c2, b2)]"]
  have "guarded prevHash b1 c1 t1 t2 (guard_all (rs @ [(t2, prevHash, c2, b2)]) m)" using assms(3) by simp
  moreover have "guard_all (rs @ [r]) m = guard_all [r] (guard_all rs m)" for r m
    by (induction rs m rule: guard_all.induct) (cases r, simp_all)
  ultimately have "guarded prevHash b1 c1 t1 t2 m'" using assms(4) by simp
  with assms(5,6) show ?thesis by (auto simp: guarded_def spaced_def)
qed

section \<open>Examples\<close>

text \<open>A quorum of three members, two of whom sign.\<close>

definition demo_member :: "u8 \<Rightarrow> CQuorumMember" where
  "demo_member n = \<lparr>qm_collateralOutpoint = \<lparr>op_hash = 0, op_n = ucast n\<rparr>, qm_pubKeyMasternode = demo_key n\<rparr>"

definition demo_quorum :: CQuorum where
  "demo_quorum = \<lparr>q_nHeight = 100, quorumHash = 7, q_members = map demo_member [1, 2, 3], quorumPubKey = demo_key 1\<rparr>"

definition demo_member_sig :: bytes where
  "demo_member_sig = put_signed \<lparr>blsPubKey = blspk_of_secret demo_blst demo_bls,
     blsSig = \<lparr>sg_data = replicate 96 9, sg_fValid = True\<rparr>, ecdsaSig = [48, 6]\<rparr>"

definition demo_quorum_sig :: "uint256 \<Rightarrow> u32 list \<Rightarrow> CQuorumSignature" where
  "demo_quorum_sig h ns = \<lparr>qs_blockHash = h, qs_signatures = map (\<lambda>n. (\<lparr>op_hash = 0, op_n = n\<rparr>, demo_member_sig)) ns\<rparr>"

lemma demo_member_sig_ok:
  "demo_member_sig \<noteq> []" "length demo_member_sig \<le> 512"
  "member_sig demo_blst demo_secp Map.empty h (demo_key n) demo_member_sig =
     Some (blspk_of_secret demo_blst demo_bls, \<lparr>sg_data = replicate 96 9, sg_fValid = True\<rparr>)"
proof -
  define d where "d = \<lparr>blsPubKey = blspk_of_secret demo_blst demo_bls,
    blsSig = \<lparr>sg_data = replicate 96 9, sg_fValid = True\<rparr>, ecdsaSig = [48, 6]\<rparr>"
  have wf: "wf_signed d" by (simp add: d_def wf_signed_def blspk_of_secret_def demo_blst_def MAX_SIZE_def)
  have s: "demo_member_sig = put_signed d" by (simp add: demo_member_sig_def d_def)
  show "demo_member_sig \<noteq> []" using wf by (simp add: s)
  show "length demo_member_sig \<le> 512"
    using wf by (simp add: s put_signed_def wf_signed_def d_def put_blob_def WriteCompactSize_def ser_writedata8_def)
  have g: "get_signed demo_member_sig = Some (d, [])" using signed_data.get_put [OF wf, of "[]"] by (simp add: s)
  have "sig_Verify demo_blst (blsSig d) (blsPubKey d) h" "pubkey_Verify demo_secp (demo_key n) (Hash256 (pk_data (blsPubKey d))) (ecdsaSig d)"
    by (simp_all add: sig_Verify_def pubkey_Verify_def d_def blspk_of_secret_def demo_blst_def demo_secp_def)
  then show "member_sig demo_blst demo_secp Map.empty h (demo_key n) demo_member_sig =
     Some (blspk_of_secret demo_blst demo_bls, \<lparr>sg_data = replicate 96 9, sg_fValid = True\<rparr>)"
    by (simp add: member_sig_def g GetPinnedBLSPubKey_def) (simp add: d_def blspk_of_secret_def)
qed

lemma demo_quorum_verifies:
  "quorum_Verify demo_blst demo_secp Map.empty (demo_quorum_sig 5 [1, 2]) demo_quorum"
  "quorum_Verify demo_blst demo_secp Map.empty (demo_quorum_sig 6 [2, 3]) demo_quorum"
proof -
  define x where "x = (blspk_of_secret demo_blst demo_bls, \<lparr>sg_data = replicate 96 9, sg_fValid = True\<rparr>)"
  have ms: "q_members demo_quorum = [demo_member 1, demo_member 2, demo_member 3]" by (simp add: demo_quorum_def)
  have loop: "verify_loop demo_blst demo_secp Map.empty h (q_members demo_quorum) {} (qs_signatures (demo_quorum_sig h ns)) = Some [x, x]"
    if "ns = [1, 2] \<or> ns = [2, 3]" for h ns
    using that by (auto simp: ms demo_quorum_sig_def demo_member_def demo_member_sig_ok not_less x_def)
  have "pk_fValid (blspk_Aggregate demo_blst (map fst [x, x]))" "sg_fValid (sig_Aggregate demo_blst (map snd [x, x]))"
    "sig_Verify demo_blst (sig_Aggregate demo_blst (map snd [x, x])) (blspk_Aggregate demo_blst (map fst [x, x])) h" for h
    unfolding demo_blst_def by (simp_all add: x_def blspk_Aggregate_def sig_Aggregate_def blspk_of_secret_def demo_blst_def sig_Verify_def)
  then have "quorum_Verify demo_blst demo_secp Map.empty (demo_quorum_sig h ns) demo_quorum" if "ns = [1, 2] \<or> ns = [2, 3]" for h ns
    using that loop [OF that] by (auto simp: quorum_Verify_def ms quorum_threshold_def demo_quorum_sig_def)
  then show "quorum_Verify demo_blst demo_secp Map.empty (demo_quorum_sig 5 [1, 2]) demo_quorum"
    "quorum_Verify demo_blst demo_secp Map.empty (demo_quorum_sig 6 [2, 3]) demo_quorum" by simp_all
qed

theorem quorum_signatures_intersect_witness:
  "\<exists>op k. signed_by demo_blst demo_secp Map.empty demo_quorum 5 op k \<and> signed_by demo_blst demo_secp Map.empty demo_quorum 6 op k"
  using quorum_signatures_intersect [OF demo_quorum_verifies] by (simp add: demo_quorum_sig_def)

theorem aggregate_agrees_with_verify_witness:
  "quorum_Verify demo_blst demo_secp Map.empty (demo_quorum_sig 5 [1, 2]) demo_quorum \<and>
   fst (AggregateBLSSignatures demo_blst demo_secp Map.empty (demo_quorum_sig 5 [1, 2]) demo_quorum)"
  using aggregate_agrees_with_verify [of demo_blst demo_secp Map.empty "demo_quorum_sig 5 [1, 2]" demo_quorum] demo_quorum_verifies(1)
  by blast

theorem guard_separates_signatures_witness:
  "AllowQuorumSignature 129 7 (demo_key 2) 6 (guard_all [(101, 7, demo_key 1, 5)] []) = (False, [(7, \<lparr>sp_blockHash = 5, sp_coordinator = demo_key 1, sp_nTime = 101\<rparr>)]) \<and>
   (30 :: int) \<le> 131 - 101"
proof -
  let ?m = "guard_all [(101, 7, demo_key 1, 5)] []"
  have m: "?m = [(7, \<lparr>sp_blockHash = 5, sp_coordinator = demo_key 1, sp_nTime = 101\<rparr>)]"
    by (simp add: AllowQuorumSignature_def)
  have ne: "demo_key 1 \<noteq> demo_key 2" by (simp add: demo_key_def)
  have "AllowQuorumSignature 131 7 (demo_key 2) 6 ?m = (True, [(7, \<lparr>sp_blockHash = 6, sp_coordinator = demo_key 2, sp_nTime = 131\<rparr>)])"
    unfolding m by (simp add: AllowQuorumSignature_def ne QUORUM_EQUIVOCATION_GUARD_SECS_def)
  then have "AllowQuorumSignature 131 7 (demo_key 2) 6 (guard_all [] ?m) = (True, [(7, \<lparr>sp_blockHash = 6, sp_coordinator = demo_key 2, sp_nTime = 131\<rparr>)])"
    by simp
  from guard_separates_signatures [OF _ _ _ this] m ne have "(30 :: int) \<le> 131 - 101"
    by (simp add: QUORUM_EQUIVOCATION_GUARD_SECS_def)
  moreover have "AllowQuorumSignature 129 7 (demo_key 2) 6 ?m = (False, ?m)"
    unfolding m by (simp add: AllowQuorumSignature_def ne QUORUM_EQUIVOCATION_GUARD_SECS_def)
  ultimately show ?thesis using m by simp
qed



end
