(* ===== verification/Spec2Isabelle.thy ===== *)
theory Spec2Isabelle
  imports ConsensusParams Pow Merkle Transaction Mescal Standard ChainState Compressor SigChecker Crypto
    BlockIndex Llmq
begin

text \<open>
  Verification development of the KristaTech node (\<open>src/src\<close>): the consensus core of a Bitcoin-derived node with the MESCAL
  contract language, proof of work and stake, and ADAM, a cooperative proof of work with elected miners, a coordinator, and
  quorums of masternodes.

  \<^bold>\<open>How the parts interact.\<close> A block arrives serialized; its header hash and difficulty are checked, its transactions are
  checked alone and against the coins they spend, every input script runs in the interpreter against the script of the coin,
  and the coins view is updated, with undo data to take the block back. The block index is a tree of headers of which the
  active chain is one path. From the active chain and the coins view ADAM derives a pool of miner keys, a rolling seed, the
  elected miners and the coordinator of the next block; masternodes announce themselves by ping transactions, and a quorum of
  them signs the block.

  \<^bold>\<open>Theories.\<close> Each component has its records and datatypes, one definition per function of the source under the source's
  name, its invariants and lemmas, and closed examples.

  \<^item> \<open>Prelude\<close>: types of machine integers, collections of facts, lemmas on lists and words.
  \<^item> \<open>ArithUint\<close>, \<open>Uint256\<close> (arith_uint256.h, uint256.cpp): big integers as lists of 32-bit limbs of any width; the loops
    compute addition, subtraction, multiplication, shifts and division modulo \<open>2 ^ BITS\<close>, and the compact encoding
    round-trips. The locale \<open>uint_arith\<close> is the contract the difficulty code uses.
  \<^item> \<open>ConsensusParams\<close> (consensus/params.h, upgrades.cpp, chainparams.cpp): parameters and upgrades of the three networks.
  \<^item> \<open>Pow\<close> (pow.cpp): both retargeting algorithms and the proof-of-work check; targets stay in range and the code never
    throws on admissible parameters. The ancestors of a block are a list.
  \<^item> \<open>Merkle\<close> (consensus/merkle.cpp): the streaming root equals the level-by-level one and flags exactly the duplications;
    branches verify and bind.
  \<^item> \<open>Serialize\<close>, \<open>Script\<close>, \<open>PubKey\<close>, \<open>Transaction\<close>, \<open>StrEncodings\<close>, \<open>Compressor\<close>, \<open>Block\<close> (serialize.h, script.h,
    pubkey.h, transaction.h, compressor.h, block.h, hash.h): data and encodings. A reader is a function from bytes to a value
    and the rest, and \<open>None\<close> is an exception. The locales \<open>codec\<close> and \<open>canonical_codec\<close> say that what is written is
    read back, and that nothing else is accepted; they are interpreted for every pair of reader and writer.
  \<^item> \<open>HashStream\<close>, \<open>Crypto\<close> (src/crypto, hash.h): SHA-256, SHA-512, SHA-1, RIPEMD-160, the HMACs and double hashes, with
    their buffering; the locales \<open>md_hash\<close> and \<open>hash_class\<close> relate the classes to textbook definitions.
  \<^item> \<open>Mescal\<close>, \<open>Standard\<close> (script/mescal.cpp, script/standard.cpp): contract compiler and decompiler, classification of output
    scripts, destinations.
  \<^item> \<open>Interpreter\<close>, \<open>SigChecker\<close> (script/interpreter.cpp): every opcode, the encoding checks, the three signature hashes,
    the checkers and \<open>VerifyScript\<close>. Evaluation keeps its limits; the common spends succeed exactly when they should.
  \<^item> \<open>Coins\<close>, \<open>TxVerify\<close>, \<open>ChainState\<close> (coins.cpp, txdb.cpp, consensus/tx_verify.cpp, main.cpp): a stack of flagged caches
    over a database refines a map of unspent outputs (locale \<open>utxo_view\<close>); transaction checks; connecting and disconnecting
    the transactions of a block.
  \<^item> \<open>BlockIndex\<close> (chain.h, chain.cpp, main.cpp): index entries behind pointers, skip pointers, the active chain, fork points
    and locators, over a well-formed tree.
  \<^item> \<open>Bls\<close> (crypto/bls.cpp): hybrid BLS and ECDSA signatures and the registry of pinned keys.
  \<^item> \<open>Masternodes\<close>, \<open>MinerPool\<close>, \<open>Adam\<close> (adam.cpp): the registry of masternodes, with reachability as an inductive predicate
    over its operations; the miner pool with its caches; the seed, against an inductive specification; election, partial
    solutions and the rotation of fallback coordinators.
  \<^item> \<open>Llmq\<close> (llmq.cpp): quorum signatures, election of quorums and the equivocation guard.
  \<^item> This theory: what holds across the contract compiler, the interpreter, the checker and the finality rule.

  \<^bold>\<open>State and errors.\<close> Global and static variables are fields of records that operations return updated; shared
  pointers of the block index are addresses in a map. Exceptions and failed assertions are \<open>Inl\<close> or \<open>None\<close>. Machine
  integers are words where the code can wrap; signed integers are \<open>int\<close>. A map that the code iterates over is a sorted
  association list.

  \<^bold>\<open>Bounds and fuel.\<close> No model runs on fuel that the code does not have. Loops over bytes and lists are structural or have a
  termination proof; loops along pointers are partial functions with value in \<open>option\<close>, and that they return on
  well-formed trees is part of \<open>GetAncestor_correct\<close>, \<open>SetTip_correct\<close>, \<open>fork_point_correct\<close> and \<open>GetAdamSeed_correct\<close>. The walk
  of \<open>GetBlockHash\<close> is bounded by the number of blocks it goes back.

  \<^bold>\<open>Parameters.\<close> libsecp256k1 (\<open>secp\<close> and the operations of the signature checkers), blst (\<open>blst\<close>), sphlib (\<open>sph\<close>),
  the JSON reader, the clock and the files of blocks are arguments. The hypotheses on them say that a library verifies what
  it signs and decodes what it encodes; each has an example in which it holds. Orders of \<open>std::sort\<close> among equal
  elements are those of a stable sort: elements that are not equal compare equal only if their hashes collide.

  \<^bold>\<open>Not modelled.\<close> Chain selection, block files and the message handlers of main.cpp, the network, wallet, RPC and graphical
  layers: input and output, threads and user interface. The memory pool and fee estimation: local policy with floating point.
  The proof-of-stake kernel, sporks, the peer-to-peer masternode lists and payments. In adam.cpp: the scan of whole blocks for
  masternode activity, the files of the registry, the construction of ping scripts and the processing of orphan solutions;
  in llmq.cpp: the lookup of private keys. LevelDB is an association list, and logging, locks and memory statistics are
  left out throughout.
\<close>

section \<open>Locked coins\<close>

lemma CheckLockTime_final_height:
  assumes "tx_CheckLockTime tc n" "n < LOCKTIME_THRESHOLD" "tc_nIn tc < length (vin (tc_txTo tc))" "0 < nBlockHeight"
    and "IsFinalTx chainHeight adjustedTime (tc_txTo tc) nBlockHeight nBlockTime"
  shows "n < nBlockHeight"
proof -
  let ?lock = "uint (nLockTime (tc_txTo tc))"
  have lock: "?lock < LOCKTIME_THRESHOLD" "n \<le> ?lock" "\<not> CTxIn_IsFinal (vin (tc_txTo tc) ! tc_nIn tc)"
    using assms(1,2) by (auto simp: tx_CheckLockTime_def Let_def split: if_splits)
  then have "\<not> list_all CTxIn_IsFinal (vin (tc_txTo tc))" using assms(3) by (auto simp: list_all_length)
  then have "nLockTime (tc_txTo tc) = 0 \<or> ?lock < nBlockHeight"
    using assms(4,5) lock(1) by (auto simp: IsFinalTx_def Let_def split: if_splits)
  then show ?thesis using lock(2) assms(4) by auto
qed

text \<open>C3. Locked coins stay locked (safety, across the contract compiler, the interpreter, the signature checker and the
  finality rule): a transaction that spends the output of a coin-lock registration, whatever its input script, can only be
  final in a block whose height is above the lock.\<close>

theorem coin_lock_matures:
  assumes "VerifyScript env ops tapscript script_sig (coin_lock_script pk n h) = Inr ()"
    and "ev_checker env = TransactionSignatureChecker ops tc" "vflag (ev_flags env) SCRIPT_VERIFY_CHECKLOCKTIMEVERIFY"
    and "length pk = 33" "length (CScriptNum_serialize n) \<le> 4" "n < LOCKTIME_THRESHOLD"
    and "tc_nIn tc < length (vin (tc_txTo tc))" "0 < nBlockHeight"
    and "IsFinalTx chainHeight adjustedTime (tc_txTo tc) nBlockHeight nBlockTime"
  shows "n < nBlockHeight"
proof -
  have "tx_CheckLockTime tc n"
    using VerifyScript_coin_lock [OF assms(1,3,5,4)] by (simp add: assms(2) TransactionSignatureChecker_def)
  then show ?thesis using assms(6-9) by (rule CheckLockTime_final_height)
qed

definition demo_lock_checker :: tx_checker where
  "demo_lock_checker = \<lparr>tc_txTo = demo_sig_tx, tc_nIn = 1, tc_amount = 0, tc_precom = None, tc_tapleaf_hash = None,
     tc_codesep_pos = 0xffffffff\<rparr>"

definition demo_lock_env :: eval_env where
  "demo_lock_env = (plain_env 0x200)\<lparr>ev_checker := TransactionSignatureChecker plain_ops demo_lock_checker\<rparr>"

lemma demo_lock_spend:
  "VerifyScript demo_lock_env plain_ops (\<lambda>_. None) (script_push_data [9, 9] @ script_push_data (3 # replicate 32 1))
     (coin_lock_script (3 # replicate 32 1) 50 (replicate 20 33)) = Inr ()"
  by code_simp

lemma demo_lock_hyps:
  "ev_checker demo_lock_env = TransactionSignatureChecker plain_ops demo_lock_checker" "vflag (ev_flags demo_lock_env) 9"
  "length (3 # replicate 32 1 :: bytes) = 33" "length (CScriptNum_serialize 50) \<le> 4" "(50 :: int) < LOCKTIME_THRESHOLD"
  "tc_nIn demo_lock_checker < length (vin (tc_txTo demo_lock_checker))" "(0 :: int) < 100"
  "IsFinalTx 0 0 (tc_txTo demo_lock_checker) 100 0"
  by (simp_all add: demo_lock_env_def plain_env_def vflag_def serialize_length [of 50 1, simplified, THEN order_trans]
    LOCKTIME_THRESHOLD_def demo_lock_checker_def demo_sig_tx_def IsFinalTx_def)

theorem coin_lock_matures_witness:
  "VerifyScript demo_lock_env plain_ops (\<lambda>_. None) (script_push_data [9, 9] @ script_push_data (3 # replicate 32 1))
     (coin_lock_script (3 # replicate 32 1) 50 (replicate 20 33)) = Inr () \<and> (50 :: int) < 100"
  using coin_lock_matures [OF demo_lock_spend demo_lock_hyps] demo_lock_spend by (rule conjI [rotated])

end
